(* ===== verification/Prelude.thy ===== *)
theory Prelude
  imports Main "HOL-Library.Word"
begin

text \<open>
  The shared base of the development: the types that stand for C++ scalars, the two ways a
  routine can leave abnormally, \<open>size_t\<close> arithmetic with its wrap-around written out, block
  copies into an array, and the generic list lemmas that the component theories use through the
  collections \<open>sizet\<close> and \<open>blk\<close>.
\<close>

unbundle bit_operations_syntax

section \<open>Scalars and abnormal exits\<close>

type_synonym u8 = "8 word"
type_synonym u32 = "32 word"
type_synonym u64 = "64 word"
type_synonym bytes = "u8 list"

text \<open>
  The ways a modelled routine can leave abnormally: a failed \<open>assert\<close> or \<open>std::abort\<close>, an
  access outside an object, an allocation request that the library refuses, and a thrown
  exception with its message.
\<close>

datatype fault =
    AssertFailed
  | OutOfBounds
  | BadAlloc
  | Thrown string

text \<open>Sequencing of routines that may leave abnormally.\<close>

definition sum_bind :: "'e + 'a \<Rightarrow> ('a \<Rightarrow> 'e + 'b) \<Rightarrow> 'e + 'b" where
  "sum_bind r f = (case r of Inl e \<Rightarrow> Inl e | Inr x \<Rightarrow> f x)"

lemma sum_bind_simps [simp]: "sum_bind (Inl e) f = Inl e" "sum_bind (Inr x) f = f x"
  by (simp_all add: sum_bind_def)

lemma sum_bind_eq_Inr: "sum_bind r f = Inr y \<longleftrightarrow> (\<exists>x. r = Inr x \<and> f x = Inr y)"
  by (simp add: sum_bind_def split: sum.splits)

text \<open>A loop over a list whose body may leave abnormally, and what such a loop preserves.\<close>

primrec fold_m :: "('a \<Rightarrow> 's \<Rightarrow> 'e + 's) \<Rightarrow> 'a list \<Rightarrow> 's \<Rightarrow> 'e + 's" where
  "fold_m f [] s = Inr s"
| "fold_m f (x # xs) s = sum_bind (f x s) (fold_m f xs)"

lemma fold_m_preserves:
  assumes "\<And>x s s'. x \<in> set xs \<Longrightarrow> P s \<Longrightarrow> f x s = Inr s' \<Longrightarrow> P s'"
  shows "fold_m f xs s = Inr s' \<Longrightarrow> P s \<Longrightarrow> P s'"
  using assms by (induction xs arbitrary: s) (auto simp: sum_bind_eq_Inr)

lemma fold_m_append: "fold_m f (xs @ ys) s = sum_bind (fold_m f xs s) (fold_m f ys)"
  by (induction xs arbitrary: s) (auto simp: sum_bind_def split: sum.split)

named_theorems sizet "arithmetic on size_t inside its range"
named_theorems blk "block copies into arrays"

section \<open>The unsigned 64-bit type used for sizes and indices\<close>

text \<open>
  \<open>size_t\<close> and \<open>uint64_t\<close> are 64 bits wide.  A value is kept as a natural number and every
  operation reduces its result modulo \<open>2 ^ 64\<close>.  No C++ object is larger than
  \<open>PTRDIFF_MAX\<close> bytes; \<open>std::vector<char>\<close> and \<open>new char[]\<close> refuse a larger request.
\<close>

abbreviation sz_mod :: nat where
  "sz_mod \<equiv> 18446744073709551616"

abbreviation max_obj :: nat where
  "max_obj \<equiv> 9223372036854775807"

definition sz_add :: "nat \<Rightarrow> nat \<Rightarrow> nat" where
  "sz_add a b = (a + b) mod sz_mod"

definition sz_sub :: "nat \<Rightarrow> nat \<Rightarrow> nat" where
  "sz_sub a b = (a + (sz_mod - b mod sz_mod)) mod sz_mod"

definition sz_mul :: "nat \<Rightarrow> nat \<Rightarrow> nat" where
  "sz_mul a b = (a * b) mod sz_mod"

lemma sz_add_small [sizet]: "a + b < sz_mod \<Longrightarrow> sz_add a b = a + b"
  by (simp add: sz_add_def)

lemma sz_mul_small [sizet]: "a * b < sz_mod \<Longrightarrow> sz_mul a b = a * b"
  by (simp add: sz_mul_def)

lemma sz_sub_le [sizet]: "b \<le> a \<Longrightarrow> a < sz_mod \<Longrightarrow> sz_sub a b = a - b"
proof -
  assume le: "b \<le> a" and small: "a < sz_mod"
  then have "a + (sz_mod - b mod sz_mod) = (a - b) + sz_mod" by simp
  then have "sz_sub a b = ((a - b) + sz_mod) mod sz_mod"
    by (simp add: sz_sub_def)
  then show ?thesis using small by simp
qed

lemma sz_sub_self [simp]: "a < sz_mod \<Longrightarrow> sz_sub a a = 0"
  by (simp add: sz_sub_le)

lemma sz_sub_eq_0_iff: "a < sz_mod \<Longrightarrow> b < sz_mod \<Longrightarrow> sz_sub a b = 0 \<longleftrightarrow> a = b"
proof
  assume a: "a < sz_mod" and b: "b < sz_mod" and 0: "sz_sub a b = 0"
  show "a = b"
  proof (cases "b \<le> a")
    case True
    with a 0 show ?thesis by (simp add: sz_sub_le)
  next
    case False
    with a b have "sz_sub a b = a + (sz_mod - b)" by (simp add: sz_sub_def)
    with 0 b show ?thesis by simp
  qed
qed simp

lemma sz_add_lt [simp]: "sz_add a b < sz_mod"
  by (simp add: sz_add_def)

lemma sz_sub_lt [simp]: "sz_sub a b < sz_mod"
  by (simp add: sz_sub_def)

section \<open>Block copies and slices of arrays\<close>

text \<open>
  \<open>memcpy\<close>, \<open>memmove\<close> and \<open>std::copy\<close> of a whole block into an array at an offset.  The
  copied block is read before anything is written, as \<open>memmove\<close> does.
\<close>

definition overwrite :: "'a list \<Rightarrow> nat \<Rightarrow> 'a list \<Rightarrow> 'a list" where
  "overwrite xs p ys = take p xs @ ys @ drop (p + length ys) xs"

definition segment :: "'a list \<Rightarrow> nat \<Rightarrow> nat \<Rightarrow> 'a list" where
  "segment xs a b = drop a (take b xs)"

lemma length_overwrite [blk]: "p + length ys \<le> length xs \<Longrightarrow> length (overwrite xs p ys) = length xs"
  by (simp add: overwrite_def)

lemma length_segment [blk]: "b \<le> length xs \<Longrightarrow> length (segment xs a b) = b - a"
  by (simp add: segment_def)

lemma segment_empty [simp]: "segment xs a a = []"
  by (simp add: segment_def)

lemma segment_0 [simp]: "segment xs 0 b = take b xs"
  by (simp add: segment_def)

lemma segment_split: "a \<le> b \<Longrightarrow> b \<le> c \<Longrightarrow> segment xs a c = segment xs a b @ segment xs b c"
proof -
  assume ab: "a \<le> b" and bc: "b \<le> c"
  then have "take c xs = take b xs @ drop b (take c xs)"
    by (metis append_take_drop_id min.absorb1 take_take)
  then have "segment xs a c = drop a (take b xs @ drop b (take c xs))"
    by (simp add: segment_def)
  then show ?thesis using ab by (cases "b \<le> length xs") (simp_all add: segment_def)
qed

lemma segment_overwrite_append [blk]:
  "r \<le> p \<Longrightarrow> p + length ys \<le> length xs \<Longrightarrow>
     segment (overwrite xs p ys) r (p + length ys) = segment xs r p @ ys"
  by (simp add: segment_def overwrite_def)

lemma segment_overwrite_before [blk]:
  "b \<le> p \<Longrightarrow> p \<le> length xs \<Longrightarrow> segment (overwrite xs p ys) a b = segment xs a b"
  by (simp add: segment_def overwrite_def)

lemma segment_append_left [blk]: "b \<le> length xs \<Longrightarrow> segment (xs @ ys) a b = segment xs a b"
  by (simp add: segment_def)

lemma segment_drop: "segment xs (a + n) b = drop n (segment xs a b)"
  by (simp add: segment_def add.commute)

lemma segment_take: "a + n \<le> b \<Longrightarrow> segment xs a (a + n) = take n (segment xs a b)"
  by (simp add: segment_def take_drop add.commute)

lemma segment_Suc: "a \<le> b \<Longrightarrow> b < length xs \<Longrightarrow> segment xs a (Suc b) = segment xs a b @ [xs ! b]"
  by (simp add: segment_def take_Suc_conv_app_nth)

section \<open>Words\<close>

lemma unat_eq_iff [simp]: "unat a = unat b \<longleftrightarrow> a = b"
  by (simp add: word_unat_eq_iff)

lemma unat_u64_lt [simp]: "unat (w :: u64) < sz_mod"
  using unsigned_less [of w] by simp

lemma mod_diff_cases:
  "a < m \<Longrightarrow> b < m \<Longrightarrow> (a + (m - b)) mod m = (if b \<le> a then a - b else a + m - (b :: nat))"
  by (auto simp: mod_if)

lemma unat_minus_u64: "unat (a - b :: u64) = (unat a + (sz_mod - unat b)) mod sz_mod"
  by (simp add: unat_sub_if_size word_size mod_diff_cases)

section \<open>Lists\<close>

lemma nth_tl_append: "xs \<noteq> [] \<Longrightarrow> tl (xs @ ys) = tl xs @ ys"
  by (cases xs) simp_all

lemma map_upt_shift: "map f [Suc m..<Suc n] = map (\<lambda>i. f (Suc i)) [m..<n]"
  unfolding map_Suc_upt [symmetric] by simp

lemma map_upt_Cons: "m < n \<Longrightarrow> map f [m..<n] = f m # map f [Suc m..<n]"
  by (simp add: upt_conv_Cons)

end
