(* ===== verification/Queue_Interface.thy ===== *)
theory Queue_Interface
  imports Prelude
begin

text \<open>
  The contract that every bounded queue of the repository is meant to keep, as a locale, and what
  a client may conclude from it.  \<open>push\<close> and \<open>pop\<close> have the shape of the C++ members: \<open>push\<close>
  returns whether the item was stored, \<open>pop\<close> returns the item if there was one, and both return
  the queue afterwards.  A client's run is a list of operations in the order in which they take
  effect; \<open>run_ops\<close> returns the accepted items, the delivered items and the final queue.
\<close>

datatype 'a qop = Push 'a | Pop

fun run_ops :: "('a \<Rightarrow> 'q \<Rightarrow> bool \<times> 'q) \<Rightarrow> ('q \<Rightarrow> 'a option \<times> 'q) \<Rightarrow> 'a qop list \<Rightarrow> 'q
    \<Rightarrow> 'a list \<times> 'a list \<times> 'q" where
  "run_ops push pop [] q = ([], [], q)"
| "run_ops push pop (Push x # ops) q =
     (let (ok, q1) = push x q; (acc, del, q2) = run_ops push pop ops q1
      in (if ok then x # acc else acc, del, q2))"
| "run_ops push pop (Pop # ops) q =
     (let (r, q1) = pop q; (acc, del, q2) = run_ops push pop ops q1
      in (acc, (case r of None \<Rightarrow> del | Some x \<Rightarrow> x # del), q2))"

locale bounded_queue =
  fixes inv :: "'q \<Rightarrow> bool"
    and contents :: "'q \<Rightarrow> 'a list"
    and room :: "'q \<Rightarrow> nat"
    and push :: "'a \<Rightarrow> 'q \<Rightarrow> bool \<times> 'q"
    and pop :: "'q \<Rightarrow> 'a option \<times> 'q"
  assumes push_law: "inv q \<Longrightarrow> push x q = (ok, q') \<Longrightarrow>
      inv q' \<and> room q' = room q \<and> ok = (length (contents q) < room q)
      \<and> contents q' = (if ok then contents q @ [x] else contents q)"
    and pop_law: "inv q \<Longrightarrow> pop q = (r, q') \<Longrightarrow>
      inv q' \<and> room q' = room q
      \<and> (case contents q of [] \<Rightarrow> r = None \<and> contents q' = []
         | x # xs \<Rightarrow> r = Some x \<and> contents q' = xs)"
    and contents_bound: "inv q \<Longrightarrow> length (contents q) \<le> room q"
begin

lemma run_ops_fifo:
  "inv q \<Longrightarrow> run_ops push pop ops q = (acc, del, q') \<Longrightarrow>
     inv q' \<and> room q' = room q \<and> contents q @ acc = del @ contents q'"
proof (induction ops arbitrary: q acc del)
  case Nil
  then show ?case by simp
next
  case (Cons op ops)
  show ?case
  proof (cases op)
    case (Push x)
    obtain ok q1 where p: "push x q = (ok, q1)" by fastforce
    obtain acc1 where r: "run_ops push pop ops q1 = (acc1, del, q')"
        and acc: "acc = (if ok then x # acc1 else acc1)"
      using Cons.prems(2) Push p by (auto split: prod.splits)
    from push_law [OF Cons.prems(1) p] have q1: "inv q1" "room q1 = room q"
        "contents q1 = (if ok then contents q @ [x] else contents q)" by auto
    from Cons.IH [OF q1(1) r] q1 acc show ?thesis by auto
  next
    case Pop
    obtain r q1 where p: "pop q = (r, q1)" by fastforce
    obtain del1 where run: "run_ops push pop ops q1 = (acc, del1, q')"
        and del: "del = (case r of None \<Rightarrow> del1 | Some x \<Rightarrow> x # del1)"
      using Cons.prems(2) Pop p by (auto split: prod.splits)
    note law = pop_law [OF Cons.prems(1) p]
    then have q1: "inv q1" "room q1 = room q" by auto
    from Cons.IH [OF q1(1) run] law q1(2) del show ?thesis
      by (cases "contents q") auto
  qed
qed

lemma run_ops_bounded:
  "inv q \<Longrightarrow> run_ops push pop ops q = (acc, del, q') \<Longrightarrow> length (contents q') \<le> room q"
  using run_ops_fifo contents_bound by metis

lemma run_ops_empty_start:
  "inv q \<Longrightarrow> contents q = [] \<Longrightarrow> run_ops push pop ops q = (acc, del, q') \<Longrightarrow>
     acc = del @ contents q'"
  using run_ops_fifo by fastforce

lemma pop_after_push_empty:
  "inv q \<Longrightarrow> contents q = [] \<Longrightarrow> 0 < room q \<Longrightarrow> push x q = (ok, q1) \<Longrightarrow>
     ok \<and> fst (pop q1) = Some x"
proof -
  assume "inv q" "contents q = []" "0 < room q" "push x q = (ok, q1)"
  with push_law [of q x ok q1] have "ok" "inv q1" "contents q1 = [x]" by auto
  with pop_law [of q1 "fst (pop q1)" "snd (pop q1)"] show ?thesis by auto
qed

end

end
