(* ===== verification/Ring_Queues.thy ===== *)
theory Ring_Queues
  imports Queue_Interface
begin

text \<open>
  The single-producer single-consumer ring queues, each operation run to completion: the classes
  of \<open>include/lock_queue.hpp\<close>, \<open>include/lq.hpp\<close>, \<open>include/q.hpp\<close>, \<open>src/my.cpp\<close>,
  \<open>src/system.cpp\<close>, \<open>src/what.cpp\<close>, the shared-memory ring of \<open>src/shm.cpp\<close> and the rings
  of \<open>include/kk.hpp\<close>.  Indices that are reduced modulo the capacity are natural numbers (they
  stay below the length of an array); indices that are masked or counted are 64-bit words, so
  that their wrap-around is the machine's.  Each class is an interpretation of
  \<open>bounded_queue\<close>.
\<close>

section \<open>Rings with indices reduced modulo the capacity\<close>

record 'a ring =
  buffer :: "'a list"
  head :: nat
  tail :: nat

subsection \<open>LockFreeQueue of lock_queue.hpp\<close>

definition lockq_push :: "'a \<Rightarrow> 'a ring \<Rightarrow> bool \<times> 'a ring" where
  "lockq_push item q =
     (let curr_tail = tail q; next_tail = (curr_tail + 1) mod length (buffer q)
      in if next_tail = head q then (False, q)
         else (True, q\<lparr>buffer := (buffer q)[curr_tail := item], tail := next_tail\<rparr>))"

definition lockq_pop :: "'a ring \<Rightarrow> 'a option \<times> 'a ring" where
  "lockq_pop q =
     (let curr_head = head q
      in if curr_head = tail q then (None, q)
         else (Some (buffer q ! curr_head),
               q\<lparr>head := (curr_head + 1) mod length (buffer q)\<rparr>))"

definition lockq_size :: "'a ring \<Rightarrow> nat" where
  "lockq_size q =
     (if head q \<le> tail q then tail q - head q else length (buffer q) - head q + tail q)"

subsection \<open>LockFreeRingBuffer of my.cpp\<close>

definition ringbuf_push :: "'a \<Rightarrow> 'a ring \<Rightarrow> bool \<times> 'a ring" where
  "ringbuf_push item q =
     (let next_tail = (tail q + 1) mod length (buffer q)
      in if next_tail = head q then (False, q)
         else (True, q\<lparr>buffer := (buffer q)[tail q := item], tail := next_tail\<rparr>))"

definition ringbuf_pop :: "'a ring \<Rightarrow> 'a option \<times> 'a ring" where
  "ringbuf_pop q =
     (if head q = tail q then (None, q)
      else (Some (buffer q ! head q), q\<lparr>head := (head q + 1) mod length (buffer q)\<rparr>))"

subsection \<open>LockFreeQueue of system.cpp\<close>

definition sysq_push :: "'a \<Rightarrow> 'a ring \<Rightarrow> bool \<times> 'a ring" where
  "sysq_push item q =
     (let next_tail = (tail q + 1) mod length (buffer q)
      in if next_tail = head q then (False, q)
         else (True, q\<lparr>buffer := (buffer q)[tail q := item], tail := next_tail\<rparr>))"

definition sysq_pop :: "'a ring \<Rightarrow> 'a option \<times> 'a ring" where
  "sysq_pop q =
     (let current_head = head q
      in if current_head = tail q then (None, q)
         else (Some (buffer q ! current_head),
               q\<lparr>head := (current_head + 1) mod length (buffer q)\<rparr>))"

subsection \<open>SPSCQueue of what.cpp\<close>

definition spscq_push :: "'a \<Rightarrow> 'a ring \<Rightarrow> bool \<times> 'a ring" where
  "spscq_push item q =
     (let next_tail = (tail q + 1) mod length (buffer q)
      in if next_tail = head q then (False, q)
         else (True, q\<lparr>buffer := (buffer q)[tail q := item], tail := next_tail\<rparr>))"

definition spscq_pop :: "'a ring \<Rightarrow> 'a option \<times> 'a ring" where
  "spscq_pop q =
     (if head q = tail q then (None, q)
      else (Some (buffer q ! head q), q\<lparr>head := (head q + 1) mod length (buffer q)\<rparr>))"

subsection \<open>The shared-memory ring of shm.cpp\<close>

text \<open>
  In \<open>shm.cpp\<close> the roles of the names are exchanged: \<open>head\<close> is where the producer writes and
  \<open>tail\<close> where the consumer reads.  The bodies of the two endless loops are modelled; a
  spinning wait that is still spinning is \<open>False\<close> and \<open>None\<close>, with the memory unchanged.
\<close>

definition shm_produce :: "'a \<Rightarrow> 'a ring \<Rightarrow> bool \<times> 'a ring" where
  "shm_produce new_order q =
     (let h = head q; next_head = (h + 1) mod length (buffer q)
      in if next_head = tail q then (False, q)
         else (True, q\<lparr>buffer := (buffer q)[h := new_order], head := next_head\<rparr>))"

definition shm_consume :: "'a ring \<Rightarrow> 'a option \<times> 'a ring" where
  "shm_consume q =
     (let t = tail q
      in if t = head q then (None, q)
         else (Some (buffer q ! t), q\<lparr>tail := (t + 1) mod length (buffer q)\<rparr>))"

text \<open>The constructors: both indices are zero, the array is whatever the storage holds.\<close>

definition ring_init :: "'a list \<Rightarrow> 'a ring" where
  "ring_init buf = \<lparr>buffer = buf, head = 0, tail = 0\<rparr>"

section \<open>Rings with masked 64-bit indices\<close>

record 'a mring =
  mbuffer :: "'a list"
  mhead :: u64
  mtail :: u64

definition cap_mask :: "'a mring \<Rightarrow> u64" where
  "cap_mask q = of_nat (length (mbuffer q)) - 1"

subsection \<open>LockFreeQueue of lq.hpp\<close>

definition lq_enqueue :: "'a \<Rightarrow> 'a mring \<Rightarrow> bool \<times> 'a mring" where
  "lq_enqueue element q =
     (let current_tail = mtail q; next_tail = (current_tail + 1) AND cap_mask q
      in if next_tail = mhead q then (False, q)
         else (True, q\<lparr>mbuffer := (mbuffer q)[unat current_tail := element],
                       mtail := next_tail\<rparr>))"

definition lq_dequeue :: "'a mring \<Rightarrow> 'a option \<times> 'a mring" where
  "lq_dequeue q =
     (let current_head = mhead q
      in if current_head = mtail q then (None, q)
         else (Some (mbuffer q ! unat current_head),
               q\<lparr>mhead := (current_head + 1) AND cap_mask q\<rparr>))"

definition lq_init :: "'a list \<Rightarrow> 'a mring" where
  "lq_init buf = \<lparr>mbuffer = buf, mhead = 0, mtail = 0\<rparr>"

definition lq_empty :: "'a mring \<Rightarrow> bool" where
  "lq_empty q = (mhead q = mtail q)"

definition lq_full :: "'a mring \<Rightarrow> bool" where
  "lq_full q = (((mtail q + 1) AND cap_mask q) = mhead q)"

definition lq_size :: "'a mring \<Rightarrow> nat" where
  "lq_size q = unat ((mtail q - mhead q) AND cap_mask q)"

subsection \<open>LockFreeQueue of q.hpp\<close>

text \<open>
  Each element carries a \<open>ready\<close> flag beside its value.
\<close>

definition q_init :: "'a \<Rightarrow> nat \<Rightarrow> ('a \<times> bool) mring" where
  "q_init d capacity = \<lparr>mbuffer = replicate capacity (d, False), mhead = 0, mtail = 0\<rparr>"

definition q_try_push :: "'a \<Rightarrow> ('a \<times> bool) mring \<Rightarrow> bool \<times> ('a \<times> bool) mring" where
  "q_try_push v q =
     (let current_tail = mtail q; next_tail = (current_tail + 1) AND cap_mask q
      in if next_tail = mhead q then (False, q)
         else (True, q\<lparr>mbuffer := (mbuffer q)[unat current_tail := (v, True)],
                       mtail := next_tail\<rparr>))"

definition q_try_pop :: "('a \<times> bool) mring \<Rightarrow> 'a option \<times> ('a \<times> bool) mring" where
  "q_try_pop q =
     (let current_head = mhead q; e = mbuffer q ! unat current_head
      in if current_head = mtail q then (None, q)
         else if \<not> snd e then (None, q)
         else (Some (fst e),
               q\<lparr>mbuffer := (mbuffer q)[unat current_head := (fst e, False)],
                 mhead := (current_head + 1) AND cap_mask q\<rparr>))"

definition q_empty :: "('a \<times> bool) mring \<Rightarrow> bool" where
  "q_empty q = (mhead q = mtail q)"

definition q_full :: "('a \<times> bool) mring \<Rightarrow> bool" where
  "q_full q = (((mtail q + 1) AND cap_mask q) = mhead q)"

definition q_size :: "('a \<times> bool) mring \<Rightarrow> nat" where
  "q_size q =
     (let t = mtail q; h = mhead q
      in if h \<le> t then unat (t - h) else unat (of_nat (length (mbuffer q)) - h + t))"

subsection \<open>SPSCQueue of kk.hpp with the producer's cached head\<close>

record 'a cring = "'a mring" +
  cached_head :: u64

definition kk_spsc_enqueue :: "'a \<Rightarrow> 'a cring \<Rightarrow> bool \<times> 'a cring" where
  "kk_spsc_enqueue item q =
     (let t = mtail q;
          next_tail = (t + 1) AND (of_nat (length (mbuffer q)) - 1);
          q1 = (if next_tail = cached_head q then q\<lparr>cached_head := mhead q\<rparr> else q)
      in if next_tail = cached_head q \<and> next_tail = cached_head q1 then (False, q1)
         else (True, q1\<lparr>mbuffer := (mbuffer q1)[unat t := item], mtail := next_tail\<rparr>))"

definition kk_spsc_dequeue :: "'a cring \<Rightarrow> 'a option \<times> 'a cring" where
  "kk_spsc_dequeue q =
     (let h = mhead q
      in if h = mtail q then (None, q)
         else (Some (mbuffer q ! unat h),
               q\<lparr>mhead := (h + 1) AND (of_nat (length (mbuffer q)) - 1)\<rparr>))"

definition kk_spsc_size :: "'a cring \<Rightarrow> nat" where
  "kk_spsc_size q =
     (let h = mhead q; t = mtail q
      in if h \<le> t then unat (t - h) else unat (of_nat (length (mbuffer q)) - h + t))"

section \<open>Rings with free-running 64-bit counters\<close>

subsection \<open>SPSCRingBuffer of kk.hpp\<close>

text \<open>
  \<open>mhead\<close> is the consumer's count and \<open>mtail\<close> the producer's; the array is indexed with the
  counter masked by \<open>IndexMask\<close>.
\<close>

definition SPSCRingBuffer_push :: "'a \<Rightarrow> 'a mring \<Rightarrow> bool \<times> 'a mring" where
  "SPSCRingBuffer_push item q =
     (let current_tail = mtail q; next_tail = current_tail + 1
      in if next_tail - mhead q > of_nat (length (mbuffer q)) then (False, q)
         else (True, q\<lparr>mbuffer := (mbuffer q)[unat (current_tail AND cap_mask q) := item],
                       mtail := next_tail\<rparr>))"

definition SPSCRingBuffer_pop :: "'a mring \<Rightarrow> 'a option \<times> 'a mring" where
  "SPSCRingBuffer_pop q =
     (let current_head = mhead q
      in if current_head = mtail q then (None, q)
         else (Some (mbuffer q ! unat (current_head AND cap_mask q)),
               q\<lparr>mhead := current_head + 1\<rparr>))"

subsection \<open>SPSCQueue of kk.hpp with plain counters\<close>

text \<open>
  Here \<open>mhead\<close> is the producer's counter and \<open>mtail\<close> the consumer's, as in the source.
\<close>

definition counter_spsc_enqueue :: "'a \<Rightarrow> 'a mring \<Rightarrow> bool \<times> 'a mring" where
  "counter_spsc_enqueue v q =
     (let current_head = mhead q; next_head = current_head + 1
      in if next_head - mtail q > of_nat (length (mbuffer q)) then (False, q)
         else (True, q\<lparr>mbuffer := (mbuffer q)[unat (current_head AND cap_mask q) := v],
                       mhead := next_head\<rparr>))"

definition counter_spsc_dequeue :: "'a mring \<Rightarrow> 'a option \<times> 'a mring" where
  "counter_spsc_dequeue q =
     (let current_tail = mtail q
      in if current_tail \<ge> mhead q then (None, q)
         else (Some (mbuffer q ! unat (current_tail AND cap_mask q)),
               q\<lparr>mtail := current_tail + 1\<rparr>))"

section \<open>Circular segments of an array\<close>

text \<open>
  \<open>cseg buf c m\<close> lists the \<open>m\<close> elements that follow position \<open>c\<close> around the array, and
  \<open>dist n rd wr\<close> is the number of steps from \<open>rd\<close> to \<open>wr\<close> around an array of \<open>n\<close> slots.
\<close>

definition cseg :: "'a list \<Rightarrow> nat \<Rightarrow> nat \<Rightarrow> 'a list" where
  "cseg buf c m = map (\<lambda>i. buf ! ((c + i) mod length buf)) [0..<m]"

definition dist :: "nat \<Rightarrow> nat \<Rightarrow> nat \<Rightarrow> nat" where
  "dist n rd wr = (wr + n - rd) mod n"

lemma length_cseg [simp]: "length (cseg buf c m) = m"
  by (simp add: cseg_def)

lemma cseg_0 [simp]: "cseg buf c 0 = []"
  by (simp add: cseg_def)

lemma cseg_eq_Nil_iff [simp]: "cseg buf c m = [] \<longleftrightarrow> m = 0"
  by (simp add: cseg_def)

lemma cseg_Suc: "cseg buf c (Suc m) = buf ! (c mod length buf) # cseg buf (Suc c) m"
  by (simp add: cseg_def upt_conv_Cons map_upt_shift del: upt_Suc)

lemma cseg_mod: "k mod n = 0 \<Longrightarrow> length buf = n \<Longrightarrow> cseg buf (c mod k) m = cseg buf c m"
proof -
  assume k: "k mod n = 0" and n: "length buf = n"
  have "(c mod k + i) mod n = (c + i) mod n" for i
  proof -
    from k have "n dvd k" by auto
    then have "c mod k mod n = c mod n" by (rule mod_mod_cancel)
    then show ?thesis by (metis mod_add_left_eq)
  qed
  with n show ?thesis by (simp add: cseg_def)
qed

lemma mod_distinct: "i < m \<Longrightarrow> m < n \<Longrightarrow> (c + i) mod n \<noteq> (c + m) mod (n :: nat)"
proof
  assume i: "i < m" and m: "m < n" and eq: "(c + i) mod n = (c + m) mod n"
  then have "n dvd (c + m) - (c + i)" by (metis mod_eq_dvd_iff_nat add_le_cancel_left less_imp_le)
  with i m show False by (auto dest: dvd_imp_le)
qed

lemma cseg_put:
  assumes "m < length buf"
  shows "cseg (buf[(c + m) mod length buf := x]) c (Suc m) = cseg buf c m @ [x]"
proof -
  let ?b = "buf[(c + m) mod length buf := x]"
  have "(c + m) mod length buf \<noteq> (c + i) mod length buf" if "i < m" for i
    using mod_distinct [OF that assms, of c] by simp
  then have "map (\<lambda>i. ?b ! ((c + i) mod length buf)) [0..<m]
      = map (\<lambda>i. buf ! ((c + i) mod length buf)) [0..<m]"
    by simp
  moreover have "?b ! ((c + m) mod length buf) = x"
    using assms by (intro nth_list_update_eq) (auto intro: mod_less_divisor)
  ultimately show ?thesis by (simp add: cseg_def)
qed

lemma dist_cases:
  "rd < n \<Longrightarrow> wr < n \<Longrightarrow> dist n rd wr = (if rd \<le> wr then wr - rd else wr + n - rd)"
  by (auto simp: dist_def mod_if)

lemma dist_lt [simp]: "0 < n \<Longrightarrow> dist n rd wr < n"
  by (simp add: dist_def)

lemma dist_eq_0_iff: "rd < n \<Longrightarrow> wr < n \<Longrightarrow> dist n rd wr = 0 \<longleftrightarrow> rd = wr"
  by (auto simp: dist_cases)

lemma dist_add: "rd < n \<Longrightarrow> wr < n \<Longrightarrow> (rd + dist n rd wr) mod n = wr"
  by (auto simp: dist_cases)

lemma Suc_mod_cases: "k < n \<Longrightarrow> Suc k mod n = (if Suc k = n then 0 else Suc k)"
  by (auto simp: mod_Suc)

lemma Suc_mod_lt [simp]: "k < n \<Longrightarrow> Suc k mod n < n"
  by (simp add: Suc_mod_cases)

lemma dist_self [simp]: "dist n rd rd = 0"
  by (simp add: dist_def)

lemma dist_full_iff:
  "rd < n \<Longrightarrow> wr < n \<Longrightarrow> Suc wr mod n = rd \<longleftrightarrow> \<not> dist n rd wr < n - 1"
  by (auto simp: dist_cases Suc_mod_cases split: if_splits)

lemma dist_Suc_wr:
  "rd < n \<Longrightarrow> wr < n \<Longrightarrow> Suc wr mod n \<noteq> rd \<Longrightarrow> dist n rd (Suc wr mod n) = Suc (dist n rd wr)"
  by (auto simp: dist_cases Suc_mod_cases split: if_splits)

lemma dist_Suc_rd:
  "rd < n \<Longrightarrow> wr < n \<Longrightarrow> rd \<noteq> wr \<Longrightarrow> dist n rd wr = Suc (dist n (Suc rd mod n) wr)"
  by (auto simp: dist_cases Suc_mod_cases split: if_splits)

text \<open>What a ring with modular indices holds, and how storing and removing change it.\<close>

definition ring_seg :: "'a list \<Rightarrow> nat \<Rightarrow> nat \<Rightarrow> 'a list" where
  "ring_seg buf rd wr = cseg buf rd (dist (length buf) rd wr)"

lemma length_ring_seg [simp]: "length (ring_seg buf rd wr) = dist (length buf) rd wr"
  by (simp add: ring_seg_def)

lemma ring_seg_self [simp]: "ring_seg buf rd rd = []"
  by (simp add: ring_seg_def)

lemma ring_seg_put:
  assumes "rd < length buf" "wr < length buf" "Suc wr mod length buf \<noteq> rd"
  shows "ring_seg (buf[wr := x]) rd (Suc wr mod length buf) = ring_seg buf rd wr @ [x]"
proof -
  have "0 < length buf" using assms(1) by linarith
  with cseg_put [of "dist (length buf) rd wr" buf rd x] assms show ?thesis
    by (simp add: ring_seg_def dist_add dist_Suc_wr)
qed

lemma ring_seg_get:
  assumes "rd < length buf" "wr < length buf" "rd \<noteq> wr"
  shows "ring_seg buf rd wr = buf ! rd # ring_seg buf (Suc rd mod length buf) wr"
proof -
  have "cseg buf (Suc rd) m = cseg buf (Suc rd mod length buf) m" for m
    by (rule cseg_mod [symmetric]) simp_all
  with dist_Suc_rd [OF assms] assms(1) show ?thesis
    by (simp add: ring_seg_def cseg_Suc)
qed

lemma ring_seg_update_read:
  assumes "rd < length buf" "wr < length buf" "rd \<noteq> wr"
  shows "ring_seg (buf[rd := y]) (Suc rd mod length buf) wr
       = ring_seg buf (Suc rd mod length buf) wr"
proof -
  let ?n = "length buf"
  let ?m = "dist ?n (Suc rd mod ?n) wr"
  have lt: "?m < ?n - 1" using dist_lt [of ?n rd wr] dist_Suc_rd [OF assms] assms(1) by linarith
  have "(rd + Suc i) mod ?n \<noteq> (rd + 0) mod ?n" if "i < ?m" for i
    using mod_distinct [of 0 "Suc i" ?n rd] that lt by fastforce
  then have "(Suc rd + i) mod ?n \<noteq> rd" if "i < ?m" for i
    using that assms(1) by simp
  then have "cseg (buf[rd := y]) (Suc rd) ?m = cseg buf (Suc rd) ?m"
    by (auto simp: cseg_def intro!: nth_list_update_neq) metis
  then show ?thesis
    using cseg_mod [of "?n" "?n" buf "Suc rd" ?m] cseg_mod [of "?n" "?n" "buf[rd := y]" "Suc rd" ?m]
    by (simp add: ring_seg_def)
qed

lemma dist_trans:
  assumes "a < n" "b < n" "c < n" "dist n a b + dist n b c < n"
  shows "dist n a c = dist n a b + dist n b c"
  using assms by (auto simp: dist_cases split: if_splits)

lemma ring_seg_Nil_iff:
  "rd < length buf \<Longrightarrow> wr < length buf \<Longrightarrow> ring_seg buf rd wr = [] \<longleftrightarrow> rd = wr"
  by (simp add: ring_seg_def dist_eq_0_iff)

section \<open>The modular rings keep the queue contract\<close>

definition ring_inv :: "'a ring \<Rightarrow> bool" where
  "ring_inv q = (head q < length (buffer q) \<and> tail q < length (buffer q))"

definition ring_contents :: "'a ring \<Rightarrow> 'a list" where
  "ring_contents q = ring_seg (buffer q) (head q) (tail q)"

definition ring_room :: "'a ring \<Rightarrow> nat" where
  "ring_room q = length (buffer q) - 1"

lemmas ring_defs = ring_inv_def ring_contents_def ring_room_def

lemma lockq_push_law:
  assumes "ring_inv q" and "lockq_push x q = (ok, q')"
  shows "ring_inv q' \<and> ring_room q' = ring_room q
    \<and> ok = (length (ring_contents q) < ring_room q)
    \<and> ring_contents q' = (if ok then ring_contents q @ [x] else ring_contents q)"
  using assms dist_full_iff [of "head q" "length (buffer q)" "tail q"]
  by (auto simp: ring_defs lockq_push_def Let_def ring_seg_put split: if_splits)

lemma lockq_pop_law:
  assumes "ring_inv q" and "lockq_pop q = (r, q')"
  shows "ring_inv q' \<and> ring_room q' = ring_room q
    \<and> (case ring_contents q of [] \<Rightarrow> r = None \<and> ring_contents q' = []
       | x # xs \<Rightarrow> r = Some x \<and> ring_contents q' = xs)"
  using assms
  by (auto simp: ring_defs lockq_pop_def Let_def ring_seg_get ring_seg_Nil_iff split: if_splits list.splits)

lemma ring_contents_bound: "ring_inv q \<Longrightarrow> length (ring_contents q) \<le> ring_room q"
proof -
  assume "ring_inv q"
  then have "dist (length (buffer q)) (head q) (tail q) < length (buffer q)"
    by (intro dist_lt) (auto simp: ring_inv_def)
  then show ?thesis by (simp add: ring_defs)
qed

lemma lockq_size_contents: "ring_inv q \<Longrightarrow> lockq_size q = length (ring_contents q)"
  by (auto simp: ring_defs lockq_size_def dist_cases)

text \<open>The three further classes of this shape compute the same transitions.\<close>

lemma ringbuf_eq_lockq: "ringbuf_push = lockq_push" "ringbuf_pop = lockq_pop"
  by (simp_all add: fun_eq_iff ringbuf_push_def lockq_push_def ringbuf_pop_def lockq_pop_def Let_def)

lemma sysq_eq_lockq: "sysq_push = lockq_push" "sysq_pop = lockq_pop"
  by (simp_all add: fun_eq_iff sysq_push_def lockq_push_def sysq_pop_def lockq_pop_def Let_def)

lemma spscq_eq_lockq: "spscq_push = lockq_push" "spscq_pop = lockq_pop"
  by (simp_all add: fun_eq_iff spscq_push_def lockq_push_def spscq_pop_def lockq_pop_def Let_def)

interpretation lockq: bounded_queue ring_inv ring_contents ring_room lockq_push lockq_pop
  by unfold_locales (fact lockq_push_law lockq_pop_law ring_contents_bound)+

interpretation ringbuf: bounded_queue ring_inv ring_contents ring_room ringbuf_push ringbuf_pop
  unfolding ringbuf_eq_lockq by (rule lockq.bounded_queue_axioms)

interpretation sysq: bounded_queue ring_inv ring_contents ring_room sysq_push sysq_pop
  unfolding sysq_eq_lockq by (rule lockq.bounded_queue_axioms)

interpretation spscq: bounded_queue ring_inv ring_contents ring_room spscq_push spscq_pop
  unfolding spscq_eq_lockq by (rule lockq.bounded_queue_axioms)

text \<open>In the shared-memory ring the reader's index is \<open>tail\<close>.\<close>

definition shm_contents :: "'a ring \<Rightarrow> 'a list" where
  "shm_contents q = ring_seg (buffer q) (tail q) (head q)"

interpretation shmq: bounded_queue ring_inv shm_contents ring_room shm_produce shm_consume
proof (unfold_locales, goal_cases)
  case (1 q x ok q')
  then show ?case using dist_full_iff [of "tail q" "length (buffer q)" "head q"]
    by (auto simp: ring_defs shm_contents_def shm_produce_def Let_def ring_seg_put split: if_splits)
next
  case (2 q r q')
  then show ?case
    by (auto simp: ring_defs shm_contents_def shm_consume_def Let_def ring_seg_get ring_seg_Nil_iff
        split: if_splits list.splits)
next
  case (3 q)
  then have "dist (length (buffer q)) (tail q) (head q) < length (buffer q)"
    by (intro dist_lt) (auto simp: ring_inv_def)
  then show ?case by (simp add: ring_defs shm_contents_def)
qed

section \<open>The masked rings keep the queue contract\<close>

text \<open>
  The classes assert at compile time that the capacity is a power of two; an array of \<open>2 ^ k\<close>
  elements that fits the address space has \<open>k < 64\<close>.
\<close>

definition pow2_cap :: "'a list \<Rightarrow> bool" where
  "pow2_cap buf = (\<exists>k < 64. length buf = 2 ^ k)"

lemma pow2_capD:
  assumes "pow2_cap buf"
  obtains k where "k < 64" "length buf = 2 ^ k" "length buf dvd sz_mod" "length buf \<le> 2 ^ 63"
proof -
  from assms obtain k where k: "k < 64" "length buf = 2 ^ k" by (auto simp: pow2_cap_def)
  then have "(2 :: nat) ^ k \<le> 2 ^ 63" by (intro power_increasing) simp_all
  moreover have "(2 :: nat) ^ k dvd 2 ^ 64"
    using k(1) by (intro le_imp_power_dvd) simp
  then have "(2 :: nat) ^ k dvd sz_mod" by simp
  ultimately show thesis using k that [of k] by simp
qed

lemma unat_and_cap_mask:
  fixes w :: u64
  assumes "pow2_cap buf"
  shows "unat (w AND (of_nat (length buf) - 1)) = unat w mod length buf"
proof -
  from assms obtain k where k: "k < 64" "length buf = 2 ^ k" by (auto simp: pow2_cap_def)
  then have "of_nat (length buf) - (1 :: u64) = mask k" by (simp add: mask_eq_exp_minus_1)
  then have "w AND (of_nat (length buf) - 1) = take_bit k w" by (simp add: take_bit_eq_mask)
  then have "unat (w AND (of_nat (length buf) - 1)) = take_bit k (unat w)"
    by (simp add: unsigned_take_bit_eq)
  then show ?thesis using k by (simp add: take_bit_eq_mod)
qed

lemma unat_Suc_mask:
  fixes w :: u64
  assumes "pow2_cap buf"
  shows "unat ((w + 1) AND (of_nat (length buf) - 1)) = Suc (unat w) mod length buf"
proof -
  have "length buf dvd sz_mod" using assms by (rule pow2_capD)
  then have "Suc (unat w) mod sz_mod mod length buf = Suc (unat w) mod length buf"
    by (rule mod_mod_cancel)
  then show ?thesis
    unfolding unat_and_cap_mask [OF assms, of "w + 1"] by (simp add: unat_word_ariths)
qed

definition mring_inv :: "('a, 'z) mring_scheme \<Rightarrow> bool" where
  "mring_inv q = (pow2_cap (mbuffer q) \<and> unat (mhead q) < length (mbuffer q)
     \<and> unat (mtail q) < length (mbuffer q))"

definition mring_contents :: "('a, 'z) mring_scheme \<Rightarrow> 'a list" where
  "mring_contents q = ring_seg (mbuffer q) (unat (mhead q)) (unat (mtail q))"

definition mring_room :: "('a, 'z) mring_scheme \<Rightarrow> nat" where
  "mring_room q = length (mbuffer q) - 1"

lemmas mring_defs = mring_inv_def mring_contents_def mring_room_def

lemma pow2_cap_update [simp]: "pow2_cap (buf[i := x]) = pow2_cap buf"
  by (simp add: pow2_cap_def)

lemma mring_bound: "mring_inv q \<Longrightarrow> length (mring_contents q) \<le> mring_room q"
proof -
  assume "mring_inv q"
  then have "dist (length (mbuffer q)) (unat (mhead q)) (unat (mtail q)) < length (mbuffer q)"
    by (intro dist_lt) (auto simp: mring_inv_def)
  then show ?thesis by (simp add: mring_defs)
qed

lemma mring_full_iff:
  assumes "mring_inv q"
  shows "(mtail q + 1) AND (of_nat (length (mbuffer q)) - 1) = mhead q
    \<longleftrightarrow> \<not> length (mring_contents q) < mring_room q"
proof -
  from assms have "(mtail q + 1) AND (of_nat (length (mbuffer q)) - 1) = mhead q
    \<longleftrightarrow> Suc (unat (mtail q)) mod length (mbuffer q) = unat (mhead q)"
    by (simp add: mring_inv_def flip: unat_Suc_mask word_unat_eq_iff)
  with assms show ?thesis by (simp add: mring_defs dist_full_iff)
qed

interpretation lq: bounded_queue mring_inv mring_contents mring_room lq_enqueue lq_dequeue
proof (unfold_locales, goal_cases)
  case (1 q x ok q')
  then show ?case
    using mring_full_iff [of q] dist_full_iff [of "unat (mhead q)" "length (mbuffer q)" "unat (mtail q)"]
    by (auto simp: lq_enqueue_def cap_mask_def Let_def mring_defs unat_Suc_mask ring_seg_put
        split: if_splits)
next
  case (2 q r q')
  then show ?case
    by (auto simp: lq_dequeue_def cap_mask_def Let_def mring_defs unat_Suc_mask ring_seg_get
        split: if_splits list.splits)
qed (rule mring_bound)

lemma lq_empty_iff: "mring_inv q \<Longrightarrow> lq_empty q \<longleftrightarrow> mring_contents q = []"
  by (auto simp: lq_empty_def mring_defs ring_seg_Nil_iff)

lemma lq_full_iff: "mring_inv q \<Longrightarrow> lq_full q \<longleftrightarrow> length (mring_contents q) = mring_room q"
  using mring_full_iff [of q] mring_bound [of q]
  by (auto simp: lq_full_def cap_mask_def)

lemma lq_size_contents:
  assumes "mring_inv q"
  shows "lq_size q = length (mring_contents q)"
proof -
  let ?n = "length (mbuffer q)"
  from assms have cap: "pow2_cap (mbuffer q)" and h: "unat (mhead q) < ?n"
    and t: "unat (mtail q) < ?n" by (auto simp: mring_inv_def)
  have dvd: "?n dvd sz_mod" using cap by (rule pow2_capD)
  have "unat (mtail q - mhead q) = (unat (mtail q) + (sz_mod - unat (mhead q))) mod sz_mod"
    by (rule unat_minus_u64)
  then have "unat (mtail q - mhead q) mod ?n = (unat (mtail q) + (sz_mod - unat (mhead q))) mod ?n"
    using dvd by (simp add: mod_mod_cancel)
  also obtain d where d: "sz_mod = ?n * d" using dvd by blast
  then have "0 < d" by (cases d) auto
  then obtain e where "d = Suc e" by (cases d) auto
  with d h have "unat (mtail q) + (sz_mod - unat (mhead q)) = unat (mtail q) + ?n - unat (mhead q) + ?n * e"
    by simp
  then have "(unat (mtail q) + (sz_mod - unat (mhead q))) mod ?n = dist ?n (unat (mhead q)) (unat (mtail q))"
    by (simp add: dist_def)
  finally show ?thesis
    using unat_and_cap_mask [OF cap, of "mtail q - mhead q"]
    by (simp add: lq_size_def cap_mask_def mring_contents_def)
qed

section \<open>The flagged ring of q.hpp\<close>

text \<open>Every stored element is flagged ready, so the flag test never rejects a stored element.\<close>

definition q_inv :: "('a \<times> bool) mring \<Rightarrow> bool" where
  "q_inv q = (mring_inv q \<and> (\<forall>e \<in> set (mring_contents q). snd e))"

definition q_contents :: "('a \<times> bool) mring \<Rightarrow> 'a list" where
  "q_contents q = map fst (mring_contents q)"

lemma q_try_push_lq: "q_try_push v q = lq_enqueue (v, True) q"
  by (simp add: q_try_push_def lq_enqueue_def)

lemma q_try_pop_stored:
  assumes inv: "q_inv q" and ne: "mhead q \<noteq> mtail q"
  shows "\<exists>v rest. mring_contents q = (v, True) # rest \<and> fst (q_try_pop q) = Some v
    \<and> mring_contents (snd (q_try_pop q)) = rest \<and> mring_inv (snd (q_try_pop q))
    \<and> mring_room (snd (q_try_pop q)) = mring_room q"
proof -
  from inv ne have "mring_contents q = mbuffer q ! unat (mhead q)
      # ring_seg (mbuffer q) (Suc (unat (mhead q)) mod length (mbuffer q)) (unat (mtail q))"
    by (auto simp: q_inv_def mring_defs ring_seg_get)
  moreover from this inv have "snd (mbuffer q ! unat (mhead q))" by (auto simp: q_inv_def)
  ultimately show ?thesis using inv ne
    by (cases "mbuffer q ! unat (mhead q)")
      (auto simp: q_try_pop_def Let_def cap_mask_def q_inv_def mring_defs unat_Suc_mask ring_seg_update_read)
qed

interpretation flagq: bounded_queue q_inv q_contents mring_room q_try_push q_try_pop
proof (unfold_locales, goal_cases)
  case (1 q x ok q')
  then show ?case using lq.push_law [of q "(x, True)" ok q']
    by (auto simp: q_try_push_lq q_inv_def q_contents_def)
next
  case (2 q r q')
  show ?case
  proof (cases "mhead q = mtail q")
    case True
    with 2 show ?thesis by (auto simp: q_try_pop_def Let_def q_inv_def q_contents_def mring_defs)
  next
    case False
    with 2 q_try_pop_stored [of q] show ?thesis by (auto simp: q_inv_def q_contents_def)
  qed
next
  case (3 q)
  then show ?case using mring_bound [of q] by (simp add: q_inv_def q_contents_def)
qed

section \<open>The producer's cached head\<close>

text \<open>
  The producer's copy of \<open>head_\<close> may be stale, but only behind the real one: going from the
  copy to \<open>head_\<close> and on to \<open>tail_\<close> stays within one turn of the ring.  So a full ring is
  always noticed.
\<close>

definition cring_inv :: "'a cring \<Rightarrow> bool" where
  "cring_inv q = (mring_inv q \<and> unat (cached_head q) < length (mbuffer q)
     \<and> dist (length (mbuffer q)) (unat (cached_head q)) (unat (mhead q))
       + dist (length (mbuffer q)) (unat (mhead q)) (unat (mtail q)) < length (mbuffer q))"

lemma cring_full_cached:
  assumes "cring_inv q" and "(mtail q + 1) AND (of_nat (length (mbuffer q)) - 1) = mhead q"
  shows "cached_head q = mhead q"
proof -
  let ?n = "length (mbuffer q)"
  from assms have "\<not> dist ?n (unat (mhead q)) (unat (mtail q)) < ?n - 1"
    using mring_full_iff [of q] by (simp add: cring_inv_def mring_defs)
  with assms(1) have "dist ?n (unat (cached_head q)) (unat (mhead q)) = 0"
    by (auto simp: cring_inv_def)
  with assms(1) show ?thesis by (simp add: cring_inv_def mring_inv_def dist_eq_0_iff)
qed

abbreviation mnext :: "('a, 'z) mring_scheme \<Rightarrow> u64" where
  "mnext q \<equiv> (mtail q + 1) AND (of_nat (length (mbuffer q)) - 1)"

lemma mnext_eq_iff:
  "pow2_cap (mbuffer q) \<Longrightarrow> mnext q = w \<longleftrightarrow> Suc (unat (mtail q)) mod length (mbuffer q) = unat w"
  by (simp flip: unat_Suc_mask)

lemma kk_spsc_enqueue_full:
  "cring_inv q \<Longrightarrow> mnext q = mhead q \<Longrightarrow> kk_spsc_enqueue x q = (False, q\<lparr>cached_head := mhead q\<rparr>)"
  using cring_full_cached [of q] by (simp add: kk_spsc_enqueue_def)

lemma kk_spsc_enqueue_room:
  assumes "mnext q \<noteq> mhead q"
  obtains c where "kk_spsc_enqueue x q
      = (True, q\<lparr>cached_head := c, mbuffer := (mbuffer q)[unat (mtail q) := x], mtail := mnext q\<rparr>)"
    and "c = mhead q \<or> c = cached_head q \<and> mnext q \<noteq> c"
proof (cases "mnext q = cached_head q")
  case True
  with assms that [of "mhead q"] show thesis by (simp add: kk_spsc_enqueue_def)
next
  case False
  with that [of "cached_head q"] show thesis by (simp add: kk_spsc_enqueue_def Let_def)
qed

lemma cring_inv_put:
  assumes inv: "cring_inv q" and room: "mnext q \<noteq> mhead q"
    and c: "c = mhead q \<or> c = cached_head q \<and> mnext q \<noteq> c"
  shows "cring_inv (q\<lparr>cached_head := c, mbuffer := (mbuffer q)[unat (mtail q) := x], mtail := mnext q\<rparr>)"
proof -
  let ?n = "length (mbuffer q)"
  let ?t = "unat (mtail q)" and ?h = "unat (mhead q)"
  from inv have cap: "pow2_cap (mbuffer q)" and lt: "?t < ?n" "?h < ?n" "unat (cached_head q) < ?n"
    and sum: "dist ?n (unat (cached_head q)) ?h + dist ?n ?h ?t < ?n"
    by (auto simp: cring_inv_def mring_inv_def)
  from room have nh: "Suc ?t mod ?n \<noteq> ?h" by (simp add: mnext_eq_iff [OF cap])
  have "dist ?n (unat c) ?h + Suc (dist ?n ?h ?t) < ?n"
    using c
  proof
    assume "c = mhead q"
    then show ?thesis using nh lt dist_full_iff [of ?h ?n ?t] by auto
  next
    assume c: "c = cached_head q \<and> mnext q \<noteq> c"
    then have "Suc ?t mod ?n \<noteq> unat c" by (auto simp: mnext_eq_iff [OF cap])
    with c lt sum show ?thesis
      using dist_full_iff [of "unat c" ?n ?t] dist_trans [of "unat c" ?n ?h ?t] by auto
  qed
  with nh lt c cap show ?thesis
    by (auto simp: cring_inv_def mring_inv_def unat_Suc_mask dist_Suc_wr)
qed

lemma cring_dequeue_inv:
  assumes inv: "cring_inv q" and ne: "mhead q \<noteq> mtail q"
  shows "cring_inv (q\<lparr>mhead := (mhead q + 1) AND (of_nat (length (mbuffer q)) - 1)\<rparr>)"
proof -
  let ?n = "length (mbuffer q)"
  let ?t = "unat (mtail q)" and ?h = "unat (mhead q)" and ?c = "unat (cached_head q)"
  from inv have cap: "pow2_cap (mbuffer q)" and lt: "?t < ?n" "?h < ?n" "?c < ?n"
    and sum: "dist ?n ?c ?h + dist ?n ?h ?t < ?n"
    by (auto simp: cring_inv_def mring_inv_def)
  from ne have "?h \<noteq> ?t" by simp
  with lt have t: "dist ?n ?h ?t = Suc (dist ?n (Suc ?h mod ?n) ?t)" by (intro dist_Suc_rd)
  have "Suc ?h mod ?n \<noteq> ?c"
  proof
    assume "Suc ?h mod ?n = ?c"
    then have "\<not> dist ?n ?c ?h < ?n - 1" using lt by (simp add: dist_full_iff)
    with sum t show False by simp
  qed
  with lt have "dist ?n ?c (Suc ?h mod ?n) = Suc (dist ?n ?c ?h)" by (simp add: dist_Suc_wr)
  with t sum lt cap show ?thesis by (simp add: cring_inv_def mring_inv_def unat_Suc_mask)
qed

interpretation kk_spsc: bounded_queue cring_inv mring_contents mring_room kk_spsc_enqueue kk_spsc_dequeue
proof (unfold_locales, goal_cases)
  case (1 q x ok q')
  then have mring: "mring_inv q" by (simp add: cring_inv_def)
  show ?case
  proof (cases "mnext q = mhead q")
    case True
    with 1 kk_spsc_enqueue_full [of q x] mring_full_iff [OF mring] show ?thesis
      by (auto simp: cring_inv_def mring_defs)
  next
    case False
    then obtain c where e: "kk_spsc_enqueue x q
        = (True, q\<lparr>cached_head := c, mbuffer := (mbuffer q)[unat (mtail q) := x], mtail := mnext q\<rparr>)"
      and c: "c = mhead q \<or> c = cached_head q \<and> mnext q \<noteq> c" by (rule kk_spsc_enqueue_room)
    from mring have cap: "pow2_cap (mbuffer q)" by (simp add: mring_inv_def)
    from False have "Suc (unat (mtail q)) mod length (mbuffer q) \<noteq> unat (mhead q)"
      by (simp add: mnext_eq_iff [OF cap])
    with mring cap have "ring_seg ((mbuffer q)[unat (mtail q) := x]) (unat (mhead q)) (unat (mnext q))
        = mring_contents q @ [x]"
      by (simp add: mring_inv_def mring_contents_def unat_Suc_mask ring_seg_put)
    with 1 e cring_inv_put [OF 1(1) False c, of x] mring_full_iff [OF mring] False show ?thesis
      by (auto simp: mring_contents_def mring_room_def)
  qed
next
  case (2 q r q')
  then have mring: "mring_inv q" by (simp add: cring_inv_def)
  show ?case
  proof (cases "mhead q = mtail q")
    case True
    with 2 show ?thesis by (auto simp: kk_spsc_dequeue_def Let_def mring_contents_def)
  next
    case False
    with 2 mring cring_dequeue_inv [of q] show ?thesis
      by (auto simp: kk_spsc_dequeue_def Let_def mring_defs unat_Suc_mask ring_seg_get)
  qed
next
  case (3 q)
  then show ?case by (simp add: cring_inv_def mring_bound)
qed

section \<open>Free-running counters\<close>

definition count_inv :: "'a mring \<Rightarrow> bool" where
  "count_inv q = (pow2_cap (mbuffer q) \<and> unat (mtail q - mhead q) \<le> length (mbuffer q))"

definition count_contents :: "'a mring \<Rightarrow> 'a list" where
  "count_contents q = cseg (mbuffer q) (unat (mhead q)) (unat (mtail q - mhead q))"

definition count_room :: "'a mring \<Rightarrow> nat" where
  "count_room q = length (mbuffer q)"

lemmas count_defs = count_inv_def count_contents_def count_room_def

lemma unat_cap: "pow2_cap buf \<Longrightarrow> unat (of_nat (length buf) :: u64) = length buf"
proof -
  assume "pow2_cap buf"
  then have "length buf < sz_mod" by (auto elim: pow2_capD)
  then show ?thesis by (simp add: unat_of_nat)
qed

lemma unat_Suc_u64: "unat (w :: u64) < sz_mod - 1 \<Longrightarrow> unat (w + 1) = Suc (unat w)"
  by (simp add: unat_word_ariths)

lemma count_grow:
  assumes "pow2_cap buf" and "unat (d :: u64) \<le> length buf"
  shows "unat (d + 1) = Suc (unat d)"
proof -
  have "length buf \<le> 2 ^ 63" using assms(1) by (rule pow2_capD)
  with assms(2) show ?thesis by (intro unat_Suc_u64) simp
qed

lemma cseg_counter:
  fixes w :: u64
  assumes "pow2_cap buf"
  shows "cseg buf (unat (w + 1)) m = cseg buf (Suc (unat w)) m"
proof -
  have "sz_mod mod length buf = 0" using assms by (auto elim: pow2_capD)
  then have "cseg buf (Suc (unat w) mod sz_mod) m = cseg buf (Suc (unat w)) m"
    by (rule cseg_mod) simp
  then show ?thesis by (simp add: unat_word_ariths)
qed

lemma counter_index:
  fixes h t :: u64
  assumes "pow2_cap buf"
  shows "unat (t AND (of_nat (length buf) - 1)) = (unat h + unat (t - h)) mod length buf"
proof -
  have dvd: "length buf dvd sz_mod" using assms by (rule pow2_capD)
  have "unat t = unat (h + (t - h))" by simp
  also have "\<dots> = (unat h + unat (t - h)) mod sz_mod" unfolding unat_word_ariths by simp
  finally have "unat t mod length buf = (unat h + unat (t - h)) mod sz_mod mod length buf" by simp
  also have "\<dots> = (unat h + unat (t - h)) mod length buf" using dvd by (rule mod_mod_cancel)
  finally show ?thesis by (simp add: unat_and_cap_mask [OF assms])
qed

interpretation ringbuffer: bounded_queue count_inv count_contents count_room
    SPSCRingBuffer_push SPSCRingBuffer_pop
proof (unfold_locales, goal_cases)
  case (1 q x ok q')
  let ?b = "mbuffer q" and ?d = "mtail q - mhead q"
  from 1(1) have cap: "pow2_cap ?b" and le: "unat ?d \<le> length ?b" by (simp_all add: count_inv_def)
  have len: "unat (mtail q + 1 - mhead q) = Suc (unat ?d)"
    using count_grow [OF cap le] by (simp add: algebra_simps)
  have full: "mtail q + 1 - mhead q > of_nat (length ?b) \<longleftrightarrow> \<not> unat ?d < length ?b"
    by (auto simp: word_less_nat_alt len unat_cap [OF cap])
  have "cseg (?b[unat (mtail q AND cap_mask q) := x]) (unat (mhead q)) (Suc (unat ?d))
      = count_contents q @ [x]" if "unat ?d < length ?b"
    using cseg_put [OF that, of "unat (mhead q)" x]
    by (simp add: count_contents_def cap_mask_def counter_index [OF cap, where h = "mhead q"])
  with 1 full len show ?case
    by (auto simp: SPSCRingBuffer_push_def Let_def count_defs split: if_splits)
next
  case (2 q r q')
  let ?b = "mbuffer q" and ?d = "mtail q - mhead q"
  from 2(1) have cap: "pow2_cap ?b" and le: "unat ?d \<le> length ?b" by (simp_all add: count_inv_def)
  show ?case
  proof (cases "mhead q = mtail q")
    case True
    with 2 show ?thesis by (auto simp: SPSCRingBuffer_pop_def Let_def count_defs)
  next
    case False
    then have "unat ?d \<noteq> 0" by (simp add: unat_eq_0)
    then have d: "unat ?d = Suc (unat (mtail q - (mhead q + 1)))"
      by (metis Suc_pred' diff_diff_eq neq0_conv unat_eq_zero unat_minus_one)
    then have "count_contents q = ?b ! unat (mhead q AND cap_mask q)
        # cseg ?b (unat (mhead q + 1)) (unat (mtail q - (mhead q + 1)))"
      by (simp add: count_contents_def cseg_Suc cap_mask_def unat_and_cap_mask [OF cap] cseg_counter [OF cap])
    with 2 False d le cap show ?thesis
      by (auto simp: SPSCRingBuffer_pop_def Let_def count_defs)
  qed
next
  case (3 q)
  then show ?case by (simp add: count_defs)
qed

lemma plain_size:
  assumes inv: "mring_inv q"
  shows "(if mhead q \<le> mtail q then unat (mtail q - mhead q)
          else unat (of_nat (length (mbuffer q)) - mhead q + mtail q)) = length (mring_contents q)"
proof -
  let ?n = "length (mbuffer q)"
  from inv have cap: "pow2_cap (mbuffer q)" and h: "unat (mhead q) < ?n" and t: "unat (mtail q) < ?n"
    by (auto simp: mring_inv_def)
  have n: "?n < sz_mod" using cap by (auto elim: pow2_capD)
  have "unat (of_nat ?n - mhead q) = ?n - unat (mhead q)"
    using h by (subst unat_sub) (simp_all add: word_le_nat_alt unat_cap [OF cap])
  then have "unat (of_nat ?n - mhead q + mtail q) = ?n - unat (mhead q) + unat (mtail q)"
    if "unat (mtail q) < unat (mhead q)"
    using that n h by (simp add: unat_word_ariths)
  with h t show ?thesis
    by (auto simp: mring_contents_def dist_cases word_le_nat_alt unat_sub)
qed

lemma kk_spsc_size_contents: "cring_inv q \<Longrightarrow> kk_spsc_size q = length (mring_contents q)"
  using plain_size [of q] by (simp add: cring_inv_def kk_spsc_size_def Let_def)

lemma q_size_contents: "q_inv q \<Longrightarrow> q_size q = length (q_contents q)"
  using plain_size [of q] by (simp add: q_inv_def q_size_def q_contents_def Let_def)

lemma q_empty_full:
  "q_inv q \<Longrightarrow> (q_empty q \<longleftrightarrow> q_contents q = []) \<and> (q_full q \<longleftrightarrow> length (q_contents q) = mring_room q)"
  using lq_empty_iff [of q] lq_full_iff [of q]
  by (simp add: q_inv_def q_contents_def q_empty_def q_full_def lq_empty_def lq_full_def)

lemma init_empty:
  "pow2_cap buf \<Longrightarrow> mring_inv (lq_init buf) \<and> mring_contents (lq_init buf) = []"
  "pow2_cap (replicate n d) \<Longrightarrow> q_inv (q_init d n) \<and> q_contents (q_init d n) = []"
  "buf \<noteq> [] \<Longrightarrow> ring_inv (ring_init buf) \<and> ring_contents (ring_init buf) = []"
  by (auto simp: lq_init_def q_init_def ring_init_def q_inv_def q_contents_def mring_defs ring_defs
      pow2_cap_def)

section \<open>The plain counters and their wrap-around\<close>

text \<open>
  The plain-counter queue of \<open>kk.hpp\<close> is \<open>SPSCRingBuffer\<close> with the two names exchanged, but
  its emptiness test compares the counters with \<open>\<ge>\<close> instead of testing them for equality.
\<close>

definition swap_ends :: "'a mring \<Rightarrow> 'a mring" where
  "swap_ends q = q\<lparr>mhead := mtail q, mtail := mhead q\<rparr>"

lemma swap_ends_sel [simp]:
  "mbuffer (swap_ends q) = mbuffer q" "mhead (swap_ends q) = mtail q"
  "mtail (swap_ends q) = mhead q" "cap_mask (swap_ends q) = cap_mask q"
  by (simp_all add: swap_ends_def cap_mask_def)

lemma counter_spsc_enqueue_swap:
  "counter_spsc_enqueue v q
     = (let (ok, q') = SPSCRingBuffer_push v (swap_ends q) in (ok, swap_ends q'))"
  by (simp add: counter_spsc_enqueue_def SPSCRingBuffer_push_def Let_def swap_ends_def cap_mask_def)

lemma counter_spsc_dequeue_swap:
  "mtail q \<le> mhead q \<Longrightarrow> counter_spsc_dequeue q
     = (let (r, q') = SPSCRingBuffer_pop (swap_ends q) in (r, swap_ends q'))"
  by (auto simp: counter_spsc_dequeue_def SPSCRingBuffer_pop_def Let_def swap_ends_def cap_mask_def)

section \<open>Properties\<close>

lemma pow2_cap_2: "pow2_cap [a, b]"
  unfolding pow2_cap_def by (intro exI [of _ 1]) simp

text \<open>
  C31.  \<open>LockFreeQueue\<close> of \<open>lq.hpp\<close> is a bounded FIFO queue: for every sequence of enqueues and
  dequeues the items delivered are the items that were stored at the start followed by the items
  accepted, in that order and without loss or duplication, and at most capacity minus one items
  are stored at any time.
\<close>

theorem lq_fifo:
  assumes "mring_inv q" and "run_ops lq_enqueue lq_dequeue ops q = (acc, del, q')"
  shows "mring_contents q @ acc = del @ mring_contents q' \<and> mring_inv q'
    \<and> length (mring_contents q') \<le> mring_room q"
  using lq.run_ops_fifo [OF assms] lq.run_ops_bounded [OF assms] by simp

theorem lq_fifo_witness:
  "let q = \<lparr>mbuffer = [0, 0], mhead = 0, mtail = 0\<rparr>;
       r = run_ops lq_enqueue lq_dequeue [Push (7 :: nat), Push 8, Pop, Push 9, Pop] q
   in fst r = [7, 9] \<and> fst (snd r) = [7, 9] \<and> mring_inv (snd (snd r))"
proof -
  let ?q = "\<lparr>mbuffer = [0, 0], mhead = 0, mtail = 0\<rparr> :: nat mring"
  have "mring_inv ?q" by (simp add: mring_inv_def pow2_cap_2)
  moreover have run: "run_ops lq_enqueue lq_dequeue [Push 7, Push 8, Pop, Push 9, Pop] ?q
    = ([7, 9], [7, 9], \<lparr>mbuffer = [7, 9], mhead = 0, mtail = 0\<rparr>)" by code_simp
  ultimately show ?thesis using lq_fifo [OF _ run] by (simp add: Let_def)
qed

text \<open>
  \<open>SPSCQueue\<close> of \<open>kk.hpp\<close>, whose producer looks at a cached copy of \<open>head_\<close> and refreshes
  it only when the ring looks full, is a bounded FIFO queue too: a stale copy never makes it
  overwrite an item that is still stored, and it never refuses an item while there is room.
\<close>

theorem kk_spsc_fifo:
  assumes "cring_inv q" and "run_ops kk_spsc_enqueue kk_spsc_dequeue ops q = (acc, del, q')"
  shows "mring_contents q @ acc = del @ mring_contents q' \<and> cring_inv q'
    \<and> (fst (kk_spsc_enqueue x q') \<longleftrightarrow> length (mring_contents q') < mring_room q)"
proof -
  note law = kk_spsc.run_ops_fifo [OF assms]
  obtain ok q2 where "kk_spsc_enqueue x q' = (ok, q2)" by fastforce
  with law kk_spsc.push_law [of q' x ok q2] show ?thesis by simp
qed

theorem kk_spsc_fifo_witness:
  "let q = \<lparr>mbuffer = [0, 0], mhead = 0, mtail = 0, cached_head = 0\<rparr>;
       r = run_ops kk_spsc_enqueue kk_spsc_dequeue [Push (7 :: nat), Pop, Push 8, Push 9] q
   in fst r = [7, 8] \<and> fst (snd r) = [7] \<and> \<not> fst (kk_spsc_enqueue 5 (snd (snd r)))"
proof -
  let ?q = "\<lparr>mbuffer = [0, 0], mhead = 0, mtail = 0, cached_head = 0\<rparr> :: nat cring"
  let ?r = "\<lparr>mbuffer = [7, 8], mhead = 1, mtail = 0, cached_head = 1\<rparr> :: nat cring"
  have "cring_inv ?q" by (simp add: cring_inv_def mring_inv_def pow2_cap_2)
  moreover have run: "run_ops kk_spsc_enqueue kk_spsc_dequeue [Push 7, Pop, Push 8, Push 9] ?q
    = ([7, 8], [7], ?r)" by code_simp
  ultimately have "fst (kk_spsc_enqueue 5 ?r) \<longleftrightarrow> length (mring_contents ?r) < mring_room ?q"
    using kk_spsc_fifo [OF _ run, of 5] by simp
  moreover have "length (mring_contents ?r) = 1" by code_simp
  moreover have "mring_room ?q = 1" by code_simp
  ultimately show ?thesis using run by (simp add: Let_def)
qed

text \<open>
  \<open>SPSCRingBuffer\<close> of \<open>kk.hpp\<close> counts pushes and pops in 64-bit counters that are never
  reduced.  It is a bounded FIFO queue that uses all of its slots, for any starting value of the
  counters, so also when they wrap around.
\<close>

theorem SPSCRingBuffer_fifo:
  assumes "count_inv q" and "run_ops SPSCRingBuffer_push SPSCRingBuffer_pop ops q = (acc, del, q')"
  shows "count_contents q @ acc = del @ count_contents q' \<and> count_inv q'
    \<and> (fst (SPSCRingBuffer_push x q') \<longleftrightarrow> length (count_contents q') < length (mbuffer q))"
proof -
  note law = ringbuffer.run_ops_fifo [OF assms]
  obtain ok q2 where "SPSCRingBuffer_push x q' = (ok, q2)" by fastforce
  with law ringbuffer.push_law [of q' x ok q2] show ?thesis by (simp add: count_room_def)
qed

theorem SPSCRingBuffer_fifo_witness:
  "let q = \<lparr>mbuffer = [0, 0], mhead = - 1, mtail = - 1\<rparr>;
       r = run_ops SPSCRingBuffer_push SPSCRingBuffer_pop [Push (7 :: nat), Push 8, Push 9, Pop] q
   in fst r = [7, 8] \<and> fst (snd r) = [7] \<and> count_contents (snd (snd r)) = [8]"
proof -
  let ?q = "\<lparr>mbuffer = [0, 0], mhead = - 1, mtail = - 1\<rparr> :: nat mring"
  have "count_inv ?q" by (simp add: count_inv_def pow2_cap_2)
  moreover have run: "run_ops SPSCRingBuffer_push SPSCRingBuffer_pop [Push 7, Push 8, Push 9, Pop] ?q
    = ([7, 8], [7], \<lparr>mbuffer = [8, 7], mhead = 0, mtail = 1\<rparr>)" by code_simp
  moreover have "count_contents ?q = []" by (simp add: count_contents_def)
  ultimately show ?thesis using SPSCRingBuffer_fifo [OF _ run] by (simp add: Let_def)
qed

text \<open>
  The \<open>SPSCQueue\<close> of \<open>kk.hpp\<close> with plain counters is correct until the producer's counter
  wraps: it then refuses to deliver.  Whenever its counters are consistent, a dequeue returns
  nothing exactly when the queue is empty or the producer's counter has wrapped past the
  consumer's.
\<close>

theorem counter_spsc_wrap:
  assumes "count_inv (swap_ends q)"
  shows "fst (counter_spsc_dequeue q) = None
    \<longleftrightarrow> count_contents (swap_ends q) = [] \<or> mhead q < mtail q"
  using assms
  by (auto simp: counter_spsc_dequeue_def Let_def count_contents_def unat_eq_0 not_le)

theorem counter_spsc_wrap_witness:
  "let q = snd (counter_spsc_enqueue (7 :: nat) \<lparr>mbuffer = [0, 0], mhead = - 1, mtail = - 1\<rparr>)
   in count_contents (swap_ends q) = [7] \<and> fst (counter_spsc_dequeue q) = None"
proof -
  let ?q = "\<lparr>mbuffer = [0, 7], mhead = 0, mtail = - 1\<rparr> :: nat mring"
  have q: "snd (counter_spsc_enqueue 7 \<lparr>mbuffer = [0, 0], mhead = - 1, mtail = - 1\<rparr>) = ?q"
    by code_simp
  have "count_inv (swap_ends ?q)" by (simp add: count_inv_def pow2_cap_2)
  moreover have "(0 :: u64) < - 1" by (simp add: word_gt_0)
  ultimately have "fst (counter_spsc_dequeue ?q) = None" using counter_spsc_wrap [of ?q] by simp
  moreover have "count_contents (swap_ends ?q) = [7]"
    by (simp add: count_contents_def cseg_def unsigned_minus_1_eq_mask mask_eq_exp_minus_1
        flip: numeral_2_eq_2)
  ultimately show ?thesis by (simp add: q)
qed

text \<open>
  The ring of \<open>q.hpp\<close>, whose slots carry a \<open>ready\<close> flag, starts empty and is a bounded
  FIFO queue: the flag never hides a stored item, and \<open>size\<close>, \<open>empty\<close> and \<open>full\<close> report what
  is stored.
\<close>

theorem q_fifo:
  assumes "pow2_cap (replicate n d)"
    and "run_ops q_try_push q_try_pop ops (q_init d n) = (acc, del, q')"
  shows "acc = del @ q_contents q' \<and> q_size q' = length (q_contents q') \<and> q_size q' \<le> n - 1
    \<and> (q_empty q' \<longleftrightarrow> q_contents q' = []) \<and> (q_full q' \<longleftrightarrow> q_size q' = n - 1)"
proof -
  note start = init_empty(2) [OF assms(1)]
  then have inv: "q_inv (q_init d n)" by simp
  note law = flagq.run_ops_fifo [OF inv assms(2)] flagq.run_ops_bounded [OF inv assms(2)]
  have "mring_room (q_init d n) = n - 1" by (simp add: mring_room_def q_init_def)
  with law start show ?thesis by (simp add: q_size_contents q_empty_full)
qed

theorem q_fifo_witness:
  "let r = run_ops q_try_push q_try_pop [Push (7 :: nat), Push 8, Pop, Push 9] (q_init 0 2)
   in fst r = [7, 9] \<and> fst (snd r) = [7] \<and> q_size (snd (snd r)) \<le> 1"
proof -
  let ?q = "\<lparr>mbuffer = [(7, False), (9, True)], mhead = 1, mtail = 0\<rparr> :: (nat \<times> bool) mring"
  have "pow2_cap (replicate 2 (0 :: nat))" by (simp add: numeral_2_eq_2 pow2_cap_2)
  moreover have run: "run_ops q_try_push q_try_pop [Push 7, Push 8, Pop, Push 9] (q_init 0 2)
    = ([7, 9], [7], ?q)" by code_simp
  ultimately show ?thesis using q_fifo [OF _ run] by (simp add: Let_def)
qed

text \<open>
  How full the index rings report to be agrees with what they store: \<open>size\<close>, \<open>empty\<close> and
  \<open>full\<close> of \<open>lq.hpp\<close>, \<open>size\<close> of \<open>lock_queue.hpp\<close> and \<open>size\<close> of the cached-head queue of
  \<open>kk.hpp\<close>.
\<close>

theorem ring_sizes:
  assumes "mring_inv q" and "ring_inv r" and "cring_inv c"
  shows "lq_size q = length (mring_contents q)
    \<and> (lq_empty q \<longleftrightarrow> mring_contents q = [])
    \<and> (lq_full q \<longleftrightarrow> length (mring_contents q) = mring_room q)
    \<and> lockq_size r = length (ring_contents r)
    \<and> kk_spsc_size c = length (mring_contents c)"
  using assms
  by (simp add: lq_size_contents lq_empty_iff lq_full_iff lockq_size_contents kk_spsc_size_contents)

theorem ring_sizes_witness:
  "lq_size \<lparr>mbuffer = [7 :: nat, 8], mhead = 1, mtail = 0\<rparr> = 1
   \<and> lq_full \<lparr>mbuffer = [7 :: nat, 8], mhead = 1, mtail = 0\<rparr>
   \<and> lockq_size \<lparr>buffer = [7 :: nat, 8, 9], head = 2, tail = 1\<rparr> = 2
   \<and> kk_spsc_size \<lparr>mbuffer = [7 :: nat, 8], mhead = 1, mtail = 0, cached_head = 1\<rparr> = 1"
proof -
  let ?q = "\<lparr>mbuffer = [7, 8], mhead = 1, mtail = 0\<rparr> :: nat mring"
  let ?c = "\<lparr>mbuffer = [7, 8], mhead = 1, mtail = 0, cached_head = 1\<rparr> :: nat cring"
  let ?r = "\<lparr>buffer = [7, 8, 9], head = 2, tail = 1\<rparr> :: nat ring"
  have "mring_inv ?q" by (simp add: mring_inv_def pow2_cap_2)
  moreover have "cring_inv ?c" by (simp add: cring_inv_def mring_inv_def pow2_cap_2 dist_def)
  moreover have "ring_inv ?r" by (simp add: ring_inv_def)
  moreover have "mring_contents ?q = [8]" by code_simp
  moreover have "mring_contents ?c = [8]" by code_simp
  moreover have "mring_room ?q = 1" by code_simp
  moreover have "ring_contents ?r = [9, 7]" by code_simp
  ultimately show ?thesis using ring_sizes [of ?q ?r ?c] by simp
qed

end
