(* ===== verification/Ordered_Map.thy ===== *)
theory Ordered_Map
  imports Prelude
begin

text \<open>
  \<open>std::map\<close> with a comparator, as the association list of its entries in iteration order, and
  the machine conversions between the 64-bit and 32-bit integer types that the order book and
  the timers use on their keys.  The interface of a strict order is a locale, so that a map
  sorted upwards and a map sorted downwards share their lemmas.
\<close>

section \<open>Conversions between integer types\<close>

definition u64_of :: "int \<Rightarrow> int" where
  "u64_of x = x mod 18446744073709551616"

definition i64_of :: "int \<Rightarrow> int" where
  "i64_of x = (x + 9223372036854775808) mod 18446744073709551616 - 9223372036854775808"

definition i32_of :: "int \<Rightarrow> int" where
  "i32_of x = (x + 2147483648) mod 4294967296 - 2147483648"

abbreviation INT64_MAX :: int where
  "INT64_MAX \<equiv> 9223372036854775807"

lemma u64_of_id [sizet]: "0 \<le> x \<Longrightarrow> x < 18446744073709551616 \<Longrightarrow> u64_of x = x"
  by (simp add: u64_of_def)

lemma i64_of_id [sizet]: "- 9223372036854775808 \<le> x \<Longrightarrow> x \<le> INT64_MAX \<Longrightarrow> i64_of x = x"
  by (simp add: i64_of_def)

lemma i32_of_id [sizet]: "- 2147483648 \<le> x \<Longrightarrow> x < 2147483648 \<Longrightarrow> i32_of x = x"
  by (simp add: i32_of_def)

lemma u64_of_range [simp]: "0 \<le> u64_of x" "u64_of x < 18446744073709551616"
  by (simp_all add: u64_of_def)

text \<open>Division of C++ integers truncates toward zero.\<close>

definition tdiv :: "int \<Rightarrow> int \<Rightarrow> int" where
  "tdiv a b = sgn a * sgn b * (\<bar>a\<bar> div \<bar>b\<bar>)"

lemma tdiv_pos: "0 \<le> a \<Longrightarrow> 0 < b \<Longrightarrow> tdiv a b = a div b"
  by (cases "a = 0") (simp_all add: tdiv_def)

section \<open>Operations of an ordered map\<close>

text \<open>
  \<open>before\<close> is the comparator.  \<open>map_at\<close> is what \<open>operator[]\<close> does to the map: it inserts the
  default value under an absent key.  \<open>map_put\<close> is an assignment through \<open>operator[]\<close>, and
  \<open>map_lower_bound\<close> the entries from \<open>lower_bound\<close> to the end.
\<close>

fun map_at :: "('k \<Rightarrow> 'k \<Rightarrow> bool) \<Rightarrow> 'k \<Rightarrow> 'v \<Rightarrow> ('k \<times> 'v) list \<Rightarrow> ('k \<times> 'v) list" where
  "map_at before k d [] = [(k, d)]"
| "map_at before k d ((k', v) # m) =
     (if before k' k then (k', v) # map_at before k d m
      else if before k k' then (k, d) # (k', v) # m
      else (k', v) # m)"

fun map_put :: "('k \<Rightarrow> 'k \<Rightarrow> bool) \<Rightarrow> 'k \<Rightarrow> 'v \<Rightarrow> ('k \<times> 'v) list \<Rightarrow> ('k \<times> 'v) list" where
  "map_put before k x [] = [(k, x)]"
| "map_put before k x ((k', v) # m) =
     (if before k' k then (k', v) # map_put before k x m
      else if before k k' then (k, x) # (k', v) # m
      else (k', x) # m)"

definition map_lower_bound :: "('k \<Rightarrow> 'k \<Rightarrow> bool) \<Rightarrow> 'k \<Rightarrow> ('k \<times> 'v) list \<Rightarrow> ('k \<times> 'v) list" where
  "map_lower_bound before k m = dropWhile (\<lambda>(k', _). before k' k) m"

definition ordered :: "('k \<Rightarrow> 'k \<Rightarrow> bool) \<Rightarrow> ('k \<times> 'v) list \<Rightarrow> bool" where
  "ordered before m = sorted_wrt before (map fst m)"

lemma ordered_Nil [simp]: "ordered before []"
  by (simp add: ordered_def)

lemma ordered_Cons [simp]:
  "ordered before ((k, v) # m) \<longleftrightarrow> (\<forall>k' \<in> fst ` set m. before k k') \<and> ordered before m"
  by (auto simp: ordered_def)

lemma fst_map_at: "fst ` set (map_at before k d m) \<subseteq> insert k (fst ` set m)"
  by (induction before k d m rule: map_at.induct) auto

lemma fst_map_put: "fst ` set (map_put before k x m) \<subseteq> insert k (fst ` set m)"
  by (induction before k x m rule: map_put.induct) auto

text \<open>The sum of a measure over the entries whose key satisfies a test.\<close>

definition key_sum :: "('v \<Rightarrow> int) \<Rightarrow> ('k \<Rightarrow> bool) \<Rightarrow> ('k \<times> 'v) list \<Rightarrow> int" where
  "key_sum w P m = sum_list (map (\<lambda>(k, v). if P k then w v else 0) m)"

lemma key_sum_Nil [simp]: "key_sum w P [] = 0"
  by (simp add: key_sum_def)

lemma key_sum_Cons [simp]:
  "key_sum w P ((k, v) # m) = (if P k then w v else 0) + key_sum w P m"
  by (simp add: key_sum_def)

lemma key_sum_append [simp]: "key_sum w P (m @ m') = key_sum w P m + key_sum w P m'"
  by (simp add: key_sum_def)

lemma key_sum_cong:
  "(\<And>k. k \<in> fst ` set m \<Longrightarrow> P k = Q k) \<Longrightarrow> key_sum w P m = key_sum w Q m"
  by (induction m) auto

lemma key_sum_nonneg: "\<forall>v \<in> snd ` set m. 0 \<le> w v \<Longrightarrow> 0 \<le> key_sum w P m"
  by (induction m) auto

lemma key_sum_mono:
  "\<forall>v \<in> snd ` set m. 0 \<le> w v \<Longrightarrow> (\<And>k. P k \<Longrightarrow> Q k) \<Longrightarrow> key_sum w P m \<le> key_sum w Q m"
  by (induction m) auto

lemma key_sum_split:
  "(\<And>k. R k \<longleftrightarrow> P k \<or> Q k) \<Longrightarrow> (\<And>k. \<not> (P k \<and> Q k)) \<Longrightarrow>
     key_sum w R m = key_sum w P m + key_sum w Q m"
  by (induction m) auto

lemma key_sum_neq_ex:
  "key_sum w P m \<noteq> key_sum w Q m \<Longrightarrow> \<exists>k \<in> fst ` set m. P k \<noteq> Q k"
  using key_sum_cong [of m P Q w] by blast

lemma key_sum_empty: "(\<And>k. k \<in> fst ` set m \<Longrightarrow> \<not> P k) \<Longrightarrow> key_sum w P m = 0"
  by (induction m) auto

section \<open>Laws of a strict comparator\<close>

locale strict_order =
  fixes before :: "'k \<Rightarrow> 'k \<Rightarrow> bool"
  assumes irrefl: "\<not> before a a"
    and trans: "before a b \<Longrightarrow> before b c \<Longrightarrow> before a c"
    and total: "a \<noteq> b \<Longrightarrow> before a b \<or> before b a"
begin

lemma asym: "before a b \<Longrightarrow> \<not> before b a"
  using irrefl trans by blast

lemma eqI: "\<not> before a b \<Longrightarrow> \<not> before b a \<Longrightarrow> a = b"
  using total by blast

lemma map_at_keys: "fst ` set (map_at before k d m) = insert k (fst ` set m)"
proof (induction m)
  case (Cons e m)
  then show ?case by (cases e) (simp add: insert_commute, metis eqI insert_absorb2)
qed simp

lemma map_put_keys: "fst ` set (map_put before k x m) = insert k (fst ` set m)"
proof (induction m)
  case (Cons e m)
  then show ?case by (cases e) (simp add: insert_commute, metis eqI insert_absorb2)
qed simp

lemma map_at_ordered: "ordered before m \<Longrightarrow> ordered before (map_at before k d m)"
proof (induction m)
  case (Cons e m)
  obtain k' v where e: "e = (k', v)" by fastforce
  from Cons.prems e have *: "\<forall>x \<in> fst ` set m. before k' x" by simp
  show ?case using Cons e * by (simp add: map_at_keys) (metis trans)
qed simp

lemma map_put_ordered: "ordered before m \<Longrightarrow> ordered before (map_put before k x m)"
proof (induction m)
  case (Cons e m)
  obtain k' v where e: "e = (k', v)" by fastforce
  from Cons.prems e have *: "\<forall>x \<in> fst ` set m. before k' x" by simp
  show ?case using Cons e * eqI by (simp add: map_put_keys) (metis trans)
qed simp

lemma map_of_map_at:
  "ordered before m \<Longrightarrow> map_of (map_at before k d m) k' =
     (if k' = k \<and> map_of m k = None then Some d else map_of m k')"
proof (induction m)
  case (Cons e m)
  obtain a w where e: "e = (a, w)" by fastforce
  have "map_of m k = None" if "before k a"
  proof -
    have "\<not> before a k" using that asym by blast
    then have "k \<notin> fst ` set m" using Cons.prems e by auto
    then show ?thesis by (simp add: map_of_eq_None_iff)
  qed
  with Cons e show ?case by (auto simp: irrefl dest: asym eqI)
qed simp

lemma map_of_map_put:
  "ordered before m \<Longrightarrow> map_of (map_put before k x m) k' = (if k' = k then Some x else map_of m k')"
proof (induction m)
  case (Cons e m)
  then show ?case by (cases e) (auto simp: irrefl dest: eqI)
qed simp

lemma map_at_present: "ordered before m \<Longrightarrow> k \<in> fst ` set m \<Longrightarrow> map_at before k d m = m"
proof (induction m)
  case (Cons e m)
  obtain k' v where e: "e = (k', v)" by fastforce
  from Cons.prems e consider "k = k'" | "k \<in> fst ` set m" "before k' k" by auto
  then show ?case using Cons e by cases (auto simp: irrefl)
qed simp

lemma map_put_last:
  "ordered before m \<Longrightarrow> (\<And>k'. k' \<in> fst ` set m \<Longrightarrow> before k' k) \<Longrightarrow> map_put before k x m = m @ [(k, x)]"
  by (induction m) auto

lemma map_put_set:
  "ordered before m \<Longrightarrow> set (map_put before k x m) = {(k', v). (k', v) \<in> set m \<and> k' \<noteq> k} \<union> {(k, x)}"
proof (induction m)
  case (Cons e m)
  obtain k' v where e: "e = (k', v)" by fastforce
  have out: "(k, w) \<notin> set m" if "before k k' \<or> k = k'" for w
  proof
    assume "(k, w) \<in> set m"
    then have "before k' k" using Cons.prems e by force
    then show False using that asym irrefl by blast
  qed
  from Cons e out show ?case by (auto dest: total simp: irrefl)
qed simp

lemma map_at_set:
  "set (map_at before k d m) \<subseteq> set m \<union> {(k, d)}"
  by (induction m) (auto split: if_splits)

lemma map_put_map_at: "ordered before m \<Longrightarrow> map_put before k x (map_at before k d m) = map_put before k x m"
  by (induction m) (auto simp: irrefl dest: asym eqI)

lemma key_sum_map_put:
  "ordered before m \<Longrightarrow> key_sum w P (map_put before k x m)
     = key_sum w P m + (if P k then w x - (case map_of m k of None \<Rightarrow> 0 | Some v \<Rightarrow> w v) else 0)"
proof (induction m)
  case (Cons e m)
  obtain a v where e: "e = (a, v)" by fastforce
  have "map_of m k = None" if "before k a"
  proof -
    have "\<not> before a k" using that asym by blast
    then have "k \<notin> fst ` set m" using Cons.prems e by auto
    then show ?thesis by (simp add: map_of_eq_None_iff)
  qed
  with Cons e show ?case by (auto simp: irrefl dest: asym eqI)
qed auto

text \<open>
  \<open>lower_bound\<close> returns the first entry that is not before the key.  Everything before that
  entry's key is then before the searched key, and conversely.
\<close>

lemma lower_bound_first:
  assumes "ordered before m" and "map_lower_bound before k m = (k', v) # rest"
  shows "(k', v) \<in> set m" "\<not> before k' k"
    and "x \<in> fst ` set m \<Longrightarrow> before x k' \<longleftrightarrow> before x k"
proof -
  from assms have "\<exists>ls. m = ls @ (k', v) # rest \<and> (\<forall>e \<in> set ls. before (fst e) k) \<and> \<not> before k' k"
  proof (induction m)
    case (Cons e m)
    obtain a w where e: "e = (a, w)" by fastforce
    show ?case
    proof (cases "before a k")
      case True
      with Cons e obtain ls where "m = ls @ (k', v) # rest" "\<forall>e \<in> set ls. before (fst e) k" "\<not> before k' k"
        by (auto simp: map_lower_bound_def)
      with True e show ?thesis by (intro exI [of _ "e # ls"]) simp
    next
      case False
      with Cons.prems e show ?thesis by (auto simp: map_lower_bound_def)
    qed
  qed (simp add: map_lower_bound_def)
  then obtain ls where m: "m = ls @ (k', v) # rest" and ls: "\<forall>e \<in> set ls. before (fst e) k"
    and k': "\<not> before k' k" by blast
  show "(k', v) \<in> set m" "\<not> before k' k" using m k' by simp_all
  assume x: "x \<in> fst ` set m"
  show "before x k' \<longleftrightarrow> before x k"
  proof
    assume "before x k"
    then show "before x k'" using k' total trans by metis
  next
    assume xk': "before x k'"
    have "before k' y" if "y \<in> fst ` set rest" for y
      using assms(1) m that by (auto simp: ordered_def sorted_wrt_append)
    then have "x \<notin> fst ` set rest" "x \<noteq> k'" using xk' asym irrefl by blast+
    then have "x \<in> fst ` set ls" using x m by auto
    then show "before x k" using ls by auto
  qed
qed

lemma lower_bound_exists:
  "k' \<in> fst ` set m \<Longrightarrow> \<not> before k' k \<Longrightarrow> map_lower_bound before k m \<noteq> []"
  by (auto simp: map_lower_bound_def dropWhile_eq_Nil_conv)

end

interpretation ascending: strict_order "(<) :: 'a :: linorder \<Rightarrow> 'a \<Rightarrow> bool"
  by unfold_locales auto

interpretation descending: strict_order "(>) :: 'a :: linorder \<Rightarrow> 'a \<Rightarrow> bool"
  by unfold_locales auto

end
