(* ===== verification/Order_Book.thy ===== *)
theory Order_Book
  imports Ordered_Map
begin

text \<open>
  The call-auction order book of \<open>obr/src/full_order.cpp\<close>: price levels in two ordered maps, the
  scan for the auction price, the replay of the matching that counts the trades, and the five
  best remaining levels of each side.  Integers are mathematical and every conversion and every
  sum that the code keeps in 64 bits is reduced with \<open>u64_of\<close> or \<open>i64_of\<close>.
\<close>

section \<open>Data\<close>

record Order =
  order_id :: int
  order_price :: int
  order_quantity :: int
  order_side :: int

record OptimPriceInfo =
  dealPrice :: int
  expectedDealQuantity :: int
  buyAboveQuantity :: int
  askBelowQuantity :: int
  buyDealPriceLeftQuantity :: int
  askDealPriceRightQuantity :: int

definition optim_gt :: "OptimPriceInfo \<Rightarrow> OptimPriceInfo \<Rightarrow> bool" where
  "optim_gt x y =
     (let quantityDiff = u64_of \<bar>i64_of (buyAboveQuantity x - askBelowQuantity x)\<bar>;
          otherQuantityDiff = u64_of \<bar>i64_of (buyAboveQuantity y - askBelowQuantity y)\<bar>
      in expectedDealQuantity x > expectedDealQuantity y
         \<or> expectedDealQuantity x = expectedDealQuantity y \<and> quantityDiff < otherQuantityDiff)"

record OrderBookStatus =
  nts :: int
  cvl :: int
  cto :: int
  lpr :: int
  bp :: "int list"
  ap :: "int list"
  bs :: "int list"
  asz :: "int list"

definition empty_status :: OrderBookStatus where
  "empty_status = \<lparr>nts = 0, cvl = 0, cto = 0, lpr = 0, bp = replicate 5 0, ap = replicate 5 0,
     bs = replicate 5 0, asz = replicate 5 0\<rparr>"

definition comparator :: "bool \<Rightarrow> int \<Rightarrow> int \<Rightarrow> bool" where
  "comparator is_ascending a b = (if is_ascending then a < b else a > b)"

record PriceLevel =
  quantity :: int
  orders :: "Order list"

definition empty_level :: PriceLevel where
  "empty_level = \<lparr>quantity = 0, orders = []\<rparr>"

type_synonym level_map = "(int \<times> PriceLevel) list"

record OrderBook =
  askPriceMaps :: level_map
  bidPriceMaps :: level_map

section \<open>Iteration over the orders of a side\<close>

text \<open>
  An \<open>OrderIterator\<close> is the pair of the levels from \<open>map_iter\<close> to the end and the orders from
  \<open>list_iter\<close> to the end of the current level.
\<close>

type_synonym order_iterator = "level_map \<times> Order list"

fun advance_to_valid :: "level_map \<Rightarrow> Order list \<Rightarrow> order_iterator" where
  "advance_to_valid [] os = ([], os)"
| "advance_to_valid (l # m) (x # os) = (l # m, x # os)"
| "advance_to_valid (l # m) [] =
     (case m of [] \<Rightarrow> ([], []) | (k', l') # m' \<Rightarrow> advance_to_valid m (orders l'))"

definition order_begin :: "level_map \<Rightarrow> order_iterator" where
  "order_begin m = (case m of [] \<Rightarrow> ([], []) | (k, l) # m' \<Rightarrow> advance_to_valid m (orders l))"

definition order_next :: "order_iterator \<Rightarrow> order_iterator" where
  "order_next it = (if fst it = [] then it else advance_to_valid (fst it) (tl (snd it)))"

definition order_at_end :: "order_iterator \<Rightarrow> bool" where
  "order_at_end it = (fst it = [])"

section \<open>The auction price\<close>

fun prefix_sums :: "(int \<Rightarrow> int \<Rightarrow> bool) \<Rightarrow> level_map \<Rightarrow> int \<Rightarrow> (int \<times> int) list
    \<Rightarrow> int \<times> (int \<times> int) list" where
  "prefix_sums before [] tot sums = (tot, sums)"
| "prefix_sums before ((price, level) # ls) tot sums =
     prefix_sums before ls (u64_of (tot + quantity level)) (map_put before price tot sums)"

definition price_ok :: "int \<Rightarrow> int \<Rightarrow> int \<Rightarrow> int \<Rightarrow> bool" where
  "price_ok buyAbove currBuy askBelow currSell =
     (if i64_of (buyAbove + currBuy) > i64_of (askBelow + currSell)
      then \<not> buyAbove > i64_of (askBelow + currSell)
      else if i64_of (buyAbove + currBuy) < i64_of (askBelow + currSell)
      then \<not> askBelow > i64_of (buyAbove + currBuy)
      else True)"

definition consider_price :: "int \<Rightarrow> int \<Rightarrow> int \<Rightarrow> int \<Rightarrow> int \<Rightarrow> OptimPriceInfo \<Rightarrow> OptimPriceInfo" where
  "consider_price curPrice buyAbove currBuy askBelow currSell optim =
     (if \<not> price_ok buyAbove currBuy askBelow currSell then optim
      else
        let expected = min (i64_of (buyAbove + currBuy)) (i64_of (askBelow + currSell));
            current = \<lparr>dealPrice = curPrice, expectedDealQuantity = expected,
              buyAboveQuantity = buyAbove, askBelowQuantity = askBelow,
              buyDealPriceLeftQuantity = i64_of (currBuy + buyAbove - expected),
              askDealPriceRightQuantity = i64_of (currSell + askBelow - expected)\<rparr>
        in if optim_gt current optim then current else optim)"

definition level_quantity :: "level_map \<Rightarrow> int \<Rightarrow> int" where
  "level_quantity m k = (case map_of m k of None \<Rightarrow> 0 | Some l \<Rightarrow> quantity l)"

definition touch_bid :: "int \<Rightarrow> OrderBook \<Rightarrow> OrderBook" where
  "touch_bid k b = b\<lparr>bidPriceMaps := map_at (comparator False) k empty_level (bidPriceMaps b)\<rparr>"

definition touch_ask :: "int \<Rightarrow> OrderBook \<Rightarrow> OrderBook" where
  "touch_ask k b = b\<lparr>askPriceMaps := map_at (comparator True) k empty_level (askPriceMaps b)\<rparr>"

fun bid_scan :: "(int \<times> int) list \<Rightarrow> (int \<times> int) list \<Rightarrow> int \<Rightarrow> OrderBook \<Rightarrow> OptimPriceInfo
    \<Rightarrow> fault + OrderBook \<times> OptimPriceInfo" where
  "bid_scan [] askPrefixSum minBidPrice b optim = Inr (b, optim)"
| "bid_scan ((k, abv) # bidIt) askPrefixSum minBidPrice b optim =
     (if k < u64_of minBidPrice then Inr (b, optim)
      else
        let curPrice = i64_of k;
            b1 = touch_bid (u64_of curPrice) b;
            currBuy = i64_of (level_quantity (bidPriceMaps b1) (u64_of curPrice))
        in case map_lower_bound (<) (u64_of curPrice) askPrefixSum of
             [] \<Rightarrow> Inl AssertFailed
           | (askPrice, blw) # _ \<Rightarrow>
               let here = (askPrice = u64_of curPrice);
                   b2 = (if here then touch_ask (u64_of curPrice) b1 else b1);
                   currSell = (if here then i64_of (level_quantity (askPriceMaps b2) (u64_of curPrice)) else 0)
               in bid_scan bidIt askPrefixSum minBidPrice b2
                    (consider_price curPrice (i64_of abv) currBuy (i64_of blw) currSell optim))"

fun ask_scan :: "(int \<times> int) list \<Rightarrow> (int \<times> int) list \<Rightarrow> int \<Rightarrow> OrderBook \<Rightarrow> OptimPriceInfo
    \<Rightarrow> fault + OrderBook \<times> OptimPriceInfo" where
  "ask_scan [] bidPrefixSum maxAskPrice b optim = Inr (b, optim)"
| "ask_scan ((k, blw) # askIt) bidPrefixSum maxAskPrice b optim =
     (if k > u64_of maxAskPrice then Inr (b, optim)
      else
        let curPrice = i64_of k;
            b1 = touch_ask (u64_of curPrice) b;
            currSell = i64_of (level_quantity (askPriceMaps b1) (u64_of curPrice))
        in case map_lower_bound (>) (u64_of curPrice) bidPrefixSum of
             [] \<Rightarrow> Inl AssertFailed
           | (bidPrice, abv) # _ \<Rightarrow>
               let here = (bidPrice = u64_of curPrice);
                   b2 = (if here then touch_bid (u64_of curPrice) b1 else b1);
                   currBuy = (if here then i64_of (level_quantity (bidPriceMaps b2) (u64_of curPrice)) else 0)
               in ask_scan askIt bidPrefixSum maxAskPrice b2
                    (consider_price curPrice (i64_of abv) currBuy (i64_of blw) currSell optim))"

text \<open>
  The fields of \<open>optimPriceInfo\<close> other than the expected quantity are not initialised before the
  scans; \<open>junk\<close> stands for what the stack happens to hold.
\<close>

definition auction_price :: "OptimPriceInfo \<Rightarrow> OrderBook \<Rightarrow> fault + OrderBook \<times> OptimPriceInfo" where
  "auction_price junk b =
     (let (totalBid, bidSums) = prefix_sums (>) (bidPriceMaps b) 0 [];
          bidPrefixSum = map_put (>) 0 totalBid bidSums;
          (totalAsk, askSums) = prefix_sums (<) (askPriceMaps b) 0 [];
          askPrefixSum = map_put (<) INT64_MAX totalAsk askSums;
          minBidPrice = i64_of (fst (hd askPrefixSum));
          maxAskPrice = i64_of (fst (hd bidPrefixSum))
      in case bid_scan bidPrefixSum askPrefixSum minBidPrice b
                (junk\<lparr>expectedDealQuantity := - 1\<rparr>) of
           Inl e \<Rightarrow> Inl e
         | Inr (b1, optim) \<Rightarrow> ask_scan askPrefixSum bidPrefixSum maxAskPrice b1 optim)"

section \<open>Replaying the matching\<close>

definition reduce_order :: "int \<Rightarrow> Order \<Rightarrow> Order" where
  "reduce_order v x = x\<lparr>order_quantity := u64_of (order_quantity x - v)\<rparr>"

definition it_measure :: "order_iterator \<Rightarrow> nat" where
  "it_measure it = (if fst it = [] then 0
     else length (snd it) + sum_list (map (\<lambda>l. Suc (length (orders (snd l)))) (tl (fst it))) + 1)"

lemma it_measure_advance: "it_measure (advance_to_valid m os) \<le> it_measure (m, os)"
proof (induction m os rule: advance_to_valid.induct)
  case (3 l m)
  show ?case
  proof (cases m)
    case (Cons e m')
    obtain k' l' where "e = (k', l')" by fastforce
    with 3 Cons have "it_measure (advance_to_valid m (orders l')) \<le> it_measure (m, orders l')" by simp
    with \<open>e = (k', l')\<close> Cons show ?thesis by (simp add: it_measure_def)
  qed (simp add: it_measure_def)
qed (simp_all add: it_measure_def)

lemma it_measure_skip: "m \<noteq> [] \<Longrightarrow> it_measure (advance_to_valid m []) < it_measure (m, [])"
proof (cases m)
  case (Cons l m')
  show ?thesis
  proof (cases m')
    case (Cons e m'')
    obtain k' l' where e: "e = (k', l')" by fastforce
    have "it_measure (advance_to_valid m' (orders l')) \<le> it_measure (m', orders l')"
      by (rule it_measure_advance)
    then show ?thesis using \<open>m = l # m'\<close> Cons e by (simp add: it_measure_def)
  qed (use Cons in \<open>simp add: it_measure_def\<close>)
qed simp

lemma it_measure_next: "fst it \<noteq> [] \<Longrightarrow> it_measure (order_next it) < it_measure it"
proof (cases "snd it = []")
  case True
  assume ne: "fst it \<noteq> []"
  have "order_next it = advance_to_valid (fst it) []" "(fst it, []) = it"
    using ne True by (auto simp: order_next_def intro: prod_eqI)
  then show ?thesis using it_measure_skip [OF ne] by simp
next
  case False
  assume ne: "fst it \<noteq> []"
  then have "it_measure (order_next it) \<le> it_measure (fst it, tl (snd it))"
    using it_measure_advance [of "fst it" "tl (snd it)"] by (simp add: order_next_def)
  also have "\<dots> < it_measure it" using ne False by (simp add: it_measure_def)
  finally show ?thesis .
qed

lemma order_next_not_end: "\<not> order_at_end (order_next it) \<Longrightarrow> it_measure (order_next it) < it_measure it"
  by (rule it_measure_next) (auto simp: order_at_end_def order_next_def)

text \<open>
  The loop keeps a copy of each side's current order and reduces the copies; the book is not
  changed.  An iterator that is not at the end stands on an order, so dereferencing it is
  reading the first order of its list.
\<close>

function match_orders :: "order_iterator \<Rightarrow> order_iterator \<Rightarrow> Order \<Rightarrow> Order \<Rightarrow> int
    \<Rightarrow> order_iterator \<times> order_iterator \<times> int" where
  "match_orders buyOrderIt sellOrderIt buyOrder sellOrder tradeCount =
     (if order_price buyOrder < order_price sellOrder then (buyOrderIt, sellOrderIt, tradeCount)
      else
        let tradeVolume = min (order_quantity buyOrder) (order_quantity sellOrder);
            buyOrder1 = reduce_order tradeVolume buyOrder;
            sellOrder1 = reduce_order tradeVolume sellOrder;
            buyDone = (order_quantity buyOrder1 = 0);
            sellDone = (order_quantity sellOrder1 = 0);
            buyIt1 = (if buyDone then order_next buyOrderIt else buyOrderIt);
            sellIt1 = (if sellDone then order_next sellOrderIt else sellOrderIt)
        in if buyDone \<and> order_at_end buyIt1 \<or> sellDone \<and> order_at_end sellIt1
           then (buyIt1, sellIt1, i64_of (tradeCount + 1))
           else match_orders buyIt1 sellIt1
             (if buyDone then hd (snd buyIt1) else buyOrder1)
             (if sellDone then hd (snd sellIt1) else sellOrder1) (i64_of (tradeCount + 1)))"
  by pat_completeness auto

termination
proof (relation "measure (\<lambda>(bi, si, _). it_measure bi + it_measure si)", goal_cases)
  case (2 bi si bo so n v bo1 so1 bd sd bi1 si1)
  from 2 have "bd \<or> sd"
    by (auto simp: reduce_order_def min_def u64_of_def)
  moreover have "bd \<Longrightarrow> it_measure bi1 < it_measure bi" "\<not> bd \<Longrightarrow> bi1 = bi"
    "sd \<Longrightarrow> it_measure si1 < it_measure si" "\<not> sd \<Longrightarrow> si1 = si"
    using 2 order_next_not_end by auto
  ultimately show ?case by (cases bd; cases sd) auto
qed simp

declare match_orders.simps [simp del]

section \<open>The remaining levels\<close>

fun fill_bids :: "nat \<Rightarrow> level_map \<Rightarrow> OptimPriceInfo \<Rightarrow> OrderBookStatus \<Rightarrow> OrderBookStatus" where
  "fill_bids (Suc count) ((price, level) # bidIter) optim st =
     fill_bids count bidIter optim
       (st\<lparr>bp := (bp st)[count := i32_of price],
           bs := (bs st)[count := i32_of (if price = u64_of (dealPrice optim)
                   then buyDealPriceLeftQuantity optim else quantity level)]\<rparr>)"
| "fill_bids _ _ optim st = st"

fun fill_asks :: "nat \<Rightarrow> level_map \<Rightarrow> OptimPriceInfo \<Rightarrow> OrderBookStatus \<Rightarrow> OrderBookStatus" where
  "fill_asks count [] optim st = st"
| "fill_asks count ((price, level) # askIter) optim st =
     (if count < 5
      then fill_asks (Suc count) askIter optim
        (st\<lparr>ap := (ap st)[count := i32_of price],
            asz := (asz st)[count := i32_of (if price = u64_of (dealPrice optim)
                     then askDealPriceRightQuantity optim else quantity level)]\<rparr>)
      else st)"

section \<open>The operations of the book\<close>

text \<open>
  \<open>flushStatus\<close> also returns the book, because \<open>operator[]\<close> in the scans may insert levels.
  Dereferencing an iterator at the end is an access outside the book.
\<close>

definition flushStatus :: "OptimPriceInfo \<Rightarrow> OrderBook \<Rightarrow> fault + OrderBookStatus \<times> OrderBook" where
  "flushStatus junk b =
     (if bidPriceMaps b = [] \<or> askPriceMaps b = [] then Inr (empty_status, b)
      else if fst (hd (bidPriceMaps b)) < fst (hd (askPriceMaps b)) then Inr (empty_status, b)
      else case auction_price junk b of
        Inl e \<Rightarrow> Inl e
      | Inr (b1, optim) \<Rightarrow>
          let buyIt = order_begin (bidPriceMaps b1); sellIt = order_begin (askPriceMaps b1)
          in if order_at_end buyIt \<or> order_at_end sellIt then Inl OutOfBounds
             else
               let (buyIt1, sellIt1, tradeCount) =
                     match_orders buyIt sellIt (hd (snd buyIt)) (hd (snd sellIt)) 0;
                   cvl = expectedDealQuantity optim;
                   st = empty_status\<lparr>lpr := dealPrice optim, cvl := cvl,
                     cto := tdiv (i64_of (cvl * dealPrice optim)) 10000, nts := u64_of tradeCount\<rparr>
               in Inr (fill_asks 0 (fst sellIt1) optim (fill_bids 5 (fst buyIt1) optim st), b1))"

definition add_to_level :: "Order \<Rightarrow> PriceLevel \<Rightarrow> PriceLevel" where
  "add_to_level x l = l\<lparr>quantity := u64_of (quantity l + order_quantity x), orders := orders l @ [x]\<rparr>"

definition add_order :: "Order \<Rightarrow> OrderBook \<Rightarrow> OrderBook" where
  "add_order x b =
     (let k = u64_of (order_price x)
      in if order_side x = 1 then
           let b1 = touch_bid k b; m = bidPriceMaps b1
           in b1\<lparr>bidPriceMaps := map_put (comparator False) k (add_to_level x (the (map_of m k))) m\<rparr>
         else if order_side x = 2 then
           let b1 = touch_ask k b; m = askPriceMaps b1
           in b1\<lparr>askPriceMaps := map_put (comparator True) k (add_to_level x (the (map_of m k))) m\<rparr>
         else b)"

definition insertOrder :: "OptimPriceInfo \<Rightarrow> Order \<Rightarrow> OrderBook \<Rightarrow> fault + OrderBookStatus \<times> OrderBook" where
  "insertOrder junk x b = flushStatus junk (add_order x b)"

definition new_book :: OrderBook where
  "new_book = \<lparr>askPriceMaps = [], bidPriceMaps = []\<rparr>"

end
