(* ===== verification/Auction.thy ===== *)
theory Auction
  imports Order_Book "HOL-Library.Product_Lexorder"
begin

text \<open>
  Correctness of the order book: the invariant of the price levels, what the two scans of
  \<open>flushStatus\<close> compute, and that the price they choose is an optimal call-auction price.
\<close>

section \<open>Demand and offer\<close>

definition demand :: "OrderBook \<Rightarrow> int \<Rightarrow> int" where
  "demand b p = key_sum quantity (\<lambda>k. k \<ge> p) (bidPriceMaps b)"

definition demand_above :: "OrderBook \<Rightarrow> int \<Rightarrow> int" where
  "demand_above b p = key_sum quantity (\<lambda>k. k > p) (bidPriceMaps b)"

definition offer :: "OrderBook \<Rightarrow> int \<Rightarrow> int" where
  "offer b p = key_sum quantity (\<lambda>k. k \<le> p) (askPriceMaps b)"

definition offer_below :: "OrderBook \<Rightarrow> int \<Rightarrow> int" where
  "offer_below b p = key_sum quantity (\<lambda>k. k < p) (askPriceMaps b)"

definition executable_volume :: "OrderBook \<Rightarrow> int \<Rightarrow> int" where
  "executable_volume b p = min (demand b p) (offer b p)"

text \<open>
  The auction rule for a price: all better-priced orders are filled, and one side is filled
  completely at that price.
\<close>

definition auction_ok :: "OrderBook \<Rightarrow> int \<Rightarrow> bool" where
  "auction_ok b p \<longleftrightarrow> (demand b p > offer b p \<longrightarrow> demand_above b p \<le> offer b p)
     \<and> (demand b p < offer b p \<longrightarrow> offer_below b p \<le> demand b p)"

section \<open>The invariant of the book\<close>

definition level_ok :: "int \<Rightarrow> int \<times> PriceLevel \<Rightarrow> bool" where
  "level_ok side e \<longleftrightarrow> (case e of (k, l) \<Rightarrow> 0 < k \<and> k < INT64_MAX \<and> orders l \<noteq> []
     \<and> (\<forall>x \<in> set (orders l). order_price x = k \<and> order_side x = side \<and> 0 \<le> order_quantity x)
     \<and> quantity l = sum_list (map order_quantity (orders l)))"

definition book_inv :: "OrderBook \<Rightarrow> bool" where
  "book_inv b \<longleftrightarrow> ordered (>) (bidPriceMaps b) \<and> ordered (<) (askPriceMaps b)
     \<and> (\<forall>e \<in> set (bidPriceMaps b). level_ok 1 e) \<and> (\<forall>e \<in> set (askPriceMaps b). level_ok 2 e)
     \<and> key_sum quantity (\<lambda>_. True) (bidPriceMaps b) \<le> INT64_MAX
     \<and> key_sum quantity (\<lambda>_. True) (askPriceMaps b) \<le> INT64_MAX"

lemma comparator_simps [simp]: "comparator True = (<)" "comparator False = (>)"
  by (simp_all add: fun_eq_iff comparator_def)

lemma sum_list_nonneg_map: "(\<And>x. x \<in> set xs \<Longrightarrow> 0 \<le> f x) \<Longrightarrow> 0 \<le> sum_list (map f xs :: int list)"
  by (induction xs) auto

lemma level_okD:
  "level_ok s (k, l) \<Longrightarrow> 0 < k \<and> k < INT64_MAX \<and> 0 \<le> quantity l \<and> orders l \<noteq> []"
  by (auto simp: level_ok_def intro!: sum_list_nonneg_map)

lemma book_bids:
  assumes "book_inv b"
  shows "ordered (>) (bidPriceMaps b)" "\<forall>l \<in> snd ` set (bidPriceMaps b). 0 \<le> quantity l"
    and "k \<in> fst ` set (bidPriceMaps b) \<Longrightarrow> 0 < k \<and> k < INT64_MAX"
    and "key_sum quantity (\<lambda>_. True) (bidPriceMaps b) \<le> INT64_MAX"
  using assms level_okD by (fastforce simp: book_inv_def)+

lemma book_asks:
  assumes "book_inv b"
  shows "ordered (<) (askPriceMaps b)" "\<forall>l \<in> snd ` set (askPriceMaps b). 0 \<le> quantity l"
    and "k \<in> fst ` set (askPriceMaps b) \<Longrightarrow> 0 < k \<and> k < INT64_MAX"
    and "key_sum quantity (\<lambda>_. True) (askPriceMaps b) \<le> INT64_MAX"
  using assms level_okD by (fastforce simp: book_inv_def)+

section \<open>Any acceptable price is optimal, and a crossed book has one\<close>

lemma demand_mono: "book_inv b \<Longrightarrow> p \<le> q \<Longrightarrow> demand b q \<le> demand b p"
  unfolding demand_def by (rule key_sum_mono [OF book_bids(2)]) auto

lemma offer_mono: "book_inv b \<Longrightarrow> p \<le> q \<Longrightarrow> offer b p \<le> offer b q"
  unfolding offer_def by (rule key_sum_mono [OF book_asks(2)]) auto

lemma demand_le_above: "book_inv b \<Longrightarrow> p < q \<Longrightarrow> demand b q \<le> demand_above b p"
  unfolding demand_def demand_above_def by (rule key_sum_mono [OF book_bids(2)]) auto

lemma offer_le_below: "book_inv b \<Longrightarrow> p < q \<Longrightarrow> offer b p \<le> offer_below b q"
  unfolding offer_def offer_below_def by (rule key_sum_mono [OF book_asks(2)]) auto

lemma demand_above_le: "book_inv b \<Longrightarrow> demand_above b p \<le> demand b p"
  unfolding demand_def demand_above_def by (rule key_sum_mono [OF book_bids(2)]) auto

lemma demand_bounds: "book_inv b \<Longrightarrow> 0 \<le> demand b p \<and> demand b p \<le> INT64_MAX"
  using key_sum_nonneg [OF book_bids(2)] key_sum_mono [OF book_bids(2), of b "\<lambda>k. k \<ge> p" "\<lambda>_. True"]
    book_bids(4) [of b] unfolding demand_def by force

lemma demand_above_bounds: "book_inv b \<Longrightarrow> 0 \<le> demand_above b p \<and> demand_above b p \<le> INT64_MAX"
  using key_sum_nonneg [OF book_bids(2)] key_sum_mono [OF book_bids(2), of b "\<lambda>k. k > p" "\<lambda>_. True"]
    book_bids(4) [of b] unfolding demand_above_def by force

lemma offer_bounds: "book_inv b \<Longrightarrow> 0 \<le> offer b p \<and> offer b p \<le> INT64_MAX"
  using key_sum_nonneg [OF book_asks(2)] key_sum_mono [OF book_asks(2), of b "\<lambda>k. k \<le> p" "\<lambda>_. True"]
    book_asks(4) [of b] unfolding offer_def by force

lemma offer_below_bounds: "book_inv b \<Longrightarrow> 0 \<le> offer_below b p \<and> offer_below b p \<le> INT64_MAX"
  using key_sum_nonneg [OF book_asks(2)] key_sum_mono [OF book_asks(2), of b "\<lambda>k. k < p" "\<lambda>_. True"]
    book_asks(4) [of b] unfolding offer_below_def by force

lemma auction_ok_optimal:
  assumes inv: "book_inv b" and ok: "auction_ok b p"
  shows "executable_volume b x \<le> executable_volume b p"
proof (cases x p rule: linorder_cases)
  case less
  then have "offer b x \<le> offer_below b p" "offer b x \<le> offer b p" "demand b p \<le> demand b x"
    using inv by (simp_all add: offer_le_below offer_mono demand_mono)
  with ok show ?thesis by (auto simp: auction_ok_def executable_volume_def)
next
  case greater
  then have "demand b x \<le> demand_above b p" "demand b x \<le> demand b p" "offer b p \<le> offer b x"
    using inv by (simp_all add: demand_le_above offer_mono demand_mono)
  with ok demand_above_le [OF inv, of p] show ?thesis by (auto simp: auction_ok_def executable_volume_def)
qed simp

text \<open>The prices that the two scans look at.\<close>

definition candidate :: "OrderBook \<Rightarrow> int \<Rightarrow> bool" where
  "candidate b k \<longleftrightarrow> k \<in> fst ` set (bidPriceMaps b) \<and> fst (hd (askPriceMaps b)) \<le> k
     \<or> k \<in> fst ` set (askPriceMaps b) \<and> k \<le> fst (hd (bidPriceMaps b))"

definition crossed :: "OrderBook \<Rightarrow> bool" where
  "crossed b \<longleftrightarrow> bidPriceMaps b \<noteq> [] \<and> askPriceMaps b \<noteq> []
     \<and> fst (hd (askPriceMaps b)) \<le> fst (hd (bidPriceMaps b))"

lemma hd_bid_max: "book_inv b \<Longrightarrow> k \<in> fst ` set (bidPriceMaps b) \<Longrightarrow> k \<le> fst (hd (bidPriceMaps b))"
  using book_bids(1) [of b] by (cases "bidPriceMaps b") (fastforce simp: less_imp_le)+

lemma hd_ask_min: "book_inv b \<Longrightarrow> k \<in> fst ` set (askPriceMaps b) \<Longrightarrow> fst (hd (askPriceMaps b)) \<le> k"
  using book_asks(1) [of b] by (cases "askPriceMaps b") (fastforce simp: less_imp_le)+

lemma finite_candidates: "finite {k. candidate b k}"
  by (rule finite_subset [of _ "fst ` set (bidPriceMaps b) \<union> fst ` set (askPriceMaps b)"])
    (auto simp: candidate_def)

lemma candidate_range:
  "book_inv b \<Longrightarrow> candidate b k \<Longrightarrow> fst (hd (askPriceMaps b)) \<le> k \<and> k \<le> fst (hd (bidPriceMaps b))"
  unfolding candidate_def using hd_bid_max [of b k] hd_ask_min [of b k] by blast

text \<open>
  The largest key of a side inside an open interval, when the sums on its two ends differ.
\<close>

lemma last_key_between:
  assumes "key_sum w (\<lambda>k. r < k) m \<noteq> key_sum w (\<lambda>k. p \<le> k) m" "r < (p :: int)"
  obtains q where "q \<in> fst ` set m" "r < q" "q < p" "key_sum w (\<lambda>k. q < k) m = key_sum w (\<lambda>k. p \<le> k) m"
proof -
  let ?K = "{k \<in> fst ` set m. r < k \<and> k < p}"
  from key_sum_neq_ex [OF assms(1)] assms(2) have ne: "?K \<noteq> {}" by force
  have fin: "finite ?K" by simp
  let ?q = "Max ?K"
  have q: "?q \<in> ?K" using Max_in [OF fin ne] .
  have "key_sum w (\<lambda>k. ?q < k) m = key_sum w (\<lambda>k. p \<le> k) m"
  proof (rule key_sum_cong)
    fix k assume k: "k \<in> fst ` set m"
    show "?q < k \<longleftrightarrow> p \<le> k"
    proof
      assume "?q < k"
      show "p \<le> k"
      proof (rule ccontr)
        assume "\<not> p \<le> k"
        then have "k \<in> ?K" using k \<open>?q < k\<close> q by auto
        then show False using Max_ge [OF fin] \<open>?q < k\<close> by fastforce
      qed
    next
      assume "p \<le> k" then show "?q < k" using q by auto
    qed
  qed
  with q that show thesis by blast
qed

lemma last_ask_below:
  assumes "0 < key_sum w (\<lambda>k. k < p) m"
  obtains r where "r \<in> fst ` set m" "r < (p :: int)" "key_sum w (\<lambda>k. k \<le> r) m = key_sum w (\<lambda>k. k < p) m"
proof -
  let ?K = "{k \<in> fst ` set m. k < p}"
  have ne: "?K \<noteq> {}" using assms key_sum_empty [of m "\<lambda>k. k < p" w] by auto
  have fin: "finite ?K" by simp
  let ?r = "Max ?K"
  have r: "?r \<in> ?K" using Max_in [OF fin ne] .
  have "key_sum w (\<lambda>k. k \<le> ?r) m = key_sum w (\<lambda>k. k < p) m"
  proof (rule key_sum_cong)
    fix k assume "k \<in> fst ` set m"
    then have "k < p \<Longrightarrow> k \<le> ?r" by (intro Max_ge [OF fin]) simp
    then show "k \<le> ?r \<longleftrightarrow> k < p" using r by auto
  qed
  with r that show thesis by blast
qed

lemma crossed_has_price:
  assumes inv: "book_inv b" and cr: "crossed b"
  obtains p where "candidate b p" "auction_ok b p"
proof -
  let ?C = "{k. candidate b k \<and> demand_above b k \<le> offer b k}"
  have fin: "finite ?C" by (rule finite_subset [OF _ finite_candidates [of b]]) auto
  have "fst (hd (bidPriceMaps b)) \<in> ?C"
  proof -
    have "demand_above b (fst (hd (bidPriceMaps b))) = 0"
      unfolding demand_above_def using hd_bid_max [OF inv] by (intro key_sum_empty) (simp add: not_less)
    then show ?thesis using cr offer_bounds [OF inv] by (auto simp: candidate_def crossed_def)
  qed
  then have ne: "?C \<noteq> {}" by blast
  define p where "p = Min ?C"
  have p: "candidate b p" "demand_above b p \<le> offer b p" using Min_in [OF fin ne] by (auto simp: p_def)
  have least: "\<not> demand_above b k \<le> offer b k" if "candidate b k" "k < p" for k
    using that Min_le [OF fin, of k] by (auto simp: p_def)
  note rng = candidate_range [OF inv p(1)]
  have "offer_below b p \<le> demand b p"
  proof (rule ccontr)
    assume "\<not> offer_below b p \<le> demand b p"
    then have gt: "demand b p < offer_below b p" by simp
    then have "0 < offer_below b p" using demand_bounds [OF inv, of p] by simp
    then obtain r where r: "r \<in> fst ` set (askPriceMaps b)" "r < p" "offer b r = offer_below b p"
      unfolding offer_below_def offer_def by (rule last_ask_below)
    have "candidate b r" using r rng by (auto simp: candidate_def)
    from least [OF this r(2)] r gt have "demand b p \<noteq> demand_above b r" by simp
    then obtain q where q: "q \<in> fst ` set (bidPriceMaps b)" "r < q" "q < p" "demand_above b q = demand b p"
      unfolding demand_above_def demand_def
      using last_key_between [of quantity r "bidPriceMaps b" p] r(2) by metis
    have "candidate b q" using q r hd_ask_min [OF inv r(1)] by (auto simp: candidate_def)
    from least [OF this q(3)] have "offer b q < demand b p" using q by simp
    moreover have "offer b r \<le> offer b q" using q inv by (intro offer_mono) auto
    ultimately show False using r gt by simp
  qed
  then have "auction_ok b p" using p by (simp add: auction_ok_def)
  with p that show thesis by blast
qed

section \<open>The tables of prefix sums\<close>

text \<open>
  A prefix table of a side holds, for every price of the side and for a sentinel that comes
  after all of them, the quantity that comes before that price.
\<close>

definition prefix_table :: "(int \<Rightarrow> int \<Rightarrow> bool) \<Rightarrow> int \<Rightarrow> level_map \<Rightarrow> (int \<times> int) list \<Rightarrow> bool" where
  "prefix_table before e m t \<longleftrightarrow>
     t = map (\<lambda>k. (k, key_sum quantity (\<lambda>x. before x k) m)) (map fst m @ [e])
     \<and> ordered before t"

lemma ordered_append:
  "ordered before (xs @ ys) \<longleftrightarrow> ordered before xs \<and> ordered before ys
     \<and> (\<forall>x \<in> fst ` set xs. \<forall>y \<in> fst ` set ys. before x y)"
  by (simp add: ordered_def sorted_wrt_append)

lemma map_put_tabulate:
  assumes "strict_order before" "ordered before xs" "\<And>x. x \<in> fst ` set xs \<Longrightarrow> before x k"
  shows "map_put before k v (map (\<lambda>k. (k, g k)) (map fst xs)) = map (\<lambda>k. (k, g k)) (map fst xs) @ [(k, v)]"
  using assms(2,3)
  by (intro strict_order.map_put_last [OF assms(1)]) (auto simp: ordered_def comp_def image_image)

lemma prefix_sums_table:
  assumes so: "strict_order before"
    and "ordered before (xs @ m)" "\<forall>l \<in> snd ` set (xs @ m). 0 \<le> quantity l"
    and "key_sum quantity (\<lambda>_. True) (xs @ m) \<le> INT64_MAX"
  shows "prefix_sums before m (key_sum quantity (\<lambda>_. True) xs)
      (map (\<lambda>k. (k, key_sum quantity (\<lambda>x. before x k) (xs @ m))) (map fst xs))
    = (key_sum quantity (\<lambda>_. True) (xs @ m),
       map (\<lambda>k. (k, key_sum quantity (\<lambda>x. before x k) (xs @ m))) (map fst (xs @ m)))"
  using assms(2-)
proof (induction m arbitrary: xs)
  case (Cons e m)
  obtain k l where e: "e = (k, l)" by fastforce
  let ?all = "xs @ e # m"
  let ?f = "\<lambda>k. (k, key_sum quantity (\<lambda>x. before x k) ?all)"
  have pre: "before x k" if "x \<in> fst ` set xs" for x
    using Cons.prems(1) e that by (auto simp: ordered_append)
  have suf: "before k x" if "x \<in> fst ` set m" for x
    using Cons.prems(1) e that by (auto simp: ordered_append)
  have nonneg: "0 \<le> key_sum quantity (\<lambda>_. True) xs" "0 \<le> key_sum quantity (\<lambda>_. True) m"
    using Cons.prems(2) by (intro key_sum_nonneg; auto)+
  then have tot: "u64_of (key_sum quantity (\<lambda>_. True) xs + quantity l)
      = key_sum quantity (\<lambda>_. True) (xs @ [e])"
    using Cons.prems e by (subst u64_of_id) auto
  have here: "key_sum quantity (\<lambda>x. before x k) ?all = key_sum quantity (\<lambda>_. True) xs"
  proof -
    have "key_sum quantity (\<lambda>x. before x k) xs = key_sum quantity (\<lambda>_. True) xs"
      using pre by (intro key_sum_cong) simp
    moreover have "key_sum quantity (\<lambda>x. before x k) (e # m) = 0"
      using suf strict_order.asym [OF so] strict_order.irrefl [OF so] e by (intro key_sum_empty) auto
    ultimately show ?thesis by simp
  qed
  have "ordered before xs" using Cons.prems(1) by (simp add: ordered_append)
  from map_put_tabulate [OF so this pre, of "key_sum quantity (\<lambda>_. True) xs"
      "\<lambda>k. key_sum quantity (\<lambda>x. before x k) ?all"] here e
  have "map_put before k (key_sum quantity (\<lambda>_. True) xs) (map ?f (map fst xs))
      = map ?f (map fst (xs @ [e]))" by simp
  with Cons.IH [of "xs @ [e]"] Cons.prems tot e show ?case by simp
qed simp

lemma prefix_table_of:
  assumes so: "strict_order before"
    and m: "ordered before m" "\<forall>l \<in> snd ` set m. 0 \<le> quantity l"
    and small: "key_sum quantity (\<lambda>_. True) m \<le> INT64_MAX"
    and e: "\<And>k. k \<in> fst ` set m \<Longrightarrow> before k e"
    and ps: "prefix_sums before m 0 [] = (tot, sums)"
  shows "prefix_table before e m (map_put before e tot sums)"
proof -
  have "prefix_sums before m 0 []
    = (key_sum quantity (\<lambda>_. True) m, map (\<lambda>k. (k, key_sum quantity (\<lambda>x. before x k) m)) (map fst m))"
    using prefix_sums_table [OF so, of "[]" m] m small by simp
  with ps have tot: "tot = key_sum quantity (\<lambda>_. True) m"
    and sums: "sums = map (\<lambda>k. (k, key_sum quantity (\<lambda>x. before x k) m)) (map fst m)" by simp_all
  have "tot = key_sum quantity (\<lambda>x. before x e) m"
    unfolding tot using e by (intro key_sum_cong) simp
  moreover have "map_put before e tot sums = sums @ [(e, tot)]"
    unfolding sums by (rule map_put_tabulate [OF so m(1) e])
  moreover have "ordered before (sums @ [(e, tot)])"
    using m(1) e by (auto simp: sums ordered_def comp_def sorted_wrt_append)
  ultimately show ?thesis by (simp add: prefix_table_def sums)
qed

lemma prefix_table_lower_bound:
  assumes so: "strict_order before" and t: "prefix_table before e m t"
    and e: "\<not> before e c" "c \<noteq> e"
  obtains k rest where "map_lower_bound before c t = (k, key_sum quantity (\<lambda>x. before x c) m) # rest"
    and "k = c \<longleftrightarrow> c \<in> fst ` set m"
proof -
  have keys: "fst ` set t = insert e (fst ` set m)" using t by (auto simp: prefix_table_def image_image)
  with strict_order.lower_bound_exists [OF so, of e t c] e obtain k v rest
    where lb: "map_lower_bound before c t = (k, v) # rest"
    by (cases "map_lower_bound before c t") auto
  from t have ord: "ordered before t" unfolding prefix_table_def by blast
  note first = strict_order.lower_bound_first [OF so ord lb]
  have "v = key_sum quantity (\<lambda>x. before x k) m" using first(1) t by (auto simp: prefix_table_def)
  also have "\<dots> = key_sum quantity (\<lambda>x. before x c) m"
    using first(3) keys by (intro key_sum_cong) simp
  finally have v: "v = key_sum quantity (\<lambda>x. before x c) m" .
  have "k = c \<longleftrightarrow> c \<in> fst ` set m"
  proof
    assume "k = c"
    with first(1) have "c \<in> fst ` set t" by force
    with keys e(2) show "c \<in> fst ` set m" by simp
  next
    assume "c \<in> fst ` set m"
    then have "\<not> before c k" using first(3) [of c] keys strict_order.irrefl [OF so] by auto
    then show "k = c" using first(2) strict_order.eqI [OF so] by metis
  qed
  with lb v that show thesis by simp
qed

section \<open>What the scans compute\<close>

lemma level_quantity_key_sum:
  assumes "strict_order before" "ordered before m"
  shows "level_quantity m k = key_sum quantity (\<lambda>x. x = k) m"
  using assms(2)
proof (induction m)
  case (Cons e m)
  obtain k' l where e: "e = (k', l)" by fastforce
  have "key_sum quantity (\<lambda>x. x = k) m = 0" if "k = k'"
    using that Cons.prems e strict_order.irrefl [OF assms(1)] by (intro key_sum_empty) auto
  with Cons e show ?case by (auto simp: level_quantity_def)
qed (simp add: level_quantity_def)

definition weigh :: "OrderBook \<Rightarrow> int \<Rightarrow> OptimPriceInfo \<Rightarrow> OptimPriceInfo" where
  "weigh b k = consider_price k (demand_above b k) (key_sum quantity (\<lambda>x. x = k) (bidPriceMaps b))
     (offer_below b k) (key_sum quantity (\<lambda>x. x = k) (askPriceMaps b))"

lemma at_price_bounds:
  assumes "book_inv b"
  shows "0 \<le> key_sum quantity (\<lambda>x. x = k) (bidPriceMaps b)"
    "key_sum quantity (\<lambda>x. x = k) (bidPriceMaps b) \<le> INT64_MAX"
    "0 \<le> key_sum quantity (\<lambda>x. x = k) (askPriceMaps b)"
    "key_sum quantity (\<lambda>x. x = k) (askPriceMaps b) \<le> INT64_MAX"
  using key_sum_nonneg [OF book_bids(2) [OF assms]] key_sum_nonneg [OF book_asks(2) [OF assms]]
    key_sum_mono [OF book_bids(2) [OF assms], of "\<lambda>x. x = k" "\<lambda>_. True"]
    key_sum_mono [OF book_asks(2) [OF assms], of "\<lambda>x. x = k" "\<lambda>_. True"]
    book_bids(4) [OF assms] book_asks(4) [OF assms] by force+

lemma demand_split: "demand b p = demand_above b p + key_sum quantity (\<lambda>x. x = p) (bidPriceMaps b)"
  unfolding demand_def demand_above_def by (rule key_sum_split) auto

lemma offer_split: "offer b p = offer_below b p + key_sum quantity (\<lambda>x. x = p) (askPriceMaps b)"
  unfolding offer_def offer_below_def by (rule key_sum_split) auto

lemma touch_present:
  "book_inv b \<Longrightarrow> k \<in> fst ` set (bidPriceMaps b) \<Longrightarrow> touch_bid k b = b"
  "book_inv b \<Longrightarrow> k \<in> fst ` set (askPriceMaps b) \<Longrightarrow> touch_ask k b = b"
  using descending.map_at_present [OF book_bids(1), of b k] ascending.map_at_present [OF book_asks(1), of b k]
  by (simp_all add: touch_bid_def touch_ask_def)

lemmas side_quantity =
  level_quantity_key_sum [OF descending.strict_order_axioms book_bids(1)]
  level_quantity_key_sum [OF ascending.strict_order_axioms book_asks(1)]

lemma absent_quantity: "k \<notin> fst ` set m \<Longrightarrow> key_sum w (\<lambda>x. x = k) m = 0"
  by (rule key_sum_empty) auto

lemma bid_scan_step:
  assumes inv: "book_inv b" and t: "prefix_table (<) INT64_MAX (askPriceMaps b) t"
    and k: "k \<in> fst ` set (bidPriceMaps b)" and le: "u64_of mn \<le> k"
  shows "bid_scan ((k, demand_above b k) # its) t mn b optim = bid_scan its t mn b (weigh b k optim)"
proof -
  have rng: "0 < k" "k < INT64_MAX" using book_bids(3) [OF inv k] by auto
  then have conv: "i64_of k = k" "u64_of k = k" by (simp_all add: sizet)
  obtain a rest where lb: "map_lower_bound (<) k t = (a, offer_below b k) # rest"
    and a: "a = k \<longleftrightarrow> k \<in> fst ` set (askPriceMaps b)"
    using prefix_table_lower_bound [OF ascending.strict_order_axioms t, of k] rng
    unfolding offer_below_def by auto
  note q = at_price_bounds [OF inv, of k] demand_above_bounds [OF inv, of k] offer_below_bounds [OF inv, of k]
  show ?thesis
    using le a q
    by (simp add: conv lb touch_present [OF inv] k side_quantity [OF inv] i64_of_id weigh_def
        absent_quantity Let_def)
qed

lemma ask_scan_step:
  assumes inv: "book_inv b" and t: "prefix_table (>) 0 (bidPriceMaps b) t"
    and k: "k \<in> fst ` set (askPriceMaps b)" and le: "k \<le> u64_of mx"
  shows "ask_scan ((k, offer_below b k) # its) t mx b optim = ask_scan its t mx b (weigh b k optim)"
proof -
  have rng: "0 < k" "k < INT64_MAX" using book_asks(3) [OF inv k] by auto
  then have conv: "i64_of k = k" "u64_of k = k" by (simp_all add: sizet)
  obtain a rest where lb: "map_lower_bound (>) k t = (a, demand_above b k) # rest"
    and a: "a = k \<longleftrightarrow> k \<in> fst ` set (bidPriceMaps b)"
    using prefix_table_lower_bound [OF descending.strict_order_axioms t, of k] rng
    unfolding demand_above_def by auto
  note q = at_price_bounds [OF inv, of k] demand_above_bounds [OF inv, of k] offer_below_bounds [OF inv, of k]
  show ?thesis
    using le a q
    by (simp add: conv lb touch_present [OF inv] k side_quantity [OF inv] i64_of_id weigh_def
        absent_quantity Let_def)
qed

lemma bid_scan_all:
  assumes inv: "book_inv b" and t: "prefix_table (<) INT64_MAX (askPriceMaps b) t" and mn: "0 < u64_of mn"
    and ks: "set ks \<subseteq> fst ` set (bidPriceMaps b)"
  shows "bid_scan (map (\<lambda>k. (k, demand_above b k)) ks @ [(0, tot)]) t mn b optim
    = Inr (b, fold (weigh b) (takeWhile (\<lambda>k. u64_of mn \<le> k) ks) optim)"
  using ks
proof (induction ks arbitrary: optim)
  case (Cons k ks)
  show ?case
  proof (cases "u64_of mn \<le> k")
    case True
    with Cons bid_scan_step [OF inv t, of k mn "map (\<lambda>k. (k, demand_above b k)) ks @ [(0, tot)]" optim]
    show ?thesis by (simp del: bid_scan.simps)
  qed simp
qed (simp add: mn)

lemma ask_scan_all:
  assumes inv: "book_inv b" and t: "prefix_table (>) 0 (bidPriceMaps b) t" and mx: "u64_of mx < INT64_MAX"
    and ks: "set ks \<subseteq> fst ` set (askPriceMaps b)"
  shows "ask_scan (map (\<lambda>k. (k, offer_below b k)) ks @ [(INT64_MAX, tot)]) t mx b optim
    = Inr (b, fold (weigh b) (takeWhile (\<lambda>k. k \<le> u64_of mx) ks) optim)"
  using ks
proof (induction ks arbitrary: optim)
  case (Cons k ks)
  show ?case
  proof (cases "k \<le> u64_of mx")
    case True
    with Cons ask_scan_step [OF inv t, of k mx "map (\<lambda>k. (k, offer_below b k)) ks @ [(INT64_MAX, tot)]" optim]
    show ?thesis by (simp del: ask_scan.simps)
  qed simp
qed (simp add: mx)

lemma takeWhile_sorted:
  "sorted_wrt R xs \<Longrightarrow> (\<And>x y. R x y \<Longrightarrow> P y \<Longrightarrow> P x) \<Longrightarrow> takeWhile P xs = filter P xs"
proof (induction xs)
  case (Cons x xs)
  have "filter P xs = []" if "\<not> P x"
    using that Cons.prems by (auto simp: filter_empty_conv)
  with Cons show ?case by simp
qed simp

definition candidates :: "OrderBook \<Rightarrow> int list" where
  "candidates b = filter (\<lambda>k. fst (hd (askPriceMaps b)) \<le> k) (map fst (bidPriceMaps b))
     @ filter (\<lambda>k. k \<le> fst (hd (bidPriceMaps b))) (map fst (askPriceMaps b))"

lemma set_candidates: "k \<in> set (candidates b) \<longleftrightarrow> candidate b k"
  by (auto simp: candidates_def candidate_def)

lemma auction_price_fold:
  assumes inv: "book_inv b" and ne: "bidPriceMaps b \<noteq> []" "askPriceMaps b \<noteq> []"
  shows "auction_price junk b = Inr (b, fold (weigh b) (candidates b) (junk\<lparr>expectedDealQuantity := - 1\<rparr>))"
proof -
  let ?bids = "bidPriceMaps b" and ?asks = "askPriceMaps b"
  obtain tb bsums where pb: "prefix_sums (>) ?bids 0 [] = (tb, bsums)" by fastforce
  obtain ta asums where pa: "prefix_sums (<) ?asks 0 [] = (ta, asums)" by fastforce
  let ?bt = "map_put (>) 0 tb bsums" and ?at = "map_put (<) INT64_MAX ta asums"
  have bt: "prefix_table (>) 0 ?bids ?bt"
    using book_bids [OF inv] pb by (intro prefix_table_of descending.strict_order_axioms) auto
  have at: "prefix_table (<) INT64_MAX ?asks ?at"
    using book_asks [OF inv] pa by (intro prefix_table_of ascending.strict_order_axioms) auto
  have bt_eq: "?bt = map (\<lambda>k. (k, demand_above b k)) (map fst ?bids) @ [(0, demand_above b 0)]"
    using bt by (simp add: prefix_table_def demand_above_def)
  have at_eq: "?at = map (\<lambda>k. (k, offer_below b k)) (map fst ?asks) @ [(INT64_MAX, offer_below b INT64_MAX)]"
    using at by (simp add: prefix_table_def offer_below_def)
  have hd: "fst (hd ?bt) = fst (hd ?bids)" "fst (hd ?at) = fst (hd ?asks)"
    unfolding bt_eq at_eq using ne by (simp_all add: hd_append hd_map)
  have rng: "0 < fst (hd ?bids)" "fst (hd ?bids) < INT64_MAX" "0 < fst (hd ?asks)" "fst (hd ?asks) < INT64_MAX"
    using book_bids(3) [OF inv, of "fst (hd ?bids)"] book_asks(3) [OF inv, of "fst (hd ?asks)"] ne by auto
  then have conv: "i64_of (fst (hd ?bids)) = fst (hd ?bids)" "u64_of (fst (hd ?bids)) = fst (hd ?bids)"
    "i64_of (fst (hd ?asks)) = fst (hd ?asks)" "u64_of (fst (hd ?asks)) = fst (hd ?asks)"
    by (simp_all add: sizet)
  have tw: "takeWhile (\<lambda>k. fst (hd ?asks) \<le> k) (map fst ?bids) = filter (\<lambda>k. fst (hd ?asks) \<le> k) (map fst ?bids)"
    "takeWhile (\<lambda>k. k \<le> fst (hd ?bids)) (map fst ?asks) = filter (\<lambda>k. k \<le> fst (hd ?bids)) (map fst ?asks)"
    using takeWhile_sorted [OF book_bids(1) [OF inv, unfolded ordered_def], of "\<lambda>k. fst (hd ?asks) \<le> k"]
      takeWhile_sorted [OF book_asks(1) [OF inv, unfolded ordered_def], of "\<lambda>k. k \<le> fst (hd ?bids)"] by auto
  have ap: "auction_price junk b = (case bid_scan ?bt ?at (fst (hd ?asks)) b (junk\<lparr>expectedDealQuantity := - 1\<rparr>) of
      Inl e \<Rightarrow> Inl e | Inr (b1, optim) \<Rightarrow> ask_scan ?at ?bt (fst (hd ?bids)) b1 optim)"
    by (simp add: auction_price_def pb pa hd conv Let_def split: sum.split prod.split)
  have bid: "bid_scan ?bt ?at (fst (hd ?asks)) b o1
      = Inr (b, fold (weigh b) (filter (\<lambda>k. fst (hd ?asks) \<le> k) (map fst ?bids)) o1)" for o1
    by (subst bt_eq, subst bid_scan_all [OF inv at]) (simp_all add: conv rng tw)
  have ask: "ask_scan ?at ?bt (fst (hd ?bids)) b o1
      = Inr (b, fold (weigh b) (filter (\<lambda>k. k \<le> fst (hd ?bids)) (map fst ?asks)) o1)" for o1
    by (subst at_eq, subst ask_scan_all [OF inv bt]) (simp_all add: conv rng tw)
  show ?thesis unfolding ap bid by (simp add: ask candidates_def)
qed

section \<open>The best acceptable price\<close>

definition price_info :: "OrderBook \<Rightarrow> int \<Rightarrow> OptimPriceInfo" where
  "price_info b k = \<lparr>dealPrice = k, expectedDealQuantity = executable_volume b k,
     buyAboveQuantity = demand_above b k, askBelowQuantity = offer_below b k,
     buyDealPriceLeftQuantity = demand b k - executable_volume b k,
     askDealPriceRightQuantity = offer b k - executable_volume b k\<rparr>"

definition rank :: "OptimPriceInfo \<Rightarrow> int \<times> int" where
  "rank x = (expectedDealQuantity x, - u64_of \<bar>i64_of (buyAboveQuantity x - askBelowQuantity x)\<bar>)"

lemma optim_gt_rank: "optim_gt x y \<longleftrightarrow> rank y < rank x"
  by (auto simp: optim_gt_def rank_def Let_def less_prod_def)

lemma weigh_info:
  assumes inv: "book_inv b"
  shows "weigh b k = (\<lambda>optim. if auction_ok b k then if rank optim < rank (price_info b k)
      then price_info b k else optim else optim)"
proof -
  note bounds = demand_bounds [OF inv, of k] offer_bounds [OF inv, of k]
  have sums: "i64_of (demand_above b k + key_sum quantity (\<lambda>x. x = k) (bidPriceMaps b)) = demand b k"
    "i64_of (offer_below b k + key_sum quantity (\<lambda>x. x = k) (askPriceMaps b)) = offer b k"
    using bounds by (simp_all add: i64_of_id flip: demand_split offer_split)
  have vol: "0 \<le> executable_volume b k" "executable_volume b k \<le> demand b k" "executable_volume b k \<le> offer b k"
    using bounds by (auto simp: executable_volume_def)
  have "key_sum quantity (\<lambda>x. x = k) (bidPriceMaps b) + demand_above b k = demand b k"
    "key_sum quantity (\<lambda>x. x = k) (askPriceMaps b) + offer_below b k = offer b k"
    using demand_split [of b k] offer_split [of b k] by simp_all
  then have left: "i64_of (key_sum quantity (\<lambda>x. x = k) (bidPriceMaps b) + demand_above b k - executable_volume b k)
      = demand b k - executable_volume b k"
    "i64_of (key_sum quantity (\<lambda>x. x = k) (askPriceMaps b) + offer_below b k - executable_volume b k)
      = offer b k - executable_volume b k"
    using bounds vol by (simp_all add: i64_of_id)
  have ok: "price_ok (demand_above b k) (key_sum quantity (\<lambda>x. x = k) (bidPriceMaps b)) (offer_below b k)
      (key_sum quantity (\<lambda>x. x = k) (askPriceMaps b)) \<longleftrightarrow> auction_ok b k"
    by (auto simp: price_ok_def auction_ok_def sums)
  show ?thesis
    by (rule ext) (simp add: weigh_def consider_price_def ok sums left price_info_def optim_gt_rank
        executable_volume_def [symmetric] Let_def)
qed

lemma fold_best:
  fixes rk :: "'a \<Rightarrow> 'b :: linorder" and P :: "'k \<Rightarrow> bool" and f :: "'k \<Rightarrow> 'a"
  defines "step \<equiv> \<lambda>k best. if P k then if rk best < rk (f k) then f k else best else best"
  shows "(fold step ks x = x \<or> (\<exists>k \<in> set ks. P k \<and> fold step ks x = f k))
    \<and> rk x \<le> rk (fold step ks x) \<and> (\<forall>k \<in> set ks. P k \<longrightarrow> rk (f k) \<le> rk (fold step ks x))"
proof (induction ks arbitrary: x)
  case (Cons k ks)
  have "step k x = x \<or> P k \<and> step k x = f k" "rk x \<le> rk (step k x)" "P k \<Longrightarrow> rk (f k) \<le> rk (step k x)"
    by (auto simp: step_def)
  with Cons [of "step k x"] show ?case by (auto intro: order_trans)
qed simp

lemma auction_price_best:
  assumes inv: "book_inv b" and cr: "crossed b"
  obtains p where "auction_price junk b = Inr (b, price_info b p)" "candidate b p" "auction_ok b p"
    and "\<And>q. candidate b q \<Longrightarrow> auction_ok b q \<Longrightarrow> rank (price_info b q) \<le> rank (price_info b p)"
proof -
  let ?start = "junk\<lparr>expectedDealQuantity := - 1\<rparr>"
  let ?r = "fold (weigh b) (candidates b) ?start"
  note best = fold_best [of "auction_ok b" rank "price_info b" "candidates b" ?start,
      folded weigh_info [OF inv]]
  have r: "auction_price junk b = Inr (b, ?r)"
    using auction_price_fold [OF inv] cr by (simp add: crossed_def)
  obtain p0 where p0: "candidate b p0" "auction_ok b p0" using crossed_has_price [OF inv cr] .
  have "0 \<le> executable_volume b p0"
    using demand_bounds [OF inv] offer_bounds [OF inv] by (simp add: executable_volume_def)
  then have "rank ?start < rank (price_info b p0)" by (simp add: rank_def price_info_def)
  moreover have "rank (price_info b p0) \<le> rank ?r" using best p0 by (simp add: set_candidates)
  ultimately have "?r \<noteq> ?start" by auto
  with best obtain p where "candidate b p" "auction_ok b p" "?r = price_info b p"
    by (auto simp: set_candidates)
  moreover have "rank (price_info b q) \<le> rank ?r" if "candidate b q" "auction_ok b q" for q
    using best that by (simp add: set_candidates)
  ultimately show thesis using that r by metis
qed

lemma imbalance_small:
  assumes "book_inv b"
  shows "rank (price_info b q) = (executable_volume b q, - \<bar>demand_above b q - offer_below b q\<bar>)"
  using demand_above_bounds [OF assms, of q] offer_below_bounds [OF assms, of q]
  unfolding rank_def price_info_def by (simp add: i64_of_id) (rule u64_of_id; linarith)

section \<open>Inserting an order\<close>

definition order_fits :: "Order \<Rightarrow> OrderBook \<Rightarrow> bool" where
  "order_fits x b \<longleftrightarrow> 0 < order_price x \<and> order_price x < INT64_MAX \<and> 0 \<le> order_quantity x
     \<and> (order_side x = 1 \<and> key_sum quantity (\<lambda>_. True) (bidPriceMaps b) + order_quantity x \<le> INT64_MAX
        \<or> order_side x = 2 \<and> key_sum quantity (\<lambda>_. True) (askPriceMaps b) + order_quantity x \<le> INT64_MAX)"

lemma key_sum_entry_le:
  assumes "\<forall>v \<in> snd ` set m. 0 \<le> w v" and "map_of m k = Some v"
  shows "w v \<le> key_sum w (\<lambda>_. True) m"
  using assms
proof (induction m)
  case (Cons e m)
  obtain a u where e: "e = (a, u)" by fastforce
  have "0 \<le> key_sum w (\<lambda>_. True) m" using Cons.prems(1) by (intro key_sum_nonneg) auto
  with Cons e show ?case by (auto split: if_splits)
qed simp

definition level_at :: "level_map \<Rightarrow> int \<Rightarrow> PriceLevel" where
  "level_at m k = (case map_of m k of None \<Rightarrow> empty_level | Some l \<Rightarrow> l)"

text \<open>Adding an order to one side, for both comparators at once.\<close>

lemma side_add:
  assumes so: "strict_order before" and m: "ordered before m" "\<forall>e \<in> set m. level_ok s e"
    and x: "0 < order_price x" "order_price x < INT64_MAX" "0 \<le> order_quantity x" "order_side x = s"
    and fits: "key_sum quantity (\<lambda>_. True) m + order_quantity x \<le> INT64_MAX"
  defines "k \<equiv> order_price x"
  defines "m1 \<equiv> map_at before k empty_level m"
  defines "m' \<equiv> map_put before k (add_to_level x (the (map_of m1 k))) m1"
  shows "ordered before m'" "\<forall>e \<in> set m'. level_ok s e"
    and "key_sum quantity (\<lambda>_. True) m' \<le> INT64_MAX"
    and "level_at m' q = (if q = k then add_to_level x (level_at m k) else level_at m q)"
proof -
  let ?l = "level_at m k"
  have l: "the (map_of m1 k) = ?l"
    using strict_order.map_of_map_at [OF so m(1), of k empty_level k]
    by (auto simp: m1_def level_at_def split: option.split)
  have m': "m' = map_put before k (add_to_level x ?l) m"
    unfolding m'_def l unfolding m1_def by (rule strict_order.map_put_map_at [OF so m(1)])
  show "ordered before m'" unfolding m' by (rule strict_order.map_put_ordered [OF so m(1)])
  have nonneg: "\<forall>v \<in> snd ` set m. 0 \<le> quantity v" using m(2) level_okD by fastforce
  have old: "quantity ?l \<le> key_sum quantity (\<lambda>_. True) m"
    using key_sum_entry_le [OF nonneg, of k] key_sum_nonneg [OF nonneg]
    by (auto simp: level_at_def empty_level_def split: option.split)
  have lev: "map_of m k = Some u \<Longrightarrow> level_ok s (k, u)" for u
    using m(2) by (auto dest: map_of_SomeD)
  then have pos: "0 \<le> quantity ?l"
    using level_okD by (fastforce simp: level_at_def empty_level_def split: option.split)
  have q: "u64_of (quantity ?l + order_quantity x) = quantity ?l + order_quantity x"
    using pos old fits x by (intro u64_of_id) auto
  have "level_ok s (k, ?l) \<or> ?l = empty_level"
    using lev by (simp add: level_at_def split: option.split)
  then have "(\<forall>y \<in> set (orders ?l). order_price y = k \<and> order_side y = s \<and> 0 \<le> order_quantity y)
      \<and> quantity ?l = sum_list (map order_quantity (orders ?l))"
    by (auto simp: level_ok_def empty_level_def)
  then have "level_ok s (k, add_to_level x ?l)"
    using x q by (simp add: level_ok_def add_to_level_def k_def)
  then show "\<forall>e \<in> set m'. level_ok s e"
    using m(2) unfolding m' strict_order.map_put_set [OF so m(1)] by auto
  have "key_sum quantity (\<lambda>_. True) m' = key_sum quantity (\<lambda>_. True) m + order_quantity x"
    unfolding m' strict_order.key_sum_map_put [OF so m(1)] using q
    by (auto simp: add_to_level_def level_at_def empty_level_def split: option.split)
  then show "key_sum quantity (\<lambda>_. True) m' \<le> INT64_MAX" using fits by simp
  show "level_at m' q = (if q = k then add_to_level x ?l else level_at m q)"
    using strict_order.map_of_map_put [OF so m(1), of k "add_to_level x ?l" q]
    by (simp add: m' level_at_def)
qed

lemma add_order_inv:
  assumes inv: "book_inv b" and fits: "order_fits x b"
  shows "book_inv (add_order x b)"
    and "level_at (bidPriceMaps (add_order x b)) q = (if order_side x = 1 \<and> q = order_price x
      then add_to_level x (level_at (bidPriceMaps b) q) else level_at (bidPriceMaps b) q)"
    and "level_at (askPriceMaps (add_order x b)) q = (if order_side x = 2 \<and> q = order_price x
      then add_to_level x (level_at (askPriceMaps b) q) else level_at (askPriceMaps b) q)"
proof -
  have key: "u64_of (order_price x) = order_price x" using fits by (simp add: order_fits_def u64_of_id)
  from fits have side: "order_side x = 1 \<or> order_side x = 2" by (auto simp: order_fits_def)
  note bid = side_add [OF descending.strict_order_axioms book_bids(1) [OF inv], of 1 x]
  note ask = side_add [OF ascending.strict_order_axioms book_asks(1) [OF inv], of 2 x]
  show "book_inv (add_order x b)"
    using side inv fits bid(1-3) ask(1-3)
    by (auto simp: add_order_def key touch_bid_def touch_ask_def book_inv_def order_fits_def Let_def)
  show "level_at (bidPriceMaps (add_order x b)) q = (if order_side x = 1 \<and> q = order_price x
      then add_to_level x (level_at (bidPriceMaps b) q) else level_at (bidPriceMaps b) q)"
    using side inv fits bid(4) [of q]
    by (auto simp: add_order_def key touch_bid_def touch_ask_def book_inv_def order_fits_def Let_def)
  show "level_at (askPriceMaps (add_order x b)) q = (if order_side x = 2 \<and> q = order_price x
      then add_to_level x (level_at (askPriceMaps b) q) else level_at (askPriceMaps b) q)"
    using side inv fits ask(4) [of q]
    by (auto simp: add_order_def key touch_bid_def touch_ask_def book_inv_def order_fits_def Let_def)
qed

section \<open>The status\<close>

lemma fill_bids_sel [simp]:
  "nts (fill_bids n m i st) = nts st" "cvl (fill_bids n m i st) = cvl st"
  "cto (fill_bids n m i st) = cto st" "lpr (fill_bids n m i st) = lpr st"
  by (induction n m i st rule: fill_bids.induct) simp_all

lemma fill_asks_sel [simp]:
  "nts (fill_asks n m i st) = nts st" "cvl (fill_asks n m i st) = cvl st"
  "cto (fill_asks n m i st) = cto st" "lpr (fill_asks n m i st) = lpr st"
  by (induction n m i st rule: fill_asks.induct) simp_all

lemma order_begin_level:
  "m \<noteq> [] \<Longrightarrow> \<forall>e \<in> set m. level_ok s e \<Longrightarrow> order_begin m = (m, orders (snd (hd m)))"
  by (cases m; cases "orders (snd (hd m))") (auto simp: order_begin_def level_ok_def split: prod.splits)

lemma flushStatus_crossed:
  assumes inv: "book_inv b" and cr: "crossed b"
  obtains st p where "flushStatus junk b = Inr (st, b)"
    and "lpr st = p" "cvl st = executable_volume b p" "cto st = tdiv (i64_of (cvl st * p)) 10000"
    and "candidate b p" "auction_ok b p"
    and "\<And>q. candidate b q \<Longrightarrow> auction_ok b q \<Longrightarrow> rank (price_info b q) \<le> rank (price_info b p)"
proof -
  obtain p where p: "auction_price junk b = Inr (b, price_info b p)" "candidate b p" "auction_ok b p"
      "\<And>q. candidate b q \<Longrightarrow> auction_ok b q \<Longrightarrow> rank (price_info b q) \<le> rank (price_info b p)"
    using auction_price_best [OF inv cr, of junk] by metis
  have ne: "bidPriceMaps b \<noteq> []" "askPriceMaps b \<noteq> []"
    "\<not> fst (hd (bidPriceMaps b)) < fst (hd (askPriceMaps b))" using cr by (auto simp: crossed_def)
  have beg: "order_begin (bidPriceMaps b) = (bidPriceMaps b, orders (snd (hd (bidPriceMaps b))))"
    "order_begin (askPriceMaps b) = (askPriceMaps b, orders (snd (hd (askPriceMaps b))))"
    using ne inv by (auto simp: book_inv_def intro!: order_begin_level)
  obtain bi si n where mo: "match_orders (order_begin (bidPriceMaps b)) (order_begin (askPriceMaps b))
      (hd (snd (order_begin (bidPriceMaps b)))) (hd (snd (order_begin (askPriceMaps b)))) 0 = (bi, si, n)"
    by (metis prod_cases3)
  have "\<exists>st. flushStatus junk b = Inr (st, b) \<and> lpr st = p \<and> cvl st = executable_volume b p
      \<and> cto st = tdiv (i64_of (executable_volume b p * p)) 10000"
    using ne p(1) mo
    by (simp add: flushStatus_def Let_def beg order_at_end_def price_info_def)
  with p that show thesis by metis
qed

end
