(* ===== verification/Matching.thy ===== *)
theory Matching
  imports Auction
begin

text \<open>
  The replay of the matching against a reference: price-time priority on the two flat order
  lists.  The reference's volumes add up to the largest executable volume, so the trade count of
  \<open>flushStatus\<close> belongs to a matching that trades exactly the volume at the chosen price.
\<close>

section \<open>The reference matching\<close>

text \<open>An order is a pair of price and open quantity; \<open>trades\<close> lists the traded volumes.\<close>

function trades :: "(int \<times> int) list \<Rightarrow> (int \<times> int) list \<Rightarrow> int list" where
  "trades ((pb, qb) # bids) ((pa, qa) # asks) =
     (if pb < pa then []
      else let v = min qb qa in
        v # trades (if qb = v then bids else (pb, qb - v) # bids)
                   (if qa = v then asks else (pa, qa - v) # asks))"
| "trades [] asks = []"
| "trades (x # bids) [] = []"
  by pat_completeness auto
termination
  by (relation "measure (\<lambda>(bids, asks). length bids + length asks)") (auto simp: min_def)

definition volume_at :: "(int \<Rightarrow> bool) \<Rightarrow> (int \<times> int) list \<Rightarrow> int" where
  "volume_at P xs = key_sum id P xs"

lemma volume_at_simps [simp]:
  "volume_at P [] = 0" "volume_at P ((p, q) # xs) = (if P p then q else 0) + volume_at P xs"
  "volume_at P (xs @ ys) = volume_at P xs + volume_at P ys"
  by (simp_all add: volume_at_def)

lemma volume_at_nonneg: "\<forall>e \<in> set xs. 0 \<le> snd e \<Longrightarrow> 0 \<le> volume_at P xs"
  unfolding volume_at_def by (rule key_sum_nonneg) auto

lemma volume_at_pos: "0 < volume_at P xs \<Longrightarrow> \<exists>e \<in> set xs. P (fst e)"
  using key_sum_empty [of xs P id] by (force simp: volume_at_def)

lemma trades_Nil: "xs = [] \<or> ys = [] \<Longrightarrow> trades xs ys = []"
  by (cases xs) auto

lemma length_trades: "length (trades bids asks) \<le> length bids + length asks"
  by (induction bids asks rule: trades.induct) (auto simp: Let_def min_def)

abbreviation ge_desc :: "(int \<times> int) list \<Rightarrow> bool" where
  "ge_desc \<equiv> sorted_wrt (\<lambda>x y. fst x \<ge> fst y)"

abbreviation le_asc :: "(int \<times> int) list \<Rightarrow> bool" where
  "le_asc \<equiv> sorted_wrt (\<lambda>x y. fst x \<le> fst y)"

text \<open>One trade raises both sides' volumes by \<open>v\<close> between the two prices.\<close>

lemma attained_step:
  fixes D S D1 S1 :: "int \<Rightarrow> int"
  assumes up: "\<And>x. min (D1 x) (S1 x) \<le> t" and ex: "t \<le> min (D1 y) (S1 y)"
    and nn: "0 \<le> t" "0 \<le> v" "\<And>x. 0 \<le> D1 x" "\<And>x. 0 \<le> S1 x" and pa: "pa \<le> pb"
    and pos: "\<And>x. 0 < D1 x \<Longrightarrow> x \<le> pb" "\<And>x. 0 < S1 x \<Longrightarrow> pa \<le> x"
    and D: "\<And>x. D x = (if x \<le> pb then v else 0) + D1 x"
    and S: "\<And>x. S x = (if pa \<le> x then v else 0) + S1 x"
  shows "(\<forall>x. min (D x) (S x) \<le> v + t) \<and> (\<exists>x. v + t \<le> min (D x) (S x)) \<and> 0 \<le> v + t"
proof -
  have "D x \<le> v + D1 x" "S x \<le> v + S1 x" for x using D [of x] S [of x] nn(2) by auto
  then have "min (D x) (S x) \<le> v + t" for x using up [of x] by (smt (verit))
  moreover have "\<exists>x. v + t \<le> min (D x) (S x)"
  proof (cases "t = 0")
    case True
    then show ?thesis using D [of pa] S [of pa] nn pa by (intro exI [of _ pa]) simp
  next
    case False
    with ex nn(1) have "0 < D1 y" "0 < S1 y" by auto
    then have "y \<le> pb" "pa \<le> y" using pos by auto
    then show ?thesis using D [of y] S [of y] ex by (intro exI [of _ y]) simp
  qed
  ultimately show ?thesis using nn by simp
qed

lemma trades_total:
  assumes "ge_desc bids" "le_asc asks" "\<forall>e \<in> set bids. 0 \<le> snd e" "\<forall>e \<in> set asks. 0 \<le> snd e"
  shows "(\<forall>x. min (volume_at (\<lambda>p. p \<ge> x) bids) (volume_at (\<lambda>p. p \<le> x) asks) \<le> sum_list (trades bids asks))
    \<and> (\<exists>x. sum_list (trades bids asks) \<le> min (volume_at (\<lambda>p. p \<ge> x) bids) (volume_at (\<lambda>p. p \<le> x) asks))
    \<and> 0 \<le> sum_list (trades bids asks)"
  using assms
proof (induction bids asks rule: trades.induct)
  case (1 pb qb bids pa qa asks)
  show ?case
  proof (cases "pb < pa")
    case True
    have "volume_at (\<lambda>p. p \<ge> x) ((pb, qb) # bids) = 0" if "pb < x" for x
      using 1(2) that by (auto simp: volume_at_def intro!: key_sum_empty)
    moreover have "volume_at (\<lambda>p. p \<le> x) ((pa, qa) # asks) = 0" if "x \<le> pb" for x
      using 1(3) that True by (auto simp: volume_at_def intro!: key_sum_empty)
    moreover note volume_at_nonneg [OF 1(4)] volume_at_nonneg [OF 1(5)]
    ultimately show ?thesis using True by (auto simp del: volume_at_simps) (metis min.cobounded1 min.cobounded2 not_le)
  next
    case False
    let ?v = "min qb qa"
    let ?b = "if qb = ?v then bids else (pb, qb - ?v) # bids"
    let ?a = "if qa = ?v then asks else (pa, qa - ?v) # asks"
    have eq: "sum_list (trades ((pb, qb) # bids) ((pa, qa) # asks)) = ?v + sum_list (trades ?b ?a)"
      using False by (simp add: Let_def)
    have sorted: "ge_desc ?b" "le_asc ?a" "\<forall>e \<in> set ?b. 0 \<le> snd e" "\<forall>e \<in> set ?a. 0 \<le> snd e"
      using 1(2-5) by auto
    have pos: "0 < volume_at (\<lambda>p. p \<ge> x) ?b \<Longrightarrow> x \<le> pb" "0 < volume_at (\<lambda>p. p \<le> x) ?a \<Longrightarrow> pa \<le> x" for x
      using 1(2,3) by (auto dest!: volume_at_pos split: if_splits)
    from 1(1) [OF False refl sorted] obtain y where IH:
        "\<And>x. min (volume_at (\<lambda>p. p \<ge> x) ?b) (volume_at (\<lambda>p. p \<le> x) ?a) \<le> sum_list (trades ?b ?a)"
        "sum_list (trades ?b ?a) \<le> min (volume_at (\<lambda>p. p \<ge> y) ?b) (volume_at (\<lambda>p. p \<le> y) ?a)"
        "0 \<le> sum_list (trades ?b ?a)" by blast
    show ?thesis unfolding eq
      by (rule attained_step [where ?D1.0 = "\<lambda>x. volume_at (\<lambda>p. p \<ge> x) ?b"
            and ?S1.0 = "\<lambda>x. volume_at (\<lambda>p. p \<le> x) ?a", OF IH _ volume_at_nonneg [OF sorted(3)] volume_at_nonneg [OF sorted(4)] _ pos])
        (use 1(4,5) False in \<open>auto simp del: trades.simps\<close>)
  qed
qed (auto simp: volume_at_nonneg)

section \<open>The replay refines the reference\<close>

definition it_list :: "order_iterator \<Rightarrow> Order list" where
  "it_list it = (case fst it of [] \<Rightarrow> [] | l # m \<Rightarrow> snd it @ concat (map (\<lambda>e. orders (snd e)) m))"

definition on_order :: "order_iterator \<Rightarrow> bool" where
  "on_order it \<longleftrightarrow> fst it \<noteq> [] \<and> snd it \<noteq> []"

definition open_order :: "Order \<Rightarrow> int \<times> int" where
  "open_order x = (order_price x, order_quantity x)"

lemma it_list_advance: "it_list (advance_to_valid m os) = it_list (m, os)"
proof (induction m os rule: advance_to_valid.induct)
  case (3 l m)
  then show ?case by (cases m) (auto simp: it_list_def)
qed (simp_all add: it_list_def)

lemma advance_on_order: "on_order (advance_to_valid m os) \<longleftrightarrow> fst (advance_to_valid m os) \<noteq> []"
proof (induction m os rule: advance_to_valid.induct)
  case (3 l m)
  then show ?case by (cases m) (auto simp: on_order_def)
qed (simp_all add: on_order_def)

lemma order_next_list:
  assumes "on_order it"
  shows "it_list (order_next it) = tl (it_list it)"
    and "order_at_end (order_next it) \<longleftrightarrow> tl (it_list it) = []"
    and "\<not> order_at_end (order_next it) \<Longrightarrow> on_order (order_next it)"
proof -
  have it: "it_list (order_next it) = tl (it_list it)"
    using assms by (simp add: order_next_def on_order_def it_list_advance)
      (auto simp: it_list_def split: list.splits)
  moreover have on: "order_at_end (order_next it) \<or> on_order (order_next it)"
    using assms by (auto simp: order_next_def on_order_def order_at_end_def advance_on_order [unfolded on_order_def])
  ultimately show "it_list (order_next it) = tl (it_list it)"
    "order_at_end (order_next it) \<longleftrightarrow> tl (it_list it) = []"
    "\<not> order_at_end (order_next it) \<Longrightarrow> on_order (order_next it)"
    by (auto simp: it_list_def on_order_def order_at_end_def split: list.splits)
qed

lemma hd_on_order: "on_order it \<Longrightarrow> it_list it = hd (snd it) # tl (it_list it)"
  by (auto simp: on_order_def it_list_def split: list.splits)

text \<open>What is left to match: the reduced copy of the current order, then the later orders.\<close>

definition left_over :: "order_iterator \<Rightarrow> Order \<Rightarrow> (int \<times> int) list" where
  "left_over it x = open_order x # map open_order (tl (it_list it))"

lemma left_over_next:
  assumes "on_order it" "\<not> order_at_end (order_next it)"
  shows "left_over (order_next it) (hd (snd (order_next it))) = map open_order (tl (it_list it))"
proof -
  have "on_order (order_next it)" using order_next_list(3) [OF assms] .
  from hd_on_order [OF this] order_next_list(1) [OF assms(1)] show ?thesis
    by (metis left_over_def list.simps(9))
qed

definition small_quantities :: "order_iterator \<Rightarrow> Order \<Rightarrow> bool" where
  "small_quantities it x \<longleftrightarrow> (\<forall>e \<in> set (left_over it x). 0 \<le> snd e \<and> snd e \<le> INT64_MAX)"

lemma match_orders_trades:
  assumes "on_order bi" "on_order si" "small_quantities bi bo" "small_quantities si so" "0 \<le> n"
    and "n + int (length (left_over bi bo) + length (left_over si so)) \<le> INT64_MAX"
  shows "snd (snd (match_orders bi si bo so n))
    = n + int (length (trades (left_over bi bo) (left_over si so)))"
  using assms
proof (induction bi si bo so n rule: match_orders.induct)
  case (1 bi si bo so n)
  show ?case
  proof (cases "order_price bo < order_price so")
    case True
    then show ?thesis by (subst match_orders.simps) (simp add: left_over_def open_order_def)
  next
    case False
    define v where "v = min (order_quantity bo) (order_quantity so)"
    let ?bd = "order_quantity bo = v" and ?sd = "order_quantity so = v"
    have rng: "0 \<le> order_quantity bo" "order_quantity bo \<le> INT64_MAX"
        "0 \<le> order_quantity so" "order_quantity so \<le> INT64_MAX"
      using 1(4,5) by (auto simp: small_quantities_def left_over_def open_order_def)
    then have v: "0 \<le> v" "v \<le> order_quantity bo" "v \<le> order_quantity so" "?bd \<or> ?sd"
      by (auto simp: v_def)
    with rng have red: "order_quantity (reduce_order v bo) = order_quantity bo - v"
        "order_quantity (reduce_order v so) = order_quantity so - v"
      by (simp_all add: reduce_order_def u64_of_id)
    have n1: "i64_of (n + 1) = n + 1" using 1(6,7) by (intro i64_of_id) (auto simp: left_over_def)
    let ?bi = "if ?bd then order_next bi else bi" and ?si = "if ?sd then order_next si else si"
    let ?bo = "if ?bd then hd (snd ?bi) else reduce_order v bo"
    let ?so = "if ?sd then hd (snd ?si) else reduce_order v so"
    let ?stop = "?bd \<and> order_at_end ?bi \<or> ?sd \<and> order_at_end ?si"
    let ?bl = "if ?bd then map open_order (tl (it_list bi)) else left_over bi (reduce_order v bo)"
    let ?sl = "if ?sd then map open_order (tl (it_list si)) else left_over si (reduce_order v so)"
    have step: "match_orders bi si bo so n
        = (if ?stop then (?bi, ?si, n + 1) else match_orders ?bi ?si ?bo ?so (n + 1))"
      using False red
      by (subst match_orders.simps) (simp only: Let_def n1 v_def [symmetric] if_False right_minus_eq)
    have ref: "trades (left_over bi bo) (left_over si so) = v # trades ?bl ?sl"
      using False red by (simp add: left_over_def open_order_def Let_def v_def [symmetric])
        (simp add: reduce_order_def)
    have ends: "?bd \<Longrightarrow> order_at_end ?bi \<longleftrightarrow> ?bl = []" "?sd \<Longrightarrow> order_at_end ?si \<longleftrightarrow> ?sl = []"
      using order_next_list(2) [OF 1(2)] order_next_list(2) [OF 1(3)] by simp_all
    show ?thesis
    proof (cases ?stop)
      case True
      then have "?bl = [] \<or> ?sl = []" using ends by metis
      then have "trades ?bl ?sl = []" by (rule trades_Nil)
      then show ?thesis unfolding step ref using True by (simp only: if_True list.size snd_conv)
    next
      case go: False
      have bl: "left_over ?bi ?bo = ?bl" using left_over_next [OF 1(2)] go by auto
      have sl: "left_over ?si ?so = ?sl" using left_over_next [OF 1(3)] go by auto
      have on: "on_order ?bi" "on_order ?si"
        using order_next_list(3) [OF 1(2)] order_next_list(3) [OF 1(3)] 1(2,3) go by auto
      have small: "small_quantities ?bi ?bo" "small_quantities ?si ?so"
        unfolding small_quantities_def bl sl using 1(4,5) red rng v(1-3)
        by (auto simp: small_quantities_def left_over_def open_order_def)
      have len: "n + 1 + int (length (left_over ?bi ?bo) + length (left_over ?si ?so)) \<le> INT64_MAX"
        unfolding bl sl using 1(7) v(4) by (auto simp: left_over_def)
      have n0: "0 \<le> n + 1" using 1(6) by simp
      have IH: "snd (snd (match_orders ?bi ?si ?bo ?so (n + 1)))
          = n + 1 + int (length (trades (left_over ?bi ?bo) (left_over ?si ?so)))"
        using 1(1) [OF False refl refl refl refl refl refl refl] go on small len n0
        by (simp only: v_def [symmetric] red n1 right_minus_eq simp_thms)
      then show ?thesis unfolding step ref bl sl using go by (simp only: if_False list.size)
    qed
  qed
qed

section \<open>The reference on a whole book\<close>

definition side_orders :: "level_map \<Rightarrow> (int \<times> int) list" where
  "side_orders m = map open_order (concat (map (\<lambda>e. orders (snd e)) m))"

definition book_trades :: "OrderBook \<Rightarrow> int list" where
  "book_trades b = trades (side_orders (bidPriceMaps b)) (side_orders (askPriceMaps b))"

lemma side_orders_simps [simp]:
  "side_orders [] = []" "side_orders ((k, l) # m) = map open_order (orders l) @ side_orders m"
  by (simp_all add: side_orders_def)

lemma side_orders_price:
  "\<forall>e \<in> set m. level_ok s e \<Longrightarrow> x \<in> set (side_orders m) \<Longrightarrow> fst x \<in> fst ` set m \<and> 0 \<le> snd x"
  by (induction m) (auto simp: level_ok_def open_order_def image_iff)

lemma side_orders_volume:
  "\<forall>e \<in> set m. level_ok s e \<Longrightarrow> volume_at P (side_orders m) = key_sum quantity P m"
proof (induction m)
  case (Cons e m)
  obtain k l where e: "e = (k, l)" by fastforce
  have "volume_at P (map open_order os) = (if P k then sum_list (map order_quantity os) else 0)"
    if "\<forall>x \<in> set os. order_price x = k" for os
    using that by (induction os) (auto simp: open_order_def)
  with Cons e show ?case by (auto simp: level_ok_def)
qed simp

lemma side_orders_sorted:
  assumes "\<forall>e \<in> set m. level_ok s e" "ordered before m"
  shows "sorted_wrt (\<lambda>x y. before (fst x) (fst y) \<or> fst x = fst y) (side_orders m)"
  using assms
proof (induction m)
  case (Cons e m)
  obtain k l where e: "e = (k, l)" by fastforce
  let ?R = "\<lambda>x y :: int \<times> int. before (fst x) (fst y) \<or> fst x = fst y"
  have same: "\<forall>x \<in> set (map open_order (orders l)). fst x = k"
    using Cons.prems(1) e by (auto simp: level_ok_def open_order_def)
  then have "sorted_wrt ?R (map open_order (orders l))"
    by (auto simp: sorted_wrt_iff_nth_less)
  moreover have "before k (fst y)" if "y \<in> set (side_orders m)" for y
  proof -
    have "fst y \<in> fst ` set m" using side_orders_price [OF _ that, of s] Cons.prems(1) by simp
    then show ?thesis using Cons.prems(2) e by fastforce
  qed
  ultimately show ?case using Cons e same by (auto simp: sorted_wrt_append)
qed simp

lemma book_trades_volume:
  assumes inv: "book_inv b"
  shows "\<forall>x. executable_volume b x \<le> sum_list (book_trades b)"
    and "\<exists>x. sum_list (book_trades b) \<le> executable_volume b x"
proof -
  let ?b = "side_orders (bidPriceMaps b)" and ?a = "side_orders (askPriceMaps b)"
  have lev: "\<forall>e \<in> set (bidPriceMaps b). level_ok 1 e" "\<forall>e \<in> set (askPriceMaps b). level_ok 2 e"
    using inv by (simp_all add: book_inv_def)
  have "ge_desc ?b" "le_asc ?a"
    using side_orders_sorted [OF lev(1) book_bids(1) [OF inv]] side_orders_sorted [OF lev(2) book_asks(1) [OF inv]]
    by (auto elim!: sorted_wrt_mono_rel [rotated])
  moreover have "\<forall>e \<in> set ?b. 0 \<le> snd e" "\<forall>e \<in> set ?a. 0 \<le> snd e"
    using side_orders_price lev by blast+
  ultimately show "\<forall>x. executable_volume b x \<le> sum_list (book_trades b)"
    "\<exists>x. sum_list (book_trades b) \<le> executable_volume b x"
    using trades_total [of ?b ?a]
    by (simp_all add: executable_volume_def demand_def offer_def book_trades_def
        side_orders_volume [OF lev(1)] side_orders_volume [OF lev(2)])
qed

definition few_orders :: "OrderBook \<Rightarrow> bool" where
  "few_orders b \<longleftrightarrow> int (length (side_orders (bidPriceMaps b)) + length (side_orders (askPriceMaps b))) \<le> INT64_MAX"

lemma start_left_over:
  assumes "m \<noteq> []" "\<forall>e \<in> set m. level_ok s e"
  shows "on_order (order_begin m)" "left_over (order_begin m) (hd (snd (order_begin m))) = side_orders m"
proof -
  obtain k l m' where m: "m = (k, l) # m'" using assms(1) by (cases m) auto
  have "orders l \<noteq> []" using assms(2) m by (auto simp: level_ok_def)
  then show "on_order (order_begin m)" "left_over (order_begin m) (hd (snd (order_begin m))) = side_orders m"
    using m by (cases "orders l"; simp add: order_begin_def on_order_def left_over_def it_list_def side_orders_def)+
qed

lemma volume_at_entry: "\<forall>e \<in> set xs. 0 \<le> snd e \<Longrightarrow> x \<in> set xs \<Longrightarrow> snd x \<le> volume_at (\<lambda>_. True) xs"
proof (induction xs)
  case (Cons e xs)
  then have "0 \<le> volume_at (\<lambda>_. True) xs" by (intro volume_at_nonneg) simp
  with Cons show ?case by (cases e) auto
qed simp

lemma start_small:
  assumes "m \<noteq> []" "\<forall>e \<in> set m. level_ok s e" "key_sum quantity (\<lambda>_. True) m \<le> INT64_MAX"
  shows "small_quantities (order_begin m) (hd (snd (order_begin m)))"
proof -
  have nn: "\<forall>e \<in> set (side_orders m). 0 \<le> snd e" using side_orders_price [OF assms(2)] by blast
  show ?thesis
    unfolding small_quantities_def start_left_over(2) [OF assms(1,2)]
    using nn volume_at_entry [OF nn] side_orders_volume [OF assms(2), of "\<lambda>_. True"] assms(3) by fastforce
qed

lemma flushStatus_nts:
  assumes inv: "book_inv b" and cr: "crossed b" and few: "few_orders b"
    and fl: "flushStatus junk b = Inr (st, b')"
  shows "nts st = int (length (book_trades b))"
proof -
  let ?bm = "bidPriceMaps b" and ?am = "askPriceMaps b"
  have ne: "?bm \<noteq> []" "?am \<noteq> []" "\<not> fst (hd ?bm) < fst (hd ?am)" using cr by (auto simp: crossed_def)
  have lev: "\<forall>e \<in> set ?bm. level_ok 1 e" "\<forall>e \<in> set ?am. level_ok 2 e"
    and tot: "key_sum quantity (\<lambda>_. True) ?bm \<le> INT64_MAX" "key_sum quantity (\<lambda>_. True) ?am \<le> INT64_MAX"
    using inv by (simp_all add: book_inv_def)
  obtain p where p: "auction_price junk b = Inr (b, price_info b p)"
    using auction_price_best [OF inv cr, of junk] by metis
  note bl = start_left_over [OF ne(1) lev(1)] and al = start_left_over [OF ne(2) lev(2)]
  have "\<not> order_at_end (order_begin ?bm)" "\<not> order_at_end (order_begin ?am)"
    using bl(1) al(1) by (simp_all add: on_order_def order_at_end_def)
  moreover have "snd (snd (match_orders (order_begin ?bm) (order_begin ?am) (hd (snd (order_begin ?bm)))
      (hd (snd (order_begin ?am))) 0)) = int (length (book_trades b))"
    using match_orders_trades [OF bl(1) al(1) start_small [OF ne(1) lev(1) tot(1)] start_small [OF ne(2) lev(2) tot(2)]] few
    by (simp add: bl(2) al(2) book_trades_def few_orders_def)
  moreover have "int (length (book_trades b)) \<le> INT64_MAX"
    using few length_trades [of "side_orders ?bm" "side_orders ?am"] by (simp add: few_orders_def book_trades_def)
  ultimately show ?thesis
    using fl ne p by (auto simp: flushStatus_def Let_def u64_of_id split: prod.splits)
qed

section \<open>Properties\<close>

text \<open>A small crossed book: two bids at 102, one at 100, asks at 99 and 101.\<close>

definition sample_order :: "int \<Rightarrow> int \<Rightarrow> int \<Rightarrow> Order" where
  "sample_order s p q = \<lparr>order_id = 1, order_price = p, order_quantity = q, order_side = s\<rparr>"

definition sample_book :: OrderBook where
  "sample_book = fold add_order [sample_order 1 102 30, sample_order 1 100 50, sample_order 2 99 40,
     sample_order 2 101 20, sample_order 1 102 10] new_book"

definition sample_junk :: OptimPriceInfo where
  "sample_junk = \<lparr>dealPrice = 7, expectedDealQuantity = 7, buyAboveQuantity = 7, askBelowQuantity = 7,
     buyDealPriceLeftQuantity = 7, askDealPriceRightQuantity = 7\<rparr>"

lemmas book_sim = sample_order_def sample_book_def new_book_def add_order_def touch_bid_def
  touch_ask_def add_to_level_def empty_level_def u64_of_def Let_def

lemma sample_book_eval:
  "bidPriceMaps sample_book = [(102, \<lparr>quantity = 40, orders = [sample_order 1 102 30, sample_order 1 102 10]\<rparr>),
     (100, \<lparr>quantity = 50, orders = [sample_order 1 100 50]\<rparr>)]"
  "askPriceMaps sample_book = [(99, \<lparr>quantity = 40, orders = [sample_order 2 99 40]\<rparr>),
     (101, \<lparr>quantity = 20, orders = [sample_order 2 101 20]\<rparr>)]"
  by (simp_all add: book_sim)

lemma sample_book_ok: "book_inv sample_book" "crossed sample_book" "few_orders sample_book"
  by (auto simp: book_inv_def crossed_def few_orders_def sample_book_eval level_ok_def side_orders_def)
    (auto simp: sample_order_def)

text \<open>
  C1.  For every well-formed crossed book \<open>flushStatus\<close> returns without a failed assertion, leaves
  the book unchanged, and reports a price that satisfies the call-auction rule together with the
  volume executable there, which is the largest executable volume over all prices; the
  uninitialised fields of the search record never reach the result.
\<close>

theorem auction_price_optimal:
  assumes "book_inv b" and "crossed b"
  shows "\<exists>st. flushStatus junk b = Inr (st, b) \<and> auction_ok b (lpr st)
    \<and> cvl st = executable_volume b (lpr st) \<and> (\<forall>x. executable_volume b x \<le> cvl st)"
proof -
  obtain st p where "flushStatus junk b = Inr (st, b)" "lpr st = p" "cvl st = executable_volume b p" "auction_ok b p"
    using flushStatus_crossed [OF assms, of junk] by metis
  then show ?thesis using auction_ok_optimal [OF assms(1)] by auto
qed

theorem auction_price_optimal_witness:
  "\<exists>st. flushStatus sample_junk sample_book = Inr (st, sample_book) \<and> 40 \<le> cvl st"
proof -
  have "executable_volume sample_book 101 = 40"
    by (simp add: executable_volume_def demand_def offer_def sample_book_eval)
  then show ?thesis
    using auction_price_optimal [OF sample_book_ok(1,2), of sample_junk] by metis
qed

text \<open>
  Among the acceptable prices of the book the reported one has the smallest difference between
  the quantities of the strictly better-priced orders of the two sides.
\<close>

theorem auction_price_tie_break:
  assumes "book_inv b" and "crossed b" and "flushStatus junk b = Inr (st, b')"
    and "candidate b q" and "auction_ok b q"
  shows "\<bar>demand_above b (lpr st) - offer_below b (lpr st)\<bar> \<le> \<bar>demand_above b q - offer_below b q\<bar>"
proof -
  obtain p where p: "lpr st = p" "auction_ok b p" "rank (price_info b q) \<le> rank (price_info b p)"
    using flushStatus_crossed [OF assms(1,2), of junk] assms(3-5) by (metis Pair_inject sum.inject(2))
  moreover have "executable_volume b p = executable_volume b q"
    using auction_ok_optimal [OF assms(1)] p(2) assms(5) by (simp add: dual_order.antisym)
  ultimately show ?thesis by (simp add: imbalance_small [OF assms(1)])
qed

theorem auction_price_tie_break_witness:
  "\<exists>st. flushStatus sample_junk sample_book = Inr (st, sample_book)
     \<and> \<bar>demand_above sample_book (lpr st) - offer_below sample_book (lpr st)\<bar> \<le> 0"
proof -
  obtain st where st: "flushStatus sample_junk sample_book = Inr (st, sample_book)"
    using flushStatus_crossed [OF sample_book_ok(1,2), of sample_junk] by metis
  have "candidate sample_book 101" "auction_ok sample_book 101"
    "demand_above sample_book 101 - offer_below sample_book 101 = 0"
    by (simp_all add: candidate_def auction_ok_def demand_def offer_def demand_above_def offer_below_def
        sample_book_eval)
  then show ?thesis using auction_price_tie_break [OF sample_book_ok(1,2) st] st by fastforce
qed

text \<open>
  C2.  The trade count that \<open>flushStatus\<close> reports is the number of trades of price-time-priority
  matching of the book, and those trades together have exactly the reported volume.
\<close>

theorem flushStatus_matching:
  assumes "book_inv b" and "crossed b" and "few_orders b" and "flushStatus junk b = Inr (st, b')"
  shows "nts st = int (length (book_trades b)) \<and> sum_list (book_trades b) = cvl st"
proof -
  obtain p where "cvl st = executable_volume b p" "auction_ok b p"
    using flushStatus_crossed [OF assms(1,2), of junk] assms(4) by (metis Pair_inject sum.inject(2))
  then show ?thesis
    using flushStatus_nts [OF assms] book_trades_volume [OF assms(1)] auction_ok_optimal [OF assms(1)]
    by (metis dual_order.antisym order_trans)
qed

theorem flushStatus_matching_witness:
  "\<exists>st. flushStatus sample_junk sample_book = Inr (st, sample_book) \<and> nts st = 2 \<and> cvl st = 40"
proof -
  obtain st where st: "flushStatus sample_junk sample_book = Inr (st, sample_book)"
    using flushStatus_crossed [OF sample_book_ok(1,2), of sample_junk] by metis
  have "book_trades sample_book = [30, 10]"
    by (simp add: book_trades_def side_orders_def sample_book_eval open_order_def sample_order_def)
  with flushStatus_matching [OF sample_book_ok st] st show ?thesis by auto
qed

text \<open>The quantity of a level is the sum over its queue, also where there is no level.\<close>

lemma level_at_quantity:
  assumes "book_inv b"
  shows "quantity (level_at (bidPriceMaps b) q) = sum_list (map order_quantity (orders (level_at (bidPriceMaps b) q)))"
    and "quantity (level_at (askPriceMaps b) q) = sum_list (map order_quantity (orders (level_at (askPriceMaps b) q)))"
proof -
  have "quantity (level_at m q) = sum_list (map order_quantity (orders (level_at m q)))"
    if "\<forall>e \<in> set m. level_ok s e" for s m
    using that by (auto simp: level_at_def empty_level_def level_ok_def split: option.split dest!: map_of_SomeD)
  then show "quantity (level_at (bidPriceMaps b) q) = sum_list (map order_quantity (orders (level_at (bidPriceMaps b) q)))"
    "quantity (level_at (askPriceMaps b) q) = sum_list (map order_quantity (orders (level_at (askPriceMaps b) q)))"
    using assms by (auto simp: book_inv_def)
qed

lemma flushStatus_keeps: "book_inv b \<Longrightarrow> \<exists>st. flushStatus junk b = Inr (st, b)"
proof (cases "crossed b")
  case True
  assume "book_inv b"
  then show ?thesis using flushStatus_crossed [OF _ True, of junk] by metis
qed (auto simp: flushStatus_def crossed_def)

text \<open>
  C3.  Inserting an acceptable order never fails and keeps the book well formed: the order becomes
  the last of the queue of its price level, behind every order that was there, the level's quantity
  grows by exactly the order's quantity, and every other level of both sides is unchanged.
\<close>

theorem insertOrder_level:
  assumes "book_inv b" and "order_fits x b"
  shows "\<exists>st b'. insertOrder junk x b = Inr (st, b') \<and> book_inv b'
    \<and> (\<forall>q. let l = level_at (bidPriceMaps b) q; l' = level_at (bidPriceMaps b') q
          in if order_side x = 1 \<and> q = order_price x
             then orders l' = orders l @ [x] \<and> quantity l' = quantity l + order_quantity x else l' = l)
    \<and> (\<forall>q. let l = level_at (askPriceMaps b) q; l' = level_at (askPriceMaps b') q
          in if order_side x = 2 \<and> q = order_price x
             then orders l' = orders l @ [x] \<and> quantity l' = quantity l + order_quantity x else l' = l)"
proof -
  note inv = add_order_inv [OF assms]
  note old = level_at_quantity [OF assms(1), of "order_price x"]
  note new = level_at_quantity [OF inv(1), of "order_price x"]
  have app: "orders (add_to_level x l) = orders l @ [x]" for l by (simp add: add_to_level_def)
  obtain st where st: "flushStatus junk (add_order x b) = Inr (st, add_order x b)"
    using flushStatus_keeps [OF inv(1)] by blast
  have "order_side x = 1 \<Longrightarrow> quantity (level_at (bidPriceMaps (add_order x b)) (order_price x))
      = quantity (level_at (bidPriceMaps b) (order_price x)) + order_quantity x"
    "order_side x = 2 \<Longrightarrow> quantity (level_at (askPriceMaps (add_order x b)) (order_price x))
      = quantity (level_at (askPriceMaps b) (order_price x)) + order_quantity x"
    unfolding old new by (simp_all add: inv(2,3) app)
  then show ?thesis using inv app st by (auto simp: insertOrder_def Let_def)
qed

text \<open>A buy at 100 queues behind the one already there.\<close>

theorem insertOrder_level_witness:
  "\<exists>st b'. insertOrder sample_junk (sample_order 1 100 5) sample_book = Inr (st, b')
     \<and> orders (level_at (bidPriceMaps b') 100) = [sample_order 1 100 50, sample_order 1 100 5]
     \<and> quantity (level_at (bidPriceMaps b') 100) = 55
     \<and> level_at (bidPriceMaps b') 102 = level_at (bidPriceMaps sample_book) 102"
proof -
  let ?x = "sample_order 1 100 5"
  have "order_fits ?x sample_book"
    by (simp add: order_fits_def sample_book_eval) (simp add: sample_order_def)
  from insertOrder_level [OF sample_book_ok(1) this, of sample_junk]
  obtain st b' where st: "insertOrder sample_junk ?x sample_book = Inr (st, b')"
    and q: "\<And>q. let l = level_at (bidPriceMaps sample_book) q; l' = level_at (bidPriceMaps b') q
          in if order_side ?x = 1 \<and> q = order_price ?x
             then orders l' = orders l @ [?x] \<and> quantity l' = quantity l + order_quantity ?x else l' = l"
    by blast
  have f: "order_side ?x = 1" "order_price ?x = 100" "order_quantity ?x = 5" by (simp_all add: sample_order_def)
  have "level_at (bidPriceMaps sample_book) 100 = \<lparr>quantity = 50, orders = [sample_order 1 100 50]\<rparr>"
    by (simp add: level_at_def sample_book_eval)
  with st q [of 100] q [of 102] f show ?thesis by (auto simp: Let_def)
qed

end
