(* ===== verification/Byte_Stream.thy ===== *)
theory Byte_Stream
  imports Prelude
begin

text \<open>
  The contract of a growing byte buffer: bytes are appended at one end and consumed at the other.
  \<open>put\<close> may refuse for lack of memory; \<open>consume\<close> must succeed for any amount that is stored.
  What a connection reads from such a buffer is what was written to it.
\<close>

datatype stream_op = WriteBytes bytes | Consume nat

text \<open>
  A run writes blocks and consumes at most what is stored; it returns the bytes written, the bytes
  consumed and the final buffer.
\<close>

fun run_stream :: "(bytes \<Rightarrow> 'b \<Rightarrow> fault + 'b) \<Rightarrow> (nat \<Rightarrow> 'b \<Rightarrow> fault + 'b) \<Rightarrow> ('b \<Rightarrow> bytes)
    \<Rightarrow> stream_op list \<Rightarrow> 'b \<Rightarrow> fault + bytes \<times> bytes \<times> 'b" where
  "run_stream put consume contents [] b = Inr ([], [], b)"
| "run_stream put consume contents (WriteBytes d # ops) b =
     (case put d b of Inl e \<Rightarrow> Inl e
      | Inr b1 \<Rightarrow> (case run_stream put consume contents ops b1 of Inl e \<Rightarrow> Inl e
          | Inr (w, r, b2) \<Rightarrow> Inr (d @ w, r, b2)))"
| "run_stream put consume contents (Consume n # ops) b =
     (case consume (min n (length (contents b))) b of Inl e \<Rightarrow> Inl e
      | Inr b1 \<Rightarrow> (case run_stream put consume contents ops b1 of Inl e \<Rightarrow> Inl e
          | Inr (w, r, b2) \<Rightarrow> Inr (w, take n (contents b) @ r, b2)))"

locale byte_stream =
  fixes inv :: "'b \<Rightarrow> bool"
    and contents :: "'b \<Rightarrow> bytes"
    and put :: "bytes \<Rightarrow> 'b \<Rightarrow> fault + 'b"
    and consume :: "nat \<Rightarrow> 'b \<Rightarrow> fault + 'b"
  assumes put_law: "inv b \<Longrightarrow> length d \<le> max_obj \<Longrightarrow>
      (\<exists>b'. put d b = Inr b' \<and> inv b' \<and> contents b' = contents b @ d) \<or> put d b = Inl BadAlloc"
    and consume_law: "inv b \<Longrightarrow> n \<le> length (contents b) \<Longrightarrow>
      \<exists>b'. consume n b = Inr b' \<and> inv b' \<and> contents b' = drop n (contents b)"
begin

lemma run_stream_exact:
  "inv b \<Longrightarrow> \<forall>d. WriteBytes d \<in> set ops \<longrightarrow> length d \<le> max_obj \<Longrightarrow>
     case run_stream put consume contents ops b of
       Inl e \<Rightarrow> e = BadAlloc
     | Inr (w, r, b') \<Rightarrow> inv b' \<and> contents b @ w = r @ contents b'"
proof (induction ops arbitrary: b)
  case (Cons op ops)
  show ?case
  proof (cases op)
    case (WriteBytes d)
    with Cons.prems have "length d \<le> max_obj" by simp
    from put_law [OF Cons.prems(1) this] show ?thesis
    proof
      assume "\<exists>b'. put d b = Inr b' \<and> inv b' \<and> contents b' = contents b @ d"
      then obtain b1 where "put d b = Inr b1" "inv b1" "contents b1 = contents b @ d" by blast
      with Cons.IH [of b1] Cons.prems(2) WriteBytes show ?thesis by (auto split: sum.splits)
    qed (use WriteBytes in simp)
  next
    case (Consume n)
    from consume_law [OF Cons.prems(1), of "min n (length (contents b))"] obtain b1
      where "consume (min n (length (contents b))) b = Inr b1" "inv b1"
        "contents b1 = drop (min n (length (contents b))) (contents b)" by auto
    moreover have "take n (contents b) @ drop (min n (length (contents b))) (contents b) = contents b"
      by (cases "n \<le> length (contents b)") (simp_all add: min_def)
    ultimately show ?thesis using Cons.IH [of b1] Cons.prems(2) Consume
      by (auto split: sum.splits) (metis append_assoc)
  qed
qed simp

end

end
