(* ===== verification/Byte_Buffers.thy ===== *)
theory Byte_Buffers
  imports Byte_Stream
begin

text \<open>
  The two byte buffers of the servers: \<open>Buffer\<close> of \<open>muduo/server.hpp\<close> and \<open>SimpleBuffer\<close> of
  \<open>muduo/include/SimpleBuffer.hpp\<close>.  Offsets are \<open>size_t\<close> values; a failed assertion, an access
  outside the storage and a refused allocation are faults.  Both interpret \<open>byte_stream\<close>.
\<close>

section \<open>Buffer of server.hpp\<close>

record Buffer =
  storage :: bytes
  reader_offset :: nat
  writer_offset :: nat

definition Buffer_new :: Buffer where
  "Buffer_new = \<lparr>storage = replicate 1024 0, reader_offset = 0, writer_offset = 0\<rparr>"

definition ReadableSize :: "Buffer \<Rightarrow> nat" where
  "ReadableSize b = sz_sub (writer_offset b) (reader_offset b)"

definition HeadWritableSize :: "Buffer \<Rightarrow> nat" where
  "HeadWritableSize b = reader_offset b"

definition TailWritableSize :: "Buffer \<Rightarrow> nat" where
  "TailWritableSize b = sz_sub (length (storage b)) (writer_offset b)"

definition MoveReaderOffset :: "nat \<Rightarrow> Buffer \<Rightarrow> fault + Buffer" where
  "MoveReaderOffset len b =
     (if len = 0 then Inr b
      else if len \<le> ReadableSize b then Inr (b\<lparr>reader_offset := sz_add (reader_offset b) len\<rparr>)
      else Inl AssertFailed)"

definition MoveWriterOffset :: "nat \<Rightarrow> Buffer \<Rightarrow> fault + Buffer" where
  "MoveWriterOffset len b =
     (if len = 0 then Inr b
      else if len \<le> TailWritableSize b then Inr (b\<lparr>writer_offset := sz_add (writer_offset b) len\<rparr>)
      else Inl AssertFailed)"

text \<open>\<open>std::vector<char>::resize\<close> refuses more than \<open>PTRDIFF_MAX\<close> bytes and fills with zeros.\<close>

definition vector_resize :: "nat \<Rightarrow> bytes \<Rightarrow> fault + bytes" where
  "vector_resize n xs =
     (if n > max_obj then Inl BadAlloc else Inr (take n xs @ replicate (n - length xs) 0))"

definition EnsureWritableSpaceEnough :: "nat \<Rightarrow> Buffer \<Rightarrow> fault + Buffer" where
  "EnsureWritableSpaceEnough len b =
     (if len = 0 then Inr b
      else if len \<le> TailWritableSize b then Inr b
      else if len \<le> sz_add (HeadWritableSize b) (TailWritableSize b) then
        let rsz = ReadableSize b
        in if reader_offset b + rsz > length (storage b) then Inl OutOfBounds
           else Inr (b\<lparr>storage := overwrite (storage b) 0
                       (segment (storage b) (reader_offset b) (reader_offset b + rsz)),
                     reader_offset := 0, writer_offset := rsz\<rparr>)
      else case vector_resize (sz_add (writer_offset b) len) (storage b) of
             Inl e \<Rightarrow> Inl e | Inr s \<Rightarrow> Inr (b\<lparr>storage := s\<rparr>))"

definition Write :: "bytes \<Rightarrow> Buffer \<Rightarrow> fault + Buffer" where
  "Write data b =
     (if length data = 0 then Inr b
      else case EnsureWritableSpaceEnough (length data) b of
        Inl e \<Rightarrow> Inl e
      | Inr b1 \<Rightarrow>
          if writer_offset b1 + length data > length (storage b1) then Inl OutOfBounds
          else Inr (b1\<lparr>storage := overwrite (storage b1) (writer_offset b1) data\<rparr>))"

definition WriteAndPushOffSet :: "bytes \<Rightarrow> Buffer \<Rightarrow> fault + Buffer" where
  "WriteAndPushOffSet data b =
     (if length data = 0 then Inr b
      else case Write data b of Inl e \<Rightarrow> Inl e | Inr b1 \<Rightarrow> MoveWriterOffset (length data) b1)"

definition WriteString :: "bytes \<Rightarrow> Buffer \<Rightarrow> fault + Buffer" where
  "WriteString str b = (if length str = 0 then Inr b else Write str b)"

definition WriteStringAndPushOffSet :: "bytes \<Rightarrow> Buffer \<Rightarrow> fault + Buffer" where
  "WriteStringAndPushOffSet str b =
     (if length str = 0 then Inr b
      else case WriteString str b of Inl e \<Rightarrow> Inl e | Inr b1 \<Rightarrow> MoveWriterOffset (length str) b1)"

text \<open>The bytes that \<open>ReaderPosition()\<close> and \<open>ReadableSize()\<close> describe.\<close>

definition readable_bytes :: "Buffer \<Rightarrow> bytes" where
  "readable_bytes b = segment (storage b) (reader_offset b) (reader_offset b + ReadableSize b)"

definition WriteBuffer :: "Buffer \<Rightarrow> Buffer \<Rightarrow> fault + Buffer" where
  "WriteBuffer other b =
     (if ReadableSize other = 0 then Inr b
      else if reader_offset other + ReadableSize other > length (storage other) then Inl OutOfBounds
      else Write (readable_bytes other) b)"

definition WriteBufferAndPushOffSet :: "Buffer \<Rightarrow> Buffer \<Rightarrow> fault + Buffer" where
  "WriteBufferAndPushOffSet other b =
     (if ReadableSize other = 0 then Inr b
      else case WriteBuffer other b of Inl e \<Rightarrow> Inl e
           | Inr b1 \<Rightarrow> MoveWriterOffset (ReadableSize other) b1)"

definition Read :: "nat \<Rightarrow> Buffer \<Rightarrow> fault + bytes" where
  "Read len b =
     (if len = 0 then Inr []
      else if \<not> len \<le> ReadableSize b then Inl AssertFailed
      else if reader_offset b + len > length (storage b) then Inl OutOfBounds
      else Inr (segment (storage b) (reader_offset b) (reader_offset b + len)))"

definition ReadAndPushOffSet :: "nat \<Rightarrow> Buffer \<Rightarrow> fault + bytes \<times> Buffer" where
  "ReadAndPushOffSet len b =
     (if len = 0 then Inr ([], b)
      else case Read len b of Inl e \<Rightarrow> Inl e
           | Inr d \<Rightarrow> (case MoveReaderOffset len b of Inl e \<Rightarrow> Inl e | Inr b1 \<Rightarrow> Inr (d, b1)))"

definition ReadAsString :: "nat \<Rightarrow> Buffer \<Rightarrow> fault + bytes" where
  "ReadAsString len b =
     (if len = 0 then Inr []
      else if \<not> len \<le> ReadableSize b then Inl AssertFailed
      else Read len b)"

definition ReadAsStringAndPushOffSet :: "nat \<Rightarrow> Buffer \<Rightarrow> fault + bytes \<times> Buffer" where
  "ReadAsStringAndPushOffSet len b =
     (if len = 0 then Inr ([], b)
      else if \<not> len \<le> ReadableSize b then Inl AssertFailed
      else case ReadAsString len b of Inl e \<Rightarrow> Inl e
           | Inr d \<Rightarrow> (case MoveReaderOffset len b of Inl e \<Rightarrow> Inl e | Inr b1 \<Rightarrow> Inr (d, b1)))"

fun memchr :: "u8 \<Rightarrow> bytes \<Rightarrow> nat option" where
  "memchr c [] = None"
| "memchr c (x # xs) = (if x = c then Some 0 else map_option Suc (memchr c xs))"

definition GetLine :: "Buffer \<Rightarrow> fault + bytes" where
  "GetLine b =
     (case memchr 10 (readable_bytes b) of
        None \<Rightarrow> Inr []
      | Some pos \<Rightarrow> ReadAsString (pos + 1) b)"

definition GetLineAndPushOffSet :: "Buffer \<Rightarrow> fault + bytes \<times> Buffer" where
  "GetLineAndPushOffSet b =
     (case GetLine b of Inl e \<Rightarrow> Inl e
      | Inr str \<Rightarrow> (case MoveReaderOffset (length str) b of Inl e \<Rightarrow> Inl e | Inr b1 \<Rightarrow> Inr (str, b1)))"

definition Clear :: "Buffer \<Rightarrow> Buffer" where
  "Clear b = b\<lparr>reader_offset := 0, writer_offset := 0\<rparr>"

section \<open>SimpleBuffer\<close>

text \<open>\<open>fresh\<close> gives the bytes that newly allocated storage happens to hold.\<close>

record SimpleBuffer =
  sb_buffer :: bytes
  bufferSize :: nat
  readPos :: nat
  writePos :: nat

definition new_chars :: "(nat \<Rightarrow> u8) \<Rightarrow> nat \<Rightarrow> fault + bytes" where
  "new_chars fresh n = (if n > max_obj then Inl BadAlloc else Inr (map fresh [0..<n]))"

definition SimpleBuffer_new :: "(nat \<Rightarrow> u8) \<Rightarrow> nat \<Rightarrow> fault + SimpleBuffer" where
  "SimpleBuffer_new fresh initialCapacity =
     (case new_chars fresh initialCapacity of Inl e \<Rightarrow> Inl e
      | Inr s \<Rightarrow> Inr \<lparr>sb_buffer = s, bufferSize = initialCapacity, readPos = 0, writePos = 0\<rparr>)"

definition sb_size :: "SimpleBuffer \<Rightarrow> nat" where
  "sb_size b = sz_sub (writePos b) (readPos b)"

definition noData :: "SimpleBuffer \<Rightarrow> bool" where
  "noData b = (writePos b = readPos b)"

definition compact :: "SimpleBuffer \<Rightarrow> fault + SimpleBuffer" where
  "compact b =
     (if readPos b > 0 then
        let dataSize = sb_size b
        in if readPos b + dataSize > length (sb_buffer b) then Inl OutOfBounds
           else Inr (b\<lparr>sb_buffer := overwrite (sb_buffer b) 0
                        (segment (sb_buffer b) (readPos b) (readPos b + dataSize)),
                      readPos := 0, writePos := dataSize\<rparr>)
      else Inr b)"

definition ensureCapacity :: "(nat \<Rightarrow> u8) \<Rightarrow> nat \<Rightarrow> SimpleBuffer \<Rightarrow> fault + SimpleBuffer" where
  "ensureCapacity fresh len b =
     (let available = sz_sub (bufferSize b) (writePos b)
      in if available \<ge> len then Inr b
         else if sz_add (readPos b) available \<ge> len then compact b
         else
           let newSize = max (sz_mul (bufferSize b) 2) (sz_add (writePos b) len)
           in case new_chars fresh newSize of
                Inl e \<Rightarrow> Inl e
              | Inr newBuffer \<Rightarrow>
                  let s = sb_size b
                  in if readPos b + s > length (sb_buffer b) \<or> s > length newBuffer then Inl OutOfBounds
                     else Inr \<lparr>sb_buffer = overwrite newBuffer 0
                                 (segment (sb_buffer b) (readPos b) (readPos b + s)),
                               bufferSize = newSize, readPos = 0, writePos = s\<rparr>)"

definition sb_write :: "(nat \<Rightarrow> u8) \<Rightarrow> bytes \<Rightarrow> SimpleBuffer \<Rightarrow> fault + SimpleBuffer" where
  "sb_write fresh data b =
     (case ensureCapacity fresh (length data) b of
        Inl e \<Rightarrow> Inl e
      | Inr b1 \<Rightarrow>
          if writePos b1 + length data > length (sb_buffer b1) then Inl OutOfBounds
          else Inr (b1\<lparr>sb_buffer := overwrite (sb_buffer b1) (writePos b1) data,
                       writePos := sz_add (writePos b1) (length data)\<rparr>))"

definition advance :: "nat \<Rightarrow> SimpleBuffer \<Rightarrow> fault + SimpleBuffer" where
  "advance len b =
     (let b1 = b\<lparr>readPos := sz_add (readPos b) len\<rparr>
      in if noData b1 then Inr (b1\<lparr>readPos := 0, writePos := 0\<rparr>)
         else if readPos b1 > bufferSize b1 div 2 then compact b1
         else Inr b1)"

definition sb_data :: "SimpleBuffer \<Rightarrow> bytes" where
  "sb_data b = segment (sb_buffer b) (readPos b) (writePos b)"

section \<open>Buffer keeps the contract\<close>

definition buf_inv :: "Buffer \<Rightarrow> bool" where
  "buf_inv b \<longleftrightarrow> reader_offset b \<le> writer_offset b \<and> writer_offset b \<le> length (storage b)
     \<and> length (storage b) \<le> max_obj"

definition buf_contents :: "Buffer \<Rightarrow> bytes" where
  "buf_contents b = segment (storage b) (reader_offset b) (writer_offset b)"

lemma Buffer_new_inv: "buf_inv Buffer_new" "buf_contents Buffer_new = []"
  by (simp_all add: buf_inv_def buf_contents_def Buffer_new_def)

lemma sizes:
  assumes "buf_inv b"
  shows "ReadableSize b = writer_offset b - reader_offset b"
    and "TailWritableSize b = length (storage b) - writer_offset b"
    and "HeadWritableSize b = reader_offset b"
    and "length (buf_contents b) = writer_offset b - reader_offset b"
    and "readable_bytes b = buf_contents b"
  using assms
  by (simp_all add: buf_inv_def ReadableSize_def TailWritableSize_def HeadWritableSize_def
      readable_bytes_def buf_contents_def sz_sub_le blk)

text \<open>Making room moves or keeps the readable bytes and never loses any.\<close>

lemma EnsureWritable_law:
  assumes inv: "buf_inv b" and len: "len \<le> max_obj"
  shows "(\<exists>b'. EnsureWritableSpaceEnough len b = Inr b' \<and> buf_inv b' \<and> buf_contents b' = buf_contents b
      \<and> writer_offset b' + len \<le> length (storage b'))
    \<or> EnsureWritableSpaceEnough len b = Inl BadAlloc \<and> writer_offset b + len > max_obj"
proof -
  note sz = sizes [OF inv]
  have o: "reader_offset b \<le> writer_offset b" "writer_offset b \<le> length (storage b)" "length (storage b) \<le> max_obj"
    using inv by (simp_all add: buf_inv_def)
  show ?thesis
  proof (cases "len \<le> TailWritableSize b")
    case True
    then show ?thesis using inv o by (auto simp: EnsureWritableSpaceEnough_def sz)
  next
    case F1: False
    have add: "sz_add (HeadWritableSize b) (TailWritableSize b)
        = reader_offset b + (length (storage b) - writer_offset b)"
      using o by (simp add: sz sz_add_small)
    show ?thesis
    proof (cases "len \<le> sz_add (HeadWritableSize b) (TailWritableSize b)")
      case True
      let ?d = "segment (storage b) (reader_offset b) (writer_offset b)"
      let ?s = "overwrite (storage b) 0 ?d"
      have l: "length ?d = writer_offset b - reader_offset b" using o by (simp add: blk)
      have "segment ?s 0 (0 + length ?d) = segment (storage b) 0 0 @ ?d"
        using o l by (intro segment_overwrite_append) simp_all
      then have "take (writer_offset b - reader_offset b) ?s = ?d" using l by simp
      moreover have "length ?s = length (storage b)" using o l by (intro length_overwrite) simp
      ultimately show ?thesis
        using F1 True o add
        by (auto simp: EnsureWritableSpaceEnough_def sz Let_def buf_inv_def buf_contents_def)
    next
      case False
      have "sz_add (writer_offset b) len = writer_offset b + len" using o len by (simp add: sz_add_small)
      then show ?thesis using F1 False o
        by (auto simp: EnsureWritableSpaceEnough_def sz vector_resize_def buf_inv_def buf_contents_def
            segment_append_left)
    qed
  qed
qed

lemma WriteAndPush_law:
  assumes inv: "buf_inv b" and len: "length d \<le> max_obj"
  shows "(\<exists>b'. WriteAndPushOffSet d b = Inr b' \<and> buf_inv b' \<and> buf_contents b' = buf_contents b @ d)
    \<or> WriteAndPushOffSet d b = Inl BadAlloc \<and> writer_offset b + length d > max_obj"
proof (cases "d = []")
  case False
  from EnsureWritable_law [OF inv len] show ?thesis
  proof
    assume "\<exists>b'. EnsureWritableSpaceEnough (length d) b = Inr b' \<and> buf_inv b' \<and> buf_contents b' = buf_contents b
      \<and> writer_offset b' + length d \<le> length (storage b')"
    then obtain b1 where e: "EnsureWritableSpaceEnough (length d) b = Inr b1" and b1: "buf_inv b1"
      and c: "buf_contents b1 = buf_contents b" and room: "writer_offset b1 + length d \<le> length (storage b1)"
      by blast
    let ?b = "b1\<lparr>storage := overwrite (storage b1) (writer_offset b1) d\<rparr>"
    have l: "length (storage ?b) = length (storage b1)" using room by (simp add: blk)
    have ib: "buf_inv ?b" using b1 l by (simp add: buf_inv_def)
    have "length d \<le> TailWritableSize ?b" using room l by (simp add: sizes(2) [OF ib])
    moreover have "sz_add (writer_offset b1) (length d) = writer_offset b1 + length d"
      using b1 len by (intro sz_add_small) (simp add: buf_inv_def)
    ultimately have "WriteAndPushOffSet d b = Inr (?b\<lparr>writer_offset := writer_offset b1 + length d\<rparr>)"
      using False e room by (simp add: WriteAndPushOffSet_def Write_def MoveWriterOffset_def)
    moreover have "segment (storage ?b) (reader_offset b1) (writer_offset b1 + length d)
        = buf_contents b1 @ d"
      using b1 room by (simp add: buf_contents_def buf_inv_def segment_overwrite_append)
    ultimately show ?thesis using b1 c l room by (auto simp: buf_inv_def buf_contents_def)
  qed (use False in \<open>simp add: WriteAndPushOffSet_def Write_def\<close>)
qed (use inv in \<open>simp add: WriteAndPushOffSet_def\<close>)

lemma MoveReader_law:
  assumes "buf_inv b" "n \<le> length (buf_contents b)"
  shows "\<exists>b'. MoveReaderOffset n b = Inr b' \<and> buf_inv b' \<and> buf_contents b' = drop n (buf_contents b)"
  using assms sizes [OF assms(1)]
  by (auto simp: MoveReaderOffset_def buf_inv_def buf_contents_def sz_add_small segment_drop)

interpretation server_buffer: byte_stream buf_inv buf_contents WriteAndPushOffSet MoveReaderOffset
  by unfold_locales (use WriteAndPush_law MoveReader_law in blast)+

section \<open>Reading from Buffer\<close>

lemma ReadAsStringAndPush_law:
  assumes inv: "buf_inv b" and n: "n \<le> length (buf_contents b)"
  shows "\<exists>b'. ReadAsStringAndPushOffSet n b = Inr (take n (buf_contents b), b')
    \<and> buf_inv b' \<and> buf_contents b' = drop n (buf_contents b)"
proof -
  obtain b' where b': "MoveReaderOffset n b = Inr b'" "buf_inv b'" "buf_contents b' = drop n (buf_contents b)"
    using MoveReader_law [OF assms] by blast
  have "reader_offset b + n \<le> writer_offset b" using n inv by (auto simp: sizes(4) [OF inv] buf_inv_def)
  then have "segment (storage b) (reader_offset b) (reader_offset b + n) = take n (buf_contents b)"
    by (simp add: buf_contents_def segment_take)
  with b' n inv show ?thesis
    by (auto simp: ReadAsStringAndPushOffSet_def ReadAsString_def Read_def sizes [OF inv] buf_inv_def
        MoveReaderOffset_def)
qed

lemma ReadAndPush_law:
  "buf_inv b \<Longrightarrow> n \<le> length (buf_contents b) \<Longrightarrow> ReadAndPushOffSet n b = ReadAsStringAndPushOffSet n b"
  by (simp add: ReadAndPushOffSet_def ReadAsStringAndPushOffSet_def ReadAsString_def sizes)

lemma memchr_Some: "memchr c xs = Some i \<Longrightarrow> i < length xs \<and> xs ! i = c \<and> c \<notin> set (take i xs)"
proof (induction xs arbitrary: i)
  case (Cons x xs)
  then show ?case by (cases i) (auto split: if_splits)
qed simp

lemma memchr_None: "memchr c xs = None \<longleftrightarrow> c \<notin> set xs"
  by (induction xs) auto

section \<open>SimpleBuffer keeps the contract\<close>

definition sb_inv :: "SimpleBuffer \<Rightarrow> bool" where
  "sb_inv b \<longleftrightarrow> readPos b \<le> writePos b \<and> writePos b \<le> bufferSize b
     \<and> length (sb_buffer b) = bufferSize b \<and> bufferSize b \<le> max_obj"

lemma sb_sizes:
  assumes "sb_inv b"
  shows "sb_size b = writePos b - readPos b" "length (sb_data b) = writePos b - readPos b"
  using assms by (simp_all add: sb_inv_def sb_size_def sb_data_def sz_sub_le blk)

text \<open>Copying the stored bytes to the front of an array that is large enough.\<close>

lemma front_copy:
  assumes "length d \<le> length s"
  shows "take (length d) (overwrite s 0 d) = d" "length (overwrite s 0 d) = length s"
  using assms by (simp_all add: overwrite_def)

lemma compact_law:
  assumes inv: "sb_inv b"
  shows "\<exists>b'. compact b = Inr b' \<and> sb_inv b' \<and> sb_data b' = sb_data b \<and> bufferSize b' = bufferSize b
    \<and> readPos b' = 0 \<and> writePos b' = writePos b - readPos b"
proof (cases "readPos b > 0")
  case True
  have le: "readPos b + (writePos b - readPos b) = writePos b" "writePos b \<le> length (sb_buffer b)"
    using inv by (simp_all add: sb_inv_def)
  have len: "length (sb_data b) = writePos b - readPos b" by (rule sb_sizes(2) [OF inv])
  have "length (sb_data b) \<le> length (sb_buffer b)" using len le by simp
  from front_copy [OF this] True inv le len show ?thesis
    by (auto simp: compact_def sb_sizes(1) [OF inv] Let_def sb_inv_def sb_data_def)
qed (use inv in \<open>auto simp: compact_def\<close>)

lemma ensureCapacity_law:
  assumes inv: "sb_inv b" and len: "len \<le> max_obj"
  shows "(\<exists>b'. ensureCapacity fresh len b = Inr b' \<and> sb_inv b' \<and> sb_data b' = sb_data b
      \<and> writePos b' + len \<le> bufferSize b')
    \<or> ensureCapacity fresh len b = Inl BadAlloc"
proof -
  have o: "readPos b \<le> writePos b" "writePos b \<le> bufferSize b" "length (sb_buffer b) = bufferSize b"
      "bufferSize b \<le> max_obj" using inv by (simp_all add: sb_inv_def)
  have av: "sz_sub (bufferSize b) (writePos b) = bufferSize b - writePos b" using o by (simp add: sz_sub_le)
  have ra: "sz_add (readPos b) (bufferSize b - writePos b) = readPos b + (bufferSize b - writePos b)"
    using o by (simp add: sz_add_small)
  let ?new = "max (sz_mul (bufferSize b) 2) (sz_add (writePos b) len)"
  have new: "?new = max (bufferSize b * 2) (writePos b + len)"
    using o len by (simp add: sz_add_small sz_mul_small)
  consider (room) "bufferSize b - writePos b \<ge> len"
    | (slide) "\<not> bufferSize b - writePos b \<ge> len" "readPos b + (bufferSize b - writePos b) \<ge> len"
    | (grow) "\<not> bufferSize b - writePos b \<ge> len" "\<not> readPos b + (bufferSize b - writePos b) \<ge> len"
    by blast
  then show ?thesis
  proof cases
    case room
    then show ?thesis using inv o by (auto simp: ensureCapacity_def av Let_def)
  next
    case slide
    then show ?thesis using compact_law [OF inv] o
      by (auto simp: ensureCapacity_def av ra Let_def)
  next
    case grow
    then have g: "(len \<le> bufferSize b - writePos b) = False"
        "(len \<le> readPos b + (bufferSize b - writePos b)) = False" by simp_all
    define N where "N = max (bufferSize b * 2) (writePos b + len)"
    let ?d = "sb_data b" and ?s = "map fresh [0..<N]"
    let ?b = "\<lparr>sb_buffer = overwrite ?s 0 ?d, bufferSize = N, readPos = 0, writePos = writePos b - readPos b\<rparr>"
    have len_d: "length ?d = writePos b - readPos b" by (rule sb_sizes(2) [OF inv])
    have fit: "writePos b - readPos b + len \<le> N" "writePos b - readPos b \<le> N" unfolding N_def by auto
    have le: "length ?d \<le> length ?s" using len_d fit by simp
    have "readPos b + (writePos b - readPos b) = writePos b" using o by simp
    then have "ensureCapacity fresh len b = (if N > max_obj then Inl BadAlloc else Inr ?b)"
      unfolding ensureCapacity_def Let_def av ra g if_False new N_def [symmetric]
      using o fit by (simp add: new_chars_def sb_sizes(1) [OF inv] sb_data_def)
    moreover have "sb_inv ?b" if "\<not> N > max_obj" using that fit front_copy(2) [OF le] by (simp add: sb_inv_def)
    moreover have "sb_data ?b = ?d" using front_copy(1) [OF le] len_d by (simp add: sb_data_def [of ?b])
    ultimately show ?thesis using fit by auto
  qed
qed

lemma sb_write_law:
  assumes inv: "sb_inv b" and len: "length d \<le> max_obj"
  shows "(\<exists>b'. sb_write fresh d b = Inr b' \<and> sb_inv b' \<and> sb_data b' = sb_data b @ d)
    \<or> sb_write fresh d b = Inl BadAlloc"
  using ensureCapacity_law [OF inv len, of fresh]
proof
  assume "\<exists>b'. ensureCapacity fresh (length d) b = Inr b' \<and> sb_inv b' \<and> sb_data b' = sb_data b
      \<and> writePos b' + length d \<le> bufferSize b'"
  then obtain b1 where e: "ensureCapacity fresh (length d) b = Inr b1" and b1: "sb_inv b1"
    and d: "sb_data b1 = sb_data b" and room: "writePos b1 + length d \<le> bufferSize b1" by blast
  have "sz_add (writePos b1) (length d) = writePos b1 + length d"
    using b1 room by (intro sz_add_small) (simp add: sb_inv_def)
  moreover have "segment (overwrite (sb_buffer b1) (writePos b1) d) (readPos b1) (writePos b1 + length d)
      = sb_data b1 @ d"
    using b1 room by (simp add: sb_data_def sb_inv_def segment_overwrite_append)
  ultimately show ?thesis using e b1 d room
    by (auto simp: sb_write_def sb_inv_def sb_data_def blk)
qed (simp add: sb_write_def)

lemma advance_law:
  assumes inv: "sb_inv b" and n: "n \<le> length (sb_data b)"
  shows "\<exists>b'. advance n b = Inr b' \<and> sb_inv b' \<and> sb_data b' = drop n (sb_data b)"
proof -
  let ?b = "b\<lparr>readPos := readPos b + n\<rparr>"
  have le: "readPos b + n \<le> writePos b" using inv n by (auto simp: sb_sizes(2) [OF inv] sb_inv_def)
  then have add: "sz_add (readPos b) n = readPos b + n" using inv by (intro sz_add_small) (simp add: sb_inv_def)
  have ib: "sb_inv ?b" using inv le by (simp add: sb_inv_def)
  have data: "sb_data ?b = drop n (sb_data b)" by (simp add: sb_data_def segment_drop)
  show ?thesis
  proof (cases "noData ?b")
    case True
    then have "sb_data ?b = []" by (simp add: noData_def sb_data_def)
    with True inv data show ?thesis by (simp add: advance_def add Let_def sb_inv_def sb_data_def)
  next
    case False
    with compact_law [OF ib] ib data show ?thesis by (auto simp: advance_def add Let_def)
  qed
qed

interpretation simple_buffer: byte_stream sb_inv sb_data "sb_write fresh" advance
  by unfold_locales (use sb_write_law advance_law in blast)+

section \<open>Properties\<close>

text \<open>
  C23.  \<open>Buffer\<close> of \<open>server.hpp\<close> is a byte stream: for every sequence of writes and reads that
  asks for no more than is stored, no assertion fails and no access leaves the storage; the
  bytes read, followed by the bytes still stored, are the bytes stored at the start followed by
  the bytes written.  The only fault is a refused allocation.
\<close>

theorem Buffer_stream:
  assumes "buf_inv b" and "\<forall>d. WriteBytes d \<in> set ops \<longrightarrow> length d \<le> max_obj"
  shows "case run_stream WriteAndPushOffSet MoveReaderOffset buf_contents ops b of
      Inl e \<Rightarrow> e = BadAlloc
    | Inr (w, r, b') \<Rightarrow> buf_inv b' \<and> buf_contents b @ w = r @ buf_contents b'"
  using assms by (rule server_buffer.run_stream_exact)

definition small_buffer :: Buffer where
  "small_buffer = \<lparr>storage = [0, 0], reader_offset = 0, writer_offset = 0\<rparr>"

theorem Buffer_stream_witness:
  "\<exists>b'. run_stream WriteAndPushOffSet MoveReaderOffset buf_contents
     [WriteBytes [7, 8], Consume 1, WriteBytes [9, 5], Consume 2] small_buffer = Inr ([7, 8, 9, 5], [7, 8, 9], b')
     \<and> buf_inv b' \<and> buf_contents b' = [5]"
proof -
  have "buf_inv small_buffer" by (simp add: buf_inv_def small_buffer_def)
  moreover have "buf_contents small_buffer = []" by (simp add: buf_contents_def small_buffer_def)
  moreover have run: "run_stream WriteAndPushOffSet MoveReaderOffset buf_contents
     [WriteBytes [7, 8], Consume 1, WriteBytes [9, 5], Consume 2] small_buffer
     = Inr ([7, 8, 9, 5], [7, 8, 9], \<lparr>storage = [7, 8, 9, 5], reader_offset = 3, writer_offset = 4\<rparr>)"
    by (simp add: small_buffer_def WriteAndPushOffSet_def Write_def EnsureWritableSpaceEnough_def
        TailWritableSize_def HeadWritableSize_def ReadableSize_def MoveWriterOffset_def MoveReaderOffset_def
        vector_resize_def buf_contents_def sz_sub_def sz_add_def overwrite_def segment_def Let_def)
  ultimately show ?thesis
    using Buffer_stream [of small_buffer "[WriteBytes [7, 8], Consume 1, WriteBytes [9, 5], Consume 2]"] by auto
qed

text \<open>
  Reading a line from \<open>Buffer\<close> never fails: it takes the bytes up to and including the first
  newline out of the stream, or nothing when no newline is stored.
\<close>

theorem Buffer_get_line:
  assumes inv: "buf_inv b"
  shows "\<exists>line b'. GetLineAndPushOffSet b = Inr (line, b') \<and> buf_inv b'
    \<and> buf_contents b = line @ buf_contents b'
    \<and> (if 10 \<in> set (buf_contents b) then \<exists>xs. line = xs @ [10] \<and> 10 \<notin> set xs else line = [])"
proof (cases "memchr 10 (buf_contents b)")
  case None
  then have "10 \<notin> set (buf_contents b)" by (simp add: memchr_None)
  moreover from None have "GetLineAndPushOffSet b = Inr ([], b)"
    by (simp add: GetLineAndPushOffSet_def GetLine_def sizes [OF inv] MoveReaderOffset_def)
  ultimately show ?thesis using inv by auto
next
  case (Some i)
  let ?c = "buf_contents b"
  note mem = memchr_Some [OF Some]
  then have le: "Suc i \<le> length ?c" by simp
  obtain b' where b': "ReadAsStringAndPushOffSet (Suc i) b = Inr (take (Suc i) ?c, b')" "buf_inv b'"
      "buf_contents b' = drop (Suc i) ?c"
    using ReadAsStringAndPush_law [OF inv le] by blast
  have "ReadAsString (Suc i) b = Inr (take (Suc i) ?c)" "MoveReaderOffset (Suc i) b = Inr b'"
    using b'(1) le by (auto simp: ReadAsStringAndPushOffSet_def sizes [OF inv] split: sum.splits if_splits)
  then have "GetLineAndPushOffSet b = Inr (take (Suc i) ?c, b')"
    using Some le by (simp add: GetLineAndPushOffSet_def GetLine_def sizes [OF inv] min_def)
  moreover have "take (Suc i) ?c = take i ?c @ [10]" using mem by (simp add: take_Suc_conv_app_nth)
  moreover have "10 \<in> set ?c" using mem nth_mem by metis
  moreover have "?c = take (Suc i) ?c @ buf_contents b'" using b'(3) by simp
  ultimately show ?thesis using b'(2) mem by metis
qed

theorem Buffer_get_line_witness:
  "\<exists>b'. GetLineAndPushOffSet \<lparr>storage = [72, 10, 73], reader_offset = 0, writer_offset = 3\<rparr> = Inr ([72, 10], b')"
proof -
  let ?b = "\<lparr>storage = [72, 10, 73], reader_offset = 0, writer_offset = 3\<rparr>"
  have "buf_inv ?b" by (simp add: buf_inv_def)
  moreover have "buf_contents ?b = [72, 10, 73]" by (simp add: buf_contents_def)
  ultimately obtain xs b' rest where "GetLineAndPushOffSet ?b = Inr (xs @ [10], b')" "10 \<notin> set xs"
      "[72, 10, 73] = (xs @ [10]) @ rest"
    using Buffer_get_line [of ?b] by auto
  moreover from this have "xs = [72]" by (cases xs; cases "tl xs") auto
  ultimately show ?thesis by auto
qed

text \<open>
  \<open>SimpleBuffer\<close> is a byte stream too, whatever newly allocated storage holds: sliding the
  bytes to the front, doubling the storage and resetting the positions never lose or reorder a
  byte.
\<close>

theorem SimpleBuffer_stream:
  assumes "sb_inv b" and "\<forall>d. WriteBytes d \<in> set ops \<longrightarrow> length d \<le> max_obj"
  shows "case run_stream (sb_write fresh) advance sb_data ops b of
      Inl e \<Rightarrow> e = BadAlloc
    | Inr (w, r, b') \<Rightarrow> sb_inv b' \<and> sb_data b @ w = r @ sb_data b'"
  using assms by (rule simple_buffer.run_stream_exact)

definition small_simple_buffer :: SimpleBuffer where
  "small_simple_buffer = \<lparr>sb_buffer = [0, 0], bufferSize = 2, readPos = 0, writePos = 0\<rparr>"

theorem SimpleBuffer_stream_witness:
  "\<exists>b'. run_stream (sb_write (\<lambda>_. 1)) advance sb_data
     [WriteBytes [7, 8], Consume 1, WriteBytes [9, 5], Consume 2] small_simple_buffer = Inr ([7, 8, 9, 5], [7, 8, 9], b')
     \<and> sb_inv b' \<and> sb_data b' = [5]"
proof -
  have upt: "[0..<4] = [0, 1, 2, 3]" by (simp add: upt_rec)
  have "sb_inv small_simple_buffer" by (simp add: sb_inv_def small_simple_buffer_def)
  moreover have "sb_data small_simple_buffer = []" by (simp add: sb_data_def small_simple_buffer_def)
  moreover have run: "run_stream (sb_write (\<lambda>_. 1)) advance sb_data
     [WriteBytes [7, 8], Consume 1, WriteBytes [9, 5], Consume 2] small_simple_buffer
     = Inr ([7, 8, 9, 5], [7, 8, 9], \<lparr>sb_buffer = [8, 9, 5, 1], bufferSize = 4, readPos = 2, writePos = 3\<rparr>)"
    by (simp add: small_simple_buffer_def sb_write_def ensureCapacity_def compact_def advance_def noData_def
        new_chars_def sb_size_def sb_data_def sz_sub_def sz_add_def sz_mul_def overwrite_def segment_def Let_def
        upt)
  ultimately show ?thesis
    using SimpleBuffer_stream [of small_simple_buffer "[WriteBytes [7, 8], Consume 1, WriteBytes [9, 5], Consume 2]"
        "\<lambda>_. 1", unfolded run] by (auto simp del: run_stream.simps)
qed

end
