(* ===== verification/Timer_Wheel.thy ===== *)
theory Timer_Wheel
  imports Prelude
begin

text \<open>
  The timer wheel of \<open>muduo/server.hpp\<close>.  A task is run by the destructor that runs when the last
  \<open>shared_ptr\<close> to it goes away.  Every task that was ever created has an address, its index in
  \<open>tasks\<close>; the wheel's slots hold addresses, one for each \<open>shared_ptr\<close>, and \<open>timers\<close> holds the
  \<open>weak_ptr\<close>s by id.  The log \<open>fired\<close> lists the addresses of the tasks whose callback ran, in
  order.  The functions named \<open>InLoop\<close> run in the loop's thread, where a release takes effect at
  once.
\<close>

section \<open>State and operations\<close>

record 'c TimerTask =
  task_id :: nat
  task_timeout :: nat
  task_callback :: 'c
  is_cancel :: bool

record 'c TimerWheel =
  tick :: nat
  wheel :: "nat list list"
  timers :: "nat \<Rightarrow> nat option"
  tasks :: "'c TimerTask list"
  fired :: "nat list"

definition wheel_capacity :: nat where
  "wheel_capacity = 60"

definition TimerWheel_new :: "'c TimerWheel" where
  "TimerWheel_new = \<lparr>tick = 0, wheel = replicate wheel_capacity [], timers = (\<lambda>_. None), tasks = [], fired = []\<rparr>"

definition HasTimerTask :: "nat \<Rightarrow> 'c TimerWheel \<Rightarrow> bool" where
  "HasTimerTask i w = (timers w i \<noteq> None)"

definition push_slot :: "nat \<Rightarrow> nat \<Rightarrow> 'c TimerWheel \<Rightarrow> 'c TimerWheel" where
  "push_slot pos a w = w\<lparr>wheel := (wheel w)[pos := wheel w ! pos @ [a]]\<rparr>"

definition AddTimerTaskInLoop :: "nat \<Rightarrow> nat \<Rightarrow> 'c \<Rightarrow> 'c TimerWheel \<Rightarrow> 'c TimerWheel" where
  "AddTimerTaskInLoop i timeout callback w =
     (let a = length (tasks w);
          t = \<lparr>task_id = i, task_timeout = timeout, task_callback = callback, is_cancel = False\<rparr>;
          w1 = w\<lparr>tasks := tasks w @ [t], timers := (timers w)(i := Some a)\<rparr>;
          pos = (tick w + timeout) mod wheel_capacity
      in push_slot pos a w1)"

definition alive :: "'c TimerWheel \<Rightarrow> nat \<Rightarrow> bool" where
  "alive w a \<longleftrightarrow> (\<exists>slot \<in> set (wheel w). a \<in> set slot)"

text \<open>\<open>lock()\<close> on an expired pointer gives null, and using it is an access outside any object.\<close>

definition RefreshTimerTaskInLoop :: "nat \<Rightarrow> 'c TimerWheel \<Rightarrow> fault + 'c TimerWheel" where
  "RefreshTimerTaskInLoop i w =
     (case timers w i of
        None \<Rightarrow> Inr w
      | Some a \<Rightarrow>
          if \<not> alive w a then Inl OutOfBounds
          else let timeout = task_timeout (tasks w ! a);
                   pos = (tick w + timeout) mod wheel_capacity
               in Inr (push_slot pos a w))"

definition CancelTimerTaskInLoop :: "nat \<Rightarrow> 'c TimerWheel \<Rightarrow> 'c TimerWheel" where
  "CancelTimerTaskInLoop i w =
     (case timers w i of
        None \<Rightarrow> w
      | Some a \<Rightarrow>
          if alive w a then w\<lparr>tasks := (tasks w)[a := (tasks w ! a)\<lparr>is_cancel := True\<rparr>]\<rparr> else w)"

definition ReleaseTimerTaskInLoop :: "nat \<Rightarrow> 'c TimerWheel \<Rightarrow> 'c TimerWheel" where
  "ReleaseTimerTaskInLoop i w = w\<lparr>timers := (timers w)(i := None)\<rparr>"

definition TimerTask_destroy :: "nat \<Rightarrow> 'c TimerWheel \<Rightarrow> 'c TimerWheel" where
  "TimerTask_destroy a w =
     (let t = tasks w ! a;
          w1 = (if is_cancel t then w else w\<lparr>fired := fired w @ [a]\<rparr>)
      in ReleaseTimerTaskInLoop (task_id t) w1)"

text \<open>
  Clearing a slot drops its pointers from the first to the last; a task is destroyed when its
  last pointer, here and in the other slots, is gone.
\<close>

fun drop_pointers :: "nat \<Rightarrow> nat list \<Rightarrow> 'c TimerWheel \<Rightarrow> 'c TimerWheel" where
  "drop_pointers pos [] w = w\<lparr>wheel := (wheel w)[pos := []]\<rparr>"
| "drop_pointers pos (a # ps) w =
     (let w1 = w\<lparr>wheel := (wheel w)[pos := ps]\<rparr>
      in drop_pointers pos ps (if alive w1 a then w1 else TimerTask_destroy a w1))"

definition Step :: "'c TimerWheel \<Rightarrow> 'c TimerWheel" where
  "Step w =
     (let w1 = w\<lparr>tick := (tick w + 1) mod wheel_capacity\<rparr>
      in drop_pointers (tick w1) (wheel w1 ! tick w1) w1)"

primrec Ontime :: "nat \<Rightarrow> 'c TimerWheel \<Rightarrow> 'c TimerWheel" where
  "Ontime 0 w = w"
| "Ontime (Suc n) w = Ontime n (Step w)"

section \<open>The invariant\<close>

definition wheel_inv :: "'c TimerWheel \<Rightarrow> bool" where
  "wheel_inv w \<longleftrightarrow> tick w < wheel_capacity \<and> length (wheel w) = wheel_capacity
     \<and> (\<forall>a. alive w a \<longrightarrow> a < length (tasks w) \<and> a \<notin> set (fired w))
     \<and> (\<forall>a \<in> set (fired w). a < length (tasks w)) \<and> distinct (fired w)
     \<and> (\<forall>i a. timers w i = Some a \<longrightarrow> alive w a \<and> task_id (tasks w ! a) = i)"

lemma alive_nth: "alive w a \<longleftrightarrow> (\<exists>k < length (wheel w). a \<in> set (wheel w ! k))"
  by (metis alive_def in_set_conv_nth)

lemma wheel_inv_new: "wheel_inv TimerWheel_new"
  by (simp add: wheel_inv_def TimerWheel_new_def alive_def wheel_capacity_def)

lemma alive_push_slot:
  "pos < length (wheel w) \<Longrightarrow> alive (push_slot pos b w) a \<longleftrightarrow> alive w a \<or> a = b"
  by (auto simp: alive_nth push_slot_def nth_list_update)

lemma push_slot_sel [simp]:
  "tick (push_slot pos a w) = tick w" "timers (push_slot pos a w) = timers w"
  "tasks (push_slot pos a w) = tasks w" "fired (push_slot pos a w) = fired w"
  "length (wheel (push_slot pos a w)) = length (wheel w)"
  by (simp_all add: push_slot_def)

lemma pos_lt [simp]: "n mod wheel_capacity < wheel_capacity"
  by (simp add: wheel_capacity_def)

lemma alive_cong: "wheel w = wheel w' \<Longrightarrow> alive w a = alive w' a"
  by (simp add: alive_def)

lemma alive_sel [simp]:
  "alive (w\<lparr>tasks := x\<rparr>) a = alive w a" "alive (w\<lparr>timers := y\<rparr>) a = alive w a"
  "alive (w\<lparr>fired := z\<rparr>) a = alive w a" "alive (w\<lparr>tick := n\<rparr>) a = alive w a"
  by (simp_all add: alive_def)

lemma Add_inv: "wheel_inv w \<Longrightarrow> wheel_inv (AddTimerTaskInLoop i timeout cb w)"
  by (auto simp: wheel_inv_def AddTimerTaskInLoop_def Let_def alive_push_slot nth_append less_Suc_eq)

lemma Refresh_inv:
  assumes "wheel_inv w"
  shows "\<exists>w'. RefreshTimerTaskInLoop i w = Inr w' \<and> wheel_inv w'"
  using assms
  by (auto simp: wheel_inv_def RefreshTimerTaskInLoop_def Let_def alive_push_slot split: option.splits)

lemma Cancel_inv: "wheel_inv w \<Longrightarrow> wheel_inv (CancelTimerTaskInLoop i w)"
  by (auto simp: wheel_inv_def CancelTimerTaskInLoop_def nth_list_update split: option.splits)

section \<open>What a step does\<close>

definition elsewhere :: "'c TimerWheel \<Rightarrow> nat \<Rightarrow> nat \<Rightarrow> bool" where
  "elsewhere w pos a \<longleftrightarrow> (\<exists>k < length (wheel w). k \<noteq> pos \<and> a \<in> set (wheel w ! k))"

definition expiring :: "'c TimerWheel \<Rightarrow> nat \<Rightarrow> nat list \<Rightarrow> nat list" where
  "expiring w pos ps = filter (\<lambda>a. \<not> elsewhere w pos a) (remdups ps)"

lemma elsewhere_update [simp]: "elsewhere (w\<lparr>wheel := (wheel w)[pos := ps]\<rparr>) pos a = elsewhere w pos a"
  by (auto simp: elsewhere_def)

lemma elsewhere_sel [simp]:
  "elsewhere (w\<lparr>timers := y\<rparr>) pos a = elsewhere w pos a" "elsewhere (w\<lparr>fired := z\<rparr>) pos a = elsewhere w pos a"
  "elsewhere (w\<lparr>tick := n\<rparr>) pos a = elsewhere w pos a"
  by (simp_all add: elsewhere_def)

lemma alive_split:
  "pos < length (wheel w) \<Longrightarrow> alive w a \<longleftrightarrow> a \<in> set (wheel w ! pos) \<or> elsewhere w pos a"
  by (auto simp: alive_nth elsewhere_def)

lemma drop_pointers_effect:
  assumes "pos < length (wheel w)"
  shows "drop_pointers pos ps w = w\<lparr>wheel := (wheel w)[pos := []],
      fired := fired w @ filter (\<lambda>a. \<not> is_cancel (tasks w ! a)) (expiring w pos ps),
      timers := (\<lambda>i. if \<exists>a \<in> set (expiring w pos ps). task_id (tasks w ! a) = i then None else timers w i)\<rparr>"
  using assms
proof (induction ps arbitrary: w)
  case (Cons a ps)
  let ?w1 = "w\<lparr>wheel := (wheel w)[pos := ps]\<rparr>"
  have al: "alive ?w1 a \<longleftrightarrow> a \<in> set ps \<or> elsewhere w pos a"
    using alive_split [of pos ?w1 a] Cons.prems by simp
  have ex: "expiring ?w1 pos qs = expiring w pos qs" for qs by (simp add: expiring_def)
  show ?case
  proof (cases "alive ?w1 a")
    case True
    then have "expiring w pos (a # ps) = expiring w pos ps" using al by (auto simp: expiring_def)
    with True Cons.IH [of ?w1] Cons.prems show ?thesis by (simp add: ex cong: if_cong)
  next
    case False
    then have e: "expiring w pos (a # ps) = a # expiring w pos ps" using al by (auto simp: expiring_def)
    let ?w2 = "TimerTask_destroy a ?w1"
    have w2: "?w2 = ?w1\<lparr>fired := fired w @ (if is_cancel (tasks w ! a) then [] else [a]),
        timers := (timers w)(task_id (tasks w ! a) := None)\<rparr>"
      by (simp add: TimerTask_destroy_def ReleaseTimerTaskInLoop_def Let_def)
    then have ex2: "expiring ?w2 pos qs = expiring w pos qs" for qs by (simp add: expiring_def)
    have "drop_pointers pos (a # ps) w = drop_pointers pos ps ?w2" using False by simp
    also have "\<dots> = w\<lparr>wheel := (wheel w)[pos := []],
      fired := fired w @ filter (\<lambda>a. \<not> is_cancel (tasks w ! a)) (expiring w pos (a # ps)),
      timers := (\<lambda>i. if \<exists>a \<in> set (expiring w pos (a # ps)). task_id (tasks w ! a) = i then None else timers w i)\<rparr>"
      using Cons.IH [of ?w2] Cons.prems unfolding ex2 e by (simp add: w2 fun_eq_iff cong: if_cong)
    finally show ?thesis .
  qed
qed (simp add: expiring_def)

definition next_pos :: "'c TimerWheel \<Rightarrow> nat" where
  "next_pos w = (tick w + 1) mod wheel_capacity"

lemma Step_effect:
  assumes "wheel_inv w"
  shows "Step w = w\<lparr>tick := next_pos w, wheel := (wheel w)[next_pos w := []],
      fired := fired w @ filter (\<lambda>a. \<not> is_cancel (tasks w ! a)) (expiring w (next_pos w) (wheel w ! next_pos w)),
      timers := (\<lambda>i. if \<exists>a \<in> set (expiring w (next_pos w) (wheel w ! next_pos w)). task_id (tasks w ! a) = i
                 then None else timers w i)\<rparr>"
proof -
  have "next_pos w < length (wheel w)" using assms by (simp add: wheel_inv_def next_pos_def)
  then show ?thesis
    using drop_pointers_effect [of "next_pos w" "w\<lparr>tick := next_pos w\<rparr>" "wheel w ! next_pos w"]
    by (simp add: Step_def Let_def next_pos_def expiring_def cong: if_cong)
qed

lemma expiring_set:
  "a \<in> set (expiring w pos ps) \<longleftrightarrow> a \<in> set ps \<and> \<not> elsewhere w pos a"
  by (auto simp: expiring_def)

lemma Step_alive:
  assumes "wheel_inv w"
  shows "alive (Step w) a \<longleftrightarrow> elsewhere w (next_pos w) a"
proof -
  have "alive (Step w) a \<longleftrightarrow> (\<exists>k < length (wheel w). a \<in> set ((wheel w)[next_pos w := []] ! k))"
    by (simp add: alive_nth Step_effect [OF assms])
  also have "\<dots> \<longleftrightarrow> elsewhere w (next_pos w) a"
    unfolding elsewhere_def by (metis empty_iff empty_set nth_list_update_eq nth_list_update_neq)
  finally show ?thesis .
qed

lemma Step_inv:
  assumes inv: "wheel_inv w"
  shows "wheel_inv (Step w)"
proof -
  let ?p = "next_pos w"
  let ?e = "expiring w ?p (wheel w ! ?p)"
  have p: "?p < length (wheel w)" using inv by (simp add: wheel_inv_def next_pos_def)
  have sub: "alive w a" if "a \<in> set ?e \<or> elsewhere w ?p a" for a
    using that alive_split [OF p] by (auto simp: expiring_set)
  have e: "distinct ?e" "\<And>a. a \<in> set ?e \<Longrightarrow> \<not> elsewhere w ?p a" by (auto simp: expiring_def)
  have "elsewhere w ?p a \<and> task_id (tasks w ! a) = i"
    if "timers w i = Some a" "\<not> (\<exists>b \<in> set ?e. task_id (tasks w ! b) = i)" for i a
  proof -
    have a: "alive w a" "task_id (tasks w ! a) = i" using that(1) inv by (auto simp: wheel_inv_def)
    with that(2) have "a \<notin> set ?e" by blast
    then show ?thesis using a alive_split [OF p, of a] by (auto simp: expiring_set)
  qed
  then have t: "\<forall>i a. timers (Step w) i = Some a \<longrightarrow> alive (Step w) a \<and> task_id (tasks (Step w) ! a) = i"
    unfolding Step_alive [OF inv] by (auto simp: Step_effect [OF inv] split: if_splits)
  have f: "set (fired (Step w)) \<subseteq> set (fired w) \<union> set ?e" "distinct (fired (Step w))"
    "tasks (Step w) = tasks w" "tick (Step w) < wheel_capacity" "length (wheel (Step w)) = wheel_capacity"
    using inv e(1) sub by (auto simp: Step_effect [OF inv] wheel_inv_def next_pos_def)
  have "a < length (tasks w) \<and> a \<notin> set (fired (Step w))" if "alive (Step w) a" for a
    using that f(1) e(2) sub inv unfolding Step_alive [OF inv] wheel_inv_def by blast
  moreover have "\<forall>a \<in> set (fired (Step w)). a < length (tasks w)"
    using f(1) sub inv unfolding wheel_inv_def by blast
  ultimately show ?thesis using t f(2-5) unfolding wheel_inv_def by simp
qed

section \<open>How long a pointer stays\<close>

definition wheel_delay :: "nat \<Rightarrow> nat" where
  "wheel_delay timeout = (if timeout mod wheel_capacity = 0 then wheel_capacity else timeout mod wheel_capacity)"

text \<open>\<open>due w a d\<close>: a pointer to the task is in the slot that the \<open>d\<close>-th step from now clears.\<close>

definition due :: "'c TimerWheel \<Rightarrow> nat \<Rightarrow> nat \<Rightarrow> bool" where
  "due w a d \<longleftrightarrow> 1 \<le> d \<and> d \<le> wheel_capacity \<and> a \<in> set (wheel w ! ((tick w + d) mod wheel_capacity))"

definition lasts :: "'c TimerWheel \<Rightarrow> nat \<Rightarrow> nat \<Rightarrow> bool" where
  "lasts w a L \<longleftrightarrow> due w a L \<and> (\<forall>d. due w a d \<longrightarrow> d \<le> L)"

lemma wheel_delay_range: "1 \<le> wheel_delay t" "wheel_delay t \<le> wheel_capacity"
  by (auto simp: wheel_delay_def wheel_capacity_def)

lemma wheel_delay_pos: "(k + wheel_delay t) mod wheel_capacity = (k + t) mod wheel_capacity"
  by (auto simp: wheel_delay_def) (metis add.commute mod_add_left_eq mod_add_self2 add_0)+

text \<open>Each slot is cleared by exactly one of the next \<open>wheel_capacity\<close> steps.\<close>

lemma slot_step_inj:
  assumes "1 \<le> d" "d \<le> wheel_capacity" "1 \<le> e" "e \<le> wheel_capacity"
    and "(k + d) mod wheel_capacity = (k + e) mod wheel_capacity"
  shows "d = e"
proof -
  let ?r = "wheel_capacity - k mod wheel_capacity"
  have "(k + x + ?r) mod wheel_capacity = x mod wheel_capacity" for x
  proof -
    have "wheel_capacity * (k div wheel_capacity) + k mod wheel_capacity = k" by simp
    then have "k + x + ?r = x + (wheel_capacity * (k div wheel_capacity) + wheel_capacity)"
      using pos_lt [of k] by linarith
    then show ?thesis by (metis mod_add_self2 mod_mult_self2 add.assoc)
  qed
  moreover have "(k + d + ?r) mod wheel_capacity = (k + e + ?r) mod wheel_capacity"
    using assms(5) by (metis mod_add_left_eq)
  ultimately have eq: "d mod wheel_capacity = e mod wheel_capacity" by simp
  have m: "x mod wheel_capacity = (if x = wheel_capacity then 0 else x)" if "x \<le> wheel_capacity" for x
    using that by simp
  show ?thesis using eq assms(1-4) unfolding m [OF assms(2)] m [OF assms(4)] by (simp split: if_splits)
qed

lemma slot_of_step:
  assumes "k < wheel_capacity" "t < wheel_capacity"
  obtains d where "1 \<le> d" "d \<le> wheel_capacity" "k = (t + d) mod wheel_capacity"
proof (cases "t < k")
  case True
  with assms that [of "k - t"] show thesis by simp
next
  case False
  with assms that [of "k + wheel_capacity - t"] show thesis by simp
qed

lemma elsewhere_due:
  assumes "wheel_inv w"
  shows "elsewhere w (next_pos w) a \<longleftrightarrow> (\<exists>d. 1 < d \<and> due w a d)"
proof
  assume "elsewhere w (next_pos w) a"
  then obtain k where k: "k < wheel_capacity" "k \<noteq> next_pos w" "a \<in> set (wheel w ! k)"
    using assms by (auto simp: elsewhere_def wheel_inv_def)
  obtain d where d: "1 \<le> d" "d \<le> wheel_capacity" "k = (tick w + d) mod wheel_capacity"
    using slot_of_step [OF k(1), of "tick w"] assms by (auto simp: wheel_inv_def)
  then have "d \<noteq> 1" using k(2) by (auto simp: next_pos_def)
  with d k show "\<exists>d. 1 < d \<and> due w a d" by (intro exI [of _ d]) (simp add: due_def)
next
  assume "\<exists>d. 1 < d \<and> due w a d"
  then obtain d where d: "1 < d" "due w a d" by blast
  then have "(tick w + d) mod wheel_capacity \<noteq> next_pos w"
    using slot_step_inj [of d 1 "tick w"] by (auto simp: due_def next_pos_def wheel_capacity_def)
  with d assms show "elsewhere w (next_pos w) a"
    by (auto simp: elsewhere_def due_def wheel_inv_def intro!: exI [of _ "(tick w + d) mod wheel_capacity"])
qed

lemma alive_due: "wheel_inv w \<Longrightarrow> alive w a \<longleftrightarrow> (\<exists>d. due w a d)"
proof -
  assume inv: "wheel_inv w"
  then have "next_pos w < length (wheel w)" by (simp add: wheel_inv_def next_pos_def)
  then have "alive w a \<longleftrightarrow> due w a 1 \<or> (\<exists>d. 1 < d \<and> due w a d)"
    unfolding elsewhere_due [OF inv, symmetric]
    by (simp add: alive_split due_def next_pos_def wheel_capacity_def)
  then show ?thesis by (metis due_def le_neq_implies_less)
qed

lemma due_Step:
  assumes "wheel_inv w"
  shows "due (Step w) a d \<longleftrightarrow> 1 \<le> d \<and> due w a (Suc d)"
proof (cases "1 \<le> d \<and> d \<le> wheel_capacity")
  case True
  let ?k = "(tick w + Suc d) mod wheel_capacity"
  have len: "length (wheel w) = wheel_capacity" using assms by (simp add: wheel_inv_def)
  have "(next_pos w + d) mod wheel_capacity = ?k" unfolding next_pos_def by (simp add: mod_add_left_eq)
  then have eq: "due (Step w) a d \<longleftrightarrow> a \<in> set ((wheel w)[next_pos w := []] ! ?k)"
    using True by (simp add: due_def Step_effect [OF assms])
  show ?thesis
  proof (cases "d = wheel_capacity")
    case True
    then have "tick w + Suc d = (tick w + 1) + wheel_capacity" by simp
    then have "?k = next_pos w" by (metis mod_add_self2 next_pos_def)
    moreover have "next_pos w < length (wheel w)" using len by (simp add: next_pos_def)
    ultimately show ?thesis using True unfolding eq by (simp add: due_def)
  next
    case False
    then have "?k \<noteq> next_pos w"
      using True slot_step_inj [of "Suc d" 1 "tick w"] by (auto simp: next_pos_def wheel_capacity_def)
    then show ?thesis using True False unfolding eq by (simp add: due_def)
  qed
qed (auto simp: due_def)

lemma lasts_alive: "wheel_inv w \<Longrightarrow> lasts w a L \<Longrightarrow> alive w a"
  by (auto simp: alive_due lasts_def)

lemma lasts_Step:
  assumes inv: "wheel_inv w" and l: "lasts w a L" "1 < L"
  shows "lasts (Step w) a (L - 1)"
proof -
  have "due (Step w) a (L - 1)" using l by (auto simp: due_Step [OF inv] lasts_def)
  moreover have "d \<le> L - 1" if "due (Step w) a d" for d
    using that l by (fastforce simp: due_Step [OF inv] lasts_def)
  ultimately show ?thesis by (simp add: lasts_def)
qed

lemma Step_fired:
  assumes "wheel_inv w"
  shows "a \<in> set (fired (Step w)) \<longleftrightarrow> a \<in> set (fired w) \<or> lasts w a 1 \<and> \<not> is_cancel (tasks w ! a)"
proof -
  have "a \<in> set (wheel w ! next_pos w) \<longleftrightarrow> due w a 1" by (simp add: due_def next_pos_def wheel_capacity_def)
  then have "a \<in> set (wheel w ! next_pos w) \<and> \<not> elsewhere w (next_pos w) a \<longleftrightarrow> lasts w a 1"
    unfolding elsewhere_due [OF assms] by (auto simp: lasts_def not_less)
  then show ?thesis by (auto simp: Step_effect [OF assms] expiring_set)
qed

lemma Step_tasks: "wheel_inv w \<Longrightarrow> tasks (Step w) = tasks w"
  by (simp add: Step_effect)

lemma Ontime_fired_mono: "wheel_inv w \<Longrightarrow> a \<in> set (fired w) \<Longrightarrow> a \<in> set (fired (Ontime n w))"
  by (induction n arbitrary: w) (simp_all add: Step_inv Step_fired)

lemma Ontime_inv: "wheel_inv w \<Longrightarrow> wheel_inv (Ontime n w)"
  by (induction n arbitrary: w) (simp_all add: Step_inv)

lemma fires_exactly:
  assumes "wheel_inv w" "lasts w a L" "\<not> is_cancel (tasks w ! a)"
  shows "a \<in> set (fired (Ontime n w)) \<longleftrightarrow> L \<le> n"
  using assms
proof (induction n arbitrary: w L)
  case 0
  then show ?case using lasts_alive [of w a L] by (auto simp: wheel_inv_def lasts_def due_def)
next
  case (Suc n)
  show ?case
  proof (cases "L = 1")
    case True
    then show ?thesis using Suc.prems Step_inv [of w] Ontime_fired_mono [of "Step w" a n]
      by (simp add: Step_fired)
  next
    case False
    then have "1 < L" using Suc.prems(2) by (auto simp: lasts_def due_def)
    from lasts_Step [OF Suc.prems(1,2) this] Suc.IH [of "Step w" "L - 1"] Suc.prems \<open>1 < L\<close> show ?thesis
      by (auto simp: Step_inv Step_tasks)
  qed
qed

lemma never_fires:
  assumes "wheel_inv w" "a \<notin> set (fired w)" "is_cancel (tasks w ! a)"
  shows "a \<notin> set (fired (Ontime n w))"
  using assms by (induction n arbitrary: w) (simp_all add: Step_inv Step_fired Step_tasks)

section \<open>Pointers never outlive the delay of their task\<close>

definition timely :: "'c TimerWheel \<Rightarrow> bool" where
  "timely w \<longleftrightarrow> (\<forall>a d. due w a d \<longrightarrow> d \<le> wheel_delay (task_timeout (tasks w ! a)))"

lemma due_push_slot:
  assumes "wheel_inv w" and "pos = (tick w + t) mod wheel_capacity"
  shows "due (push_slot pos b w) a d \<longleftrightarrow> due w a d \<or> a = b \<and> d = wheel_delay t"
proof (cases "1 \<le> d \<and> d \<le> wheel_capacity")
  case True
  let ?k = "(tick w + d) mod wheel_capacity"
  have "?k = pos \<longleftrightarrow> d = wheel_delay t"
    using True wheel_delay_range [of t] slot_step_inj [of d "wheel_delay t" "tick w"]
    unfolding assms(2) by (auto simp: wheel_delay_pos)
  moreover have "a \<in> set (wheel (push_slot pos b w) ! ?k) \<longleftrightarrow> a \<in> set (wheel w ! ?k) \<or> ?k = pos \<and> a = b"
    using assms by (auto simp: push_slot_def nth_list_update wheel_inv_def)
  ultimately show ?thesis using True by (auto simp: due_def)
qed (use wheel_delay_range [of t] in \<open>auto simp: due_def\<close>)

lemma due_sel [simp]:
  "due (w\<lparr>tasks := x\<rparr>) a d = due w a d" "due (w\<lparr>timers := y\<rparr>) a d = due w a d"
  by (simp_all add: due_def)

lemma wheel_inv_alive_lt: "wheel_inv w \<Longrightarrow> due w a d \<Longrightarrow> a < length (tasks w)"
  using alive_due [of w a] unfolding wheel_inv_def by blast

lemma due_Add:
  assumes "wheel_inv w"
  shows "due (AddTimerTaskInLoop i t cb w) a d \<longleftrightarrow> due w a d \<or> a = length (tasks w) \<and> d = wheel_delay t"
proof -
  let ?k = "(tick w + d) mod wheel_capacity"
  have "due (AddTimerTaskInLoop i t cb w) a d
      \<longleftrightarrow> due (push_slot ((tick w + t) mod wheel_capacity) (length (tasks w)) w) a d"
    by (simp add: due_def AddTimerTaskInLoop_def Let_def push_slot_def)
  then show ?thesis by (simp add: due_push_slot [OF assms])
qed

lemma tasks_Add: "tasks (AddTimerTaskInLoop i t cb w)
    = tasks w @ [\<lparr>task_id = i, task_timeout = t, task_callback = cb, is_cancel = False\<rparr>]"
  by (simp add: AddTimerTaskInLoop_def Let_def)

lemma timely_Add: "wheel_inv w \<Longrightarrow> timely w \<Longrightarrow> timely (AddTimerTaskInLoop i t cb w)"
  unfolding timely_def by (auto simp: due_Add tasks_Add nth_append dest: wheel_inv_alive_lt)

lemma timely_Refresh:
  "wheel_inv w \<Longrightarrow> timely w \<Longrightarrow> RefreshTimerTaskInLoop i w = Inr w' \<Longrightarrow> timely w'"
  by (auto simp: timely_def RefreshTimerTaskInLoop_def Let_def due_push_slot split: option.splits if_splits)

lemma cancel_timeout:
  "task_timeout (ts[x := (ts ! x)\<lparr>is_cancel := True\<rparr>] ! a) = task_timeout (ts ! a)"
  by (cases "a = x \<and> x < length ts") (auto simp: list_update_beyond)

lemma timely_Cancel: "wheel_inv w \<Longrightarrow> timely w \<Longrightarrow> timely (CancelTimerTaskInLoop i w)"
  by (auto simp: timely_def CancelTimerTaskInLoop_def cancel_timeout split: option.splits)

lemma timely_Step: "wheel_inv w \<Longrightarrow> timely w \<Longrightarrow> timely (Step w)"
  unfolding timely_def by (simp add: due_Step Step_tasks) (meson Suc_leD)

section \<open>Runs\<close>

datatype 'c wheel_op = AddTask nat nat 'c | RefreshTask nat | CancelTask nat | Tick

fun wheel_step :: "'c wheel_op \<Rightarrow> 'c TimerWheel \<Rightarrow> fault + 'c TimerWheel" where
  "wheel_step (AddTask i t cb) w = Inr (AddTimerTaskInLoop i t cb w)"
| "wheel_step (RefreshTask i) w = RefreshTimerTaskInLoop i w"
| "wheel_step (CancelTask i) w = Inr (CancelTimerTaskInLoop i w)"
| "wheel_step Tick w = Inr (Step w)"

fun wheel_run :: "'c wheel_op list \<Rightarrow> 'c TimerWheel \<Rightarrow> fault + 'c TimerWheel" where
  "wheel_run [] w = Inr w"
| "wheel_run (op # ops) w = (case wheel_step op w of Inl e \<Rightarrow> Inl e | Inr w1 \<Rightarrow> wheel_run ops w1)"

lemma wheel_step_ok:
  assumes "wheel_inv w" "timely w"
  shows "\<exists>w'. wheel_step op w = Inr w' \<and> wheel_inv w' \<and> timely w'"
proof (cases op)
  case (RefreshTask i)
  then show ?thesis using Refresh_inv [OF assms(1), of i] timely_Refresh [OF assms, of i] by auto
qed (use assms in \<open>simp_all add: Add_inv Cancel_inv Step_inv timely_Add timely_Cancel timely_Step\<close>)

lemma wheel_run_ok:
  "wheel_inv w \<Longrightarrow> timely w \<Longrightarrow> \<exists>w'. wheel_run ops w = Inr w' \<and> wheel_inv w' \<and> timely w'"
proof (induction ops arbitrary: w)
  case (Cons op ops)
  from wheel_step_ok [OF Cons.prems, of op] obtain w1
    where "wheel_step op w = Inr w1" "wheel_inv w1" "timely w1" by blast
  with Cons.IH [of w1] show ?case by simp
qed simp

lemma timely_new: "timely TimerWheel_new"
  by (simp add: timely_def due_def TimerWheel_new_def)

lemma lasts_Refresh:
  assumes inv: "wheel_inv w" "timely w" and a: "timers w i = Some a"
  obtains w' where "RefreshTimerTaskInLoop i w = Inr w'" "wheel_inv w'" "tasks w' = tasks w"
    "lasts w' a (wheel_delay (task_timeout (tasks w ! a)))"
proof -
  obtain w' where w': "RefreshTimerTaskInLoop i w = Inr w'" "wheel_inv w'" using Refresh_inv [OF inv(1)] by blast
  then have eq: "w' = push_slot ((tick w + task_timeout (tasks w ! a)) mod wheel_capacity) a w"
    using a by (auto simp: RefreshTimerTaskInLoop_def Let_def split: if_splits)
  have "lasts w' a (wheel_delay (task_timeout (tasks w ! a)))"
    using inv(2) by (auto simp: lasts_def eq due_push_slot [OF inv(1)] timely_def)
  then show thesis using that w' eq by simp
qed

lemma lasts_Add:
  assumes "wheel_inv w"
  shows "lasts (AddTimerTaskInLoop i t cb w) (length (tasks w)) (wheel_delay t)"
  using wheel_inv_alive_lt [OF assms, of "length (tasks w)"] by (auto simp: lasts_def due_Add [OF assms])

section \<open>Properties\<close>

text \<open>
  C25.  A task added to the timer wheel runs its callback at exactly the step that its timeout
  selects: not before, and from then on it has run.  The delay is the timeout for timeouts from
  one to the capacity of the wheel, and the timeout's remainder otherwise, so a longer timeout
  fires early.
\<close>

theorem timer_fires_on_time:
  assumes "wheel_inv w"
  shows "length (tasks w) \<in> set (fired (Ontime n (AddTimerTaskInLoop i t cb w))) \<longleftrightarrow> wheel_delay t \<le> n"
  using fires_exactly [OF Add_inv [OF assms] lasts_Add [OF assms]] by (simp add: tasks_Add)

theorem timer_fires_on_time_witness:
  "0 \<in> set (fired (Ontime 1 (AddTimerTaskInLoop 7 61 () TimerWheel_new)))
   \<and> 0 \<notin> set (fired (Ontime 29 (AddTimerTaskInLoop 7 30 () TimerWheel_new)))"
  using timer_fires_on_time [OF wheel_inv_new, of 1 7 61 "()"] timer_fires_on_time [OF wheel_inv_new, of 29 7 30 "()"]
  by (simp add: wheel_delay_def wheel_capacity_def TimerWheel_new_def)

text \<open>
  Refreshing a task that is still scheduled never follows an expired pointer and restarts its
  full delay: however often it was refreshed before, its callback runs exactly the delay of its
  timeout after the last refresh.
\<close>

theorem timer_refresh_restarts:
  assumes "wheel_inv w" and "timely w" and "timers w i = Some a" and "\<not> is_cancel (tasks w ! a)"
  shows "\<exists>w'. RefreshTimerTaskInLoop i w = Inr w'
    \<and> (\<forall>n. a \<in> set (fired (Ontime n w')) \<longleftrightarrow> wheel_delay (task_timeout (tasks w ! a)) \<le> n)"
proof -
  obtain w' where w': "RefreshTimerTaskInLoop i w = Inr w'" "wheel_inv w'" "tasks w' = tasks w"
      "lasts w' a (wheel_delay (task_timeout (tasks w ! a)))"
    using lasts_Refresh [OF assms(1-3)] .
  then show ?thesis using fires_exactly [OF w'(2,4)] assms(4) by auto
qed

theorem timer_refresh_restarts_witness:
  "\<exists>w'. RefreshTimerTaskInLoop 7 (AddTimerTaskInLoop 7 30 () TimerWheel_new) = Inr w'
     \<and> 0 \<notin> set (fired (Ontime 29 w')) \<and> 0 \<in> set (fired (Ontime 30 w'))"
proof -
  let ?w = "AddTimerTaskInLoop 7 30 () TimerWheel_new"
  have "wheel_inv ?w" "timely ?w" by (simp_all add: Add_inv timely_Add wheel_inv_new timely_new)
  moreover have "timers ?w 7 = Some 0" "tasks ?w ! 0 = \<lparr>task_id = 7, task_timeout = 30, task_callback = (), is_cancel = False\<rparr>"
    by (simp_all add: AddTimerTaskInLoop_def TimerWheel_new_def Let_def)
  ultimately show ?thesis
    using timer_refresh_restarts [of ?w 7 0] by (auto simp: wheel_delay_def wheel_capacity_def)
qed

text \<open>
  A cancelled task never runs its callback, whatever number of steps follows.
\<close>

theorem timer_cancelled_never_fires:
  assumes "wheel_inv w" and "timers w i = Some a"
  shows "a \<notin> set (fired (Ontime n (CancelTimerTaskInLoop i w)))"
proof -
  have "alive w a" "a < length (tasks w)" "a \<notin> set (fired w)" using assms by (auto simp: wheel_inv_def)
  then show ?thesis
    using never_fires [OF Cancel_inv [OF assms(1)], of a i n] assms(2) by (simp add: CancelTimerTaskInLoop_def)
qed

theorem timer_cancelled_never_fires_witness:
  "0 \<notin> set (fired (Ontime 100 (CancelTimerTaskInLoop 7 (AddTimerTaskInLoop 7 30 () TimerWheel_new))))"
proof -
  have "timers (AddTimerTaskInLoop 7 30 () TimerWheel_new) 7 = Some 0"
    by (simp add: AddTimerTaskInLoop_def TimerWheel_new_def Let_def)
  from timer_cancelled_never_fires [OF Add_inv [OF wheel_inv_new] this] show ?thesis .
qed

text \<open>
  No sequence of additions, refreshes, cancellations and steps, not even one that adds an id
  twice, makes the wheel follow an expired pointer, and no task ever runs its callback twice.
\<close>

theorem timer_wheel_safe:
  "\<exists>w. wheel_run ops TimerWheel_new = Inr w \<and> distinct (fired w)
     \<and> (\<forall>i. timers w i \<noteq> None \<longrightarrow> alive w (the (timers w i)))"
  using wheel_run_ok [OF wheel_inv_new timely_new, of ops] by (fastforce simp: wheel_inv_def)

theorem timer_wheel_safe_witness:
  "\<exists>w. wheel_run [AddTask 7 1 (), AddTask 7 2 (), Tick, RefreshTask 7, Tick] TimerWheel_new = Inr w \<and> distinct (fired w)"
  using timer_wheel_safe [of "[AddTask 7 1 (), AddTask 7 2 (), Tick, RefreshTask 7, Tick]"] by blast

end
