(* ===== verification/Reactor.thy ===== *)
theory Reactor
  imports Prelude
begin

text \<open>
  The event core of \<open>muduo/server.hpp\<close>: \<open>Channel\<close>, \<open>Epoller\<close>, the task queue of \<open>EventLoop\<close> and
  the choice of a loop by \<open>LoopThreadPool\<close>.  \<open>epoll_ctl\<close> requests are kept in a log in the order
  in which they are issued; the kernel's interest list is what that log means.
\<close>

section \<open>Channel\<close>

abbreviation EPOLLIN :: u32 where "EPOLLIN \<equiv> 1"
abbreviation EPOLLPRI :: u32 where "EPOLLPRI \<equiv> 2"
abbreviation EPOLLOUT :: u32 where "EPOLLOUT \<equiv> 4"
abbreviation EPOLLERR :: u32 where "EPOLLERR \<equiv> 8"
abbreviation EPOLLHUP :: u32 where "EPOLLHUP \<equiv> 16"
abbreviation EPOLLRDHUP :: u32 where "EPOLLRDHUP \<equiv> 8192"

datatype callback = ReadCallBack | WriteCallBack | ErrorCallBack | CloseCallBack | AnyCallBack

record Channel =
  ch_fd :: int
  ch_events :: u32
  ch_revents :: u32
  ch_set :: "callback \<Rightarrow> bool"

definition Channel_new :: "int \<Rightarrow> Channel" where
  "Channel_new fd = \<lparr>ch_fd = fd, ch_events = 0, ch_revents = 0, ch_set = (\<lambda>_. False)\<rparr>"

definition SetCallBack :: "callback \<Rightarrow> Channel \<Rightarrow> Channel" where
  "SetCallBack cb c = c\<lparr>ch_set := (ch_set c)(cb := True)\<rparr>"

definition SetREvents :: "u32 \<Rightarrow> Channel \<Rightarrow> Channel" where
  "SetREvents revents c = c\<lparr>ch_revents := revents\<rparr>"

definition IsMonitorRead :: "Channel \<Rightarrow> bool" where
  "IsMonitorRead c = (ch_events c AND EPOLLIN \<noteq> 0)"

definition IsMonitorWriter :: "Channel \<Rightarrow> bool" where
  "IsMonitorWriter c = (ch_events c AND EPOLLOUT \<noteq> 0)"

text \<open>The callbacks that \<open>EventHandler\<close> calls, in order.\<close>

definition EventHandler :: "Channel \<Rightarrow> callback list" where
  "EventHandler c =
     (let r = ch_revents c; has = (\<lambda>e. r AND e \<noteq> 0); call = (\<lambda>cb. if ch_set c cb then [cb] else [])
      in (if has EPOLLIN \<or> has EPOLLRDHUP \<or> has EPOLLPRI then call ReadCallBack else [])
         @ (if has EPOLLOUT then call WriteCallBack
            else if has EPOLLERR then call ErrorCallBack
            else if has EPOLLHUP then call CloseCallBack
            else [])
         @ call AnyCallBack)"

section \<open>Epoller\<close>

datatype ctl_op = EPOLL_CTL_ADD | EPOLL_CTL_MOD | EPOLL_CTL_DEL

record ctl_request =
  ctl_op :: ctl_op
  ctl_fd :: int
  ctl_events :: u32

text \<open>\<open>channels\<close> maps a descriptor to the address of its \<open>Channel\<close>.\<close>

record Epoller =
  channels :: "int \<Rightarrow> nat option"
  requests :: "ctl_request list"

definition Epoller_new :: Epoller where
  "Epoller_new = \<lparr>channels = (\<lambda>_. None), requests = []\<rparr>"

definition Update :: "Channel \<Rightarrow> ctl_op \<Rightarrow> Epoller \<Rightarrow> Epoller" where
  "Update c op p = p\<lparr>requests := requests p @ [\<lparr>ctl_op = op, ctl_fd = ch_fd c, ctl_events = ch_events c\<rparr>]\<rparr>"

definition HasChannel :: "Channel \<Rightarrow> Epoller \<Rightarrow> bool" where
  "HasChannel c p = (channels p (ch_fd c) \<noteq> None)"

definition UpdateEventMonitor :: "nat \<Rightarrow> Channel \<Rightarrow> Epoller \<Rightarrow> Epoller" where
  "UpdateEventMonitor addr c p =
     (if HasChannel c p then Update c EPOLL_CTL_MOD p
      else Update c EPOLL_CTL_ADD (p\<lparr>channels := (channels p)(ch_fd c := Some addr)\<rparr>))"

definition RemoveEventMonitor :: "Channel \<Rightarrow> Epoller \<Rightarrow> Epoller" where
  "RemoveEventMonitor c p =
     (let p1 = (if HasChannel c p then p\<lparr>channels := (channels p)(ch_fd c := None)\<rparr> else p)
      in Update c EPOLL_CTL_DEL p1)"

text \<open>
  \<open>Run\<close> stores the reported events in the channels of the store and returns the addresses of the
  active ones.  A negative count with \<open>EINTR\<close> reports nothing; any other error aborts.
\<close>

datatype wait_result = Ready "(int \<times> u32) list" | Interrupted | WaitError

fun mark_active :: "(int \<times> u32) list \<Rightarrow> Epoller \<Rightarrow> (nat \<Rightarrow> Channel) \<Rightarrow> fault + (nat \<Rightarrow> Channel) \<times> nat list" where
  "mark_active [] p store = Inr (store, [])"
| "mark_active ((fd, ev) # evs) p store =
     (case channels p fd of
        None \<Rightarrow> Inl AssertFailed
      | Some a \<Rightarrow> sum_bind (mark_active evs p (store(a := SetREvents ev (store a))))
                   (\<lambda>(store', active). Inr (store', a # active)))"

definition Epoller_Run :: "wait_result \<Rightarrow> Epoller \<Rightarrow> (nat \<Rightarrow> Channel) \<Rightarrow> fault + (nat \<Rightarrow> Channel) \<times> nat list" where
  "Epoller_Run res p store =
     (case res of Interrupted \<Rightarrow> Inr (store, []) | WaitError \<Rightarrow> Inl AssertFailed
      | Ready evs \<Rightarrow> mark_active evs p store)"

subsection \<open>Switching the monitored events\<close>

definition EnableMonitorRead :: "nat \<Rightarrow> Channel \<Rightarrow> Epoller \<Rightarrow> Channel \<times> Epoller" where
  "EnableMonitorRead addr c p =
     (let c1 = c\<lparr>ch_events := ch_events c OR EPOLLIN\<rparr> in (c1, UpdateEventMonitor addr c1 p))"

definition EnableMonitorWriter :: "nat \<Rightarrow> Channel \<Rightarrow> Epoller \<Rightarrow> Channel \<times> Epoller" where
  "EnableMonitorWriter addr c p =
     (let c1 = c\<lparr>ch_events := ch_events c OR EPOLLOUT\<rparr> in (c1, UpdateEventMonitor addr c1 p))"

definition DisableMonitorRead :: "nat \<Rightarrow> Channel \<Rightarrow> Epoller \<Rightarrow> Channel \<times> Epoller" where
  "DisableMonitorRead addr c p =
     (let c1 = c\<lparr>ch_events := ch_events c AND NOT EPOLLIN\<rparr> in (c1, UpdateEventMonitor addr c1 p))"

definition DisableMonitorWriter :: "nat \<Rightarrow> Channel \<Rightarrow> Epoller \<Rightarrow> Channel \<times> Epoller" where
  "DisableMonitorWriter addr c p =
     (let c1 = c\<lparr>ch_events := ch_events c AND NOT EPOLLOUT\<rparr> in (c1, UpdateEventMonitor addr c1 p))"

definition DisableMonitor :: "nat \<Rightarrow> Channel \<Rightarrow> Epoller \<Rightarrow> Channel \<times> Epoller" where
  "DisableMonitor addr c p = (let c1 = c\<lparr>ch_events := 0\<rparr> in (c1, UpdateEventMonitor addr c1 p))"

section \<open>The task queue of EventLoop\<close>

text \<open>
  \<open>run\<close> is what executing a task does: it changes the world and may push further tasks.  A round
  executes the tasks that were queued when it began; what they push waits for the next round.
\<close>

record ('t, 'w) EventLoop =
  task_queue :: "'t list"
  wakeups :: nat
  world :: 'w

definition PushTaskToQueue :: "'t \<Rightarrow> ('t, 'w) EventLoop \<Rightarrow> ('t, 'w) EventLoop" where
  "PushTaskToQueue t l = l\<lparr>task_queue := task_queue l @ [t], wakeups := wakeups l + 1\<rparr>"

definition exec_task :: "('t \<Rightarrow> 'w \<Rightarrow> 'w \<times> 't list) \<Rightarrow> 't \<Rightarrow> ('t, 'w) EventLoop \<Rightarrow> ('t, 'w) EventLoop" where
  "exec_task run t l =
     (let (w, pushed) = run t (world l) in fold PushTaskToQueue pushed (l\<lparr>world := w\<rparr>))"

definition ExecTaskInLoop :: "('t \<Rightarrow> 'w \<Rightarrow> 'w \<times> 't list) \<Rightarrow> bool \<Rightarrow> 't \<Rightarrow> ('t, 'w) EventLoop \<Rightarrow> ('t, 'w) EventLoop" where
  "ExecTaskInLoop run is_in_loop t l = (if is_in_loop then exec_task run t l else PushTaskToQueue t l)"

definition ExecTaskInQueue :: "('t \<Rightarrow> 'w \<Rightarrow> 'w \<times> 't list) \<Rightarrow> ('t, 'w) EventLoop \<Rightarrow> ('t, 'w) EventLoop" where
  "ExecTaskInQueue run l = fold (exec_task run) (task_queue l) (l\<lparr>task_queue := []\<rparr>)"

section \<open>Choosing a loop\<close>

record LoopThreadPool =
  pool_size :: int
  next_loop :: int
  base_loop :: nat
  loops :: "nat list"

definition LoopThreadPool_new :: "nat \<Rightarrow> LoopThreadPool" where
  "LoopThreadPool_new base = \<lparr>pool_size = 0, next_loop = 0, base_loop = base, loops = []\<rparr>"

definition SetThreadLoopSize :: "int \<Rightarrow> LoopThreadPool \<Rightarrow> LoopThreadPool" where
  "SetThreadLoopSize sz p = p\<lparr>pool_size := sz\<rparr>"

text \<open>\<open>made\<close> lists the loops of the threads that \<open>Create\<close> starts.\<close>

definition Pool_Create :: "(nat \<Rightarrow> nat) \<Rightarrow> LoopThreadPool \<Rightarrow> LoopThreadPool" where
  "Pool_Create made p = (if pool_size p > 0 then p\<lparr>loops := map made [0..<nat (pool_size p)]\<rparr> else p)"

definition NextLoop :: "LoopThreadPool \<Rightarrow> fault + nat \<times> LoopThreadPool" where
  "NextLoop p =
     (if pool_size p = 0 then Inr (base_loop p, p)
      else let n = (next_loop p + 1) mod pool_size p; p1 = p\<lparr>next_loop := n\<rparr>
           in if 0 \<le> n \<and> n < int (length (loops p)) then Inr (loops p ! nat n, p1) else Inl OutOfBounds)"

section \<open>The interest list of the kernel\<close>

text \<open>
  What \<open>epoll_ctl\<close> documents: adding needs an absent descriptor, modifying and deleting a present
  one; a request that fails changes nothing.
\<close>

definition ctl_effect :: "ctl_request \<Rightarrow> (int \<Rightarrow> u32 option) \<Rightarrow> (int \<Rightarrow> u32 option)" where
  "ctl_effect r k =
     (case ctl_op r of
        EPOLL_CTL_ADD \<Rightarrow> if k (ctl_fd r) = None then k(ctl_fd r := Some (ctl_events r)) else k
      | EPOLL_CTL_MOD \<Rightarrow> if k (ctl_fd r) \<noteq> None then k(ctl_fd r := Some (ctl_events r)) else k
      | EPOLL_CTL_DEL \<Rightarrow> k(ctl_fd r := None))"

definition interest :: "Epoller \<Rightarrow> int \<Rightarrow> u32 option" where
  "interest p = fold ctl_effect (requests p) (\<lambda>_. None)"

definition in_sync :: "Epoller \<Rightarrow> bool" where
  "in_sync p \<longleftrightarrow> (\<forall>fd. interest p fd = None \<longleftrightarrow> channels p fd = None)"

lemma interest_Update:
  "interest (Update c op p) = ctl_effect \<lparr>ctl_op = op, ctl_fd = ch_fd c, ctl_events = ch_events c\<rparr> (interest p)"
  by (simp add: interest_def Update_def)

lemma interest_channels [simp]: "interest (p\<lparr>channels := m\<rparr>) = interest p"
  by (simp add: interest_def)

lemma Update_channels [simp]: "channels (Update c op p) = channels p"
  by (simp add: Update_def)

lemma in_sync_new: "in_sync Epoller_new"
  by (simp add: in_sync_def interest_def Epoller_new_def)

lemma Update_monitor_sync:
  assumes "in_sync p"
  shows "in_sync (UpdateEventMonitor a c p)"
    and "interest (UpdateEventMonitor a c p) = (interest p)(ch_fd c := Some (ch_events c))"
    and "channels (UpdateEventMonitor a c p) (ch_fd c) \<noteq> None"
  using assms
  by (auto simp: in_sync_def UpdateEventMonitor_def HasChannel_def interest_Update ctl_effect_def)

lemma Remove_monitor_sync:
  assumes "in_sync p"
  shows "in_sync (RemoveEventMonitor c p)"
    and "interest (RemoveEventMonitor c p) = (interest p)(ch_fd c := None)"
  using assms
  by (auto simp: in_sync_def RemoveEventMonitor_def HasChannel_def interest_Update ctl_effect_def Let_def)

lemma mark_active_ok:
  "\<forall>e \<in> set evs. channels p (fst e) \<noteq> None \<Longrightarrow>
     \<exists>store'. mark_active evs p store = Inr (store', map (\<lambda>e. the (channels p (fst e))) evs)"
proof (induction evs arbitrary: store)
  case (Cons e evs)
  obtain fd ev where e: "e = (fd, ev)" by fastforce
  from Cons.prems e obtain a where a: "channels p fd = Some a" by auto
  obtain store' where "mark_active evs p (store(a := SetREvents ev (store a)))
      = Inr (store', map (\<lambda>e. the (channels p (fst e))) evs)"
    using Cons.IH Cons.prems by (meson list.set_intros(2))
  then show ?case using a e by simp
qed simp

lemma or_and_mask: "((x :: u32) OR m) AND m = m"
  by (rule bit_word_eqI) (auto simp: bit_simps)

lemma and_not_mask: "((x :: u32) AND NOT m) AND m = 0"
  by (rule bit_word_eqI) (auto simp: bit_simps)

lemma ch_events_update: "ch_events (c\<lparr>ch_events := x\<rparr>) = x"
  by simp

lemma writer_bit:
  "IsMonitorWriter (fst (EnableMonitorWriter a c p))" "\<not> IsMonitorWriter (fst (DisableMonitorWriter a c p))"
  unfolding IsMonitorWriter_def EnableMonitorWriter_def DisableMonitorWriter_def Let_def fst_conv
    ch_events_update or_and_mask and_not_mask by simp_all

section \<open>Queued tasks\<close>

definition logged :: "('t \<Rightarrow> 'w \<Rightarrow> 'w \<times> 't list) \<Rightarrow> 't \<Rightarrow> 'w \<times> 't list \<Rightarrow> ('w \<times> 't list) \<times> 't list" where
  "logged run t s = (case s of (w, done) \<Rightarrow> case run t w of (w', pushed) \<Rightarrow> ((w', done @ [t]), pushed))"

lemma fold_push:
  "task_queue (fold PushTaskToQueue ts l) = task_queue l @ ts"
  "wakeups (fold PushTaskToQueue ts l) = wakeups l + length ts"
  "world (fold PushTaskToQueue ts l) = world l"
  by (induction ts arbitrary: l) (simp_all add: PushTaskToQueue_def)

lemma exec_task_logged:
  "snd (world (exec_task (logged run) t l)) = snd (world l) @ [t]"
  "\<exists>new. task_queue (exec_task (logged run) t l) = task_queue l @ new
     \<and> wakeups (exec_task (logged run) t l) = wakeups l + length new"
  by (auto simp: exec_task_def logged_def fold_push split: prod.splits)

lemma fold_exec_logged:
  "snd (world (fold (exec_task (logged run)) ts l)) = snd (world l) @ ts
   \<and> (\<exists>new. task_queue (fold (exec_task (logged run)) ts l) = task_queue l @ new
        \<and> wakeups (fold (exec_task (logged run)) ts l) = wakeups l + length new)"
proof (induction ts arbitrary: l)
  case (Cons t ts)
  let ?l = "exec_task (logged run) t l"
  obtain n1 where "task_queue ?l = task_queue l @ n1" "wakeups ?l = wakeups l + length n1"
    using exec_task_logged(2) [of run t l] by blast
  moreover obtain n2 where "task_queue (fold (exec_task (logged run)) ts ?l) = task_queue ?l @ n2"
      "wakeups (fold (exec_task (logged run)) ts ?l) = wakeups ?l + length n2" using Cons by blast
  moreover have "snd (world (fold (exec_task (logged run)) ts ?l)) = snd (world l) @ t # ts"
    using Cons [of ?l] exec_task_logged(1) [of run t l] by simp
  ultimately show ?case by (intro conjI exI [of _ "n1 @ n2"]) simp_all
qed simp

section \<open>Round robin\<close>

primrec next_loops :: "nat \<Rightarrow> LoopThreadPool \<Rightarrow> fault + nat list" where
  "next_loops 0 p = Inr []"
| "next_loops (Suc n) p =
     sum_bind (NextLoop p) (\<lambda>(l, p1). sum_bind (next_loops n p1) (\<lambda>ls. Inr (l # ls)))"

lemma next_loops_rotate:
  assumes "0 < pool_size p" "length (loops p) = nat (pool_size p)" "0 \<le> next_loop p"
  shows "next_loops n p = Inr (map (\<lambda>i. loops p ! (nat (next_loop p + 1 + int i) mod nat (pool_size p))) [0..<n])"
  using assms
proof (induction n arbitrary: p)
  case (Suc n)
  let ?k = "(next_loop p + 1) mod pool_size p"
  let ?p = "p\<lparr>next_loop := ?k\<rparr>"
  have k: "0 \<le> ?k" "?k < pool_size p" using Suc.prems by simp_all
  have nk: "nat ?k = nat (next_loop p + 1) mod nat (pool_size p)" using Suc.prems by (simp add: nat_mod_distrib)
  have shift: "nat (?k + 1 + int i) mod nat (pool_size p) = nat (next_loop p + 1 + int (Suc i)) mod nat (pool_size p)" for i
  proof -
    have "(?k + (1 + int i)) mod pool_size p = (next_loop p + 1 + (1 + int i)) mod pool_size p"
      by (rule mod_add_left_eq)
    then show ?thesis using k Suc.prems by (simp add: add.assoc flip: nat_mod_distrib)
  qed
  have "next_loops n ?p = Inr (map (\<lambda>i. loops p ! (nat (next_loop p + 1 + int (Suc i)) mod nat (pool_size p))) [0..<n])"
    using Suc.IH [of ?p] Suc.prems k by (simp add: shift)
  moreover have "NextLoop p = Inr (loops p ! nat ?k, ?p)" using Suc.prems k by (simp add: NextLoop_def Let_def)
  ultimately show ?case using nk by (simp add: map_upt_Cons map_upt_shift del: upt_Suc)
qed simp

section \<open>Properties\<close>

text \<open>
  The epoll bookkeeping never drifts from the kernel: starting from an \<open>Epoller\<close> in step with
  the kernel's interest list, switching a channel's events leaves the kernel watching exactly
  those events for its descriptor and nothing else changed, removing a channel removes its
  descriptor, and every descriptor the kernel may report is found in \<open>channels\<close>, so the assertion
  in \<open>Run\<close> cannot fail.
\<close>

theorem epoller_matches_kernel:
  assumes "in_sync p"
  shows "interest (UpdateEventMonitor a c p) = (interest p)(ch_fd c := Some (ch_events c))
    \<and> in_sync (UpdateEventMonitor a c p)
    \<and> interest (RemoveEventMonitor c p) = (interest p)(ch_fd c := None)
    \<and> in_sync (RemoveEventMonitor c p)
    \<and> ((\<forall>e \<in> set evs. interest p (fst e) \<noteq> None) \<longrightarrow>
        (\<exists>store'. Epoller_Run (Ready evs) p store = Inr (store', map (\<lambda>e. the (channels p (fst e))) evs)))"
  using Update_monitor_sync [OF assms, of a c] Remove_monitor_sync [OF assms, of c]
    mark_active_ok [of evs p store] assms
  by (auto simp: Epoller_Run_def in_sync_def)

theorem epoller_matches_kernel_witness:
  "let p = UpdateEventMonitor 0 ((Channel_new 5)\<lparr>ch_events := 1\<rparr>) Epoller_new
   in interest p 5 = Some 1 \<and> in_sync p"
  using epoller_matches_kernel [OF in_sync_new, of 0 "(Channel_new 5)\<lparr>ch_events := 1\<rparr>"]
  by (simp add: Let_def Channel_new_def)

text \<open>
  The task queue is fair and loses nothing: one round of \<open>ExecTaskInQueue\<close> executes every
  queued task once, in the order in which the tasks were pushed; what they push is kept, in order,
  for the next round, and each push writes to the wake-up descriptor.
\<close>

theorem exec_queue_fifo:
  "let l' = ExecTaskInQueue (logged run) l
   in snd (world l') = snd (world l) @ task_queue l
      \<and> wakeups l' = wakeups l + length (task_queue l')"
  using fold_exec_logged [of run "task_queue l" "l\<lparr>task_queue := []\<rparr>"]
  by (auto simp: Let_def ExecTaskInQueue_def)

text \<open>
  \<open>NextLoop\<close> hands out the loops of the pool in rotation, starting after the last one used,
  and never indexes outside the pool.
\<close>

theorem next_loop_round_robin:
  assumes "0 < pool_size p"
  shows "next_loops n (Pool_Create made (p\<lparr>next_loop := 0\<rparr>))
    = Inr (map (\<lambda>i. made ((i + 1) mod nat (pool_size p))) [0..<n])"
proof -
  let ?q = "Pool_Create made (p\<lparr>next_loop := 0\<rparr>)"
  have q: "pool_size ?q = pool_size p" "next_loop ?q = 0" "loops ?q = map made [0..<nat (pool_size p)]"
    using assms by (simp_all add: Pool_Create_def)
  have "Suc i mod nat (pool_size p) < nat (pool_size p)" for i using assms by simp
  then show ?thesis
    using next_loops_rotate [of ?q n] assms by (simp add: q nat_add_distrib)
qed

theorem next_loop_round_robin_witness:
  "next_loops 4 (Pool_Create (\<lambda>i. 10 + i) (SetThreadLoopSize 3 (LoopThreadPool_new 0))) = Inr [11, 12, 10, 11]"
proof -
  let ?p = "SetThreadLoopSize 3 (LoopThreadPool_new 0)"
  have p: "0 < pool_size ?p" "?p\<lparr>next_loop := 0\<rparr> = ?p" by (simp_all add: SetThreadLoopSize_def LoopThreadPool_new_def)
  have "next_loops 4 (Pool_Create (\<lambda>i. 10 + i) (?p\<lparr>next_loop := 0\<rparr>))
    = Inr (map (\<lambda>i. 10 + (i + 1) mod nat (pool_size ?p)) [0..<4])"
    using next_loop_round_robin [OF p(1)] .
  moreover have "map (\<lambda>i. 10 + (i + 1) mod nat (pool_size ?p)) [0..<4] = [11, 12, 10, 11]"
    by (simp add: SetThreadLoopSize_def LoopThreadPool_new_def upt_rec)
  ultimately show ?thesis unfolding p(2) by simp
qed

end
