(* ===== verification/Connection.thy ===== *)
theory Connection
  imports Byte_Buffers Timer_Wheel Reactor
begin

text \<open>
  \<open>Socket\<close> and \<open>Connection\<close> of \<open>muduo/server.hpp\<close>, seen by the thread of the connection's loop,
  where \<open>ExecTaskInLoop\<close> runs a task at once and \<open>PushTaskToQueue\<close> queues it.  The kernel's
  answers to \<open>recv\<close> and \<open>send\<close> are arguments, the bytes handed to \<open>send\<close> are collected in
  \<open>wire\<close>, and the user's message callback is a parameter: it gets the input buffer and returns
  the buffer it leaves behind and the payloads it passes to \<open>Send\<close>.  \<open>accepted\<close> is a ghost: the
  concatenation of all payloads that \<open>SendInLoop\<close> took.
\<close>

section \<open>Socket\<close>

datatype errno = EAGAIN | EINTR | OtherErrno

definition Socket_Recv :: "int \<Rightarrow> errno \<Rightarrow> int" where
  "Socket_Recv n err =
     (if n \<le> 0 then (if err = EAGAIN then 0 else if err = EINTR then 0 else - 1) else n)"

definition Socket_Send :: "int \<Rightarrow> errno \<Rightarrow> int" where
  "Socket_Send n err =
     (if n < 0 then (if err = EAGAIN then 0 else if err = EINTR then 0 else - 1) else n)"

section \<open>State\<close>

datatype ConnStatu = CONNECTING | CONNECTED | DISCONNECTING | DISCONNECTED

datatype user_call = ConnectCall | MessageCall | CloseCall | AnyCall | ServerCloseCall

record Connection =
  conn_id :: nat
  socket_fd :: int
  inactive_release :: bool
  statu :: ConnStatu
  channel :: Channel
  ibuffer :: Buffer
  obuffer :: Buffer
  user_set :: "user_call \<Rightarrow> bool"
  calls :: "user_call list"
  epoller :: Epoller
  timer_wheel :: "nat TimerWheel"
  release_tasks :: nat
  wire :: bytes
  accepted :: bytes
  conn_context :: "nat option"

text \<open>\<open>conn_context\<close> is what the \<open>Any\<close> holds, nothing or a value: an \<open>Any\<close> has value semantics (\<open>Server_Parts\<close>).\<close>

definition Connection_new :: "Epoller \<Rightarrow> nat TimerWheel \<Rightarrow> nat \<Rightarrow> int \<Rightarrow> (user_call \<Rightarrow> bool) \<Rightarrow> Connection" where
  "Connection_new ep tw i fd us =
     \<lparr>conn_id = i, socket_fd = fd, inactive_release = False, statu = CONNECTING,
      channel = fold SetCallBack [ReadCallBack, WriteCallBack, ErrorCallBack, CloseCallBack, AnyCallBack]
        (Channel_new fd),
      ibuffer = Buffer_new, obuffer = Buffer_new, user_set = us, calls = [], epoller = ep,
      timer_wheel = tw, release_tasks = 0, wire = [], accepted = [], conn_context = None\<rparr>"

type_synonym handler = "Buffer \<Rightarrow> fault + Buffer \<times> bytes list"

definition SetContext :: "nat option \<Rightarrow> Connection \<Rightarrow> Connection" where
  "SetContext ctx c = c\<lparr>conn_context := ctx\<rparr>"

text \<open>The setters of the callbacks, and \<open>ProtocolSwitching\<close>, which replaces them all and the context in the loop's thread.\<close>

definition SetUserCallBack :: "user_call \<Rightarrow> Connection \<Rightarrow> Connection" where
  "SetUserCallBack u c = c\<lparr>user_set := (user_set c)(u := True)\<rparr>"

definition ProtocolSwitchingInLoop :: "nat option \<Rightarrow> (user_call \<Rightarrow> bool) \<Rightarrow> Connection \<Rightarrow> Connection" where
  "ProtocolSwitchingInLoop ctx us c = c\<lparr>conn_context := ctx, user_set := us\<rparr>"

definition ProtocolSwitching :: "bool \<Rightarrow> nat option \<Rightarrow> (user_call \<Rightarrow> bool) \<Rightarrow> Connection \<Rightarrow> fault + Connection" where
  "ProtocolSwitching in_loop ctx us c = (if in_loop then Inr (ProtocolSwitchingInLoop ctx us c) else Inl AssertFailed)"

definition Socket_Close :: "Connection \<Rightarrow> Connection" where
  "Socket_Close c = (if socket_fd c \<noteq> - 1 then c\<lparr>socket_fd := - 1\<rparr> else c)"

definition user_call :: "user_call \<Rightarrow> Connection \<Rightarrow> Connection" where
  "user_call u c = (if user_set c u then c\<lparr>calls := calls c @ [u]\<rparr> else c)"

definition monitor_writer :: "Connection \<Rightarrow> Connection" where
  "monitor_writer c =
     (if IsMonitorWriter (channel c) then c
      else let (ch, ep) = EnableMonitorWriter (conn_id c) (channel c) (epoller c)
           in c\<lparr>channel := ch, epoller := ep\<rparr>)"

definition unmonitor_writer :: "Connection \<Rightarrow> Connection" where
  "unmonitor_writer c =
     (let (ch, ep) = DisableMonitorWriter (conn_id c) (channel c) (epoller c)
      in c\<lparr>channel := ch, epoller := ep\<rparr>)"

section \<open>Operations\<close>

definition Release :: "Connection \<Rightarrow> Connection" where
  "Release c = c\<lparr>release_tasks := release_tasks c + 1\<rparr>"

definition SendInLoop :: "Buffer \<Rightarrow> Connection \<Rightarrow> fault + Connection" where
  "SendInLoop buf c =
     (if statu c = DISCONNECTED then Inr c
      else sum_bind (WriteBufferAndPushOffSet buf (obuffer c))
        (\<lambda>ob. Inr (monitor_writer (c\<lparr>obuffer := ob, accepted := accepted c @ readable_bytes buf\<rparr>))))"

definition Send :: "bytes \<Rightarrow> Connection \<Rightarrow> fault + Connection" where
  "Send buf c = sum_bind (WriteAndPushOffSet buf Buffer_new) (\<lambda>tmp. SendInLoop tmp c)"

fun send_all :: "bytes list \<Rightarrow> Connection \<Rightarrow> fault + Connection" where
  "send_all [] c = Inr c"
| "send_all (d # ds) c = sum_bind (Send d c) (send_all ds)"

text \<open>Calling an empty \<open>std::function\<close> throws.\<close>

definition call_message :: "handler \<Rightarrow> Connection \<Rightarrow> fault + Connection" where
  "call_message h c =
     (if \<not> user_set c MessageCall then Inl (Thrown ''bad_function_call'')
      else sum_bind (h (ibuffer c)) (\<lambda>(ib, ds). send_all ds (c\<lparr>ibuffer := ib, calls := calls c @ [MessageCall]\<rparr>)))"

definition EstablishedInLoop :: "Connection \<Rightarrow> fault + Connection" where
  "EstablishedInLoop c =
     (if statu c \<noteq> CONNECTING then Inl AssertFailed
      else let c1 = c\<lparr>statu := CONNECTED\<rparr>;
               (ch, ep) = EnableMonitorRead (conn_id c1) (channel c1) (epoller c1)
           in Inr (user_call ConnectCall (c1\<lparr>channel := ch, epoller := ep\<rparr>)))"

definition ShutdownInLoop :: "handler \<Rightarrow> Connection \<Rightarrow> fault + Connection" where
  "ShutdownInLoop h c =
     (let c1 = c\<lparr>statu := DISCONNECTING\<rparr>
      in sum_bind (if ReadableSize (ibuffer c1) > 0 \<and> user_set c1 MessageCall then call_message h c1 else Inr c1)
        (\<lambda>c2. let c3 = (if ReadableSize (obuffer c2) > 0 then monitor_writer c2 else c2)
              in Inr (if ReadableSize (obuffer c3) = 0 then Release c3 else c3)))"

definition DisableInactiveReleaseInLoop :: "Connection \<Rightarrow> Connection" where
  "DisableInactiveReleaseInLoop c =
     (let c1 = c\<lparr>inactive_release := False\<rparr>
      in if HasTimerTask (conn_id c1) (timer_wheel c1)
         then c1\<lparr>timer_wheel := CancelTimerTaskInLoop (conn_id c1) (timer_wheel c1)\<rparr> else c1)"

definition EnableInactiveReleaseInLoop :: "nat \<Rightarrow> Connection \<Rightarrow> fault + Connection" where
  "EnableInactiveReleaseInLoop sec c =
     (let c1 = c\<lparr>inactive_release := True\<rparr>
      in if HasTimerTask (conn_id c1) (timer_wheel c1)
         then sum_bind (RefreshTimerTaskInLoop (conn_id c1) (timer_wheel c1)) (\<lambda>w. Inr (c1\<lparr>timer_wheel := w\<rparr>))
         else Inr (c1\<lparr>timer_wheel := AddTimerTaskInLoop (conn_id c1) sec (conn_id c1) (timer_wheel c1)\<rparr>))"

definition ReleaseInLoop :: "Connection \<Rightarrow> Connection" where
  "ReleaseInLoop c =
     (let c1 = c\<lparr>statu := DISCONNECTED\<rparr>;
          c2 = c1\<lparr>epoller := RemoveEventMonitor (channel c1) (epoller c1)\<rparr>;
          c3 = Socket_Close c2;
          c4 = (if HasTimerTask (conn_id c3) (timer_wheel c3) then DisableInactiveReleaseInLoop c3 else c3)
      in user_call ServerCloseCall (user_call CloseCall c4))"

section \<open>Handlers of the channel's events\<close>

definition Readhandler :: "handler \<Rightarrow> int \<Rightarrow> errno \<Rightarrow> bytes \<Rightarrow> Connection \<Rightarrow> fault + Connection" where
  "Readhandler h n err received c =
     (let ret = Socket_Recv n err
      in if ret < 0 then ShutdownInLoop h c
         else if ret = 0 then Inr c
         else sum_bind (WriteAndPushOffSet (take (nat ret) received) (ibuffer c))
           (\<lambda>ib. call_message h (c\<lparr>ibuffer := ib\<rparr>)))"

definition flush_input :: "handler \<Rightarrow> Connection \<Rightarrow> fault + Connection" where
  "flush_input h c = (if ReadableSize (ibuffer c) > 0 then call_message h c else Inr c)"

definition WriteHandler :: "handler \<Rightarrow> int \<Rightarrow> errno \<Rightarrow> Connection \<Rightarrow> fault + Connection" where
  "WriteHandler h n err c =
     (let ret = Socket_Send n err
      in if ret < 0 then sum_bind (flush_input h c) (\<lambda>c1. Inr (Release c1))
         else sum_bind (MoveReaderOffset (nat ret) (obuffer c))
           (\<lambda>ob. let c1 = c\<lparr>obuffer := ob, wire := wire c @ take (nat ret) (readable_bytes (obuffer c))\<rparr>
                 in if ReadableSize ob = 0
                    then let c2 = unmonitor_writer c1
                         in Inr (if statu c2 = DISCONNECTING then Release c2 else c2)
                    else Inr c1))"

definition CloseHandler :: "handler \<Rightarrow> Connection \<Rightarrow> fault + Connection" where
  "CloseHandler h c = sum_bind (flush_input h c) (\<lambda>c1. Inr (Release c1))"

definition ErrorHandler :: "Connection \<Rightarrow> Connection" where
  "ErrorHandler c = Release c"

definition AnyHandler :: "Connection \<Rightarrow> fault + Connection" where
  "AnyHandler c =
     sum_bind (if inactive_release c then RefreshTimerTaskInLoop (conn_id c) (timer_wheel c) else Inr (timer_wheel c))
       (\<lambda>w. Inr (user_call AnyCall (c\<lparr>timer_wheel := w\<rparr>)))"

text \<open>
  Dispatch of the reported events; the kernel's answers for the handlers come along, the answer
  to \<open>send\<close> as a function of the number of bytes offered.
\<close>

record io_answers =
  recv_n :: int
  recv_errno :: errno
  recv_data :: bytes
  send_n :: "nat \<Rightarrow> int"
  send_errno :: errno

fun run_callback :: "handler \<Rightarrow> io_answers \<Rightarrow> callback \<Rightarrow> Connection \<Rightarrow> fault + Connection" where
  "run_callback h io ReadCallBack c = Readhandler h (recv_n io) (recv_errno io) (recv_data io) c"
| "run_callback h io WriteCallBack c =
     WriteHandler h (send_n io (ReadableSize (obuffer c))) (send_errno io) c"
| "run_callback h io ErrorCallBack c = Inr (ErrorHandler c)"
| "run_callback h io CloseCallBack c = CloseHandler h c"
| "run_callback h io AnyCallBack c = AnyHandler c"

fun run_callbacks :: "handler \<Rightarrow> io_answers \<Rightarrow> callback list \<Rightarrow> Connection \<Rightarrow> fault + Connection" where
  "run_callbacks h io [] c = Inr c"
| "run_callbacks h io (cb # cbs) c = sum_bind (run_callback h io cb c) (run_callbacks h io cbs)"

definition dispatch :: "handler \<Rightarrow> u32 \<Rightarrow> io_answers \<Rightarrow> Connection \<Rightarrow> fault + Connection" where
  "dispatch h revents io c =
     (let c1 = c\<lparr>channel := SetREvents revents (channel c)\<rparr>
      in run_callbacks h io (EventHandler (channel c1)) c1)"

section \<open>The invariant\<close>

definition core_inv :: "Connection \<Rightarrow> bool" where
  "core_inv c \<longleftrightarrow> buf_inv (ibuffer c) \<and> buf_inv (obuffer c) \<and> user_set c MessageCall
     \<and> wire c @ buf_contents (obuffer c) = accepted c
     \<and> (buf_contents (obuffer c) \<noteq> [] \<longrightarrow> IsMonitorWriter (channel c))
     \<and> wheel_inv (timer_wheel c) \<and> timely (timer_wheel c) \<and> in_sync (epoller c)"

definition conn_inv :: "Connection \<Rightarrow> bool" where
  "conn_inv c \<longleftrightarrow> core_inv c
     \<and> (statu c = DISCONNECTING \<longrightarrow> buf_contents (obuffer c) \<noteq> [] \<or> 0 < release_tasks c)"

text \<open>A result that is either good or a refused allocation.\<close>

definition ok_or_alloc :: "('a \<Rightarrow> bool) \<Rightarrow> fault + 'a \<Rightarrow> bool" where
  "ok_or_alloc P r = (case r of Inl e \<Rightarrow> e = BadAlloc | Inr x \<Rightarrow> P x)"

lemma ok_or_alloc_simps [simp]: "ok_or_alloc P (Inl e) \<longleftrightarrow> e = BadAlloc" "ok_or_alloc P (Inr x) \<longleftrightarrow> P x"
  by (simp_all add: ok_or_alloc_def)

lemma ok_bind: "ok_or_alloc P r \<Longrightarrow> (\<And>x. P x \<Longrightarrow> ok_or_alloc Q (f x)) \<Longrightarrow> ok_or_alloc Q (sum_bind r f)"
  by (cases r) simp_all

definition good_handler :: "handler \<Rightarrow> bool" where
  "good_handler h \<longleftrightarrow> (\<forall>b. buf_inv b \<longrightarrow> (\<exists>b' ds. h b = Inr (b', ds) \<and> buf_inv b' \<and> (\<forall>d \<in> set ds. length d \<le> max_obj)))"

lemma monitor_writer_core:
  assumes "buf_inv (ibuffer c)" "buf_inv (obuffer c)" "user_set c MessageCall"
    "wire c @ buf_contents (obuffer c) = accepted c"
    "wheel_inv (timer_wheel c)" "timely (timer_wheel c)" "in_sync (epoller c)"
  shows "core_inv (monitor_writer c)"
  using assms writer_bit(1) [of "conn_id c" "channel c" "epoller c"]
  by (auto simp: monitor_writer_def core_inv_def EnableMonitorWriter_def Let_def Update_monitor_sync split: prod.splits)

lemma monitor_writer_sel [simp]:
  "statu (monitor_writer c) = statu c" "release_tasks (monitor_writer c) = release_tasks c"
  "obuffer (monitor_writer c) = obuffer c" "ibuffer (monitor_writer c) = ibuffer c"
  by (simp_all add: monitor_writer_def EnableMonitorWriter_def Let_def)

lemma WriteBuffer_ok:
  assumes "buf_inv t" "buf_inv b"
  shows "ok_or_alloc (\<lambda>b'. buf_inv b' \<and> buf_contents b' = buf_contents b @ readable_bytes t) (WriteBufferAndPushOffSet t b)"
proof (cases "ReadableSize t = 0")
  case True
  then have "buf_contents t = []" using sizes [OF assms(1)] by (simp flip: length_0_conv)
  with True assms show ?thesis by (simp add: WriteBufferAndPushOffSet_def sizes(5) [OF assms(1)])
next
  case False
  let ?d = "readable_bytes t"
  have d: "length ?d = ReadableSize t" "length ?d \<le> max_obj" "\<not> reader_offset t + ReadableSize t > length (storage t)"
    using assms(1) by (auto simp: sizes [OF assms(1)] buf_inv_def)
  then have "WriteBufferAndPushOffSet t b = WriteAndPushOffSet ?d b"
    using False by (auto simp: WriteBufferAndPushOffSet_def WriteBuffer_def WriteAndPushOffSet_def split: sum.splits)
  then show ?thesis using WriteAndPush_law [OF assms(2) d(2)] by auto
qed

lemma Write_ok:
  "buf_inv b \<Longrightarrow> length d \<le> max_obj \<Longrightarrow>
     ok_or_alloc (\<lambda>b'. buf_inv b' \<and> buf_contents b' = buf_contents b @ d) (WriteAndPushOffSet d b)"
  using WriteAndPush_law [of b d] by auto

text \<open>Sending keeps the core; while the connection is alive its bytes join the output.\<close>

definition sent_from :: "Connection \<Rightarrow> Connection \<Rightarrow> bool" where
  "sent_from c c' \<longleftrightarrow> core_inv c' \<and> statu c' = statu c \<and> release_tasks c' = release_tasks c
     \<and> (buf_contents (obuffer c) \<noteq> [] \<longrightarrow> buf_contents (obuffer c') \<noteq> [])"

lemma Send_ok:
  assumes inv: "core_inv c" and d: "length d \<le> max_obj"
  shows "ok_or_alloc (sent_from c) (Send d c)"
  unfolding Send_def
proof (rule ok_bind [OF Write_ok [OF Buffer_new_inv(1) d]])
  fix t assume t: "buf_inv t \<and> buf_contents t = buf_contents Buffer_new @ d"
  show "ok_or_alloc (sent_from c) (SendInLoop t c)"
  proof (cases "statu c = DISCONNECTED")
    case True
    then show ?thesis using inv by (simp add: SendInLoop_def sent_from_def)
  next
    case False
    have "ok_or_alloc (sent_from c) (sum_bind (WriteBufferAndPushOffSet t (obuffer c))
        (\<lambda>ob. Inr (monitor_writer (c\<lparr>obuffer := ob, accepted := accepted c @ readable_bytes t\<rparr>))))"
    proof (rule ok_bind [OF WriteBuffer_ok])
      show "buf_inv t" "buf_inv (obuffer c)" using t inv by (simp_all add: core_inv_def)
      fix ob assume ob: "buf_inv ob \<and> buf_contents ob = buf_contents (obuffer c) @ readable_bytes t"
      let ?c = "c\<lparr>obuffer := ob, accepted := accepted c @ readable_bytes t\<rparr>"
      have "core_inv (monitor_writer ?c)"
        using ob inv by (intro monitor_writer_core) (simp_all add: core_inv_def flip: append_assoc)
      then show "ok_or_alloc (sent_from c) (Inr (monitor_writer ?c))"
        using ob by (simp add: sent_from_def)
    qed
    with False show ?thesis by (simp add: SendInLoop_def)
  qed
qed

lemma sent_from_trans: "sent_from c c1 \<Longrightarrow> sent_from c1 c2 \<Longrightarrow> sent_from c c2"
  by (auto simp: sent_from_def)

lemma send_all_ok:
  "core_inv c \<Longrightarrow> \<forall>d \<in> set ds. length d \<le> max_obj \<Longrightarrow> ok_or_alloc (sent_from c) (send_all ds c)"
proof (induction ds arbitrary: c)
  case Nil
  then show ?case by (simp add: sent_from_def)
next
  case (Cons d ds)
  have "ok_or_alloc (sent_from c) (sum_bind (Send d c) (send_all ds))"
  proof (rule ok_bind [OF Send_ok])
    show "core_inv c" "length d \<le> max_obj" using Cons.prems by simp_all
    fix c1 assume c1: "sent_from c c1"
    then have "core_inv c1" by (simp add: sent_from_def)
    then have "ok_or_alloc (sent_from c1) (send_all ds c1)" using Cons.IH [of c1] Cons.prems by simp
    then show "ok_or_alloc (sent_from c) (send_all ds c1)"
      using sent_from_trans [OF c1] by (auto simp: ok_or_alloc_def split: sum.splits)
  qed
  then show ?case by simp
qed

lemma call_message_ok:
  assumes inv: "core_inv c" and h: "good_handler h"
  shows "ok_or_alloc (sent_from c) (call_message h c)"
proof -
  obtain b' ds where b': "h (ibuffer c) = Inr (b', ds)" "buf_inv b'" "\<forall>d \<in> set ds. length d \<le> max_obj"
    using inv h by (auto simp: good_handler_def core_inv_def)
  let ?c = "c\<lparr>ibuffer := b', calls := calls c @ [MessageCall]\<rparr>"
  have "core_inv ?c" using inv b' by (simp add: core_inv_def)
  from send_all_ok [OF this b'(3)] have "ok_or_alloc (sent_from c) (send_all ds ?c)"
    by (auto simp: ok_or_alloc_def sent_from_def split: sum.splits)
  then show ?thesis using inv b' by (simp add: call_message_def core_inv_def)
qed

section \<open>Every operation keeps the invariant\<close>

lemma conn_inv_sent: "conn_inv c \<Longrightarrow> sent_from c c' \<Longrightarrow> conn_inv c'"
  by (auto simp: conn_inv_def sent_from_def)

lemma Release_sel [simp]:
  "core_inv (Release c) = core_inv c" "release_tasks (Release c) = Suc (release_tasks c)" "conn_id (Release c) = conn_id c"
  by (simp_all add: core_inv_def Release_def)

lemma core_inv_Release: "core_inv c \<Longrightarrow> conn_inv (Release c)"
  by (simp add: conn_inv_def)

lemma readable_pos: "core_inv c \<Longrightarrow> ReadableSize (obuffer c) = length (buf_contents (obuffer c))"
  by (simp add: core_inv_def sizes)

lemma Shutdown_ok:
  assumes inv: "core_inv c" and h: "good_handler h"
  shows "ok_or_alloc conn_inv (ShutdownInLoop h c)"
proof -
  let ?c = "c\<lparr>statu := DISCONNECTING\<rparr>"
  have c: "core_inv ?c" using inv by (simp add: core_inv_def)
  have first: "ok_or_alloc core_inv (if ReadableSize (ibuffer ?c) > 0 \<and> user_set ?c MessageCall then call_message h ?c else Inr ?c)"
    using call_message_ok [OF c h] c by (auto simp: ok_or_alloc_def sent_from_def split: sum.splits)
  show ?thesis unfolding ShutdownInLoop_def Let_def
  proof (rule ok_bind [OF first])
    fix c2 assume c2: "core_inv c2"
    then have m: "core_inv (monitor_writer c2)" by (intro monitor_writer_core) (simp_all add: core_inv_def)
    show "ok_or_alloc conn_inv (Inr (if ReadableSize (obuffer (if ReadableSize (obuffer c2) > 0 then monitor_writer c2 else c2)) = 0
        then Release (if ReadableSize (obuffer c2) > 0 then monitor_writer c2 else c2)
        else (if ReadableSize (obuffer c2) > 0 then monitor_writer c2 else c2)))"
      using c2 m readable_pos [OF c2] by (auto simp: core_inv_Release conn_inv_def)
  qed
qed

lemma Write_input_ok:
  assumes "core_inv c" "length d \<le> max_obj"
  shows "ok_or_alloc (\<lambda>b'. core_inv (c\<lparr>ibuffer := b'\<rparr>)) (WriteAndPushOffSet d (ibuffer c))"
  using Write_ok [of "ibuffer c" d] assms by (auto simp: ok_or_alloc_def core_inv_def split: sum.splits)

lemma Readhandler_ok:
  assumes inv: "conn_inv c" and h: "good_handler h" and n: "n \<le> 65535"
  shows "ok_or_alloc conn_inv (Readhandler h n err d c)"
proof -
  have core: "core_inv c" using inv by (simp add: conn_inv_def)
  let ?d = "take (nat (Socket_Recv n err)) d"
  have "length ?d \<le> nat (Socket_Recv n err)" "nat (Socket_Recv n err) \<le> 65535"
    using n by (auto simp: Socket_Recv_def)
  then have "length ?d \<le> max_obj" by linarith
  from Write_input_ok [OF core this]
  have "ok_or_alloc conn_inv (sum_bind (WriteAndPushOffSet ?d (ibuffer c)) (\<lambda>ib. call_message h (c\<lparr>ibuffer := ib\<rparr>)))"
  proof (rule ok_bind)
    fix ib assume c1: "core_inv (c\<lparr>ibuffer := ib\<rparr>)"
    then have "conn_inv (c\<lparr>ibuffer := ib\<rparr>)" using inv by (simp add: conn_inv_def)
    then show "ok_or_alloc conn_inv (call_message h (c\<lparr>ibuffer := ib\<rparr>))"
      using call_message_ok [OF c1 h] by (auto simp: ok_or_alloc_def conn_inv_sent split: sum.splits)
  qed
  then show ?thesis using Shutdown_ok [OF core h] inv by (simp add: Readhandler_def Let_def)
qed

lemma flush_input_ok:
  assumes "core_inv c" "good_handler h"
  shows "ok_or_alloc core_inv (flush_input h c)"
  using call_message_ok [OF assms] assms(1)
  by (auto simp: flush_input_def ok_or_alloc_def sent_from_def split: sum.splits)

lemma flush_release_ok:
  assumes "core_inv c" "good_handler h"
  shows "ok_or_alloc conn_inv (sum_bind (flush_input h c) (\<lambda>c1. Inr (Release c1)))"
  by (rule ok_bind [OF flush_input_ok [OF assms]]) (simp add: core_inv_Release)

lemma unmonitor_writer_sel [simp]:
  "statu (unmonitor_writer c) = statu c" "release_tasks (unmonitor_writer c) = release_tasks c"
  "obuffer (unmonitor_writer c) = obuffer c"
  by (simp_all add: unmonitor_writer_def DisableMonitorWriter_def Let_def)

lemma unmonitor_core: "core_inv c \<Longrightarrow> buf_contents (obuffer c) = [] \<Longrightarrow> core_inv (unmonitor_writer c)"
  by (simp add: core_inv_def unmonitor_writer_def DisableMonitorWriter_def Let_def Update_monitor_sync)

lemma WriteHandler_ok:
  assumes inv: "conn_inv c" and h: "good_handler h" and n: "n \<le> int (length (buf_contents (obuffer c)))"
  shows "ok_or_alloc conn_inv (WriteHandler h n err c)"
proof (cases "Socket_Send n err < 0")
  case True
  have "core_inv c" using inv by (simp add: conn_inv_def)
  with True flush_release_ok [OF _ h] show ?thesis by (simp add: WriteHandler_def Let_def)
next
  case False
  let ?r = "nat (Socket_Send n err)" and ?o = "obuffer c"
  have core: "core_inv c" "buf_inv ?o" using inv by (simp_all add: conn_inv_def core_inv_def)
  have r: "?r \<le> length (buf_contents ?o)" using n by (auto simp: Socket_Send_def)
  obtain ob where ob: "MoveReaderOffset ?r ?o = Inr ob" "buf_inv ob" "buf_contents ob = drop ?r (buf_contents ?o)"
    using MoveReader_law [OF core(2) r] by blast
  let ?c = "c\<lparr>obuffer := ob, wire := wire c @ take ?r (readable_bytes ?o)\<rparr>"
  have c1: "core_inv ?c"
    using core ob by (auto simp: core_inv_def sizes(5) [OF core(2)])
  have z: "ReadableSize ob = 0 \<longleftrightarrow> buf_contents ob = []"
    using sizes [OF ob(2)] by (metis length_0_conv)
  show ?thesis
  proof (cases "buf_contents ob = []")
    case True
    then have "core_inv (unmonitor_writer ?c)" using unmonitor_core [OF c1] by simp
    then show ?thesis using False True ob z
      by (auto simp: WriteHandler_def Let_def core_inv_Release conn_inv_def)
  next
    case nonempty: False
    then show ?thesis using False ob z c1 by (simp add: WriteHandler_def Let_def conn_inv_def)
  qed
qed

lemma AnyHandler_ok:
  assumes "conn_inv c"
  shows "ok_or_alloc conn_inv (AnyHandler c)"
proof -
  let ?w = "timer_wheel c"
  have w: "wheel_inv ?w" "timely ?w" using assms by (simp_all add: conn_inv_def core_inv_def)
  obtain w' where "(if inactive_release c then RefreshTimerTaskInLoop (conn_id c) ?w else Inr ?w) = Inr w'"
      "wheel_inv w'" "timely w'"
    using Refresh_inv [OF w(1)] timely_Refresh [OF w] w by (cases "inactive_release c") metis+
  then show ?thesis using assms
    by (simp add: AnyHandler_def conn_inv_def core_inv_def user_call_def)
qed

lemma ReleaseInLoop_ok: "core_inv c \<Longrightarrow> conn_inv (ReleaseInLoop c)"
  by (simp add: ReleaseInLoop_def Let_def conn_inv_def core_inv_def user_call_def Socket_Close_def
      DisableInactiveReleaseInLoop_def Remove_monitor_sync Cancel_inv timely_Cancel)

lemma EnableInactive_ok:
  assumes "conn_inv c"
  shows "ok_or_alloc conn_inv (EnableInactiveReleaseInLoop sec c)"
proof -
  let ?w = "timer_wheel c"
  have w: "wheel_inv ?w" "timely ?w" using assms by (simp_all add: conn_inv_def core_inv_def)
  obtain w' where w': "RefreshTimerTaskInLoop (conn_id c) ?w = Inr w'" "wheel_inv w'" using Refresh_inv [OF w(1)] by blast
  with timely_Refresh [OF w w'(1)] assms show ?thesis
    by (simp add: EnableInactiveReleaseInLoop_def Let_def conn_inv_def core_inv_def Add_inv timely_Add)
qed

lemma Established_ok:
  "conn_inv c \<Longrightarrow> statu c = CONNECTING \<Longrightarrow> ok_or_alloc conn_inv (EstablishedInLoop c)"
  by (simp add: EstablishedInLoop_def EnableMonitorRead_def Let_def conn_inv_def core_inv_def user_call_def
      Update_monitor_sync IsMonitorWriter_def) (simp add: bit.conj_disj_distrib2)

section \<open>Runs of a connection\<close>

datatype conn_event =
    EvDispatch u32 io_answers
  | EvSend bytes
  | EvShutdown
  | EvRunRelease
  | EvEnableInactive nat
  | EvDisableInactive
  | EvTick

text \<open>
  A tick of the wheel whose expired task belongs to this connection runs its callback, which is
  \<open>Release\<close>.
\<close>

definition conn_tick :: "Connection \<Rightarrow> Connection" where
  "conn_tick c =
     (let w = timer_wheel c; w' = Step w; new = drop (length (fired w)) (fired w')
      in fold (\<lambda>a d. if task_callback (tasks w' ! a) = conn_id d then Release d else d) new (c\<lparr>timer_wheel := w'\<rparr>))"

fun conn_step :: "handler \<Rightarrow> conn_event \<Rightarrow> Connection \<Rightarrow> fault + Connection" where
  "conn_step h (EvDispatch revents io) c = dispatch h revents io c"
| "conn_step h (EvSend d) c = Send d c"
| "conn_step h EvShutdown c = ShutdownInLoop h c"
| "conn_step h EvRunRelease c =
     (if release_tasks c = 0 then Inr c else Inr (ReleaseInLoop (c\<lparr>release_tasks := release_tasks c - 1\<rparr>)))"
| "conn_step h (EvEnableInactive sec) c = EnableInactiveReleaseInLoop sec c"
| "conn_step h EvDisableInactive c = Inr (DisableInactiveReleaseInLoop c)"
| "conn_step h EvTick c = Inr (conn_tick c)"

text \<open>
  What the kernel promises for one dispatch: at most 65535 bytes are received and at most the
  offered bytes are sent.
\<close>

definition io_ok :: "io_answers \<Rightarrow> bool" where
  "io_ok io \<longleftrightarrow> recv_n io \<le> 65535 \<and> (\<forall>k. send_n io k \<le> int k)"

fun event_ok :: "conn_event \<Rightarrow> bool" where
  "event_ok (EvDispatch revents io) = io_ok io"
| "event_ok (EvSend d) = (length d \<le> max_obj)"
| "event_ok _ = True"

lemma run_callback_ok:
  assumes inv: "conn_inv c" and h: "good_handler h" and io: "io_ok io"
  shows "ok_or_alloc conn_inv (run_callback h io cb c)"
proof (cases cb)
  case WriteCallBack
  have "core_inv c" using inv by (simp add: conn_inv_def)
  from readable_pos [OF this] io WriteHandler_ok [OF inv h] WriteCallBack show ?thesis by (simp add: io_ok_def)
qed (use inv h io in \<open>simp_all add: Readhandler_ok AnyHandler_ok io_ok_def CloseHandler_def flush_release_ok
      ErrorHandler_def core_inv_Release conn_inv_def [of c]\<close>)

lemma run_callbacks_ok:
  "conn_inv c \<Longrightarrow> good_handler h \<Longrightarrow> io_ok io \<Longrightarrow> ok_or_alloc conn_inv (run_callbacks h io cbs c)"
proof (induction cbs arbitrary: c)
  case (Cons cb cbs)
  have "ok_or_alloc conn_inv (sum_bind (run_callback h io cb c) (run_callbacks h io cbs))"
    by (rule ok_bind [OF run_callback_ok [OF Cons.prems]]) (rule Cons.IH [OF _ Cons.prems(2,3)])
  then show ?case by simp
qed simp

lemma dispatch_ok:
  assumes "conn_inv c" "good_handler h" "io_ok io"
  shows "ok_or_alloc conn_inv (dispatch h revents io c)"
proof -
  have "conn_inv (c\<lparr>channel := SetREvents revents (channel c)\<rparr>)"
    using assms(1) by (simp add: conn_inv_def core_inv_def SetREvents_def IsMonitorWriter_def)
  from run_callbacks_ok [OF this assms(2,3)] show ?thesis by (simp add: dispatch_def Let_def)
qed

lemma conn_tick_inv: "conn_inv c \<Longrightarrow> conn_inv (conn_tick c)"
proof -
  assume inv: "conn_inv c"
  have fold: "conn_inv d \<Longrightarrow> conn_inv (fold (\<lambda>a d. if P a = conn_id d then Release d else d) xs d)" for P :: "nat \<Rightarrow> nat" and xs d
    by (induction xs arbitrary: d) (auto simp: core_inv_Release conn_inv_def)
  have "conn_inv (c\<lparr>timer_wheel := Step (timer_wheel c)\<rparr>)"
    using inv by (simp add: conn_inv_def core_inv_def Step_inv timely_Step)
  from fold [OF this] show ?thesis by (simp add: conn_tick_def Let_def)
qed

lemma conn_step_ok:
  assumes inv: "conn_inv c" and h: "good_handler h" and ev: "event_ok ev"
  shows "ok_or_alloc conn_inv (conn_step h ev c)"
proof (cases ev)
  case (EvSend d)
  have "core_inv c" using inv by (simp add: conn_inv_def)
  with EvSend ev Send_ok [of c d] show ?thesis
    using inv by (auto simp: ok_or_alloc_def conn_inv_sent split: sum.splits)
next
  case EvRunRelease
  have "core_inv (c\<lparr>release_tasks := n\<rparr>)" for n using inv by (simp add: conn_inv_def core_inv_def)
  with EvRunRelease inv show ?thesis by (simp add: ReleaseInLoop_ok)
next
  case EvShutdown
  with inv h show ?thesis by (simp add: Shutdown_ok conn_inv_def [of c])
next
  case EvDisableInactive
  with inv show ?thesis
    by (simp add: DisableInactiveReleaseInLoop_def Let_def conn_inv_def core_inv_def Cancel_inv timely_Cancel)
qed (use inv h ev in \<open>simp_all add: dispatch_ok EnableInactive_ok conn_tick_inv\<close>)

fun conn_run :: "handler \<Rightarrow> conn_event list \<Rightarrow> Connection \<Rightarrow> fault + Connection" where
  "conn_run h [] c = Inr c"
| "conn_run h (ev # evs) c = sum_bind (conn_step h ev c) (conn_run h evs)"

lemma conn_run_ok:
  "conn_inv c \<Longrightarrow> good_handler h \<Longrightarrow> \<forall>ev \<in> set evs. event_ok ev \<Longrightarrow> ok_or_alloc conn_inv (conn_run h evs c)"
proof (induction evs arbitrary: c)
  case (Cons ev evs)
  from Cons.prems(3) have ev: "event_ok ev" "\<forall>ev \<in> set evs. event_ok ev" by simp_all
  have "ok_or_alloc conn_inv (sum_bind (conn_step h ev c) (conn_run h evs))"
    by (rule ok_bind [OF conn_step_ok [OF Cons.prems(1,2) ev(1)]]) (rule Cons.IH [OF _ Cons.prems(2) ev(2)])
  then show ?case by simp
qed simp

lemma Connection_new_inv:
  assumes "in_sync ep" "wheel_inv tw" "timely tw" "us MessageCall"
  shows "conn_inv (Connection_new ep tw i fd us)"
  using assms by (simp add: conn_inv_def core_inv_def Connection_new_def Buffer_new_inv)

section \<open>Releases\<close>

text \<open>
  What a step does to the queued releases: the callbacks of the channel stay set, and at least
  \<open>k\<close> releases are added.
\<close>

definition gains :: "nat \<Rightarrow> Connection \<Rightarrow> fault + Connection \<Rightarrow> bool" where
  "gains k c r = (case r of Inl _ \<Rightarrow> True
     | Inr c' \<Rightarrow> ch_set (channel c') = ch_set (channel c) \<and> release_tasks c + k \<le> release_tasks c')"

lemma gains_simps [simp]:
  "gains k c (Inl e)"
  "gains k c (Inr c') \<longleftrightarrow> ch_set (channel c') = ch_set (channel c) \<and> release_tasks c + k \<le> release_tasks c'"
  by (simp_all add: gains_def)




lemma monitor_writer_ch_set [simp]: "ch_set (channel (monitor_writer c)) = ch_set (channel c)"
  by (simp add: monitor_writer_def EnableMonitorWriter_def Let_def)

lemma unmonitor_writer_ch_set [simp]: "ch_set (channel (unmonitor_writer c)) = ch_set (channel c)"
  by (simp add: unmonitor_writer_def DisableMonitorWriter_def Let_def)

lemma Release_ch_set [simp]: "ch_set (channel (Release c)) = ch_set (channel c)"
  by (simp add: Release_def)



















section \<open>Properties\<close>


text \<open>
  The same holds when the callbacks are replaced between two stretches of the run, in the loop's thread, by
  callbacks of which one takes messages.
\<close>

theorem connection_switch_exact:
  assumes "conn_inv c" and "good_handler h" and "good_handler h'" and "us MessageCall"
    and evs: "\<forall>ev \<in> set evs. event_ok ev" "\<forall>ev \<in> set evs'. event_ok ev"
  shows "ok_or_alloc conn_inv
    (sum_bind (conn_run h evs c) (\<lambda>c. sum_bind (ProtocolSwitching True ctx us c) (conn_run h' evs')))"
proof (rule ok_bind [OF conn_run_ok [OF assms(1,2) evs(1)]])
  fix c
  assume "conn_inv c"
  then have "conn_inv (ProtocolSwitchingInLoop ctx us c)"
    using assms(4) by (simp add: ProtocolSwitchingInLoop_def conn_inv_def core_inv_def)
  then show "ok_or_alloc conn_inv (sum_bind (ProtocolSwitching True ctx us c) (conn_run h' evs'))"
    using conn_run_ok [OF _ assms(3) evs(2)] by (simp add: ProtocolSwitching_def)
qed

definition echo_handler :: handler where
  "echo_handler b = Inr (Clear b, [buf_contents b])"


definition sample_conn :: Connection where
  "sample_conn = (Connection_new Epoller_new TimerWheel_new 1 5 (\<lambda>u. u = MessageCall))\<lparr>statu := CONNECTED\<rparr>"

lemma sample_conn_inv: "conn_inv sample_conn"
  using Connection_new_inv [OF in_sync_new wheel_inv_new timely_new, of "\<lambda>u. u = MessageCall" 1 5]
  by (simp add: sample_conn_def conn_inv_def core_inv_def)

lemma sample_conn_callbacks: "\<forall>cb. ch_set (channel sample_conn) cb"
proof
  fix cb show "ch_set (channel sample_conn) cb"
    by (cases cb) (simp_all add: sample_conn_def Connection_new_def SetCallBack_def Channel_new_def)
qed



text \<open>
  One dispatch can queue the release of a connection twice: when the kernel reports input
  together with a hang-up and the read fails, the read handler's shutdown and the close handler
  each push a release task, although the first of them makes the server drop its pointer.
\<close>

theorem connection_double_release:
  assumes "core_inv c" and "buf_contents (ibuffer c) = []" and "buf_contents (obuffer c) = []"
    and "ch_set (channel c) = (\<lambda>_. True)" and "\<not> inactive_release c"
    and "recv_n io = - 1" and "recv_errno io = OtherErrno"
  shows "\<exists>c'. dispatch h (EPOLLIN OR EPOLLHUP) io c = Inr c' \<and> release_tasks c' = release_tasks c + 2"
proof -
  have z: "ReadableSize (ibuffer c) = 0" "ReadableSize (obuffer c) = 0"
    using assms(1-3) by (auto simp: core_inv_def sizes length_segment simp flip: length_0_conv)
  show ?thesis
    using assms(4-7) z
    by (simp add: dispatch_def Let_def EventHandler_def SetREvents_def Readhandler_def Socket_Recv_def
        ShutdownInLoop_def Release_def CloseHandler_def flush_input_def AnyHandler_def user_call_def)
qed

theorem connection_double_release_witness:
  "\<exists>c'. dispatch echo_handler (EPOLLIN OR EPOLLHUP)
      \<lparr>recv_n = - 1, recv_errno = OtherErrno, recv_data = [], send_n = (\<lambda>_. 0), send_errno = EAGAIN\<rparr> sample_conn
    = Inr c' \<and> release_tasks c' = 2"
proof -
  have "ch_set (channel sample_conn) = (\<lambda>_. True)" using sample_conn_callbacks by (simp add: fun_eq_iff)
  moreover have "buf_contents (ibuffer sample_conn) = []" "buf_contents (obuffer sample_conn) = []"
    "\<not> inactive_release sample_conn" "release_tasks sample_conn = 0"
    by (simp_all add: sample_conn_def Connection_new_def Buffer_new_inv)
  moreover have "core_inv sample_conn" using sample_conn_inv by (simp add: conn_inv_def)
  ultimately show ?thesis
    using connection_double_release [of sample_conn
        "\<lparr>recv_n = - 1, recv_errno = OtherErrno, recv_data = [], send_n = (\<lambda>_. 0), send_errno = EAGAIN\<rparr>" echo_handler]
    by (simp add: numeral_2_eq_2)
qed

end
