(* ===== verification/Tcp_Server.thy ===== *)
theory Tcp_Server
  imports Connection
begin

text \<open>
  \<open>Acceptor\<close> and \<open>TcpServer\<close> of \<open>muduo/server.hpp\<close>: accepting a descriptor makes a connection with
  a fresh id on the next loop of the pool, posts its start to that loop and records it; a closed
  connection is forgotten.  Ids are counted in natural numbers: the \<open>int\<close> counter is taken not
  to overflow.
\<close>

section \<open>State and operations\<close>

datatype loop_task = TaskEnableInactive nat nat | TaskEstablished nat | TaskReleaseConnection nat

record TcpServer =
  next_connid :: nat
  next_timerid :: nat
  server_timeout :: int
  server_inactive :: bool
  pool :: LoopThreadPool
  conns :: "nat \<Rightarrow> Connection option"
  posted :: "(nat \<times> loop_task) list"
  base_wheel :: "nat TimerWheel"

definition TcpServer_new :: "nat \<Rightarrow> TcpServer" where
  "TcpServer_new base = \<lparr>next_connid = 0, next_timerid = 0, server_timeout = 0, server_inactive = False,
     pool = LoopThreadPool_new base, conns = (\<lambda>_. None), posted = [], base_wheel = TimerWheel_new\<rparr>"

definition Server_EnableInactiveRelease :: "int \<Rightarrow> TcpServer \<Rightarrow> TcpServer" where
  "Server_EnableInactiveRelease timeout s = s\<lparr>server_timeout := timeout, server_inactive := True\<rparr>"

text \<open>\<open>ep\<close> and \<open>tw\<close> are the epoll set and the timer wheel of each loop.\<close>

definition NewConnection :: "(nat \<Rightarrow> Epoller) \<Rightarrow> (nat \<Rightarrow> nat TimerWheel) \<Rightarrow> (user_call \<Rightarrow> bool) \<Rightarrow> int
    \<Rightarrow> TcpServer \<Rightarrow> fault + TcpServer" where
  "NewConnection ep tw us fd s =
     (let i = next_connid s + 1; s1 = s\<lparr>next_connid := i\<rparr>
      in sum_bind (NextLoop (pool s1)) (\<lambda>(l, p).
           let conn = Connection_new (ep l) (tw l) i fd (\<lambda>u. us u \<or> u = ServerCloseCall);
               start = (if server_inactive s1 then [(l, TaskEnableInactive i 10)] else []) @ [(l, TaskEstablished i)]
           in Inr (s1\<lparr>pool := p, posted := posted s1 @ start, conns := (conns s1)(i := Some conn)\<rparr>)))"

definition Acceptor_ReadHandler :: "(nat \<Rightarrow> Epoller) \<Rightarrow> (nat \<Rightarrow> nat TimerWheel) \<Rightarrow> (user_call \<Rightarrow> bool) \<Rightarrow> int
    \<Rightarrow> TcpServer \<Rightarrow> fault + TcpServer" where
  "Acceptor_ReadHandler ep tw us fd s = (if fd < 0 then Inr s else NewConnection ep tw us fd s)"

definition ReleaseConnectionInLoop :: "nat \<Rightarrow> TcpServer \<Rightarrow> TcpServer" where
  "ReleaseConnectionInLoop i s = s\<lparr>conns := (conns s)(i := None)\<rparr>"

definition Server_AddTimerTaskInLoop :: "nat \<Rightarrow> nat \<Rightarrow> TcpServer \<Rightarrow> TcpServer" where
  "Server_AddTimerTaskInLoop task timeout s =
     (let i = next_timerid s + 1
      in s\<lparr>next_timerid := i, base_wheel := AddTimerTaskInLoop i timeout task (base_wheel s)\<rparr>)"

section \<open>Runs\<close>

datatype server_event = Accept int | Closed nat | AddTimer nat nat

fun server_step :: "(nat \<Rightarrow> Epoller) \<Rightarrow> (nat \<Rightarrow> nat TimerWheel) \<Rightarrow> (user_call \<Rightarrow> bool) \<Rightarrow> server_event
    \<Rightarrow> TcpServer \<Rightarrow> fault + TcpServer" where
  "server_step ep tw us (Accept fd) s = Acceptor_ReadHandler ep tw us fd s"
| "server_step ep tw us (Closed i) s = Inr (ReleaseConnectionInLoop i s)"
| "server_step ep tw us (AddTimer task timeout) s = Inr (Server_AddTimerTaskInLoop task timeout s)"

fun server_run :: "(nat \<Rightarrow> Epoller) \<Rightarrow> (nat \<Rightarrow> nat TimerWheel) \<Rightarrow> (user_call \<Rightarrow> bool) \<Rightarrow> server_event list
    \<Rightarrow> TcpServer \<Rightarrow> fault + TcpServer" where
  "server_run ep tw us [] s = Inr s"
| "server_run ep tw us (e # es) s = sum_bind (server_step ep tw us e s) (server_run ep tw us es)"

definition pool_ok :: "LoopThreadPool \<Rightarrow> bool" where
  "pool_ok p \<longleftrightarrow> 0 \<le> pool_size p \<and> 0 \<le> next_loop p \<and> (0 < pool_size p \<longrightarrow> length (loops p) = nat (pool_size p))"

definition server_inv :: "TcpServer \<Rightarrow> bool" where
  "server_inv s \<longleftrightarrow> pool_ok (pool s)
     \<and> (\<forall>i c. conns s i = Some c \<longrightarrow> conn_id c = i \<and> i \<le> next_connid s)
     \<and> distinct (filter (\<lambda>t. case t of TaskEstablished i \<Rightarrow> True | _ \<Rightarrow> False) (map snd (posted s)))
     \<and> (\<forall>l i. (l, TaskEstablished i) \<in> set (posted s) \<longrightarrow> i \<le> next_connid s)"

lemma NextLoop_ok:
  assumes "pool_ok p"
  obtains l p' where "NextLoop p = Inr (l, p')" "pool_ok p'"
proof (cases "pool_size p = 0")
  case True
  then show thesis using that assms by (simp add: NextLoop_def)
next
  case False
  then have "0 < pool_size p" using assms by (simp add: pool_ok_def)
  then show thesis using that assms
    by (auto simp: NextLoop_def Let_def pool_ok_def)
qed

lemma Connection_new_id: "conn_id (Connection_new e w i fd us) = i"
  by (simp add: Connection_new_def)

lemma server_fresh: "server_inv s \<Longrightarrow> conns s (next_connid s + 1) = None"
proof (rule ccontr)
  assume "server_inv s" "conns s (next_connid s + 1) \<noteq> None"
  then have "next_connid s + 1 \<le> next_connid s" unfolding server_inv_def by blast
  then show False by simp
qed

lemma NewConnection_ok:
  assumes inv: "server_inv s"
  obtains s' l where "NewConnection ep tw us fd s = Inr s'" "server_inv s'"
    "conns s' = (conns s)(next_connid s + 1 := Some (Connection_new (ep l) (tw l) (next_connid s + 1) fd (\<lambda>u. us u \<or> u = ServerCloseCall)))"
    "conns s (next_connid s + 1) = None" "(l, TaskEstablished (next_connid s + 1)) \<in> set (posted s')"
proof -
  from inv obtain l p' where n: "NextLoop (pool s) = Inr (l, p')" "pool_ok p'"
    by (auto simp: server_inv_def elim: NextLoop_ok)
  let ?i = "next_connid s + 1"
  have fresh: "conns s ?i = None" by (rule server_fresh [OF inv])
  have posted_le: "\<forall>l i. (l, TaskEstablished i) \<in> set (posted s) \<longrightarrow> i \<le> next_connid s"
    using inv by (simp add: server_inv_def)
  then have new: "(l', TaskEstablished ?i) \<notin> set (posted s)" for l' by (metis Suc_eq_plus1 not_less_eq_eq order_refl)
  then have new': "TaskEstablished ?i \<notin> set (map snd (posted s))" by auto
  let ?est = "\<lambda>t. case t of TaskEstablished i \<Rightarrow> True | _ \<Rightarrow> False"
  let ?start = "(if server_inactive s then [(l, TaskEnableInactive ?i 10)] else []) @ [(l, TaskEstablished ?i)]"
  let ?s = "s\<lparr>next_connid := ?i, pool := p', posted := posted s @ ?start,
      conns := (conns s)(?i := Some (Connection_new (ep l) (tw l) ?i fd (\<lambda>u. us u \<or> u = ServerCloseCall)))\<rparr>"
  have "NewConnection ep tw us fd s = Inr ?s" using n by (simp add: NewConnection_def Let_def)
  have conns_ok: "\<forall>i c. conns ?s i = Some c \<longrightarrow> conn_id c = i \<and> i \<le> next_connid ?s"
  proof (intro allI impI)
    fix i c
    assume c: "conns ?s i = Some c"
    have old: "conns s i = Some c \<Longrightarrow> conn_id c = i \<and> i \<le> next_connid s" using inv unfolding server_inv_def by blast
    show "conn_id c = i \<and> i \<le> next_connid ?s"
    proof (cases "i = ?i")
      case True
      then show ?thesis using c by (auto simp: Connection_new_id)
    next
      case False
      then show ?thesis using c old by simp
    qed
  qed
  have posted_ok: "\<forall>l i. (l, TaskEstablished i) \<in> set (posted ?s) \<longrightarrow> i \<le> next_connid ?s"
  proof (intro allI impI)
    fix l' i
    assume "(l', TaskEstablished i) \<in> set (posted ?s)"
    then have "(l', TaskEstablished i) \<in> set (posted s) \<or> i = ?i" by (auto split: if_splits)
    then show "i \<le> next_connid ?s" using posted_le by fastforce
  qed
  have distinct_ok: "distinct (filter ?est (map snd (posted ?s)))"
  proof -
    have "filter ?est (map snd (posted ?s)) = filter ?est (map snd (posted s)) @ [TaskEstablished ?i]" by simp
    moreover have "distinct (filter ?est (map snd (posted s)))" using inv by (simp only: server_inv_def)
    ultimately show ?thesis using new' by (simp only: distinct_append) simp
  qed
  have "pool_ok (pool ?s)" using n(2) by simp
  then have "server_inv ?s" unfolding server_inv_def using conns_ok distinct_ok posted_ok by (intro conjI)
  from that [OF \<open>NewConnection ep tw us fd s = Inr ?s\<close> this _ fresh, of l] show thesis by simp
qed

lemma server_step_ok:
  assumes "server_inv s"
  shows "\<exists>s'. server_step ep tw us e s = Inr s' \<and> server_inv s'"
proof (cases e)
  case (Accept fd)
  obtain s' where "NewConnection ep tw us fd s = Inr s'" "server_inv s'" by (rule NewConnection_ok [OF assms])
  then show ?thesis using Accept assms by (simp add: Acceptor_ReadHandler_def)
qed (use assms in \<open>auto simp: ReleaseConnectionInLoop_def Server_AddTimerTaskInLoop_def Let_def server_inv_def\<close>)

lemma server_run_ok: "server_inv s \<Longrightarrow> \<exists>s'. server_run ep tw us es s = Inr s' \<and> server_inv s'"
proof (induction es arbitrary: s)
  case (Cons e es)
  from server_step_ok [OF Cons.prems] obtain s1 where "server_step ep tw us e s = Inr s1" "server_inv s1" by blast
  with Cons.IH show ?case by simp
qed simp

section \<open>Properties\<close>

text \<open>
  The server never runs into an invalid loop index and never confuses connections: over any
  sequence of accepts, closes and timer additions every recorded connection sits under its own
  id, a new connection gets an id that is not in use, and no id is started twice.
\<close>

theorem server_ids_unique:
  assumes "pool_ok p"
  shows "\<exists>s. server_run ep tw us es ((TcpServer_new base)\<lparr>pool := p\<rparr>) = Inr s
    \<and> (\<forall>i c. conns s i = Some c \<longrightarrow> conn_id c = i)
    \<and> conns s (next_connid s + 1) = None
    \<and> distinct (filter (\<lambda>t. case t of TaskEstablished i \<Rightarrow> True | _ \<Rightarrow> False) (map snd (posted s)))"
proof -
  have "server_inv ((TcpServer_new base)\<lparr>pool := p\<rparr>)" using assms by (simp add: server_inv_def TcpServer_new_def)
  from server_run_ok [OF this] obtain s where "server_run ep tw us es ((TcpServer_new base)\<lparr>pool := p\<rparr>) = Inr s"
      "server_inv s" by blast
  moreover from this(2) have "conns s (next_connid s + 1) = None" by (rule server_fresh)
  ultimately show ?thesis unfolding server_inv_def by blast
qed

theorem server_ids_unique_witness:
  "\<exists>s. server_run (\<lambda>_. Epoller_new) (\<lambda>_. TimerWheel_new) (\<lambda>_. True) [Accept 5, Accept 6, Closed 1, Accept 5]
      ((TcpServer_new 0)\<lparr>pool := LoopThreadPool_new 0\<rparr>) = Inr s \<and> conns s (next_connid s + 1) = None"
proof -
  have "pool_ok (LoopThreadPool_new 0)" by (simp add: pool_ok_def LoopThreadPool_new_def)
  from server_ids_unique [OF this] show ?thesis by blast
qed

end
