(* ===== verification/Sub_Timers.thy ===== *)
theory Sub_Timers
  imports Prelude
begin

text \<open>
  The timers of \<open>SubReactor\<close> (muduo/src/SubReactor.cpp): a \<open>std::set<TimerInfo>\<close> whose order
  compares the expiration time only, and one timerfd that is armed for the first element.  The set
  is the list of its elements in iteration order; the timerfd is the absolute time at which it
  expires next, \<open>None\<close> when it is disarmed.  Times are nanoseconds of the steady clock, and every
  call to \<open>now()\<close> is an argument.  A callback is code of the application: it is an element of an
  arbitrary type, and what it does to the timers when it is called is the argument \<open>run\<close>.
  Signed 64-bit arithmetic that overflows has no defined result in C++, so times are integers.
\<close>

section \<open>State and operations\<close>

record 'cb TimerInfo =
  timer_id :: int
  interval_ms :: int
  timer_callback :: 'cb
  recurring :: bool
  expiration :: int

record 'cb SubTimers =
  timers :: "'cb TimerInfo list"
  next_timer_id :: int
  timer_fd :: "int option"

definition SubTimers_new :: "'cb SubTimers" where
  "SubTimers_new = \<lparr>timers = [], next_timer_id = 0, timer_fd = None\<rparr>"

text \<open>
  \<open>std::set::insert\<close>: nothing is inserted when an element compares equal, that is when a timer
  with the same expiration is there; \<open>insert_is_begin\<close> tells whether the returned iterator is the
  first position.
\<close>

fun timers_insert :: "'cb TimerInfo \<Rightarrow> 'cb TimerInfo list \<Rightarrow> 'cb TimerInfo list" where
  "timers_insert t [] = [t]"
| "timers_insert t (u # us) =
     (if expiration t < expiration u then t # u # us
      else if expiration u < expiration t then u # timers_insert t us
      else u # us)"

definition insert_is_begin :: "'cb TimerInfo \<Rightarrow> 'cb TimerInfo list \<Rightarrow> bool" where
  "insert_is_begin t us = (case us of [] \<Rightarrow> True | u # _ \<Rightarrow> \<not> expiration u < expiration t)"

text \<open>A relative one-shot setting; a value of zero disarms the timerfd (timerfd_settime(2)).\<close>

definition timerfd_settime :: "int \<Rightarrow> int \<Rightarrow> 'cb SubTimers \<Rightarrow> 'cb SubTimers" where
  "timerfd_settime now ns s = s\<lparr>timer_fd := (if ns = 0 then None else Some (now + ns))\<rparr>"

definition disableTimer :: "'cb SubTimers \<Rightarrow> 'cb SubTimers" where
  "disableTimer s = timerfd_settime 0 0 s"

definition updateNextTimer :: "int \<Rightarrow> 'cb SubTimers \<Rightarrow> 'cb SubTimers" where
  "updateNextTimer now s =
     (case timers s of
        [] \<Rightarrow> disableTimer s
      | next_timer # _ \<Rightarrow>
          let ns = expiration next_timer - now;
              ns = (if ns < 0 then 0 else ns)
          in timerfd_settime now ns s)"

text \<open>
  \<open>now\<close> is the clock read by \<open>registerTimer\<close> and \<open>now_u\<close> the one read by \<open>updateNextTimer\<close>.  An
  empty \<open>std::function\<close> is \<open>None\<close>.
\<close>

definition registerTimer ::
    "int \<Rightarrow> int \<Rightarrow> int \<Rightarrow> 'cb option \<Rightarrow> bool \<Rightarrow> 'cb SubTimers \<Rightarrow> int \<times> 'cb SubTimers" where
  "registerTimer now now_u interval callback rec s =
     (if interval \<le> 0 then (-1, s)
      else case callback of
        None \<Rightarrow> (-1, s)
      | Some cb \<Rightarrow>
          let t = \<lparr>timer_id = next_timer_id s, interval_ms = interval, timer_callback = cb,
                   recurring = rec, expiration = now + interval * 1000000\<rparr>;
              s1 = s\<lparr>next_timer_id := next_timer_id s + 1, timers := timers_insert t (timers s)\<rparr>;
              s2 = (if insert_is_begin t (timers s) then updateNextTimer now_u s1 else s1)
          in (timer_id t, s2))"

text \<open>\<open>std::find_if\<close> by identifier and \<open>erase\<close> of the element found.\<close>

fun timers_erase :: "int \<Rightarrow> 'cb TimerInfo list \<Rightarrow> 'cb TimerInfo list" where
  "timers_erase i [] = []"
| "timers_erase i (u # us) = (if timer_id u = i then us else u # timers_erase i us)"

definition cancelTimer :: "int \<Rightarrow> int \<Rightarrow> 'cb SubTimers \<Rightarrow> bool \<times> 'cb SubTimers" where
  "cancelTimer now_u i s =
     (if i \<notin> timer_id ` set (timers s) then (False, s)
      else
        let was_first = (timer_id (hd (timers s)) = i);
            s1 = s\<lparr>timers := timers_erase i (timers s)\<rparr>
        in (True,
            if was_first \<and> timers s1 \<noteq> [] then updateNextTimer now_u s1
            else if timers s1 = [] then disableTimer s1
            else s1))"

text \<open>
  The loop that moves expired timers out of the set, and the periodic timers that are put back
  with a new expiration.
\<close>

fun collect_expired :: "int \<Rightarrow> 'cb TimerInfo list \<Rightarrow> 'cb TimerInfo list \<times> 'cb TimerInfo list" where
  "collect_expired now [] = ([], [])"
| "collect_expired now (t # ts) =
     (if expiration t \<le> now
      then (case collect_expired now ts of (e, r) \<Rightarrow> (t # e, r))
      else ([], t # ts))"

definition rearm :: "int \<Rightarrow> 'cb TimerInfo \<Rightarrow> 'cb TimerInfo" where
  "rearm now t = t\<lparr>expiration := now + interval_ms t * 1000000\<rparr>"

definition recurring_timers :: "int \<Rightarrow> 'cb TimerInfo list \<Rightarrow> 'cb TimerInfo list" where
  "recurring_timers now expired = map (rearm now) (filter recurring expired)"

text \<open>
  The part of \<open>handleTimerEvents\<close> under the mutex, with the two clock readings, and the whole
  handler; \<open>n\<close> is the result of reading the eight-byte expiration count.  The callbacks run after
  the mutex is released; an exception that one throws is swallowed.
\<close>

definition take_expired :: "int \<Rightarrow> int \<Rightarrow> 'cb SubTimers \<Rightarrow> 'cb TimerInfo list \<times> 'cb SubTimers" where
  "take_expired now now_u s =
     (case collect_expired now (timers s) of (expired, rest) \<Rightarrow>
        let s1 = s\<lparr>timers := fold timers_insert (recurring_timers now expired) rest\<rparr>
        in (expired, if timers s1 \<noteq> [] then updateNextTimer now_u s1 else disableTimer s1))"

definition handleTimerEvents ::
    "('cb \<Rightarrow> 'cb SubTimers \<Rightarrow> 'cb SubTimers) \<Rightarrow> int \<Rightarrow> int \<Rightarrow> int \<Rightarrow> 'cb SubTimers \<Rightarrow> 'cb SubTimers" where
  "handleTimerEvents run n now now_u s =
     (if n \<noteq> 8 then s
      else case take_expired now now_u s of (expired, s1) \<Rightarrow>
        fold (\<lambda>t. run (timer_callback t)) expired s1)"

text \<open>
  The states that the callers and the event loop can produce, in any order: other threads and
  callbacks register and cancel, the loop handles timer events.
\<close>

inductive timers_reach :: "('cb \<Rightarrow> 'cb SubTimers \<Rightarrow> 'cb SubTimers) \<Rightarrow> 'cb SubTimers \<Rightarrow> bool"
  for run where
  start: "timers_reach run SubTimers_new"
| register: "timers_reach run s \<Longrightarrow> timers_reach run (snd (registerTimer now now_u i cb r s))"
| cancel: "timers_reach run s \<Longrightarrow> timers_reach run (snd (cancelTimer now_u i s))"
| events: "timers_reach run s \<Longrightarrow> timers_reach run (handleTimerEvents run n now now_u s)"

section \<open>The invariant of the set\<close>

definition timers_inv :: "'cb SubTimers \<Rightarrow> bool" where
  "timers_inv s \<longleftrightarrow> sorted_wrt (<) (map expiration (timers s)) \<and> distinct (map timer_id (timers s))
     \<and> (\<forall>t\<in>set (timers s). 0 \<le> timer_id t \<and> timer_id t < next_timer_id s \<and> 0 < interval_ms t)
     \<and> 0 \<le> next_timer_id s"

named_theorems tmr "what the timer operations leave unchanged"

lemma settime_keeps [tmr, simp]:
  "timers (timerfd_settime now ns s) = timers s"
  "next_timer_id (timerfd_settime now ns s) = next_timer_id s"
  "timers (disableTimer s) = timers s" "next_timer_id (disableTimer s) = next_timer_id s"
  "timers (updateNextTimer now s) = timers s" "next_timer_id (updateNextTimer now s) = next_timer_id s"
  by (simp_all add: timerfd_settime_def disableTimer_def updateNextTimer_def Let_def split: list.split)

lemma inv_fd_irrelevant [simp]: "timers_inv (updateNextTimer now s) = timers_inv s"
    "timers_inv (disableTimer s) = timers_inv s"
  by (simp_all add: timers_inv_def)

lemma set_timers_insert: "set (timers_insert t us) \<subseteq> insert t (set us)" "set us \<subseteq> set (timers_insert t us)"
  by (induction us) auto

lemma timers_insert_not_Nil [simp]: "timers_insert t us \<noteq> []"
  by (cases us) auto

lemma timers_insert_expirations:
  "expiration ` set (timers_insert t us) = insert (expiration t) (expiration ` set us)"
  by (induction us) auto

lemma timers_insert_sorted:
  "sorted_wrt (<) (map expiration us) \<Longrightarrow> sorted_wrt (<) (map expiration (timers_insert t us))"
proof (induction us)
  case (Cons u us)
  have "\<forall>e \<in> expiration ` set (timers_insert t us). expiration u < e" if "expiration u < expiration t"
    unfolding timers_insert_expirations using that Cons.prems by auto
  with Cons show ?case by (auto intro: less_trans)
qed simp

lemma timers_insert_distinct:
  "distinct (map timer_id us) \<Longrightarrow> timer_id t \<notin> timer_id ` set us \<Longrightarrow> distinct (map timer_id (timers_insert t us))"
proof (induction us)
  case (Cons u us)
  then show ?case using set_timers_insert(1) [of t us] by auto
qed simp

lemma timers_erase_eq: "distinct (map timer_id us) \<Longrightarrow> timers_erase i us = filter (\<lambda>t. timer_id t \<noteq> i) us"
proof (induction us)
  case (Cons u us)
  then show ?case by (auto intro!: filter_True [symmetric]) (metis imageI)
qed simp

lemma collect_expired_eq:
  "sorted_wrt (<) (map expiration ts) \<Longrightarrow>
     collect_expired now ts = (filter (\<lambda>t. expiration t \<le> now) ts, filter (\<lambda>t. now < expiration t) ts)"
proof (induction ts)
  case (Cons t ts)
  then show ?case by (auto intro!: filter_True [symmetric] filter_False [symmetric] simp: not_le)
qed simp

lemma sorted_filter_timers: "sorted_wrt (<) (map expiration ts) \<Longrightarrow> sorted_wrt (<) (map expiration (filter P ts))"
  by (simp add: sorted_wrt_map sorted_wrt_filter)

lemma fold_insert_facts:
  assumes "sorted_wrt (<) (map expiration us)" "distinct (map timer_id (rs @ us))"
  shows "sorted_wrt (<) (map expiration (fold timers_insert rs us))
     \<and> distinct (map timer_id (fold timers_insert rs us))
     \<and> set (fold timers_insert rs us) \<subseteq> set rs \<union> set us
     \<and> set us \<subseteq> set (fold timers_insert rs us)
     \<and> expiration ` set (fold timers_insert rs us) = expiration ` set rs \<union> expiration ` set us"
  using assms
proof (induction rs arbitrary: us)
  case (Cons r rs)
  have "timer_id ` set (timers_insert r us) \<subseteq> insert (timer_id r) (timer_id ` set us)"
    using set_timers_insert(1) [of r us] by blast
  moreover have "distinct (map timer_id (timers_insert r us))"
    using Cons.prems timers_insert_distinct [of us r] by auto
  moreover have "timer_id ` set rs \<inter> insert (timer_id r) (timer_id ` set us) = {}" "distinct (map timer_id rs)"
    using Cons.prems(2) by auto
  ultimately have "distinct (map timer_id (rs @ timers_insert r us))"
    unfolding map_append distinct_append set_map by blast
  from Cons.IH [OF timers_insert_sorted [OF Cons.prems(1)] this]
  show ?case using set_timers_insert(1) [of r us] set_timers_insert(2) [of us r] timers_insert_expirations [of r us] by auto
qed simp

lemma rearm_simps [simp]: "timer_id (rearm now t) = timer_id t" "interval_ms (rearm now t) = interval_ms t"
    "timer_callback (rearm now t) = timer_callback t" "recurring (rearm now t) = recurring t"
    "expiration (rearm now t) = now + interval_ms t * 1000000"
  by (simp_all add: rearm_def)

lemma take_expired_facts:
  assumes inv: "timers_inv s" and te: "take_expired now now_u s = (expired, s1)"
  shows "expired = filter (\<lambda>t. expiration t \<le> now) (timers s)"
    and "timers_inv s1"
    and "set (timers s1) \<subseteq> {t \<in> set (timers s). now < expiration t}
           \<union> rearm now ` {t \<in> set (timers s). expiration t \<le> now \<and> recurring t}"
    and "{t \<in> set (timers s). now < expiration t} \<subseteq> set (timers s1)"
    and "expiration ` set (timers s1) = expiration ` {t \<in> set (timers s). now < expiration t}
           \<union> (\<lambda>t. now + interval_ms t * 1000000) ` {t \<in> set (timers s). expiration t \<le> now \<and> recurring t}"
proof -
  let ?e = "filter (\<lambda>t. expiration t \<le> now) (timers s)" and ?r = "filter (\<lambda>t. now < expiration t) (timers s)"
  let ?rs = "recurring_timers now ?e"
  have so: "sorted_wrt (<) (map expiration (timers s))" and di: "distinct (map timer_id (timers s))"
    using inv by (simp_all add: timers_inv_def)
  have c: "collect_expired now (timers s) = (?e, ?r)" by (rule collect_expired_eq [OF so])
  then show "expired = ?e" using te by (auto simp: take_expired_def Let_def)
  have ts: "timers s1 = fold timers_insert ?rs ?r" and nx: "next_timer_id s1 = next_timer_id s"
    using te c by (auto simp: take_expired_def Let_def split: if_splits)
  have ids: "map timer_id ?rs = map timer_id (filter recurring ?e)"
    by (simp add: recurring_timers_def comp_def)
  have "inj_on timer_id (set (timers s))" using di by (simp add: distinct_map)
  then have "timer_id ` set ?e \<inter> timer_id ` set ?r = timer_id ` (set ?e \<inter> set ?r)"
    by (intro inj_on_image_Int [symmetric]) auto
  then have "timer_id ` set ?e \<inter> timer_id ` set ?r = {}" by auto
  moreover have "timer_id ` set ?rs \<subseteq> timer_id ` set ?e" by (auto simp: recurring_timers_def image_image)
  moreover have "distinct (map timer_id ?rs)" unfolding ids using di by (intro distinct_map_filter)
  moreover have "distinct (map timer_id ?r)" using di by (intro distinct_map_filter)
  ultimately have "distinct (map timer_id (?rs @ ?r))"
    unfolding map_append distinct_append set_map by blast
  note f = fold_insert_facts [OF sorted_filter_timers [OF so] this]
  have rset: "set ?rs = rearm now ` {t \<in> set (timers s). expiration t \<le> now \<and> recurring t}"
    by (auto simp: recurring_timers_def)
  show sub: "set (timers s1) \<subseteq> {t \<in> set (timers s). now < expiration t}
      \<union> rearm now ` {t \<in> set (timers s). expiration t \<le> now \<and> recurring t}"
    using f rset ts by auto
  show "{t \<in> set (timers s). now < expiration t} \<subseteq> set (timers s1)" using f ts by auto
  show "expiration ` set (timers s1) = expiration ` {t \<in> set (timers s). now < expiration t}
      \<union> (\<lambda>t. now + interval_ms t * 1000000) ` {t \<in> set (timers s). expiration t \<le> now \<and> recurring t}"
    using f rset ts by (auto simp: image_image)
  have "\<forall>t\<in>set (timers s1). 0 \<le> timer_id t \<and> timer_id t < next_timer_id s1 \<and> 0 < interval_ms t"
    using sub inv by (auto simp: timers_inv_def nx)
  then show "timers_inv s1" using f inv by (simp add: timers_inv_def ts nx)
qed

lemma registerTimer_inv: "timers_inv s \<Longrightarrow> timers_inv (snd (registerTimer now now_u i cb r s))"
proof (cases "i \<le> 0 \<or> cb = None")
  case False
  then obtain c where c: "cb = Some c" and i: "0 < i" by auto
  assume inv: "timers_inv s"
  let ?t = "\<lparr>timer_id = next_timer_id s, interval_ms = i, timer_callback = c,
      recurring = r, expiration = now + i * 1000000\<rparr>"
  let ?s = "s\<lparr>next_timer_id := next_timer_id s + 1, timers := timers_insert ?t (timers s)\<rparr>"
  have "timer_id ?t \<notin> timer_id ` set (timers s)" using inv by (auto simp: timers_inv_def)
  moreover have "set (timers_insert ?t (timers s)) \<subseteq> insert ?t (set (timers s))" by (rule set_timers_insert)
  ultimately have "timers_inv ?s"
    using inv i timers_insert_sorted [of "timers s" ?t] timers_insert_distinct [of "timers s" ?t]
    by (fastforce simp: timers_inv_def)
  then show ?thesis using c i by (simp add: registerTimer_def Let_def)
qed (auto simp: registerTimer_def)

lemma cancelTimer_inv: "timers_inv s \<Longrightarrow> timers_inv (snd (cancelTimer now_u i s))"
proof -
  assume inv: "timers_inv s"
  then have "timers_erase i (timers s) = filter (\<lambda>t. timer_id t \<noteq> i) (timers s)"
    by (intro timers_erase_eq) (simp add: timers_inv_def)
  then have "timers_inv (s\<lparr>timers := timers_erase i (timers s)\<rparr>)"
    using inv by (simp add: timers_inv_def sorted_filter_timers distinct_map_filter)
  then show ?thesis using inv by (auto simp: cancelTimer_def Let_def)
qed

lemma fold_callbacks_inv:
  assumes "\<And>c s. timers_inv s \<Longrightarrow> timers_inv (run c s)"
  shows "timers_inv s \<Longrightarrow> timers_inv (fold (\<lambda>t. run (timer_callback t)) ts s)"
  by (induction ts arbitrary: s) (simp_all add: assms)

lemma handleTimerEvents_inv:
  assumes "\<And>c s. timers_inv s \<Longrightarrow> timers_inv (run c s)" and "timers_inv s"
  shows "timers_inv (handleTimerEvents run n now now_u s)"
proof (cases "take_expired now now_u s")
  case (Pair e s1)
  then have "timers_inv s1" by (rule take_expired_facts(2) [OF assms(2)])
  then have "timers_inv (fold (\<lambda>t. run (timer_callback t)) e s1)"
    by (rule fold_callbacks_inv [rotated]) (rule assms(1))
  then show ?thesis using Pair assms(2) by (simp add: handleTimerEvents_def)
qed

lemma updateNextTimer_fd:
  "timer_fd (updateNextTimer now s) =
     (case timers s of [] \<Rightarrow> None
      | t # _ \<Rightarrow> if now < expiration t then Some (expiration t) else None)"
  by (simp add: updateNextTimer_def disableTimer_def timerfd_settime_def Let_def split: list.split)

section \<open>Properties\<close>

text \<open>
  C28. In every state that registrations, cancellations and timer events produce in any order, the
  timers are strictly sorted by expiration, no two have the same identifier, every identifier is
  one that was handed out and every interval is positive, provided that the callbacks of the
  application keep this themselves, as any callback that calls the two public operations does.
\<close>

theorem sub_timers_sorted:
  assumes "\<And>c s. timers_inv s \<Longrightarrow> timers_inv (run c s)"
    and "timers_reach run s"
  shows "timers_inv s"
  using assms(2)
proof induction
  case start
  then show ?case by (simp add: timers_inv_def SubTimers_new_def)
qed (simp_all add: registerTimer_inv cancelTimer_inv handleTimerEvents_inv assms(1))

definition cancel_first :: "nat \<Rightarrow> nat SubTimers \<Rightarrow> nat SubTimers" where
  "cancel_first c s = snd (cancelTimer 0 0 s)"

theorem sub_timers_sorted_witness:
  "timers_inv (handleTimerEvents cancel_first 8 5000000 5000001
      (snd (registerTimer 0 1 3 (Some 7) True (snd (registerTimer 0 1 5 (Some 8) True SubTimers_new)))))"
proof (rule sub_timers_sorted [of cancel_first])
  show "timers_inv s \<Longrightarrow> timers_inv (cancel_first c s)" for c s
    by (simp add: cancel_first_def cancelTimer_inv)
qed (intro timers_reach.intros)

text \<open>
  C27. Handling a timer event calls the callbacks of exactly the timers whose expiration is not
  after the current time, each once and in the order of their expirations.  Before the first
  callback runs, every other timer is still there, what was added is a periodic timer that is due
  one interval from now, and no timer that remains is due.
\<close>

theorem sub_timers_fire:
  assumes "timers_inv s"
  shows "\<exists>s1. handleTimerEvents run 8 now now_u s
        = fold run (map timer_callback (filter (\<lambda>t. expiration t \<le> now) (timers s))) s1
    \<and> sorted_wrt (<) (map expiration (filter (\<lambda>t. expiration t \<le> now) (timers s)))
    \<and> timers_inv s1
    \<and> {t \<in> set (timers s). now < expiration t} \<subseteq> set (timers s1)
    \<and> set (timers s1) \<subseteq> {t \<in> set (timers s). now < expiration t}
        \<union> rearm now ` {t \<in> set (timers s). expiration t \<le> now \<and> recurring t}
    \<and> (\<forall>t \<in> set (timers s1). now < expiration t)"
proof (cases "take_expired now now_u s")
  case (Pair e s1)
  note f = take_expired_facts [OF assms Pair]
  have "handleTimerEvents run 8 now now_u s = fold run (map timer_callback e) s1"
    by (simp add: handleTimerEvents_def Pair fold_map comp_def)
  moreover have "sorted_wrt (<) (map expiration e)"
    unfolding f(1) using assms by (intro sorted_filter_timers) (simp add: timers_inv_def)
  moreover have "\<forall>t \<in> set (timers s1). now < expiration t"
    using f(3) assms by (auto simp: timers_inv_def dest!: subsetD)
  ultimately show ?thesis using f by blast
qed

definition two_timers :: "nat SubTimers" where
  "two_timers = snd (registerTimer 0 0 3 (Some 7) True (snd (registerTimer 0 0 5 (Some 8) False SubTimers_new)))"

theorem sub_timers_fire_witness:
  "timers_inv two_timers \<and> map timer_callback (filter (\<lambda>t. expiration t \<le> 6000000) (timers two_timers)) = [7, 8]
   \<and> (\<exists>s1. handleTimerEvents (\<lambda>c s. s) 8 6000000 6000000 two_timers
        = fold (\<lambda>c s. s) (map timer_callback (filter (\<lambda>t. expiration t \<le> 6000000) (timers two_timers))) s1)"
proof -
  have i: "timers_inv two_timers"
    unfolding two_timers_def by (intro registerTimer_inv) (simp add: timers_inv_def SubTimers_new_def)
  moreover have "map timer_callback (filter (\<lambda>t. expiration t \<le> 6000000) (timers two_timers)) = [7, 8]"
    by (simp add: two_timers_def registerTimer_def SubTimers_new_def insert_is_begin_def Let_def)
  ultimately show ?thesis using sub_timers_fire [OF i, of "\<lambda>c s. s" 6000000 6000000] by blast
qed

text \<open>
  The wake-up can be lost.  After the first timer is cancelled while others remain, and after a
  timer event that leaves timers, the timerfd is armed for the next expiration if the clock that
  \<open>updateNextTimer\<close> reads is still before it.  Otherwise the remaining time is replaced by zero,
  which disarms the timerfd: the timer is due, stays in the set, and nothing wakes the loop for it.
\<close>

theorem sub_timers_wakeup:
  assumes "timers s = t # u # us"
  shows "timer_fd (snd (cancelTimer now_u (timer_id t) s))
        = (if now_u < expiration u then Some (expiration u) else None)
    \<and> timers (snd (cancelTimer now_u (timer_id t) s)) = u # us
    \<and> (\<exists>e s1. take_expired now now_u s = (e, s1)
        \<and> (case timers s1 of [] \<Rightarrow> timer_fd s1 = None
           | v # _ \<Rightarrow> timer_fd s1 = (if now_u < expiration v then Some (expiration v) else None)))"
proof (intro conjI)
  show "timer_fd (snd (cancelTimer now_u (timer_id t) s))
      = (if now_u < expiration u then Some (expiration u) else None)"
    using assms(1) by (simp add: cancelTimer_def Let_def updateNextTimer_fd)
  show "timers (snd (cancelTimer now_u (timer_id t) s)) = u # us"
    using assms(1) by (simp add: cancelTimer_def Let_def)
  obtain e r where "collect_expired now (timers s) = (e, r)" by fastforce
  then show "\<exists>e s1. take_expired now now_u s = (e, s1)
      \<and> (case timers s1 of [] \<Rightarrow> timer_fd s1 = None
         | v # _ \<Rightarrow> timer_fd s1 = (if now_u < expiration v then Some (expiration v) else None))"
    by (auto simp: take_expired_def Let_def updateNextTimer_fd disableTimer_def timerfd_settime_def
        split: list.split)
qed

theorem sub_timers_wakeup_witness:
  "timer_fd (snd (cancelTimer 5000000 1 two_timers)) = None \<and> map timer_id (timers (snd (cancelTimer 5000000 1 two_timers))) = [0]"
proof -
  let ?t = "\<lparr>timer_id = 1, interval_ms = 3, timer_callback = 7, recurring = True, expiration = 3000000\<rparr>"
  let ?u = "\<lparr>timer_id = 0, interval_ms = 5, timer_callback = 8, recurring = False, expiration = 5000000\<rparr>"
  have t: "timers two_timers = [?t, ?u]"
    by (simp add: two_timers_def registerTimer_def SubTimers_new_def insert_is_begin_def Let_def)
  show ?thesis using sub_timers_wakeup [OF t, of 5000000] by simp
qed

text \<open>
  Two periodic timers with the same interval that are due in the same event do not both
  survive: both callbacks are called, both would be due at the same time, and the set keeps only
  one of them.  The identifier of the other one can no longer be cancelled.
\<close>

theorem sub_timers_merge:
  assumes "timers_inv s" "a \<in> set (timers s)" "b \<in> set (timers s)" "a \<noteq> b"
    and "recurring a" "recurring b" "interval_ms a = interval_ms b"
    and "expiration a \<le> now" "expiration b \<le> now"
    and "take_expired now now_u s = (e, s1)"
  shows "a \<in> set e \<and> b \<in> set e
    \<and> (cancelTimer now_c (timer_id a) s1 = (False, s1) \<or> cancelTimer now_c (timer_id b) s1 = (False, s1))"
proof -
  note f = take_expired_facts [OF assms(1,10)]
  have ids: "timer_id a \<noteq> timer_id b" and inj: "inj_on timer_id (set (timers s))"
    using assms(1-4) by (auto simp: timers_inv_def distinct_map inj_on_def)
  have same: "t = rearm now x" if "t \<in> set (timers s1)" "x \<in> set (timers s)" "timer_id t = timer_id x"
      "expiration x \<le> now" for t x
    using subsetD [OF f(3) that(1)] that inj by (auto simp: inj_on_def)
  have "\<not> (timer_id a \<in> timer_id ` set (timers s1) \<and> timer_id b \<in> timer_id ` set (timers s1))"
  proof
    assume "timer_id a \<in> timer_id ` set (timers s1) \<and> timer_id b \<in> timer_id ` set (timers s1)"
    then have "rearm now a \<in> set (timers s1)" "rearm now b \<in> set (timers s1)"
      using same assms(2,3,8,9) by (metis imageE)+
    moreover have "inj_on expiration (set (timers s1))"
      using f(2) by (simp add: timers_inv_def distinct_map strict_sorted_iff)
    moreover have "expiration (rearm now a) = expiration (rearm now b)" using assms(7) by simp
    ultimately have "rearm now a = rearm now b" by (meson inj_onD)
    then show False using ids by (metis rearm_simps(1))
  qed
  then show ?thesis using assms(2,3,8,9) f(1) by (auto simp: cancelTimer_def)
qed

definition twin_timers :: "nat SubTimers" where
  "twin_timers = snd (registerTimer 1 1 3 (Some 7) True (snd (registerTimer 0 0 3 (Some 8) True SubTimers_new)))"

theorem sub_timers_merge_witness:
  "\<exists>e s1. take_expired 4000000 4000000 twin_timers = (e, s1) \<and> length e = 2
     \<and> (cancelTimer 0 0 s1 = (False, s1) \<or> cancelTimer 0 1 s1 = (False, s1))"
proof -
  let ?a = "\<lparr>timer_id = 0, interval_ms = 3, timer_callback = 8, recurring = True, expiration = 3000000\<rparr>"
  let ?b = "\<lparr>timer_id = 1, interval_ms = 3, timer_callback = 7, recurring = True, expiration = 3000001\<rparr>"
  have t: "timers twin_timers = [?a, ?b]"
    by (simp add: twin_timers_def registerTimer_def SubTimers_new_def insert_is_begin_def Let_def)
  have i: "timers_inv twin_timers"
    unfolding twin_timers_def by (intro registerTimer_inv) (simp add: timers_inv_def SubTimers_new_def)
  obtain e s1 where e: "take_expired 4000000 4000000 twin_timers = (e, s1)" by fastforce
  then have "length e = 2" by (auto simp: take_expired_def t Let_def)
  then show ?thesis using e sub_timers_merge [OF i, of ?a ?b 4000000 4000000 e s1 0] by (simp add: t)
qed

end
