(* ===== verification/Sub_Reactor.thy ===== *)
theory Sub_Reactor
  imports Byte_Buffers Reactor Sub_Timers
begin

text \<open>
  \<open>SubReactor\<close> and its \<open>Connection\<close> (muduo/src/SubReactor.cpp, muduo/src/Connection.cpp), with the
  epoll registrations of \<open>Reactor\<close> and \<open>Epoll\<close>.  Connections are shared objects: \<open>heap\<close> holds them
  by address and \<open>connectionMap\<close> maps a descriptor to a shared pointer, \<open>Some None\<close> being the null
  pointer that \<open>operator[]\<close> inserts.  The application (\<open>TcpSpi\<close>) is the argument \<open>spi\<close>: the calls
  it makes on connections and timers when it is told of an event, as a function of all the events
  it has been told so far.  The results of \<open>read\<close> and \<open>write\<close> are arguments.  Every queue operation
  is one step here, as its lock makes it.
\<close>

abbreviation EPOLLET :: u32 where "EPOLLET \<equiv> 2147483648"

section \<open>State\<close>

record FdWrapper =
  fdw_fd :: int
  fdw_events :: u32

text \<open>\<open>sent\<close> and \<open>wire\<close> are history: the bytes \<open>send\<close> took and the bytes \<open>write\<close> accepted.\<close>

record SubConnection =
  tryClose :: bool
  closed :: bool
  fdWrapper :: FdWrapper
  sendBuffer :: SimpleBuffer
  sent :: bytes
  wire :: bytes

datatype spi_event =
    OnAccepted "nat option"
  | OnMessage "nat option" bytes
  | OnDisconnected "nat option" int
  | TimerCallback nat

datatype sys_call = SysClose int | SysShutdownRead int

record SubReactor =
  heap :: "nat \<Rightarrow> SubConnection option"
  next_addr :: nat
  connectionMap :: "int \<Rightarrow> nat option option"
  newConnections :: "int list"
  sendQueue :: "int list"
  pipe_bytes :: nat
  pipe_event :: bool
  interest :: "int \<Rightarrow> u32 option"
  sub_timers :: "nat SubTimers"
  spi_log :: "spi_event list"
  sys_log :: "sys_call list"

text \<open>
  The calls an application can make: on a connection it holds a pointer to, and on the timers, with
  the clock readings of the call.
\<close>

datatype api_call =
    ApiSend nat bytes
  | ApiClose nat bool
  | ApiCheckNeedClose nat
  | ApiRegisterTimer int int int "nat option" bool
  | ApiCancelTimer int int

type_synonym application = "spi_event list \<Rightarrow> api_call list"

section \<open>Epoll and Reactor\<close>

text \<open>\<open>epoll_ctl\<close> adds a descriptor that is not there and changes or removes one that is.\<close>

definition operateFd :: "FdWrapper \<Rightarrow> ctl_op \<Rightarrow> SubReactor \<Rightarrow> int \<times> SubReactor" where
  "operateFd fw operation s =
     (let fd = fdw_fd fw; there = (interest s fd \<noteq> None)
      in case operation of
           EPOLL_CTL_ADD \<Rightarrow> if there then (-1, s) else (0, s\<lparr>interest := (interest s)(fd \<mapsto> fdw_events fw)\<rparr>)
         | EPOLL_CTL_MOD \<Rightarrow> if there then (0, s\<lparr>interest := (interest s)(fd \<mapsto> fdw_events fw)\<rparr>) else (-1, s)
         | EPOLL_CTL_DEL \<Rightarrow> if there then (0, s\<lparr>interest := (interest s)(fd := None)\<rparr>) else (-1, s))"

definition addEpollFd :: "FdWrapper \<Rightarrow> SubReactor \<Rightarrow> SubReactor" where
  "addEpollFd fdw s = snd (operateFd fdw EPOLL_CTL_ADD s)"

definition modifyEpollFd :: "FdWrapper \<Rightarrow> SubReactor \<Rightarrow> SubReactor" where
  "modifyEpollFd fdw s = snd (operateFd fdw EPOLL_CTL_MOD s)"

definition deleteEpollFd :: "FdWrapper \<Rightarrow> SubReactor \<Rightarrow> FdWrapper \<times> SubReactor" where
  "deleteEpollFd fdw s =
     (let fdw = fdw\<lparr>fdw_events := 0\<rparr> in (fdw, snd (operateFd fdw EPOLL_CTL_DEL s)))"

section \<open>Queues and the notification pipe\<close>

text \<open>
  The pipe holds at most 65536 bytes; its read end is registered edge-triggered, so an event is
  pending exactly when a byte has arrived since the last one was delivered.
\<close>

definition write_pipe :: "SubReactor \<Rightarrow> SubReactor" where
  "write_pipe s = (if pipe_bytes s < 65536 then s\<lparr>pipe_bytes := pipe_bytes s + 1, pipe_event := True\<rparr> else s)"

definition enqueueNewConnection :: "int \<Rightarrow> SubReactor \<Rightarrow> SubReactor" where
  "enqueueNewConnection fd s = write_pipe (s\<lparr>newConnections := newConnections s @ [fd]\<rparr>)"

definition enqueueSend :: "int \<Rightarrow> SubReactor \<Rightarrow> SubReactor" where
  "enqueueSend fd s = write_pipe (s\<lparr>sendQueue := sendQueue s @ [fd]\<rparr>)"

definition disableReadEventAndShutdown :: "FdWrapper \<Rightarrow> SubReactor \<Rightarrow> FdWrapper \<times> SubReactor" where
  "disableReadEventAndShutdown fdw s =
     (let fdw = fdw\<lparr>fdw_events := fdw_events fdw AND NOT EPOLLIN\<rparr>;
          s = snd (operateFd fdw EPOLL_CTL_MOD s)
      in (fdw, s\<lparr>sys_log := sys_log s @ [SysShutdownRead (fdw_fd fdw)]\<rparr>))"

definition removeConnection :: "FdWrapper \<Rightarrow> SubReactor \<Rightarrow> FdWrapper \<times> SubReactor" where
  "removeConnection fdw s =
     (case deleteEpollFd fdw (s\<lparr>connectionMap := (connectionMap s)(fdw_fd fdw := None)\<rparr>) of
        (fdw, s) \<Rightarrow> (fdw, s\<lparr>sys_log := sys_log s @ [SysClose (fdw_fd fdw)]\<rparr>))"

section \<open>Connection\<close>

definition put_conn :: "nat \<Rightarrow> SubConnection \<Rightarrow> SubReactor \<Rightarrow> SubReactor" where
  "put_conn a c s = s\<lparr>heap := (heap s)(a \<mapsto> c)\<rparr>"

definition conn_send :: "(nat \<Rightarrow> u8) \<Rightarrow> nat \<Rightarrow> bytes \<Rightarrow> SubReactor \<Rightarrow> fault + SubReactor" where
  "conn_send fresh a data s =
     (case heap s a of None \<Rightarrow> Inl OutOfBounds
      | Some c \<Rightarrow>
          if tryClose c then Inr s
          else sum_bind (sb_write fresh data (sendBuffer c)) (\<lambda>b.
            Inr (enqueueSend (fdw_fd (fdWrapper c))
              (put_conn a (c\<lparr>sendBuffer := b, sent := sent c @ data\<rparr>) s))))"

text \<open>
  The results of the successive \<open>write\<close> calls; \<open>write\<close> never accepts more than it is given, and
  the calls after the last listed one would block.
\<close>

datatype write_result = Wrote nat | WouldBlock | WriteError

fun write_loop :: "write_result list \<Rightarrow> SubConnection \<Rightarrow> fault + SubConnection" where
  "write_loop [] c = Inr c"
| "write_loop (WouldBlock # ws) c = Inr c"
| "write_loop (WriteError # ws) c = Inr c"
| "write_loop (Wrote k # ws) c =
     (let writeChunkSize = min (sb_size (sendBuffer c)) (1024 * 8);
          n = min k writeChunkSize
      in if n = 0 then Inr c
         else sum_bind (advance n (sendBuffer c)) (\<lambda>b.
           let c = c\<lparr>wire := wire c @ take n (sb_data (sendBuffer c)), sendBuffer := b\<rparr>
           in if sb_size b > 0 then write_loop ws c else Inr c))"

definition sendBufferedData :: "write_result list \<Rightarrow> nat \<Rightarrow> SubReactor \<Rightarrow> fault + SubReactor" where
  "sendBufferedData ws a s =
     (case heap s a of None \<Rightarrow> Inl OutOfBounds
      | Some c \<Rightarrow>
          if noData (sendBuffer c) then Inr s
          else sum_bind (write_loop ws c) (\<lambda>c. Inr (put_conn a c s)))"

definition conn_close :: "bool \<Rightarrow> nat \<Rightarrow> SubReactor \<Rightarrow> fault + SubReactor" where
  "conn_close force a s =
     (case heap s a of None \<Rightarrow> Inl OutOfBounds
      | Some c \<Rightarrow>
          let c = c\<lparr>tryClose := True\<rparr>
          in if \<not> force \<and> sb_size (sendBuffer c) \<noteq> 0 then
               case disableReadEventAndShutdown (fdWrapper c) s of
                 (fdw, s) \<Rightarrow> Inr (put_conn a (c\<lparr>fdWrapper := fdw\<rparr>) s)
             else
               case removeConnection (fdWrapper c) s of
                 (fdw, s) \<Rightarrow> Inr (put_conn a (c\<lparr>closed := True, fdWrapper := fdw\<rparr>) s))"

definition checkNeedClose :: "nat \<Rightarrow> SubReactor \<Rightarrow> fault + SubReactor" where
  "checkNeedClose a s =
     (case heap s a of None \<Rightarrow> Inl OutOfBounds
      | Some c \<Rightarrow>
          if tryClose c \<and> noData (sendBuffer c) then
            case removeConnection (fdWrapper c) s of
              (fdw, s) \<Rightarrow> Inr (put_conn a (c\<lparr>closed := True, fdWrapper := fdw\<rparr>) s)
          else Inr s)"

section \<open>Calls of the application\<close>

fun do_call :: "(nat \<Rightarrow> u8) \<Rightarrow> api_call \<Rightarrow> SubReactor \<Rightarrow> fault + SubReactor" where
  "do_call fresh (ApiSend a data) s = conn_send fresh a data s"
| "do_call fresh (ApiClose a force) s = conn_close force a s"
| "do_call fresh (ApiCheckNeedClose a) s = checkNeedClose a s"
| "do_call fresh (ApiRegisterTimer now now_u i cb r) s =
     Inr (s\<lparr>sub_timers := snd (registerTimer now now_u i cb r (sub_timers s))\<rparr>)"
| "do_call fresh (ApiCancelTimer now_u i) s =
     Inr (s\<lparr>sub_timers := snd (cancelTimer now_u i (sub_timers s))\<rparr>)"

definition notify :: "(nat \<Rightarrow> u8) \<Rightarrow> application \<Rightarrow> spi_event \<Rightarrow> SubReactor \<Rightarrow> fault + SubReactor" where
  "notify fresh spi ev s =
     (let s = s\<lparr>spi_log := spi_log s @ [ev]\<rparr> in fold_m (do_call fresh) (spi (spi_log s)) s)"

section \<open>Event handlers\<close>

definition handleWrite :: "write_result list \<Rightarrow> int \<Rightarrow> SubReactor \<Rightarrow> fault + SubReactor" where
  "handleWrite ws fd s =
     (case connectionMap s fd of
        None \<Rightarrow> Inr s
      | Some None \<Rightarrow> Inl OutOfBounds
      | Some (Some a) \<Rightarrow> sendBufferedData ws a s)"

fun drain_send_queue :: "int list \<Rightarrow> write_result list list \<Rightarrow> SubReactor \<Rightarrow> fault + SubReactor" where
  "drain_send_queue [] wss s = Inr s"
| "drain_send_queue (fd # fds) wss s =
     sum_bind (handleWrite (case wss of [] \<Rightarrow> [] | ws # _ \<Rightarrow> ws) fd s) (drain_send_queue fds (tl wss))"

definition processSendQueue :: "write_result list list \<Rightarrow> SubReactor \<Rightarrow> fault + SubReactor" where
  "processSendQueue wss s = drain_send_queue (rev (sendQueue s)) wss (s\<lparr>sendQueue := []\<rparr>)"

definition newFdWrapper :: "int \<Rightarrow> FdWrapper" where
  "newFdWrapper fd = \<lparr>fdw_fd = fd, fdw_events = EPOLLIN OR EPOLLHUP OR EPOLLET\<rparr>"

definition addConnection :: "SimpleBuffer \<Rightarrow> int \<Rightarrow> SubReactor \<Rightarrow> SubReactor" where
  "addConnection b fd s =
     put_conn (next_addr s)
       \<lparr>tryClose = False, closed = False, fdWrapper = newFdWrapper fd, sendBuffer = b, sent = [], wire = []\<rparr>
       (s\<lparr>next_addr := Suc (next_addr s), connectionMap := (connectionMap s)(fd \<mapsto> Some (next_addr s))\<rparr>)"

definition createConnection :: "(nat \<Rightarrow> u8) \<Rightarrow> application \<Rightarrow> int \<Rightarrow> SubReactor \<Rightarrow> fault + SubReactor" where
  "createConnection fresh spi fd s =
     (let s = addEpollFd (newFdWrapper fd) s
      in sum_bind (SimpleBuffer_new fresh 4096) (\<lambda>b.
           notify fresh spi (OnAccepted (Some (next_addr s))) (addConnection b fd s)))"

definition processNewConnections :: "(nat \<Rightarrow> u8) \<Rightarrow> application \<Rightarrow> SubReactor \<Rightarrow> fault + SubReactor" where
  "processNewConnections fresh spi s =
     fold_m (createConnection fresh spi) (rev (newConnections s)) (s\<lparr>newConnections := []\<rparr>)"

definition handlePipe ::
    "(nat \<Rightarrow> u8) \<Rightarrow> application \<Rightarrow> write_result list list \<Rightarrow> SubReactor \<Rightarrow> fault + SubReactor" where
  "handlePipe fresh spi wss s =
     sum_bind (processNewConnections fresh spi (s\<lparr>pipe_bytes := pipe_bytes s - 1024\<rparr>)) (processSendQueue wss)"

text \<open>
  The read loop gets the blocks that the successive \<open>read\<close> calls return; the loop ends with the
  list or at an empty block (end of file).  The iterator found before the loop is used again for
  every block, which is invalid once the application has closed the connection.
\<close>

fun read_loop :: "(nat \<Rightarrow> u8) \<Rightarrow> application \<Rightarrow> int \<Rightarrow> bytes list \<Rightarrow> nat \<Rightarrow> SubReactor \<Rightarrow> fault + nat \<times> SubReactor" where
  "read_loop fresh spi fd [] totalRead s = Inr (totalRead, s)"
| "read_loop fresh spi fd (d # ds) totalRead s =
     (if d = [] then Inr (totalRead, s)
      else case connectionMap s fd of
        None \<Rightarrow> Inl OutOfBounds
      | Some p \<Rightarrow> sum_bind (notify fresh spi (OnMessage p d) s)
                   (read_loop fresh spi fd ds (totalRead + length d)))"

text \<open>\<open>connectionMap_[fd]\<close>, which inserts a null pointer when there is no entry.\<close>

definition map_lookup :: "int \<Rightarrow> SubReactor \<Rightarrow> nat option \<times> SubReactor" where
  "map_lookup fd s =
     (case connectionMap s fd of
        Some p \<Rightarrow> (p, s)
      | None \<Rightarrow> (None, s\<lparr>connectionMap := (connectionMap s)(fd \<mapsto> None)\<rparr>))"

definition sr_disconnect ::
    "(nat \<Rightarrow> u8) \<Rightarrow> application \<Rightarrow> int \<Rightarrow> FdWrapper \<Rightarrow> SubReactor \<Rightarrow> fault + FdWrapper \<times> SubReactor" where
  "sr_disconnect fresh spi r fdw s =
     (case map_lookup (fdw_fd fdw) s of (p, s) \<Rightarrow>
        sum_bind (notify fresh spi (OnDisconnected p r) s) (\<lambda>s. Inr (removeConnection fdw s)))"

definition handleRead ::
    "(nat \<Rightarrow> u8) \<Rightarrow> application \<Rightarrow> bytes list \<Rightarrow> FdWrapper \<Rightarrow> SubReactor \<Rightarrow> fault + FdWrapper \<times> SubReactor" where
  "handleRead fresh spi ds fdw s =
     (if connectionMap s (fdw_fd fdw) = None then Inr (fdw, s)
      else sum_bind (read_loop fresh spi (fdw_fd fdw) ds 0 s) (\<lambda>(totalRead, s).
        if totalRead \<le> 0 then sr_disconnect fresh spi 1 fdw s else Inr (fdw, s)))"

text \<open>
  A timer callback runs inside a handler that swallows every exception: it ends at the first call
  that throws, and a refused allocation has changed nothing by then.
\<close>

fun calls_until_throw :: "(nat \<Rightarrow> u8) \<Rightarrow> api_call list \<Rightarrow> SubReactor \<Rightarrow> fault + SubReactor" where
  "calls_until_throw fresh [] s = Inr s"
| "calls_until_throw fresh (call # calls) s =
     (case do_call fresh call s of
        Inr s \<Rightarrow> calls_until_throw fresh calls s
      | Inl e \<Rightarrow> if e = BadAlloc then Inr s else Inl e)"

definition timer_notify :: "(nat \<Rightarrow> u8) \<Rightarrow> application \<Rightarrow> nat \<Rightarrow> SubReactor \<Rightarrow> fault + SubReactor" where
  "timer_notify fresh spi cb s =
     (let s = s\<lparr>spi_log := spi_log s @ [TimerCallback cb]\<rparr> in calls_until_throw fresh (spi (spi_log s)) s)"

definition handleTimers :: "(nat \<Rightarrow> u8) \<Rightarrow> application \<Rightarrow> int \<Rightarrow> int \<Rightarrow> int \<Rightarrow> SubReactor \<Rightarrow> fault + SubReactor" where
  "handleTimers fresh spi n now now_u s =
     (if n \<noteq> 8 then Inr s
      else case take_expired now now_u (sub_timers s) of (expired, ts) \<Rightarrow>
        fold_m (\<lambda>t. timer_notify fresh spi (timer_callback t)) expired (s\<lparr>sub_timers := ts\<rparr>))"

text \<open>
  The whole dispatch for one event.  \<open>fdw\<close> is passed by reference: \<open>removeConnection\<close> clears its
  event mask, which the later tests read.
\<close>

datatype fd_kind = PipeFd | TimerFd | SocketFd

record sys_results =
  res_reads :: "bytes list"
  res_writes :: "write_result list"
  res_flush :: "write_result list list"
  res_timer :: "int \<times> int \<times> int"

definition handleSocket ::
    "(nat \<Rightarrow> u8) \<Rightarrow> application \<Rightarrow> sys_results \<Rightarrow> FdWrapper \<Rightarrow> SubReactor \<Rightarrow> fault + FdWrapper \<times> SubReactor" where
  "handleSocket fresh spi res fdw s =
     sum_bind (if fdw_events fdw AND EPOLLIN \<noteq> 0 then handleRead fresh spi (res_reads res) fdw s else Inr (fdw, s))
     (\<lambda>(fdw, s). sum_bind
       (if fdw_events fdw AND EPOLLOUT \<noteq> 0 then handleWrite (res_writes res) (fdw_fd fdw) s else Inr s)
     (\<lambda>s. if fdw_events fdw AND EPOLLHUP \<noteq> 0 then sr_disconnect fresh spi 2 fdw s else Inr (fdw, s)))"

definition sub_handleEvent ::
    "(nat \<Rightarrow> u8) \<Rightarrow> application \<Rightarrow> sys_results \<Rightarrow> fd_kind \<Rightarrow> FdWrapper \<Rightarrow> SubReactor \<Rightarrow> fault + SubReactor" where
  "sub_handleEvent fresh spi res kind fdw s =
     (case kind of
        PipeFd \<Rightarrow> handlePipe fresh spi (res_flush res) s
      | TimerFd \<Rightarrow> (case res_timer res of (n, now, now_u) \<Rightarrow> handleTimers fresh spi n now now_u s)
      | SocketFd \<Rightarrow> sum_bind (handleSocket fresh spi res fdw s) (\<lambda>(fdw, s). Inr s))"

section \<open>What the loop can do\<close>

text \<open>
  The states of a sub-reactor: the accepting thread hands over descriptors, any thread that holds
  a connection calls it, and the loop handles events.  Data passed to \<open>send\<close> is an object in memory,
  so it is not longer than the largest object.
\<close>

fun call_ok :: "api_call \<Rightarrow> bool" where
  "call_ok (ApiSend a d) = (length d \<le> max_obj)"
| "call_ok _ = True"

definition app_ok :: "application \<Rightarrow> bool" where
  "app_ok spi \<longleftrightarrow> (\<forall>log. list_all call_ok (spi log))"

definition SubReactor_new :: SubReactor where
  "SubReactor_new = \<lparr>heap = (\<lambda>_. None), next_addr = 0, connectionMap = (\<lambda>_. None), newConnections = [],
     sendQueue = [], pipe_bytes = 0, pipe_event = False, interest = (\<lambda>_. None),
     sub_timers = SubTimers_new, spi_log = [], sys_log = []\<rparr>"

inductive sub_reach :: "(nat \<Rightarrow> u8) \<Rightarrow> application \<Rightarrow> SubReactor \<Rightarrow> bool" for fresh spi where
  start: "sub_reach fresh spi SubReactor_new"
| accept: "sub_reach fresh spi s \<Longrightarrow> sub_reach fresh spi (enqueueNewConnection fd s)"
| call: "sub_reach fresh spi s \<Longrightarrow> call_ok c \<Longrightarrow> do_call fresh c s = Inr s' \<Longrightarrow> sub_reach fresh spi s'"
| pipe: "sub_reach fresh spi s \<Longrightarrow> pipe_event s \<Longrightarrow>
    sub_handleEvent fresh spi res PipeFd fdw (s\<lparr>pipe_event := False\<rparr>) = Inr s' \<Longrightarrow> sub_reach fresh spi s'"
| timer: "sub_reach fresh spi s \<Longrightarrow>
    sub_handleEvent fresh spi res TimerFd fdw s = Inr s' \<Longrightarrow> sub_reach fresh spi s'"
| socket: "sub_reach fresh spi s \<Longrightarrow>
    sub_handleEvent fresh spi res SocketFd fdw s = Inr s' \<Longrightarrow> sub_reach fresh spi s'"

section \<open>The invariant\<close>

definition conn_ok :: "SubConnection \<Rightarrow> bool" where
  "conn_ok c \<longleftrightarrow> sb_inv (sendBuffer c) \<and> wire c @ sb_data (sendBuffer c) = sent c
     \<and> fdw_events (fdWrapper c) AND EPOLLOUT = 0"

definition sr_inv :: "SubReactor \<Rightarrow> bool" where
  "sr_inv s \<longleftrightarrow> (\<forall>a c. heap s a = Some c \<longrightarrow> conn_ok c)
     \<and> (\<forall>fd e. interest s fd = Some e \<longrightarrow> e AND EPOLLOUT = 0)
     \<and> (\<forall>a. next_addr s \<le> a \<longrightarrow> heap s a = None)
     \<and> (\<forall>fd a. connectionMap s fd = Some (Some a) \<longrightarrow> heap s a \<noteq> None)"

lemma sr_inv_frame [simp]:
  "sr_inv (s\<lparr>newConnections := x\<rparr>) = sr_inv s" "sr_inv (s\<lparr>sendQueue := x\<rparr>) = sr_inv s"
  "sr_inv (s\<lparr>pipe_bytes := n\<rparr>) = sr_inv s" "sr_inv (s\<lparr>pipe_event := e\<rparr>) = sr_inv s"
  "sr_inv (s\<lparr>sub_timers := t\<rparr>) = sr_inv s" "sr_inv (s\<lparr>spi_log := l\<rparr>) = sr_inv s"
  "sr_inv (s\<lparr>sys_log := y\<rparr>) = sr_inv s"
  by (simp_all add: sr_inv_def)

lemma sr_inv_write_pipe [simp]: "sr_inv (write_pipe s) = sr_inv s"
  by (simp add: write_pipe_def sr_inv_def)

lemma sr_inv_enqueue [simp]:
  "sr_inv (enqueueSend fd s) = sr_inv s" "sr_inv (enqueueNewConnection fd s) = sr_inv s"
  by (simp_all add: enqueueSend_def enqueueNewConnection_def)

lemma sr_inv_heap: "sr_inv s \<Longrightarrow> heap s a = Some c \<Longrightarrow> conn_ok c"
  by (simp add: sr_inv_def)

lemma sr_inv_put_conn: "sr_inv s \<Longrightarrow> heap s a \<noteq> None \<Longrightarrow> conn_ok c \<Longrightarrow> sr_inv (put_conn a c s)"
  by (auto simp: sr_inv_def put_conn_def not_le)

lemma sr_inv_operateFd: "sr_inv s \<Longrightarrow> fdw_events fdw AND EPOLLOUT = 0 \<Longrightarrow> sr_inv (snd (operateFd fdw op s))"
  by (auto simp: sr_inv_def operateFd_def Let_def split: ctl_op.split)

lemma operateFd_frame [simp]:
  "heap (snd (operateFd fdw op s)) = heap s" "connectionMap (snd (operateFd fdw op s)) = connectionMap s"
  "spi_log (snd (operateFd fdw op s)) = spi_log s" "sys_log (snd (operateFd fdw op s)) = sys_log s"
  "next_addr (snd (operateFd fdw op s)) = next_addr s" "sendQueue (snd (operateFd fdw op s)) = sendQueue s"
  "newConnections (snd (operateFd fdw op s)) = newConnections s"
  "pipe_event (snd (operateFd fdw op s)) = pipe_event s" "pipe_bytes (snd (operateFd fdw op s)) = pipe_bytes s"
  by (simp_all add: operateFd_def Let_def split: ctl_op.split)

lemma removeConnection_facts:
  assumes "removeConnection fdw s = (fdw', s')"
  shows "fdw' = fdw\<lparr>fdw_events := 0\<rparr>" "heap s' = heap s" "spi_log s' = spi_log s"
    "connectionMap s' = (connectionMap s)(fdw_fd fdw := None)" "sendQueue s' = sendQueue s"
    "sys_log s' = sys_log s @ [SysClose (fdw_fd fdw)]" "newConnections s' = newConnections s"
    "pipe_event s' = pipe_event s" "pipe_bytes s' = pipe_bytes s" "sr_inv s \<Longrightarrow> sr_inv s'"
proof -
  let ?s = "s\<lparr>connectionMap := (connectionMap s)(fdw_fd fdw := None)\<rparr>"
  have eq: "fdw' = fdw\<lparr>fdw_events := 0\<rparr>"
      "s' = (let t = snd (operateFd (fdw\<lparr>fdw_events := 0\<rparr>) EPOLL_CTL_DEL ?s)
             in t\<lparr>sys_log := sys_log t @ [SysClose (fdw_fd fdw)]\<rparr>)"
    using assms by (auto simp: removeConnection_def deleteEpollFd_def Let_def)
  then show "fdw' = fdw\<lparr>fdw_events := 0\<rparr>" "heap s' = heap s" "spi_log s' = spi_log s"
    "connectionMap s' = (connectionMap s)(fdw_fd fdw := None)" "sendQueue s' = sendQueue s"
    "sys_log s' = sys_log s @ [SysClose (fdw_fd fdw)]" "newConnections s' = newConnections s"
    "pipe_event s' = pipe_event s" "pipe_bytes s' = pipe_bytes s"
    by (simp_all add: Let_def)
  assume "sr_inv s"
  then have "sr_inv ?s" by (auto simp: sr_inv_def)
  then show "sr_inv s'" unfolding eq(2) Let_def by (simp add: sr_inv_operateFd)
qed

lemma mask_out: "(e AND m) AND EPOLLOUT = 0" if "e AND EPOLLOUT = 0" for e :: u32
  using that by (metis and.assoc and.commute and_zero_eq)

lemma disableRead_facts:
  assumes "disableReadEventAndShutdown fdw s = (fdw', s')"
  shows "fdw' = fdw\<lparr>fdw_events := fdw_events fdw AND NOT EPOLLIN\<rparr>" "heap s' = heap s"
    "connectionMap s' = connectionMap s" "spi_log s' = spi_log s" "sendQueue s' = sendQueue s"
    "newConnections s' = newConnections s" "pipe_event s' = pipe_event s" "pipe_bytes s' = pipe_bytes s"
    "sr_inv s \<Longrightarrow> fdw_events fdw AND EPOLLOUT = 0 \<Longrightarrow> sr_inv s'"
proof -
  show "fdw' = fdw\<lparr>fdw_events := fdw_events fdw AND NOT EPOLLIN\<rparr>" "heap s' = heap s"
    "connectionMap s' = connectionMap s" "spi_log s' = spi_log s" "sendQueue s' = sendQueue s"
    "newConnections s' = newConnections s" "pipe_event s' = pipe_event s" "pipe_bytes s' = pipe_bytes s"
    using assms by (auto simp: disableReadEventAndShutdown_def Let_def)
  assume "sr_inv s" "fdw_events fdw AND EPOLLOUT = 0"
  then show "sr_inv s'" using assms mask_out
    by (auto simp: disableReadEventAndShutdown_def Let_def intro!: sr_inv_operateFd)
qed

lemma next_addr_kept:
  "removeConnection fdw s = (fdw', s') \<Longrightarrow> next_addr s' = next_addr s"
  "disableReadEventAndShutdown fdw s = (fdw', s') \<Longrightarrow> next_addr s' = next_addr s"
  by (auto simp: removeConnection_def deleteEpollFd_def disableReadEventAndShutdown_def Let_def)

text \<open>The write loop moves bytes from the front of the buffer to the wire and never faults.\<close>

lemma write_loop_law:
  "conn_ok c \<Longrightarrow> \<exists>c'. write_loop ws c = Inr c' \<and> conn_ok c' \<and> sent c' = sent c
     \<and> fdWrapper c' = fdWrapper c \<and> tryClose c' = tryClose c \<and> closed c' = closed c"
proof (induction ws c rule: write_loop.induct)
  case (4 k ws c)
  let ?n = "min k (min (sb_size (sendBuffer c)) (1024 * 8))"
  have inv: "sb_inv (sendBuffer c)" and w: "wire c @ sb_data (sendBuffer c) = sent c"
    using 4(2) by (simp_all add: conn_ok_def)
  show ?case
  proof (cases "?n = 0")
    case False
    have "?n \<le> length (sb_data (sendBuffer c))" using sb_sizes [OF inv] by simp
    from advance_law [OF inv this] obtain b where b: "advance ?n (sendBuffer c) = Inr b" "sb_inv b"
      "sb_data b = drop ?n (sb_data (sendBuffer c))" by blast
    let ?c = "c\<lparr>wire := wire c @ take ?n (sb_data (sendBuffer c)), sendBuffer := b\<rparr>"
    have ok: "conn_ok ?c" using b w 4(2)
      by (simp add: conn_ok_def del: min_less_iff_conj)
    show ?thesis
    proof (cases "sb_size b > 0")
      case True
      from 4(1) [OF refl refl False refl True ok] show ?thesis using False b(1) True 4(2) by (simp add: Let_def)
    qed (use False b(1) ok 4(2) in \<open>simp add: Let_def\<close>)
  qed (use 4(2) in \<open>simp add: Let_def\<close>)
qed simp_all

lemma sendBufferedData_inv: "sendBufferedData ws a s = Inr s' \<Longrightarrow> sr_inv s \<Longrightarrow> sr_inv s'"
  using write_loop_law [of _ ws]
  by (fastforce simp: sendBufferedData_def sum_bind_eq_Inr split: option.splits if_splits
      intro: sr_inv_put_conn dest: sr_inv_heap)

lemma conn_send_inv: "conn_send fresh a d s = Inr s' \<Longrightarrow> length d \<le> max_obj \<Longrightarrow> sr_inv s \<Longrightarrow> sr_inv s'"
proof -
  assume eq: "conn_send fresh a d s = Inr s'" and len: "length d \<le> max_obj" and inv: "sr_inv s"
  then obtain c where c: "heap s a = Some c" by (auto simp: conn_send_def split: option.splits)
  then have ok: "conn_ok c" by (rule sr_inv_heap [OF inv])
  show ?thesis
  proof (cases "tryClose c")
    case False
    then obtain b where b: "sb_write fresh d (sendBuffer c) = Inr b"
      and s': "s' = enqueueSend (fdw_fd (fdWrapper c)) (put_conn a (c\<lparr>sendBuffer := b, sent := sent c @ d\<rparr>) s)"
      using eq c by (auto simp: conn_send_def sum_bind_eq_Inr)
    have "sb_inv b \<and> sb_data b = sb_data (sendBuffer c) @ d"
      using sb_write_law [of "sendBuffer c" d fresh] ok len b by (auto simp: conn_ok_def)
    then have "conn_ok (c\<lparr>sendBuffer := b, sent := sent c @ d\<rparr>)" using ok by (simp add: conn_ok_def flip: append_assoc)
    then show ?thesis using inv c unfolding s' by (simp add: sr_inv_put_conn)
  qed (use eq c inv in \<open>simp add: conn_send_def\<close>)
qed

lemma conn_ok_close [simp]:
  "conn_ok (c\<lparr>tryClose := t\<rparr>) = conn_ok c" "conn_ok (c\<lparr>closed := k\<rparr>) = conn_ok c"
  by (simp_all add: conn_ok_def)

lemma conn_ok_fdw: "conn_ok c \<Longrightarrow> fdw_events f AND EPOLLOUT = 0 \<Longrightarrow> conn_ok (c\<lparr>fdWrapper := f\<rparr>)"
  by (simp add: conn_ok_def)

lemma removed_inv:
  assumes "removeConnection (fdWrapper c) s = (fdw, s1)" "sr_inv s" "heap s a \<noteq> None" "conn_ok c"
  shows "sr_inv (put_conn a (c\<lparr>tryClose := t, closed := k, fdWrapper := fdw\<rparr>) s1)"
  using removeConnection_facts(1,2,10) [OF assms(1)] assms(2-4)
  by (intro sr_inv_put_conn conn_ok_fdw) simp_all

lemma conn_close_inv: "conn_close force a s = Inr s' \<Longrightarrow> sr_inv s \<Longrightarrow> sr_inv s'"
proof -
  assume eq: "conn_close force a s = Inr s'" and inv: "sr_inv s"
  then obtain c where c: "heap s a = Some c" by (auto simp: conn_close_def split: option.splits)
  then have ok: "conn_ok c" by (rule sr_inv_heap [OF inv])
  obtain f1 s1 where d: "disableReadEventAndShutdown (fdWrapper c) s = (f1, s1)" by fastforce
  obtain f2 s2 where r: "removeConnection (fdWrapper c) s = (f2, s2)" by fastforce
  have m: "fdw_events (fdWrapper c) AND EPOLLOUT = 0" using ok by (simp add: conn_ok_def)
  have "sr_inv (put_conn a (c\<lparr>tryClose := True, fdWrapper := f1\<rparr>) s1)"
    using disableRead_facts(1,2,9) [OF d] inv ok c m
    by (intro sr_inv_put_conn conn_ok_fdw) (simp_all add: mask_out)
  moreover have "sr_inv (put_conn a (c\<lparr>tryClose := True, closed := True, fdWrapper := f2\<rparr>) s2)"
    using removed_inv [OF r inv] c ok by simp
  ultimately show ?thesis using eq c d r by (auto simp: conn_close_def Let_def split: if_splits)
qed

lemma checkNeedClose_inv: "checkNeedClose a s = Inr s' \<Longrightarrow> sr_inv s \<Longrightarrow> sr_inv s'"
proof -
  assume eq: "checkNeedClose a s = Inr s'" and inv: "sr_inv s"
  then obtain c where c: "heap s a = Some c" by (auto simp: checkNeedClose_def split: option.splits)
  obtain f2 s2 where r: "removeConnection (fdWrapper c) s = (f2, s2)" by fastforce
  have "sr_inv (put_conn a (c\<lparr>tryClose := tryClose c, closed := True, fdWrapper := f2\<rparr>) s2)"
    using removed_inv [OF r inv] c sr_inv_heap [OF inv c] by blast
  then show ?thesis using eq c r inv by (auto simp: checkNeedClose_def Let_def split: if_splits)
qed

lemma do_call_inv: "do_call fresh c s = Inr s' \<Longrightarrow> call_ok c \<Longrightarrow> sr_inv s \<Longrightarrow> sr_inv s'"
  by (cases c) (auto intro: conn_send_inv conn_close_inv checkNeedClose_inv)

lemma handleWrite_inv: "handleWrite ws fd s = Inr s' \<Longrightarrow> sr_inv s \<Longrightarrow> sr_inv s'"
  by (auto simp: handleWrite_def split: option.splits intro: sendBufferedData_inv)

lemma SimpleBuffer_new_ok: "SimpleBuffer_new fresh 4096 = Inr b \<Longrightarrow> sb_inv b \<and> sb_data b = []"
  by (auto simp: SimpleBuffer_new_def new_chars_def sb_inv_def sb_data_def)

lemma new_events_no_out: "fdw_events (newFdWrapper fd) AND EPOLLOUT = 0"
  by (simp add: newFdWrapper_def)

lemma addConnection_inv:
  assumes "SimpleBuffer_new fresh 4096 = Inr b" "sr_inv s"
  shows "sr_inv (addConnection b fd (addEpollFd (newFdWrapper fd) s))"
proof -
  have "sr_inv (addEpollFd (newFdWrapper fd) s)" unfolding addEpollFd_def
    by (rule sr_inv_operateFd [OF assms(2) new_events_no_out])
  moreover have "conn_ok \<lparr>tryClose = False, closed = False, fdWrapper = newFdWrapper fd, sendBuffer = b,
      sent = [], wire = []\<rparr>"
    using SimpleBuffer_new_ok [OF assms(1)] new_events_no_out by (simp add: conn_ok_def)
  ultimately show ?thesis by (auto simp: addConnection_def sr_inv_def put_conn_def)
qed

section \<open>Invariants of the event handlers\<close>

text \<open>
  A property of the state that the application's calls, a flush, a removal and the insertion of a
  null entry keep is kept by every handler, whatever the application does.
\<close>

locale reactor_invariant =
  fixes P :: "SubReactor \<Rightarrow> bool" and fresh :: "nat \<Rightarrow> u8"
  assumes call: "P s \<Longrightarrow> call_ok c \<Longrightarrow> do_call fresh c s = Inr s' \<Longrightarrow> P s'"
    and log: "P s \<Longrightarrow> P (s\<lparr>spi_log := l\<rparr>)"
    and tmrs: "P s \<Longrightarrow> P (s\<lparr>sub_timers := t\<rparr>)"
    and flush: "P s \<Longrightarrow> sendBufferedData ws a s = Inr s' \<Longrightarrow> P s'"
    and null: "P s \<Longrightarrow> P (snd (map_lookup fd s))"
    and remove: "P s \<Longrightarrow> P (snd (removeConnection fdw s))"
begin

lemma notify: "notify fresh spi ev s = Inr s' \<Longrightarrow> app_ok spi \<Longrightarrow> P s \<Longrightarrow> P s'"
  unfolding notify_def Let_def
  by (erule fold_m_preserves [rotated]) (auto simp: app_ok_def list_all_iff intro: call log)

lemma calls: "calls_until_throw fresh cs s = Inr s' \<Longrightarrow> list_all call_ok cs \<Longrightarrow> P s \<Longrightarrow> P s'"
  by (induction cs arbitrary: s) (auto split: sum.splits if_splits intro: call)

lemma timer_notify: "timer_notify fresh spi cb s = Inr s' \<Longrightarrow> app_ok spi \<Longrightarrow> P s \<Longrightarrow> P s'"
  by (auto simp: timer_notify_def Let_def app_ok_def elim: calls intro: log)

lemma handle_write: "handleWrite ws fd s = Inr s' \<Longrightarrow> P s \<Longrightarrow> P s'"
  by (auto simp: handleWrite_def split: option.splits intro: flush)

lemma drain: "drain_send_queue fds wss s = Inr s' \<Longrightarrow> P s \<Longrightarrow> P s'"
  by (induction fds arbitrary: wss s) (auto simp: sum_bind_eq_Inr intro: handle_write)

lemma read_blocks: "read_loop fresh spi fd ds n s = Inr (m, s') \<Longrightarrow> app_ok spi \<Longrightarrow> P s \<Longrightarrow> P s'"
proof (induction ds arbitrary: n s)
  case (Cons d ds)
  then show ?case by (auto simp: sum_bind_eq_Inr split: if_splits option.splits intro: notify)
qed simp

lemma disconnected:
  assumes "sr_disconnect fresh spi r fdw s = Inr (fdw', s')" "app_ok spi" "P s"
  shows "P s'"
proof -
  obtain p s1 where m: "map_lookup (fdw_fd fdw) s = (p, s1)" by fastforce
  with assms null [of s "fdw_fd fdw"] obtain s2 where "P s2" "removeConnection fdw s2 = (fdw', s')"
    by (auto simp: sr_disconnect_def sum_bind_eq_Inr dest: notify)
  then show ?thesis using remove [of s2 fdw] by simp
qed

lemma handle_read: "handleRead fresh spi ds fdw s = Inr (fdw', s') \<Longrightarrow> app_ok spi \<Longrightarrow> P s \<Longrightarrow> P s'"
  by (auto simp: handleRead_def sum_bind_eq_Inr split: if_splits dest: read_blocks disconnected)

lemma handle_socket: "handleSocket fresh spi res fdw s = Inr (fdw', s') \<Longrightarrow> app_ok spi \<Longrightarrow> P s \<Longrightarrow> P s'"
  by (auto simp: handleSocket_def sum_bind_eq_Inr split: if_splits
      dest: handle_read handle_write disconnected)

lemma handle_timers: "handleTimers fresh spi n now now_u s = Inr s' \<Longrightarrow> app_ok spi \<Longrightarrow> P s \<Longrightarrow> P s'"
  by (auto simp: handleTimers_def split: if_splits prod.splits
      elim!: fold_m_preserves [rotated] intro: timer_notify tmrs)

end

text \<open>An invariant that also survives a new connection is kept while the accept queue is emptied.\<close>

locale accepting_invariant = reactor_invariant +
  assumes create: "P s \<Longrightarrow> SimpleBuffer_new fresh 4096 = Inr b \<Longrightarrow>
      P (addConnection b fd (addEpollFd (newFdWrapper fd) s))"
begin

lemma creates: "createConnection fresh spi fd s = Inr s' \<Longrightarrow> app_ok spi \<Longrightarrow> P s \<Longrightarrow> P s'"
  by (auto simp: createConnection_def Let_def sum_bind_eq_Inr dest: create intro: notify)

lemma create_all: "fold_m (createConnection fresh spi) fds s = Inr s' \<Longrightarrow> app_ok spi \<Longrightarrow> P s \<Longrightarrow> P s'"
  by (erule fold_m_preserves [rotated]) (auto intro: creates)

end

interpretation conns: accepting_invariant sr_inv fresh for fresh
proof
  show "sr_inv s \<Longrightarrow> sr_inv (snd (map_lookup fd s))" for s fd
    by (auto simp: map_lookup_def sr_inv_def split: option.splits)
  show "sr_inv s \<Longrightarrow> sr_inv (snd (removeConnection fdw s))" for s fdw
    by (metis prod.collapse removeConnection_facts(10))
qed (simp_all add: do_call_inv sendBufferedData_inv addConnection_inv)

lemma handlePipe_inv: "handlePipe fresh spi wss s = Inr s' \<Longrightarrow> app_ok spi \<Longrightarrow> sr_inv s \<Longrightarrow> sr_inv s'"
  by (auto simp: handlePipe_def processNewConnections_def processSendQueue_def sum_bind_eq_Inr
      dest!: conns.create_all intro: conns.drain)

lemma sub_handleEvent_inv:
  "sub_handleEvent fresh spi res kind fdw s = Inr s' \<Longrightarrow> app_ok spi \<Longrightarrow> sr_inv s \<Longrightarrow> sr_inv s'"
  by (cases kind) (auto simp: sub_handleEvent_def sum_bind_eq_Inr split: prod.splits
      intro: handlePipe_inv conns.handle_timers conns.handle_socket)

lemma sub_reach_inv: "sub_reach fresh spi s \<Longrightarrow> app_ok spi \<Longrightarrow> sr_inv s"
proof (induction rule: sub_reach.induct)
  case start
  then show ?case by (simp add: sr_inv_def SubReactor_new_def)
qed (auto dest: do_call_inv sub_handleEvent_inv)

section \<open>The notification pipe\<close>

definition pipe_inv :: "SubReactor \<Rightarrow> bool" where
  "pipe_inv s \<longleftrightarrow> pipe_bytes s \<le> 65536 \<and> (64512 < pipe_bytes s \<longrightarrow> pipe_event s)"

definition wake_inv :: "SubReactor \<Rightarrow> bool" where
  "wake_inv s \<longleftrightarrow> pipe_inv s \<and> (newConnections s \<noteq> [] \<or> sendQueue s \<noteq> [] \<longrightarrow> pipe_event s)"

definition taken_inv :: "SubReactor \<Rightarrow> bool" where
  "taken_inv s \<longleftrightarrow> pipe_inv s \<and> newConnections s = []"

lemmas pipe_invs = pipe_inv_def wake_inv_def taken_inv_def

lemma write_pipe_wakes: "pipe_inv s \<Longrightarrow> pipe_inv (write_pipe s) \<and> pipe_event (write_pipe s)"
  by (auto simp: pipe_inv_def write_pipe_def)

lemma write_pipe_frame [simp]:
  "newConnections (write_pipe s) = newConnections s" "sendQueue (write_pipe s) = sendQueue s"
  "heap (write_pipe s) = heap s" "spi_log (write_pipe s) = spi_log s" "next_addr (write_pipe s) = next_addr s"
  by (simp_all add: write_pipe_def)

lemma put_conn_frame [simp]:
  "pipe_bytes (put_conn a c s) = pipe_bytes s" "pipe_event (put_conn a c s) = pipe_event s"
  "newConnections (put_conn a c s) = newConnections s" "sendQueue (put_conn a c s) = sendQueue s"
  "spi_log (put_conn a c s) = spi_log s" "next_addr (put_conn a c s) = next_addr s"
  by (simp_all add: put_conn_def)

text \<open>An application's call leaves the queues alone, or adds to the send queue and writes the pipe.\<close>

lemma do_call_queues:
  assumes "do_call fresh c s = Inr s'"
  shows "newConnections s' = newConnections s \<and> spi_log s' = spi_log s \<and> next_addr s' = next_addr s
    \<and> (sendQueue s' = sendQueue s \<and> pipe_bytes s' = pipe_bytes s \<and> pipe_event s' = pipe_event s
       \<or> (\<exists>t. s' = write_pipe t \<and> pipe_bytes t = pipe_bytes s \<and> pipe_event t = pipe_event s))"
proof (cases c)
  case (ApiSend a d)
  with assms show ?thesis
    by (auto simp: conn_send_def sum_bind_eq_Inr enqueueSend_def split: option.splits if_splits)
next
  case (ApiClose a force)
  with assms obtain k where k: "heap s a = Some k" by (auto simp: conn_close_def split: option.splits)
  obtain f1 s1 where d: "disableReadEventAndShutdown (fdWrapper k) s = (f1, s1)" by fastforce
  obtain f2 s2 where r: "removeConnection (fdWrapper k) s = (f2, s2)" by fastforce
  show ?thesis using ApiClose assms k d r disableRead_facts [OF d] removeConnection_facts [OF r]
      next_addr_kept(1) [OF r] next_addr_kept(2) [OF d]
    by (auto simp: conn_close_def Let_def split: if_splits)
next
  case (ApiCheckNeedClose a)
  with assms obtain k where k: "heap s a = Some k" by (auto simp: checkNeedClose_def split: option.splits)
  obtain f2 s2 where r: "removeConnection (fdWrapper k) s = (f2, s2)" by fastforce
  show ?thesis using ApiCheckNeedClose assms k r removeConnection_facts [OF r] next_addr_kept(1) [OF r]
    by (auto simp: checkNeedClose_def Let_def split: if_splits)
qed (use assms in auto)

lemma do_call_pipe:
  assumes "do_call fresh c s = Inr s'"
  shows "pipe_inv s \<Longrightarrow> pipe_inv s'" "wake_inv s \<Longrightarrow> wake_inv s'" "taken_inv s \<Longrightarrow> taken_inv s'"
proof -
  note q = do_call_queues [OF assms]
  have wk: "pipe_inv s' \<and> (sendQueue s' = sendQueue s \<and> pipe_event s' = pipe_event s \<or> pipe_event s')" if "pipe_inv s"
  proof (cases "\<exists>t. s' = write_pipe t \<and> pipe_bytes t = pipe_bytes s \<and> pipe_event t = pipe_event s")
    case True
    then obtain t where t: "s' = write_pipe t" "pipe_bytes t = pipe_bytes s" "pipe_event t = pipe_event s" by blast
    then have "pipe_inv t" using that by (simp add: pipe_inv_def)
    from write_pipe_wakes [OF this] t show ?thesis by simp
  next
    case False
    with q have "sendQueue s' = sendQueue s" "pipe_bytes s' = pipe_bytes s" "pipe_event s' = pipe_event s" by blast+
    with that show ?thesis by (simp add: pipe_inv_def)
  qed
  show "pipe_inv s \<Longrightarrow> pipe_inv s'" using wk by blast
  show "wake_inv s \<Longrightarrow> wake_inv s'" using wk q unfolding wake_inv_def by metis
  show "taken_inv s \<Longrightarrow> taken_inv s'" using wk q unfolding taken_inv_def by metis
qed

lemma sendBufferedData_frame:
  "sendBufferedData ws a s = Inr s' \<Longrightarrow> pipe_bytes s' = pipe_bytes s \<and> pipe_event s' = pipe_event s
     \<and> newConnections s' = newConnections s \<and> sendQueue s' = sendQueue s \<and> spi_log s' = spi_log s
     \<and> connectionMap s' = connectionMap s"
  by (auto simp: sendBufferedData_def sum_bind_eq_Inr put_conn_def split: option.splits if_splits)

lemma map_lookup_frame:
  "pipe_bytes (snd (map_lookup fd s)) = pipe_bytes s" "pipe_event (snd (map_lookup fd s)) = pipe_event s"
  "newConnections (snd (map_lookup fd s)) = newConnections s" "sendQueue (snd (map_lookup fd s)) = sendQueue s"
  by (auto simp: map_lookup_def split: option.split)

lemma removeConnection_frame:
  "pipe_bytes (snd (removeConnection fdw s)) = pipe_bytes s" "pipe_event (snd (removeConnection fdw s)) = pipe_event s"
  "newConnections (snd (removeConnection fdw s)) = newConnections s"
  "sendQueue (snd (removeConnection fdw s)) = sendQueue s"
  by (simp_all add: removeConnection_def deleteEpollFd_def Let_def)

lemma addConnection_frame:
  "pipe_bytes (addConnection b fd (addEpollFd f s)) = pipe_bytes s"
  "pipe_event (addConnection b fd (addEpollFd f s)) = pipe_event s"
  "newConnections (addConnection b fd (addEpollFd f s)) = newConnections s"
  "spi_log (addConnection b fd (addEpollFd f s)) = spi_log s"
  "next_addr (addConnection b fd (addEpollFd f s)) = Suc (next_addr s)"
  by (simp_all add: addConnection_def addEpollFd_def)

lemmas frames = map_lookup_frame removeConnection_frame addConnection_frame

interpretation wakes: reactor_invariant wake_inv fresh for fresh
  by unfold_locales (auto simp: frames pipe_invs dest: do_call_pipe(2) sendBufferedData_frame
      simp del: snd_conv)

interpretation taken: accepting_invariant taken_inv fresh for fresh
  by unfold_locales (auto simp: frames pipe_invs dest: do_call_pipe(3) sendBufferedData_frame
      simp del: snd_conv)

lemma handleWrite_frame:
  "handleWrite ws fd s = Inr s' \<Longrightarrow> pipe_bytes s' = pipe_bytes s \<and> pipe_event s' = pipe_event s
     \<and> newConnections s' = newConnections s \<and> sendQueue s' = sendQueue s \<and> spi_log s' = spi_log s"
  by (auto simp: handleWrite_def split: option.splits dest: sendBufferedData_frame)

lemma drain_frame:
  "drain_send_queue fds wss s = Inr s' \<Longrightarrow> pipe_bytes s' = pipe_bytes s \<and> pipe_event s' = pipe_event s
     \<and> newConnections s' = newConnections s \<and> sendQueue s' = sendQueue s"
  by (induction fds arbitrary: wss s) (auto simp: sum_bind_eq_Inr dest!: handleWrite_frame)

lemma handlePipe_empties:
  assumes "handlePipe fresh spi wss s = Inr s'" "app_ok spi" "pipe_bytes s \<le> 65536"
  shows "newConnections s' = [] \<and> sendQueue s' = [] \<and> pipe_inv s'"
proof -
  obtain s1 where s1: "fold_m (createConnection fresh spi) (rev (newConnections s))
      (s\<lparr>pipe_bytes := pipe_bytes s - 1024, newConnections := []\<rparr>) = Inr s1"
    and d: "drain_send_queue (rev (sendQueue s1)) wss (s1\<lparr>sendQueue := []\<rparr>) = Inr s'"
    using assms(1) by (auto simp: handlePipe_def processNewConnections_def processSendQueue_def sum_bind_eq_Inr)
  have "taken_inv s1" by (rule taken.create_all [OF s1 assms(2)]) (use assms(3) in \<open>auto simp: pipe_invs\<close>)
  then show ?thesis using drain_frame [OF d] by (simp add: pipe_invs)
qed

lemma sub_reach_wake: "sub_reach fresh spi s \<Longrightarrow> app_ok spi \<Longrightarrow> wake_inv s"
proof (induction rule: sub_reach.induct)
  case start
  then show ?case by (simp add: pipe_invs SubReactor_new_def)
next
  case (accept s fd)
  then have "pipe_inv (s\<lparr>newConnections := newConnections s @ [fd]\<rparr>)" by (simp add: pipe_invs)
  from write_pipe_wakes [OF this] show ?case by (simp add: enqueueNewConnection_def wake_inv_def)
next
  case (call s c s')
  then show ?case by (blast intro: do_call_pipe)
next
  case (pipe s res fdw s')
  then have "handlePipe fresh spi (res_flush res) (s\<lparr>pipe_event := False\<rparr>) = Inr s'" "pipe_bytes s \<le> 65536"
    by (simp_all add: sub_handleEvent_def pipe_invs)
  then show ?case using handlePipe_empties pipe.prems by (fastforce simp: wake_inv_def)
next
  case (timer s res fdw s')
  then show ?case by (auto simp: sub_handleEvent_def split: prod.splits intro: wakes.handle_timers)
next
  case (socket s res fdw s')
  then show ?case by (auto simp: sub_handleEvent_def sum_bind_eq_Inr intro: wakes.handle_socket)
qed

section \<open>Descriptors of the connection objects\<close>

definition heap_fd :: "SubReactor \<Rightarrow> nat \<Rightarrow> int option" where
  "heap_fd s a = map_option (\<lambda>c. fdw_fd (fdWrapper c)) (heap s a)"

lemma heap_fd_put_conn:
  "heap_fd (put_conn a c s) = (heap_fd s)(a \<mapsto> fdw_fd (fdWrapper c))"
  by (auto simp: heap_fd_def put_conn_def)

lemma do_call_heap_fd:
  assumes "do_call fresh c s = Inr s'"
  shows "heap_fd s' = heap_fd s"
proof (cases c)
  case (ApiSend a d)
  with assms show ?thesis
    by (auto simp: conn_send_def sum_bind_eq_Inr enqueueSend_def heap_fd_def put_conn_def split: option.splits if_splits)
next
  case (ApiClose a force)
  with assms obtain k where k: "heap s a = Some k" by (auto simp: conn_close_def split: option.splits)
  obtain f1 s1 where d: "disableReadEventAndShutdown (fdWrapper k) s = (f1, s1)" by fastforce
  obtain f2 s2 where r: "removeConnection (fdWrapper k) s = (f2, s2)" by fastforce
  show ?thesis using ApiClose assms k d r disableRead_facts(1,2) [OF d] removeConnection_facts(1,2) [OF r]
    by (auto simp: conn_close_def Let_def heap_fd_def put_conn_def split: if_splits)
next
  case (ApiCheckNeedClose a)
  with assms obtain k where k: "heap s a = Some k" by (auto simp: checkNeedClose_def split: option.splits)
  obtain f2 s2 where r: "removeConnection (fdWrapper k) s = (f2, s2)" by fastforce
  show ?thesis using ApiCheckNeedClose assms k r removeConnection_facts(1,2) [OF r]
    by (auto simp: checkNeedClose_def Let_def heap_fd_def put_conn_def split: if_splits)
qed (use assms in \<open>auto simp: heap_fd_def\<close>)

lemma notify_facts:
  assumes "notify fresh spi ev s = Inr s'"
  shows "spi_log s' = spi_log s @ [ev] \<and> next_addr s' = next_addr s \<and> heap_fd s' = heap_fd s
    \<and> newConnections s' = newConnections s"
  using assms unfolding notify_def Let_def
  by (rule fold_m_preserves [rotated])
     (auto simp: heap_fd_def dest: do_call_queues do_call_heap_fd [unfolded heap_fd_def fun_eq_iff])

lemma createConnection_facts:
  assumes "createConnection fresh spi fd s = Inr s'"
  shows "spi_log s' = spi_log s @ [OnAccepted (Some (next_addr s))] \<and> next_addr s' = Suc (next_addr s)
    \<and> heap_fd s' = (heap_fd s)(next_addr s \<mapsto> fd) \<and> newConnections s' = newConnections s"
proof -
  have n: "next_addr (addEpollFd (newFdWrapper fd) s) = next_addr s" by (simp add: addEpollFd_def)
  have h: "heap_fd (addConnection b fd (addEpollFd (newFdWrapper fd) s)) = (heap_fd s)(next_addr s \<mapsto> fd)" for b
    by (rule ext) (simp add: addConnection_def put_conn_def heap_fd_def addEpollFd_def newFdWrapper_def)
  from assms obtain b where
    "notify fresh spi (OnAccepted (Some (next_addr s))) (addConnection b fd (addEpollFd (newFdWrapper fd) s)) = Inr s'"
    by (auto simp: createConnection_def Let_def sum_bind_eq_Inr n)
  from notify_facts [OF this] show ?thesis by (simp add: h addConnection_frame)
qed

lemma create_all_facts:
  "fold_m (createConnection fresh spi) fds s = Inr s' \<Longrightarrow>
     spi_log s' = spi_log s @ map (\<lambda>i. OnAccepted (Some (next_addr s + i))) [0..<length fds]
     \<and> next_addr s' = next_addr s + length fds
     \<and> map (heap_fd s') [next_addr s..<next_addr s + length fds] = map Some fds
     \<and> (\<forall>a < next_addr s. heap_fd s' a = heap_fd s a) \<and> newConnections s' = newConnections s"
proof (induction fds arbitrary: s)
  case (Cons fd fds)
  then obtain s1 where c: "createConnection fresh spi fd s = Inr s1"
    and f: "fold_m (createConnection fresh spi) fds s1 = Inr s'" by (auto simp: sum_bind_eq_Inr)
  note c1 = createConnection_facts [OF c] and ih = Cons.IH [OF f]
  have "map (\<lambda>i. OnAccepted (Some (next_addr s + i))) [0..<length (fd # fds)]
      = OnAccepted (Some (next_addr s)) # map (\<lambda>i. OnAccepted (Some (next_addr s1 + i))) [0..<length fds]"
    using c1 by (simp add: map_upt_Cons map_upt_shift del: upt_Suc)
  moreover have "[next_addr s..<next_addr s + length (fd # fds)]
      = next_addr s # [next_addr s1..<next_addr s1 + length fds]"
    using c1 by (simp add: upt_conv_Cons del: upt_Suc)
  moreover have "heap_fd s' (next_addr s) = Some fd" using c1 ih by simp
  ultimately show ?case using c1 ih by simp
qed simp

section \<open>Properties\<close>

text \<open>
  C16. Whatever the application does and in whatever order events arrive, the bytes that the kernel
  accepted for a connection followed by the bytes in its send buffer are exactly the bytes that
  \<open>send\<close> took, in order, and the buffer is well formed.
\<close>

theorem sub_output_exact:
  assumes "app_ok spi" "sub_reach fresh spi s" "heap s a = Some c"
  shows "sb_inv (sendBuffer c) \<and> wire c @ sb_data (sendBuffer c) = sent c"
  using sr_inv_heap [OF sub_reach_inv [OF assms(2,1)] assms(3)] by (simp add: conn_ok_def)

text \<open>An application that answers every message on its connection with the same bytes.\<close>

fun echo_calls :: "spi_event \<Rightarrow> api_call list" where
  "echo_calls (OnMessage (Some a) d) = [ApiSend a (take 8192 d)]"
| "echo_calls _ = []"

definition echo_app :: application where
  "echo_app log = (if log = [] then [] else echo_calls (last log))"

lemma echo_app_ok: "app_ok echo_app"
proof -
  have "list_all call_ok (echo_calls ev)" for ev by (cases ev rule: echo_calls.cases) simp_all
  then show ?thesis by (simp add: app_ok_def echo_app_def)
qed

definition accepted_one :: "fault + SubReactor" where
  "accepted_one = sub_handleEvent (\<lambda>_. 0) echo_app \<lparr>res_reads = [], res_writes = [], res_flush = [], res_timer = (0, 0, 0)\<rparr>
     PipeFd \<lparr>fdw_fd = 3, fdw_events = EPOLLIN\<rparr> ((enqueueNewConnection 7 SubReactor_new)\<lparr>pipe_event := False\<rparr>)"

definition seven_conn :: SubConnection where
  "seven_conn = \<lparr>tryClose = False, closed = False, fdWrapper = newFdWrapper 7,
     sendBuffer = \<lparr>sb_buffer = map (\<lambda>_. 0) [0..<4096], bufferSize = 4096, readPos = 0, writePos = 0\<rparr>,
     sent = [], wire = []\<rparr>"

definition seven_state :: SubReactor where
  "seven_state = \<lparr>heap = (\<lambda>_. None)(0 \<mapsto> seven_conn), next_addr = 1, connectionMap = (\<lambda>_. None)(7 \<mapsto> Some 0),
     newConnections = [], sendQueue = [], pipe_bytes = 0, pipe_event = False,
     interest = (\<lambda>_. None)(7 \<mapsto> fdw_events (newFdWrapper 7)), sub_timers = SubTimers_new,
     spi_log = [OnAccepted (Some 0)], sys_log = []\<rparr>"

lemma accepted_seven: "accepted_one = Inr seven_state"
  by (simp add: accepted_one_def sub_handleEvent_def handlePipe_def processNewConnections_def
      enqueueNewConnection_def write_pipe_def SubReactor_new_def createConnection_def addEpollFd_def
      operateFd_def SimpleBuffer_new_def new_chars_def addConnection_def put_conn_def notify_def
      echo_app_def processSendQueue_def seven_state_def seven_conn_def newFdWrapper_def Let_def
      del: upt_conv_Nil map_replicate_const)

lemma seven_reached: "sub_reach (\<lambda>_. 0) echo_app seven_state"
proof (rule sub_reach.pipe)
  show "sub_reach (\<lambda>_. 0) echo_app (enqueueNewConnection 7 SubReactor_new)" by (intro sub_reach.intros)
  show "pipe_event (enqueueNewConnection 7 SubReactor_new)"
    by (simp add: enqueueNewConnection_def write_pipe_def SubReactor_new_def)
qed (rule accepted_seven [unfolded accepted_one_def])

theorem sub_output_exact_witness:
  "\<exists>s c. do_call (\<lambda>_. 0) (ApiSend 0 [1, 2]) seven_state = Inr s \<and> heap s 0 = Some c
     \<and> sent c = [1, 2] \<and> wire c @ sb_data (sendBuffer c) = [1, 2]"
proof -
  have "\<exists>s c. do_call (\<lambda>_. 0) (ApiSend 0 [1, 2]) seven_state = Inr s \<and> heap s 0 = Some c \<and> sent c = [1, 2]"
    by (simp add: conn_send_def seven_state_def seven_conn_def sb_write_def ensureCapacity_def sz_sub_def
        enqueueSend_def put_conn_def Let_def)
  then obtain s c where s: "do_call (\<lambda>_. 0) (ApiSend 0 [1, 2]) seven_state = Inr s"
    and c: "heap s 0 = Some c" "sent c = [1, 2]" by blast
  have "sub_reach (\<lambda>_. 0) echo_app s" by (rule sub_reach.call [OF seven_reached _ s]) simp
  from sub_output_exact [OF echo_app_ok this c(1)] s c show ?thesis by auto
qed

text \<open>
  C21. No work is forgotten: whenever a connection waits to be taken over or a descriptor waits to
  be flushed, an event of the notification pipe is pending, even though the pipe is edge-triggered,
  non-blocking and read 1024 bytes at a time; and handling that event empties both queues.
\<close>

theorem sub_wakeup_pending:
  assumes "app_ok spi" "sub_reach fresh spi s"
  shows "(newConnections s \<noteq> [] \<or> sendQueue s \<noteq> [] \<longrightarrow> pipe_event s)
    \<and> (\<forall>wss s'. handlePipe fresh spi wss s = Inr s' \<longrightarrow> newConnections s' = [] \<and> sendQueue s' = [])"
  using sub_reach_wake [OF assms(2,1)] handlePipe_empties [OF _ assms(1)] by (auto simp: pipe_invs)

theorem sub_wakeup_pending_witness:
  "newConnections (enqueueNewConnection 7 SubReactor_new) = [7] \<and> pipe_event (enqueueNewConnection 7 SubReactor_new)"
proof -
  have n: "newConnections (enqueueNewConnection 7 SubReactor_new) = [7]"
    by (simp add: enqueueNewConnection_def SubReactor_new_def)
  have "sub_reach (\<lambda>_. 0) echo_app (enqueueNewConnection 7 SubReactor_new)" by (intro sub_reach.intros)
  from sub_wakeup_pending [OF echo_app_ok this] n show ?thesis by simp
qed

text \<open>
  Output can stall.  No descriptor is ever registered for output events, and a flush whose
  first \<open>write\<close> would block changes nothing and queues nothing: the bytes wait until the
  application sends something else on the connection.
\<close>

theorem sub_output_stalls:
  assumes "app_ok spi" "sub_reach fresh spi s"
  shows "(interest s fd = Some e \<longrightarrow> e AND EPOLLOUT = 0)
    \<and> (connectionMap s fd = Some (Some a) \<longrightarrow> handleWrite (WouldBlock # ws) fd s = Inr s)"
proof -
  have inv: "sr_inv s" by (rule sub_reach_inv [OF assms(2,1)])
  have "handleWrite (WouldBlock # ws) fd s = Inr s" if m: "connectionMap s fd = Some (Some a)"
  proof -
    obtain c where c: "heap s a = Some c" using inv m unfolding sr_inv_def by blast
    then have "put_conn a c s = s" by (simp add: put_conn_def fun_upd_idem)
    then show ?thesis using m c by (simp add: handleWrite_def sendBufferedData_def)
  qed
  then show ?thesis using inv by (auto simp: sr_inv_def)
qed

theorem sub_output_stalls_witness:
  "interest seven_state 7 = Some (fdw_events (newFdWrapper 7)) \<and> fdw_events (newFdWrapper 7) AND EPOLLOUT = 0
   \<and> handleWrite [WouldBlock] 7 seven_state = Inr seven_state"
proof -
  have i: "interest seven_state 7 = Some (fdw_events (newFdWrapper 7))"
    and m: "connectionMap seven_state 7 = Some (Some 0)" by (simp_all add: seven_state_def)
  from sub_output_stalls [OF echo_app_ok seven_reached, of 7 "fdw_events (newFdWrapper 7)" 0 "[]"] i m
  show ?thesis by blast
qed

text \<open>
  Taking over the accept queue empties it and creates one new connection object per queued
  descriptor, the most recent one first; the application is told of each once, in that order.
\<close>

theorem sub_accepts_lifo:
  assumes "processNewConnections fresh spi s = Inr s'"
  shows "newConnections s' = []
    \<and> spi_log s' = spi_log s @ map (\<lambda>i. OnAccepted (Some (next_addr s + i))) [0..<length (newConnections s)]
    \<and> map (heap_fd s') [next_addr s..<next_addr s + length (newConnections s)] = map Some (rev (newConnections s))"
  using create_all_facts [OF assms [unfolded processNewConnections_def]] by simp

theorem sub_accepts_lifo_witness:
  "\<exists>s'. processNewConnections (\<lambda>_. 0) (\<lambda>_. []) (SubReactor_new\<lparr>newConnections := [4, 5]\<rparr>) = Inr s'
     \<and> spi_log s' = [OnAccepted (Some 0), OnAccepted (Some 1)] \<and> heap_fd s' 0 = Some 5 \<and> heap_fd s' 1 = Some 4"
proof -
  have "\<exists>s'. processNewConnections (\<lambda>_. 0) (\<lambda>_. []) (SubReactor_new\<lparr>newConnections := [4, 5]\<rparr>) = Inr s'"
    by (simp add: processNewConnections_def createConnection_def SimpleBuffer_new_def new_chars_def notify_def Let_def)
  then obtain s' where s': "processNewConnections (\<lambda>_. 0) (\<lambda>_. []) (SubReactor_new\<lparr>newConnections := [4, 5]\<rparr>) = Inr s'" ..
  from sub_accepts_lifo [OF s'] s' show ?thesis by (simp add: SubReactor_new_def)
qed

text \<open>
  A readable event on which nothing can be read disconnects once: the application is told with
  the connection's pointer and reason 1, the entry is removed, and a hang-up reported by the same
  event is not handled again, because the removal has cleared the event mask.
\<close>

theorem sub_disconnects_once:
  assumes "connectionMap s (fdw_fd fdw) = Some p" "fdw_events fdw AND EPOLLIN \<noteq> 0"
    and "res_reads res = []" "handleSocket fresh spi res fdw s = Inr (fdw', s')"
  shows "spi_log s' = spi_log s @ [OnDisconnected p 1] \<and> connectionMap s' (fdw_fd fdw) = None
    \<and> fdw_events fdw' = 0 \<and> (\<exists>l. sys_log s' = l @ [SysClose (fdw_fd fdw)])"
proof -
  obtain s1 where n: "notify fresh spi (OnDisconnected p 1) s = Inr s1"
    and r: "removeConnection fdw s1 = (fdw', s')"
    using assms by (auto simp: handleSocket_def handleRead_def sr_disconnect_def map_lookup_def sum_bind_eq_Inr
        removeConnection_def deleteEpollFd_def Let_def)
  show ?thesis using notify_facts [OF n] removeConnection_facts(1,3,4,6) [OF r] by simp
qed

theorem sub_disconnects_once_witness:
  "\<exists>fdw s. handleSocket (\<lambda>_. 0) echo_app \<lparr>res_reads = [], res_writes = [], res_flush = [], res_timer = (0, 0, 0)\<rparr>
       \<lparr>fdw_fd = 7, fdw_events = EPOLLIN OR EPOLLHUP\<rparr> seven_state = Inr (fdw, s)
     \<and> spi_log s = [OnAccepted (Some 0), OnDisconnected (Some 0) 1]"
proof -
  let ?res = "\<lparr>res_reads = [], res_writes = [], res_flush = [], res_timer = (0, 0, 0)\<rparr>"
  let ?fdw = "\<lparr>fdw_fd = 7, fdw_events = EPOLLIN OR EPOLLHUP\<rparr>"
  have m: "connectionMap seven_state (fdw_fd ?fdw) = Some (Some 0)" by (simp add: seven_state_def)
  have e: "fdw_events ?fdw AND EPOLLIN \<noteq> 0" by simp
  have "\<exists>fdw s. handleSocket (\<lambda>_. 0) echo_app ?res ?fdw seven_state = Inr (fdw, s)"
    by (simp add: handleSocket_def handleRead_def sr_disconnect_def map_lookup_def notify_def echo_app_def
        removeConnection_def deleteEpollFd_def seven_state_def Let_def)
  then obtain fdw s where h: "handleSocket (\<lambda>_. 0) echo_app ?res ?fdw seven_state = Inr (fdw, s)" by blast
  from sub_disconnects_once [OF m e _ h] h show ?thesis by (auto simp: seven_state_def)
qed

lemma read_loop_log:
  "read_loop fresh spi fd ds n s = Inr (m, s') \<Longrightarrow>
     n \<le> m \<and> (\<exists>ps. spi_log s' = spi_log s @ map (\<lambda>(p, d). OnMessage p d) ps)"
proof (induction ds arbitrary: n s)
  case (Cons d ds)
  show ?case
  proof (cases "d = []")
    case False
    then obtain p s1 where nt: "notify fresh spi (OnMessage p d) s = Inr s1"
      and r: "read_loop fresh spi fd ds (n + length d) s1 = Inr (m, s')"
      using Cons.prems by (auto simp: sum_bind_eq_Inr split: option.splits)
    from Cons.IH [OF r] obtain ps where "n + length d \<le> m" "spi_log s' = spi_log s1 @ map (\<lambda>(p, d). OnMessage p d) ps" by blast
    then show ?thesis using notify_facts [OF nt] by (auto intro!: exI [of _ "(p, d) # ps"])
  qed (use Cons.prems in simp)
qed simp

text \<open>
  A close that comes right behind data is missed: when one event reads data and then the end of the stream, the
  application is told of the data only, and nothing is removed; the descriptor is registered edge-triggered, so
  the end of the stream is not reported again.
\<close>

theorem sub_eof_missed:
  assumes "handleRead fresh spi (d # ds @ [[]]) fdw s = Inr (fdw', s')" and "d \<noteq> []"
  shows "fdw' = fdw \<and> (\<forall>p r. OnDisconnected p r \<in> set (spi_log s') \<longrightarrow> OnDisconnected p r \<in> set (spi_log s))"
proof (cases "connectionMap s (fdw_fd fdw)")
  case (Some p)
  then obtain s1 n s2 where nt: "notify fresh spi (OnMessage p d) s = Inr s1"
    and r: "read_loop fresh spi (fdw_fd fdw) (ds @ [[]]) (length d) s1 = Inr (n, s2)"
    and e: "(if n \<le> 0 then sr_disconnect fresh spi 1 fdw s2 else Inr (fdw, s2)) = Inr (fdw', s')"
    using assms by (auto simp: handleRead_def sum_bind_eq_Inr split: option.splits)
  from read_loop_log [OF r] obtain ps where ps: "length d \<le> n" "spi_log s2 = spi_log s1 @ map (\<lambda>(p, d). OnMessage p d) ps" by blast
  then have "fdw' = fdw" "s' = s2" using e assms(2) by (auto split: if_splits)
  then show ?thesis using ps(2) notify_facts [OF nt] by auto
qed (use assms in \<open>auto simp: handleRead_def\<close>)

theorem sub_eof_missed_witness:
  "\<exists>s. handleRead (\<lambda>_. 0) echo_app [[81], []] \<lparr>fdw_fd = 7, fdw_events = EPOLLIN\<rparr> seven_state
       = Inr (\<lparr>fdw_fd = 7, fdw_events = EPOLLIN\<rparr>, s) \<and> (\<forall>p r. OnDisconnected p r \<notin> set (spi_log s))"
proof -
  let ?fdw = "\<lparr>fdw_fd = 7, fdw_events = EPOLLIN\<rparr>"
  have "\<exists>x. handleRead (\<lambda>_. 0) echo_app [[81], []] ?fdw seven_state = Inr x"
    by (simp add: handleRead_def notify_def echo_app_def conn_send_def seven_state_def seven_conn_def sb_write_def
        ensureCapacity_def sz_sub_def enqueueSend_def put_conn_def Let_def)
  then obtain f s where h: "handleRead (\<lambda>_. 0) echo_app [[81], []] ?fdw seven_state = Inr (f, s)" by auto
  then have "handleRead (\<lambda>_. 0) echo_app ([81] # [] @ [[]]) ?fdw seven_state = Inr (f, s)" by simp
  from sub_eof_missed [OF this] have "f = ?fdw" "\<forall>p r. OnDisconnected p r \<notin> set (spi_log s)"
    by (auto simp: seven_state_def)
  with h show ?thesis by blast
qed

text \<open>
  When the application closes a connection while it handles a message and the same event
  reports a hang-up, the hang-up is handled for a connection that is gone: the application is told
  of a disconnect with a null pointer, and the descriptor is closed a second time.
\<close>

theorem sub_close_then_hup:
  assumes "heap s a = Some c" "connectionMap s fd = Some (Some a)" "fdw_fd (fdWrapper c) = fd" "d \<noteq> []"
    and "spi (spi_log s @ [OnMessage (Some a) d]) = [ApiClose a True]"
    and "spi (spi_log s @ [OnMessage (Some a) d, OnDisconnected None 2]) = []"
    and "res_reads res = [d]"
  shows "\<exists>fdw' s'. handleSocket fresh spi res \<lparr>fdw_fd = fd, fdw_events = EPOLLIN OR EPOLLHUP\<rparr> s = Inr (fdw', s')
    \<and> spi_log s' = spi_log s @ [OnMessage (Some a) d, OnDisconnected None 2]
    \<and> sys_log s' = sys_log s @ [SysClose fd, SysClose fd]"
proof -
  let ?s = "s\<lparr>spi_log := spi_log s @ [OnMessage (Some a) d]\<rparr>"
  obtain f1 s1 where r: "removeConnection (fdWrapper c) ?s = (f1, s1)" by fastforce
  note rf = removeConnection_facts(3,4,6) [OF r]
  have ro: "removeConnection (fdWrapper (c\<lparr>tryClose := True\<rparr>)) ?s = (f1, s1)" using r by simp
  let ?s2 = "put_conn a (c\<lparr>tryClose := True, closed := True, fdWrapper := f1\<rparr>) s1"
  have n: "notify fresh spi (OnMessage (Some a) d) s = Inr ?s2"
    using assms(1,5) r by (simp add: notify_def conn_close_def Let_def)
  have s2: "connectionMap ?s2 fd = None" "spi_log ?s2 = spi_log s @ [OnMessage (Some a) d]"
      "sys_log ?s2 = sys_log s @ [SysClose fd]"
    using rf assms(3) by (simp_all add: put_conn_def)
  let ?s3 = "?s2\<lparr>connectionMap := (connectionMap ?s2)(fd \<mapsto> None)\<rparr>"
  have n2: "notify fresh spi (OnDisconnected None 2) ?s3
      = Inr (?s3\<lparr>spi_log := spi_log s @ [OnMessage (Some a) d, OnDisconnected None 2]\<rparr>)"
    using assms(6) s2(2) by (simp add: notify_def)
  obtain f3 s4 where r2: "removeConnection \<lparr>fdw_fd = fd, fdw_events = EPOLLIN OR EPOLLHUP\<rparr>
      (?s3\<lparr>spi_log := spi_log s @ [OnMessage (Some a) d, OnDisconnected None 2]\<rparr>) = (f3, s4)" by fastforce
  have "handleRead fresh spi [d] \<lparr>fdw_fd = fd, fdw_events = EPOLLIN OR EPOLLHUP\<rparr> s
      = Inr (\<lparr>fdw_fd = fd, fdw_events = EPOLLIN OR EPOLLHUP\<rparr>, ?s2)"
    using assms(2,4) n by (simp add: handleRead_def)
  moreover have "sr_disconnect fresh spi 2 \<lparr>fdw_fd = fd, fdw_events = EPOLLIN OR EPOLLHUP\<rparr> ?s2 = Inr (f3, s4)"
    using s2(1) n2 r2 by (simp add: sr_disconnect_def map_lookup_def)
  ultimately have "handleSocket fresh spi res \<lparr>fdw_fd = fd, fdw_events = EPOLLIN OR EPOLLHUP\<rparr> s = Inr (f3, s4)"
    using assms(7) by (simp add: handleSocket_def)
  then show ?thesis using removeConnection_facts(3,6) [OF r2] s2(3) by simp
qed

definition quit_app :: application where
  "quit_app log = (case last log of OnMessage (Some a) _ \<Rightarrow> [ApiClose a True] | _ \<Rightarrow> [])"

theorem sub_close_then_hup_witness:
  "\<exists>fdw s. handleSocket (\<lambda>_. 0) quit_app \<lparr>res_reads = [[81]], res_writes = [], res_flush = [], res_timer = (0, 0, 0)\<rparr>
       \<lparr>fdw_fd = 7, fdw_events = EPOLLIN OR EPOLLHUP\<rparr> seven_state = Inr (fdw, s)
     \<and> sys_log s = [SysClose 7, SysClose 7]"
proof -
  let ?res = "\<lparr>res_reads = [[81]], res_writes = [], res_flush = [], res_timer = (0, 0, 0)\<rparr>"
  have "heap seven_state 0 = Some seven_conn" "connectionMap seven_state 7 = Some (Some 0)"
      "fdw_fd (fdWrapper seven_conn) = 7" "sys_log seven_state = []"
    by (simp_all add: seven_state_def seven_conn_def newFdWrapper_def)
  then show ?thesis
    using sub_close_then_hup [of seven_state 0 seven_conn 7 "[81]" quit_app ?res "\<lambda>_. 0"]
    by (auto simp: quit_app_def)
qed

end
