(* ===== verification/Main_Reactor.thy ===== *)
theory Main_Reactor
  imports Sub_Reactor "HOL-Library.Multiset"
begin

text \<open>
  \<open>MainReactor\<close> (muduo/src/MainReactor.cpp), the event loop of \<open>Reactor\<close> and the event buffer of
  \<open>Epoll\<close>.  Connections that have completed their handshake wait in \<open>backlog\<close>; the listening socket
  is registered edge-triggered, so an event is pending when a connection has arrived since the last
  event was delivered.  \<open>next_sub_idx_\<close> is an \<open>int\<close> that the constructor does not set: its first
  value is an argument.
\<close>

section \<open>Epoll and the loop\<close>

text \<open>
  \<open>epoll_wait\<close> fills the first entries of an array of sixteen and returns their number, or a
  negative number, which is not treated specially; the entries are appended to the result.
\<close>

definition doEpoll :: "int \<Rightarrow> (int \<times> u32) list \<Rightarrow> FdWrapper list \<Rightarrow> FdWrapper list" where
  "doEpoll numEvents events fds =
     fds @ map (\<lambda>(fd, e). \<lparr>fdw_fd = fd, fdw_events = e\<rparr>) (take (nat numEvents) events)"

text \<open>
  The loop.  Each round has the result of \<open>epoll_wait\<close> and the value of \<open>isRunning_\<close> that the test
  after the events reads; the result tells whether the loop has ended.
\<close>

record wait_round =
  num_events :: int
  wait_events :: "(int \<times> u32) list"
  still_running :: bool

fun reactor_loop :: "(FdWrapper \<Rightarrow> 's \<Rightarrow> fault + 's) \<Rightarrow> wait_round list \<Rightarrow> 's \<Rightarrow> fault + bool \<times> 's" where
  "reactor_loop handler [] s = Inr (False, s)"
| "reactor_loop handler (r # rs) s =
     sum_bind (fold_m handler (doEpoll (num_events r) (wait_events r) []) s)
       (\<lambda>s. if \<not> still_running r then Inr (True, s) else reactor_loop handler rs s)"

section \<open>MainReactor\<close>

record MainReactor =
  listen_fd :: int
  sub_reactors :: "SubReactor list"
  next_sub_idx :: "32 word"
  backlog :: "int list"
  listen_event :: bool

definition MainReactor_new :: "int \<Rightarrow> 32 word \<Rightarrow> nat \<Rightarrow> MainReactor" where
  "MainReactor_new fd idx sub_reactors_count =
     \<lparr>listen_fd = fd, sub_reactors = replicate sub_reactors_count SubReactor_new, next_sub_idx = idx,
      backlog = [], listen_event = False\<rparr>"

text \<open>A client completes its handshake.\<close>

definition client_arrives :: "int \<Rightarrow> MainReactor \<Rightarrow> MainReactor" where
  "client_arrives fd m = m\<lparr>backlog := backlog m @ [fd], listen_event := True\<rparr>"

text \<open>
  The index of the reactor: the \<open>int\<close> is converted to \<open>size_t\<close>, with its sign, before the
  remainder is taken.
\<close>

definition sub_index :: "32 word \<Rightarrow> nat \<Rightarrow> nat" where
  "sub_index idx n = unat (scast idx :: u64) mod n"

definition give_connection :: "int \<Rightarrow> MainReactor \<Rightarrow> fault + MainReactor" where
  "give_connection client_fd m =
     (if sub_reactors m = [] then Inl AssertFailed
      else
        let i = sub_index (next_sub_idx m) (length (sub_reactors m));
            m = m\<lparr>next_sub_idx := next_sub_idx m + 1\<rparr>
        in if i < length (sub_reactors m)
           then Inr (m\<lparr>sub_reactors := (sub_reactors m)[i := enqueueNewConnection client_fd (sub_reactors m ! i)]\<rparr>)
           else Inl OutOfBounds)"

text \<open>One \<open>accept\<close> per event; it fails when nothing waits.\<close>

definition handleAccept :: "MainReactor \<Rightarrow> fault + MainReactor" where
  "handleAccept m =
     (case backlog m of
        [] \<Rightarrow> Inr m
      | client_fd # rest \<Rightarrow> give_connection client_fd (m\<lparr>backlog := rest\<rparr>))"

definition main_handleEvent :: "FdWrapper \<Rightarrow> MainReactor \<Rightarrow> fault + MainReactor" where
  "main_handleEvent fdw m =
     (if fdw_fd fdw = listen_fd m then handleAccept (m\<lparr>listen_event := False\<rparr>) else Inr m)"

section \<open>Lemmas\<close>

lemma sub_index_less: "0 < n \<Longrightarrow> sub_index idx n < n"
  by (simp add: sub_index_def)

lemma give_connection_ok:
  assumes "sub_reactors m \<noteq> []"
  shows "\<exists>i < length (sub_reactors m). i = sub_index (next_sub_idx m) (length (sub_reactors m))
    \<and> give_connection fd m = Inr (m\<lparr>next_sub_idx := next_sub_idx m + 1,
        sub_reactors := (sub_reactors m)[i := enqueueNewConnection fd (sub_reactors m ! i)]\<rparr>)"
  using assms sub_index_less [of "length (sub_reactors m)" "next_sub_idx m"]
  by (simp add: give_connection_def Let_def)

lemma give_connection_total: "sub_reactors m \<noteq> [] \<Longrightarrow> \<exists>m'. give_connection fd m = Inr m'"
  using give_connection_ok by blast

lemma sub_index_small:
  assumes "k < 2147483648"
  shows "sub_index (word_of_nat k) n = k mod n"
proof -
  have "signed_take_bit 31 (int k) = int k" using assms by (intro signed_take_bit_int_eq_self) simp_all
  then have "(scast (word_of_nat k :: 32 word) :: u64) = word_of_nat k" by (simp add: signed_of_nat)
  then show ?thesis using assms by (simp add: sub_index_def unsigned_of_nat take_bit_nat_eq_self)
qed

lemma enqueueNewConnection_queue [simp]: "newConnections (enqueueNewConnection fd s) = newConnections s @ [fd]"
  by (simp add: enqueueNewConnection_def)

text \<open>The descriptors that are given to reactor \<open>j\<close> when the counter starts at \<open>k\<close>.\<close>

definition rotation :: "nat \<Rightarrow> nat \<Rightarrow> nat \<Rightarrow> int list \<Rightarrow> int list" where
  "rotation n j k fds = map snd (filter (\<lambda>(i, fd). i mod n = j) (zip [k..<k + length fds] fds))"

lemma rotation_simps:
  "rotation n j k [] = []"
  "rotation n j k (fd # fds) = (if k mod n = j then [fd] else []) @ rotation n j (Suc k) fds"
  by (simp_all add: rotation_def upt_conv_Cons del: upt_Suc)

lemma give_all_rotation:
  "sub_reactors m \<noteq> [] \<Longrightarrow> next_sub_idx m = word_of_nat k \<Longrightarrow> k + length fds \<le> 2147483648 \<Longrightarrow>
     \<exists>m'. fold_m give_connection fds m = Inr m' \<and> length (sub_reactors m') = length (sub_reactors m)
       \<and> (\<forall>j < length (sub_reactors m). newConnections (sub_reactors m' ! j)
           = newConnections (sub_reactors m ! j) @ rotation (length (sub_reactors m)) j k fds)"
proof (induction fds arbitrary: m k)
  case (Cons fd fds)
  let ?n = "length (sub_reactors m)" and ?i = "k mod length (sub_reactors m)"
  let ?m = "m\<lparr>next_sub_idx := next_sub_idx m + 1,
      sub_reactors := (sub_reactors m)[?i := enqueueNewConnection fd (sub_reactors m ! ?i)]\<rparr>"
  have i: "sub_index (next_sub_idx m) ?n = ?i" using Cons.prems by (simp add: sub_index_small)
  then have g: "give_connection fd m = Inr ?m" using give_connection_ok [OF Cons.prems(1), of fd] by auto
  have "next_sub_idx ?m = word_of_nat (Suc k)" using Cons.prems(2) by (simp add: add.commute)
  from Cons.IH [OF _ this] Cons.prems obtain m' where m': "fold_m give_connection fds ?m = Inr m'"
    "length (sub_reactors m') = ?n"
    "\<forall>j < ?n. newConnections (sub_reactors m' ! j) = newConnections (sub_reactors ?m ! j) @ rotation ?n j (Suc k) fds"
    by auto
  have "?i < ?n" using Cons.prems(1) by simp
  then have "newConnections (sub_reactors ?m ! j) = newConnections (sub_reactors m ! j) @ (if ?i = j then [fd] else [])"
    if "j < ?n" for j using that by (cases "?i = j") simp_all
  then show ?case using g m' by (auto simp: rotation_simps)
qed (simp add: rotation_simps)

definition all_queued :: "MainReactor \<Rightarrow> int multiset" where
  "all_queued m = (\<Sum>s\<leftarrow>sub_reactors m. mset (newConnections s))"

lemma sum_list_update_add:
  "i < length xs \<Longrightarrow> f y = f (xs ! i) + d \<Longrightarrow> sum_list (map f (xs[i := y])) = sum_list (map f xs) + (d :: 'b :: comm_monoid_add)"
  by (induction xs arbitrary: i) (auto split: nat.split simp: ac_simps)

lemma give_all_queued:
  "sub_reactors m \<noteq> [] \<Longrightarrow> \<exists>m'. fold_m give_connection fds m = Inr m' \<and> all_queued m' = all_queued m + mset fds
     \<and> length (sub_reactors m') = length (sub_reactors m)"
proof (induction fds arbitrary: m)
  case (Cons fd fds)
  from give_connection_ok [OF Cons.prems, of fd] obtain i m1 where i: "i < length (sub_reactors m)"
    and m1: "give_connection fd m = Inr m1"
      "sub_reactors m1 = (sub_reactors m)[i := enqueueNewConnection fd (sub_reactors m ! i)]" by auto
  have "all_queued m1 = all_queued m + {#fd#}"
    unfolding all_queued_def m1(2) by (rule sum_list_update_add [OF i]) simp
  moreover have "sub_reactors m1 \<noteq> []" using m1(2) Cons.prems by simp
  ultimately show ?case using Cons.IH [of m1] m1 by auto
qed simp

lemma loop_stops:
  assumes "fold_m handler (doEpoll (num_events r) (wait_events r) []) s = Inr s1" "\<not> still_running r"
  shows "reactor_loop handler (r # rs) s = Inr (True, s1)"
  using assms by simp

section \<open>Properties\<close>

text \<open>
  C22. Whatever value the uninitialised counter has and however often it wraps, the index into the
  reactors is in range, and every accepted descriptor is queued in exactly one reactor.
\<close>

theorem main_accept_in_bounds:
  assumes "sub_reactors m \<noteq> []"
  shows "\<exists>m'. fold_m give_connection fds m = Inr m' \<and> all_queued m' = all_queued m + mset fds
    \<and> length (sub_reactors m') = length (sub_reactors m)"
  using assms by (rule give_all_queued)

theorem main_accept_in_bounds_witness:
  "\<exists>m'. fold_m give_connection [7, 8] (MainReactor_new 3 4294967295 3) = Inr m' \<and> all_queued m' = {#7, 8#}"
  using main_accept_in_bounds [of "MainReactor_new 3 4294967295 3" "[7, 8]"]
  by (auto simp: MainReactor_new_def all_queued_def SubReactor_new_def numeral_3_eq_3)

text \<open>
  While the counter stays below \<open>2 ^ 31\<close>, the descriptors go to the reactors in rotation, and
  each reactor gets its own in the order in which they were accepted.
\<close>

theorem main_round_robin:
  assumes "sub_reactors m \<noteq> []" "next_sub_idx m = word_of_nat k" "k + length fds \<le> 2147483648"
    and "j < length (sub_reactors m)"
  shows "\<exists>m'. fold_m give_connection fds m = Inr m'
    \<and> newConnections (sub_reactors m' ! j)
      = newConnections (sub_reactors m ! j) @ rotation (length (sub_reactors m)) j k fds"
  using give_all_rotation [OF assms(1-3)] assms(4) by blast

theorem main_round_robin_witness:
  "\<exists>m'. fold_m give_connection [7, 8, 9] (MainReactor_new 3 0 2) = Inr m'
     \<and> newConnections (sub_reactors m' ! 0) = [7, 9]"
  using main_round_robin [of "MainReactor_new 3 0 2" 0 "[7, 8, 9]" 0]
  by (auto simp: MainReactor_new_def SubReactor_new_def numeral_2_eq_2 rotation_simps)

text \<open>
  A burst of connections is not accepted: of the connections that arrive before the event of
  the edge-triggered listening socket is handled, only the first is accepted; the others stay in
  the backlog and no event is pending for them.
\<close>

theorem main_accept_misses_burst:
  assumes "backlog m = []" "sub_reactors m \<noteq> []" "fdw_fd fdw = listen_fd m" "fds \<noteq> []"
  shows "\<exists>m'. main_handleEvent fdw (fold client_arrives fds m) = Inr m'
    \<and> backlog m' = tl fds \<and> \<not> listen_event m' \<and> all_queued m' = all_queued m + {#hd fds#}"
proof -
  have arr: "backlog (fold client_arrives fds m) = backlog m @ fds
      \<and> sub_reactors (fold client_arrives fds m) = sub_reactors m
      \<and> listen_fd (fold client_arrives fds m) = listen_fd m" for fds m
    by (induction fds arbitrary: m) (simp_all add: client_arrives_def)
  let ?a = "fold client_arrives fds m"
  let ?m = "?a\<lparr>listen_event := False, backlog := tl fds\<rparr>"
  obtain fd rest where f: "fds = fd # rest" using assms(4) by (cases fds) auto
  have ne: "sub_reactors ?m \<noteq> []" using arr assms(2) by simp
  from give_connection_ok [OF ne, of fd] obtain m' where m': "give_connection fd ?m = Inr m'"
    "backlog m' = tl fds" "listen_event m' = False" by auto
  moreover have "all_queued m' = all_queued ?m + {#fd#}"
    using give_all_queued [OF ne, of "[fd]"] m'(1) by simp
  moreover have "all_queued ?m = all_queued m" using arr by (simp add: all_queued_def)
  moreover have "main_handleEvent fdw ?a = give_connection fd ?m"
    using arr [of fds m] assms(1,3) f by (simp add: main_handleEvent_def handleAccept_def)
  ultimately show ?thesis using f by auto
qed

theorem main_accept_misses_burst_witness:
  "\<exists>m'. main_handleEvent \<lparr>fdw_fd = 3, fdw_events = EPOLLIN\<rparr> (fold client_arrives [7, 8] (MainReactor_new 3 0 2)) = Inr m'
     \<and> backlog m' = [8] \<and> \<not> listen_event m'"
  using main_accept_misses_burst [of "MainReactor_new 3 0 2" "\<lparr>fdw_fd = 3, fdw_events = EPOLLIN\<rparr>" "[7, 8]"]
  by (auto simp: MainReactor_new_def)

end
