(* ===== verification/Server_Parts.thy ===== *)
theory Server_Parts
  imports Prelude
begin

text \<open>
  Three parts of muduo/server.hpp that the server is assembled from: the type-erased holder \<open>Any\<close> on an
  explicit heap, the hand-over of an \<open>EventLoop\<close> from the thread that owns it (\<open>Loopthread\<close>), and the
  system calls of \<open>Socket\<close> that create a server or a client.
\<close>

section \<open>Any\<close>

text \<open>
  The heap holds the \<open>PlaceHolder\<close> objects: a type and a value.  An \<open>Any\<close> is its \<open>context_\<close>, null or an
  address.  \<open>new\<close> returns an address that is not in use; it is an argument.
\<close>

type_synonym ('ty, 'v) any_heap = "nat \<rightharpoonup> 'ty \<times> 'v"
type_synonym Any = "nat option"

definition any_of :: "'ty \<times> 'v \<Rightarrow> nat \<Rightarrow> ('ty, 'v) any_heap \<Rightarrow> Any \<times> ('ty, 'v) any_heap" where
  "any_of val p h = (Some p, h(p \<mapsto> val))"

definition any_copy :: "Any \<Rightarrow> nat \<Rightarrow> ('ty, 'v) any_heap \<Rightarrow> Any \<times> ('ty, 'v) any_heap" where
  "any_copy other p h = (case other of None \<Rightarrow> (None, h) | Some q \<Rightarrow> (Some p, h(p := h q)))"

definition any_swap :: "Any \<Rightarrow> Any \<Rightarrow> Any \<times> Any" where
  "any_swap a b = (b, a)"

text \<open>\<open>delete\<close> of a null pointer does nothing, of an object that does not exist any more is an error.\<close>

definition any_destroy :: "Any \<Rightarrow> ('ty, 'v) any_heap \<Rightarrow> fault + ('ty, 'v) any_heap" where
  "any_destroy a h =
     (case a of
        None \<Rightarrow> Inr h
      | Some q \<Rightarrow> if h q = None then Inl OutOfBounds else Inr (h(q := None)))"

definition any_assign_value ::
    "'ty \<times> 'v \<Rightarrow> nat \<Rightarrow> Any \<Rightarrow> ('ty, 'v) any_heap \<Rightarrow> fault + Any \<times> ('ty, 'v) any_heap" where
  "any_assign_value val p a h =
     (let (tmp, h1) = any_of val p h; (tmp1, a1) = any_swap tmp a
      in sum_bind (any_destroy tmp1 h1) (\<lambda>h2. Inr (a1, h2)))"

definition any_assign :: "Any \<Rightarrow> nat \<Rightarrow> Any \<Rightarrow> ('ty, 'v) any_heap \<Rightarrow> fault + Any \<times> ('ty, 'v) any_heap" where
  "any_assign other p a h =
     (let (tmp, h1) = any_copy other p h; (tmp1, a1) = any_swap tmp a
      in sum_bind (any_destroy tmp1 h1) (\<lambda>h2. Inr (a1, h2)))"

text \<open>\<open>get\<close>: a call through a null \<open>context_\<close>, the assertion on the type, and the address of the value.\<close>

definition any_get :: "'ty \<Rightarrow> Any \<Rightarrow> ('ty, 'v) any_heap \<Rightarrow> fault + nat" where
  "any_get ty a h =
     (case a of
        None \<Rightarrow> Inl OutOfBounds
      | Some q \<Rightarrow>
          (case h q of None \<Rightarrow> Inl OutOfBounds | Some (ty1, _) \<Rightarrow> if ty = ty1 then Inr q else Inl AssertFailed))"

subsection \<open>Programs that use it\<close>

text \<open>Named \<open>Any\<close> objects and the operations on them; \<open>AWrite\<close> stores through the pointer \<open>get\<close> returns.\<close>

datatype ('o, 'ty, 'v) any_op =
    ADefault 'o
  | AValue 'o "'ty \<times> 'v" nat
  | ACopy 'o 'o nat
  | AAssignValue 'o "'ty \<times> 'v" nat
  | AAssign 'o 'o nat
  | ADestroy 'o
  | AWrite 'o 'ty 'v

record ('o, 'ty, 'v) any_world =
  vars :: "'o \<rightharpoonup> Any"
  heap :: "('ty, 'v) any_heap"

fun any_legal :: "('o, 'ty, 'v) any_op \<Rightarrow> ('o \<Rightarrow> bool) \<Rightarrow> (nat \<Rightarrow> bool) \<Rightarrow> bool" where
  "any_legal (ADefault x) live used = (\<not> live x)"
| "any_legal (AValue x v p) live used = (\<not> live x \<and> \<not> used p)"
| "any_legal (ACopy x y p) live used = (\<not> live x \<and> live y \<and> \<not> used p)"
| "any_legal (AAssignValue x v p) live used = (live x \<and> \<not> used p)"
| "any_legal (AAssign x y p) live used = (live x \<and> live y \<and> \<not> used p)"
| "any_legal (ADestroy x) live used = live x"
| "any_legal (AWrite x ty v) live used = live x"

definition any_set :: "'o \<Rightarrow> Any \<times> ('ty, 'v) any_heap \<Rightarrow> ('o, 'ty, 'v) any_world \<Rightarrow> ('o, 'ty, 'v) any_world" where
  "any_set x r w = \<lparr>vars = (vars w)(x \<mapsto> fst r), heap = snd r\<rparr>"

fun any_act :: "('o, 'ty, 'v) any_op \<Rightarrow> ('o, 'ty, 'v) any_world \<Rightarrow> fault + ('o, 'ty, 'v) any_world" where
  "any_act (ADefault x) w = Inr (any_set x (None, heap w) w)"
| "any_act (AValue x v p) w = Inr (any_set x (any_of v p (heap w)) w)"
| "any_act (ACopy x y p) w = Inr (any_set x (any_copy (the (vars w y)) p (heap w)) w)"
| "any_act (AAssignValue x v p) w =
     sum_bind (any_assign_value v p (the (vars w x)) (heap w)) (\<lambda>r. Inr (any_set x r w))"
| "any_act (AAssign x y p) w =
     sum_bind (any_assign (the (vars w y)) p (the (vars w x)) (heap w)) (\<lambda>r. Inr (any_set x r w))"
| "any_act (ADestroy x) w =
     sum_bind (any_destroy (the (vars w x)) (heap w)) (\<lambda>h. Inr \<lparr>vars = (vars w)(x := None), heap = h\<rparr>)"
| "any_act (AWrite x ty v) w =
     sum_bind (any_get ty (the (vars w x)) (heap w)) (\<lambda>q. Inr (w\<lparr>heap := (heap w)(q \<mapsto> (ty, v))\<rparr>))"

text \<open>The specification: a variable holds nothing or a value of some type, and assignment copies it.\<close>

fun any_spec :: "('o, 'ty, 'v) any_op \<Rightarrow> ('o \<rightharpoonup> ('ty \<times> 'v) option) \<Rightarrow> fault + ('o \<rightharpoonup> ('ty \<times> 'v) option)" where
  "any_spec (ADefault x) m = Inr (m(x \<mapsto> None))"
| "any_spec (AValue x v p) m = Inr (m(x \<mapsto> Some v))"
| "any_spec (ACopy x y p) m = Inr (m(x := m y))"
| "any_spec (AAssignValue x v p) m = Inr (m(x \<mapsto> Some v))"
| "any_spec (AAssign x y p) m = Inr (m(x := m y))"
| "any_spec (ADestroy x) m = Inr (m(x := None))"
| "any_spec (AWrite x ty v) m =
     (case m x of
        Some (Some (ty1, _)) \<Rightarrow> if ty = ty1 then Inr (m(x \<mapsto> Some (ty, v))) else Inl AssertFailed
      | _ \<Rightarrow> Inl OutOfBounds)"

definition any_abs :: "('o, 'ty, 'v) any_world \<Rightarrow> 'o \<rightharpoonup> ('ty \<times> 'v) option" where
  "any_abs w x = map_option (\<lambda>a. Option.bind a (heap w)) (vars w x)"

text \<open>Every object on the heap belongs to exactly one \<open>Any\<close>, and every \<open>Any\<close> points to one or to none.\<close>

definition any_owned :: "('o, 'ty, 'v) any_world \<Rightarrow> bool" where
  "any_owned w \<longleftrightarrow> (\<forall>x y q. vars w x = Some (Some q) \<and> vars w y = Some (Some q) \<longrightarrow> x = y)
     \<and> (\<forall>q. heap w q \<noteq> None \<longleftrightarrow> (\<exists>x. vars w x = Some (Some q)))"

lemma any_ownedD:
  assumes "any_owned w"
  shows "vars w x = Some (Some q) \<Longrightarrow> vars w y = Some (Some q) \<Longrightarrow> x = y"
    and "vars w x = Some (Some q) \<Longrightarrow> \<exists>v. heap w q = Some v"
    and "heap w q = None \<Longrightarrow> vars w x \<noteq> Some (Some q)"
  using assms unfolding any_owned_def by blast+

lemma any_abs_cong:
  "vars w' y = vars w y \<Longrightarrow> (\<And>q. vars w y = Some (Some q) \<Longrightarrow> heap w' q = heap w q) \<Longrightarrow> any_abs w' y = any_abs w y"
  by (cases "vars w y"; cases "the (vars w y)") (auto simp: any_abs_def)

text \<open>Giving variable \<open>x\<close> a new object, a null pointer, or nothing, after its old object is gone.\<close>

lemma any_replace:
  assumes own: "any_owned w" and fresh: "\<And>p. r = Some p \<Longrightarrow> heap w p = None"
    and h: "h = (\<lambda>q. if r = Some q then Some v else if vars w x = Some (Some q) then None else heap w q)"
  shows "any_owned (any_set x (r, h) w)"
    "any_abs (any_set x (r, h) w) = (any_abs w)(x \<mapsto> (if r = None then None else Some v))"
proof -
  note d = any_ownedD [OF own]
  have np: "r = Some p \<Longrightarrow> vars w y \<noteq> Some (Some p)" for y p using d(3) [OF fresh] .
  have other: "h q = heap w q" if "vars w y = Some (Some q)" "y \<noteq> x" for y q
    using that d(1) [of y q x] np [of q y] by (auto simp: h)
  show "any_abs (any_set x (r, h) w) = (any_abs w)(x \<mapsto> (if r = None then None else Some v))"
  proof
    fix y
    show "any_abs (any_set x (r, h) w) y = ((any_abs w)(x \<mapsto> (if r = None then None else Some v))) y"
    proof (cases "y = x")
      case True
      then show ?thesis by (cases r) (auto simp: any_abs_def any_set_def h)
    next
      case False
      then have "any_abs (any_set x (r, h) w) y = any_abs w y"
        by (intro any_abs_cong) (simp_all add: any_set_def other)
      then show ?thesis using False by simp
    qed
  qed
  show "any_owned (any_set x (r, h) w)"
    unfolding any_owned_def
  proof (intro conjI allI impI)
    fix y z q assume "vars (any_set x (r, h) w) y = Some (Some q) \<and> vars (any_set x (r, h) w) z = Some (Some q)"
    then show "y = z" using d(1) [of y q z] np [of q y] np [of q z] by (auto simp: any_set_def split: if_splits)
  next
    fix q
    show "(heap (any_set x (r, h) w) q \<noteq> None) = (\<exists>y. vars (any_set x (r, h) w) y = Some (Some q))"
    proof (cases "r = Some q")
      case True
      then show ?thesis by (auto simp: any_set_def h)
    next
      case False
      have "(if vars w x = Some (Some q) then None else heap w q) \<noteq> None
          \<longleftrightarrow> (\<exists>y. y \<noteq> x \<and> vars w y = Some (Some q))"
        using own unfolding any_owned_def by (metis option.distinct(1))
      then show ?thesis using False by (auto simp: any_set_def h)
    qed
  qed
qed

lemma any_delete:
  assumes own: "any_owned w"
    and h: "h = (\<lambda>q. if vars w x = Some (Some q) then None else heap w q)"
  shows "any_owned \<lparr>vars = (vars w)(x := None), heap = h\<rparr>"
    "any_abs \<lparr>vars = (vars w)(x := None), heap = h\<rparr> = (any_abs w)(x := None)"
proof -
  note d = any_ownedD [OF own]
  have other: "h q = heap w q" if "vars w y = Some (Some q)" "y \<noteq> x" for y q
    using that d(1) [of y q x] by (auto simp: h)
  show "any_abs \<lparr>vars = (vars w)(x := None), heap = h\<rparr> = (any_abs w)(x := None)"
  proof
    fix y
    have "any_abs \<lparr>vars = (vars w)(x := None), heap = h\<rparr> y = any_abs w y" if "y \<noteq> x"
      using that other by (intro any_abs_cong) simp_all
    then show "any_abs \<lparr>vars = (vars w)(x := None), heap = h\<rparr> y = ((any_abs w)(x := None)) y"
      by (cases "y = x") (simp_all add: any_abs_def)
  qed
  show "any_owned \<lparr>vars = (vars w)(x := None), heap = h\<rparr>"
    using own unfolding any_owned_def h by (auto split: if_splits)
qed

lemma any_store:
  assumes own: "any_owned w" and x: "vars w x = Some (Some q)"
  shows "any_owned (w\<lparr>heap := (heap w)(q \<mapsto> v)\<rparr>)"
    "any_abs (w\<lparr>heap := (heap w)(q \<mapsto> v)\<rparr>) = (any_abs w)(x \<mapsto> Some v)"
proof -
  note d = any_ownedD [OF own]
  show "any_owned (w\<lparr>heap := (heap w)(q \<mapsto> v)\<rparr>)" using own x unfolding any_owned_def by auto
  show "any_abs (w\<lparr>heap := (heap w)(q \<mapsto> v)\<rparr>) = (any_abs w)(x \<mapsto> Some v)"
  proof
    fix y
    have "any_abs (w\<lparr>heap := (heap w)(q \<mapsto> v)\<rparr>) y = any_abs w y" if "y \<noteq> x"
      using that d(1) [OF x] by (intro any_abs_cong) auto
    then show "any_abs (w\<lparr>heap := (heap w)(q \<mapsto> v)\<rparr>) y = ((any_abs w)(x \<mapsto> Some v)) y"
      using x by (cases "y = x") (simp_all add: any_abs_def)
  qed
qed

text \<open>The two assignments and the copy leave the same kind of heap: one new object, the old one gone.\<close>

lemma any_assign_value_result:
  assumes own: "any_owned w" and x: "vars w x = Some a" and fresh: "heap w p = None"
  shows "any_assign_value v p a (heap w)
    = Inr (Some p, \<lambda>q. if Some p = Some q then Some v else if vars w x = Some (Some q) then None else heap w q)"
  using x fresh any_ownedD(2,3) [OF own]
  by (cases a) (auto simp: any_assign_value_def any_of_def any_swap_def any_destroy_def fun_eq_iff)

lemma any_assign_result:
  assumes own: "any_owned w" and x: "vars w x = Some a" and y: "vars w y = Some b" and fresh: "heap w p = None"
  obtains v where "any_assign b p a (heap w) = Inr (if b = None then None else Some p,
      \<lambda>q. if (if b = None then None else Some p) = Some q then Some v
           else if vars w x = Some (Some q) then None else heap w q)"
    and "any_abs w y = Some (if b = None then None else Some v)"
proof (cases b)
  case None
  show thesis
  proof (rule that [of undefined])
    show "any_abs w y = Some (if b = None then None else Some undefined)" using y None by (simp add: any_abs_def)
    show "any_assign b p a (heap w) = Inr (if b = None then None else Some p,
      \<lambda>q. if (if b = None then None else Some p) = Some q then Some undefined
           else if vars w x = Some (Some q) then None else heap w q)"
      using x any_ownedD(2) [OF own] None
      by (cases a) (auto simp: any_assign_def any_copy_def any_swap_def any_destroy_def fun_eq_iff)
  qed
next
  case (Some q)
  then obtain v where v: "heap w q = Some v" using any_ownedD(2) [OF own, of y q] y by blast
  show thesis
  proof (rule that [of v])
    show "any_abs w y = Some (if b = None then None else Some v)" using y Some v by (simp add: any_abs_def)
    show "any_assign b p a (heap w) = Inr (if b = None then None else Some p,
      \<lambda>q. if (if b = None then None else Some p) = Some q then Some v
           else if vars w x = Some (Some q) then None else heap w q)"
      using x any_ownedD(2,3) [OF own] Some v fresh
      by (cases a) (auto simp: any_assign_def any_copy_def any_swap_def any_destroy_def fun_eq_iff)
  qed
qed

definition any_refines :: "('o, 'ty, 'v) any_op \<Rightarrow> ('o, 'ty, 'v) any_world \<Rightarrow> bool" where
  "any_refines a w \<longleftrightarrow>
     (case any_act a w of
        Inl f \<Rightarrow> any_spec a (any_abs w) = Inl f
      | Inr w' \<Rightarrow> any_owned w' \<and> any_spec a (any_abs w) = Inr (any_abs w'))"

lemma any_act_refines:
  assumes own: "any_owned w" and legal: "any_legal a (\<lambda>x. vars w x \<noteq> None) (\<lambda>p. heap w p \<noteq> None)"
  shows "any_refines a w"
proof (cases a)
  case (ADefault x)
  have "heap w = (\<lambda>q. if None = Some q then Some undefined else if vars w x = Some (Some q) then None else heap w q)"
    using legal ADefault by auto
  from any_replace [OF own _ this] show ?thesis using ADefault by (simp add: any_refines_def)
next
  case (AValue x v p)
  have "(heap w)(p \<mapsto> v) = (\<lambda>q. if Some p = Some q then Some v else if vars w x = Some (Some q) then None else heap w q)"
    using legal AValue by auto
  moreover have "heap w p = None" using legal AValue by (cases "heap w p") auto
  ultimately show ?thesis using any_replace [OF own, of "Some p"] AValue by (simp add: any_refines_def any_of_def)
next
  case (ACopy x y p)
  then obtain b where y: "vars w y = Some b" using legal by auto
  show ?thesis
  proof (cases b)
    case None
    have "heap w = (\<lambda>q. if None = Some q then Some undefined else if vars w x = Some (Some q) then None else heap w q)"
      using legal ACopy by auto
    from any_replace [OF own _ this] show ?thesis
      using ACopy y None by (simp add: any_refines_def any_copy_def any_abs_def)
  next
    case (Some q)
    then obtain v where v: "heap w q = Some v" using any_ownedD(2) [OF own, of y q] y by blast
    have "(heap w)(p := heap w q) = (\<lambda>r. if Some p = Some r then Some v else if vars w x = Some (Some r) then None else heap w r)"
      using legal ACopy v by auto
    moreover have "heap w p = None" using legal ACopy by (cases "heap w p") auto
    ultimately show ?thesis using any_replace [OF own, of "Some p"] ACopy y Some v
      by (simp add: any_refines_def any_copy_def any_abs_def)
  qed
next
  case (AAssignValue x v p)
  then obtain b where x: "vars w x = Some b" using legal by auto
  have fresh: "heap w p = None" using legal AAssignValue by (cases "heap w p") auto
  from any_replace [OF own _ refl, where r = "Some p" and v = v and x = x] show ?thesis
    using AAssignValue any_assign_value_result [OF own x fresh, of v] x fresh by (simp add: any_refines_def)
next
  case (AAssign x y p)
  then obtain c b where x: "vars w x = Some c" and y: "vars w y = Some b" using legal by auto
  have fresh: "heap w p = None" using legal AAssign by (cases "heap w p") auto
  obtain v where r: "any_assign b p c (heap w) = Inr (if b = None then None else Some p,
      \<lambda>q. if (if b = None then None else Some p) = Some q then Some v
           else if vars w x = Some (Some q) then None else heap w q)"
    and abs: "any_abs w y = Some (if b = None then None else Some v)"
    by (rule any_assign_result [OF own x y fresh])
  from any_replace [OF own _ refl, where r = "if b = None then None else Some p" and v = v and x = x] show ?thesis
    using AAssign r abs x y fresh by (cases "b = None") (simp_all add: any_refines_def)
next
  case (ADestroy x)
  then obtain b where x: "vars w x = Some b" using legal by auto
  have "any_destroy b (heap w) = Inr (\<lambda>q. if vars w x = Some (Some q) then None else heap w q)"
    using x any_ownedD(2) [OF own, of x] by (cases b) (auto simp: any_destroy_def fun_eq_iff)
  then show ?thesis using any_delete [OF own refl, of x] ADestroy x by (simp add: any_refines_def)
next
  case (AWrite x ty v)
  then obtain b where x: "vars w x = Some b" using legal by auto
  show ?thesis
  proof (cases b)
    case None
    then show ?thesis using AWrite x by (simp add: any_refines_def any_get_def any_abs_def)
  next
    case (Some q)
    then obtain u where u: "heap w q = Some u" using any_ownedD(2) [OF own, of x q] x by blast
    show ?thesis using any_store [OF own, of x q "(ty, v)"] AWrite x Some u
      by (cases u) (auto simp: any_refines_def any_get_def any_abs_def)
  qed
qed

fun any_program :: "('o, 'ty, 'v) any_op list \<Rightarrow> ('o, 'ty, 'v) any_world \<Rightarrow> bool" where
  "any_program [] w = True"
| "any_program (a # as) w =
     (any_legal a (\<lambda>x. vars w x \<noteq> None) (\<lambda>p. heap w p \<noteq> None)
      \<and> (case any_act a w of Inl _ \<Rightarrow> True | Inr w' \<Rightarrow> any_program as w'))"

text \<open>
  C26. \<open>Any\<close> is a value type: for every program of constructions, copies, assignments (also to itself),
  destructions and stores through \<open>get\<close>, what the variables hold is what the specification by values says,
  and the program fails exactly where it does, at a \<open>get\<close> of an empty \<open>Any\<close> or of another type; no object is
  leaked, shared or deleted twice.
\<close>

theorem any_value_semantics:
  assumes "any_owned w" "any_program as w"
  shows "case fold_m any_act as w of
      Inl f \<Rightarrow> fold_m any_spec as (any_abs w) = Inl f
    | Inr w' \<Rightarrow> any_owned w' \<and> fold_m any_spec as (any_abs w) = Inr (any_abs w')"
  using assms
proof (induction as arbitrary: w)
  case (Cons a as)
  have r: "any_refines a w" using any_act_refines [OF Cons.prems(1)] Cons.prems(2) by simp
  show ?case
  proof (cases "any_act a w")
    case (Inl f)
    then show ?thesis using r by (simp add: any_refines_def)
  next
    case (Inr w')
    then have "any_owned w'" "any_spec a (any_abs w) = Inr (any_abs w')" "any_program as w'"
      using r Cons.prems(2) by (simp_all add: any_refines_def)
    then show ?thesis using Cons.IH [of w'] Inr by (cases "fold_m any_act as w'") simp_all
  qed
qed simp

theorem any_value_semantics_witness:
  "let as = [AValue ''a'' (''int'', 7 :: nat) 0, ACopy ''b'' ''a'' 1, AWrite ''b'' ''int'' 8, AAssign ''a'' ''a'' 2]
   in fold_m any_spec as (\<lambda>_. None) = Inr [''a'' \<mapsto> Some (''int'', 7), ''b'' \<mapsto> Some (''int'', 8)]
      \<and> (\<exists>w'. fold_m any_act as \<lparr>vars = (\<lambda>_. None), heap = (\<lambda>_. None)\<rparr> = Inr w'
           \<and> any_abs w' = [''a'' \<mapsto> Some (''int'', 7), ''b'' \<mapsto> Some (''int'', 8)])"
proof -
  let ?w = "\<lparr>vars = (\<lambda>_. None), heap = (\<lambda>_. None)\<rparr> :: (string, string, nat) any_world"
  let ?as = "[AValue ''a'' (''int'', 7 :: nat) 0, ACopy ''b'' ''a'' 1, AWrite ''b'' ''int'' 8, AAssign ''a'' ''a'' 2]"
  have own: "any_owned ?w" by (simp add: any_owned_def)
  have abs: "any_abs ?w = (\<lambda>_. None)" by (simp add: any_abs_def fun_eq_iff)
  have prog: "any_program ?as ?w"
    by (simp add: any_set_def any_of_def any_copy_def any_get_def any_assign_def any_swap_def any_destroy_def)
  have spec: "fold_m any_spec ?as (\<lambda>_. None) = Inr [''a'' \<mapsto> Some (''int'', 7), ''b'' \<mapsto> Some (''int'', 8)]"
    by (simp add: fun_upd_twist fun_eq_iff)
  then show ?thesis using any_value_semantics [OF own prog] abs by (auto split: sum.splits)
qed

section \<open>Loopthread\<close>

text \<open>
  The members are initialised in the order of their declaration: \<open>loop_\<close>, \<open>thread_\<close>, which starts
  \<open>ThreadRoutine\<close> at once, then \<open>mutex_\<close> and \<open>cond_\<close>.  \<open>undefined_use\<close>: the new thread has used a mutex
  or a condition variable that does not exist yet.  Several threads may call \<open>Loop\<close> on a constructed object.
\<close>

datatype ctor_pc = StartThread | MakeMutex | MakeCond | Constructed
datatype routine_pc = NotStarted | MakeLoop | LockMutex | SetLoop | NotifyWaiters | UnlockMutex | RunsLoop
datatype loop_pc = OutsideLoop | WantsMutex | TestsLoop | LeavesMutex | Sleeping | ReadsLoop | Returns "nat option"

datatype mutex_owner = Routine | Caller nat

record Loopthread =
  loop_ptr :: "nat option"
  ctor :: ctor_pc
  routine :: routine_pc
  loop_mutex :: "mutex_owner option"
  callers :: "nat \<Rightarrow> loop_pc"
  undefined_use :: bool

definition Loopthread_new :: Loopthread where
  "Loopthread_new = \<lparr>loop_ptr = None, ctor = StartThread, routine = NotStarted, loop_mutex = None,
     callers = (\<lambda>_. OutsideLoop), undefined_use = False\<rparr>"

definition ctor_step :: "Loopthread \<Rightarrow> Loopthread" where
  "ctor_step s =
     (case ctor s of
        StartThread \<Rightarrow> s\<lparr>ctor := MakeMutex, routine := MakeLoop\<rparr>
      | MakeMutex \<Rightarrow> s\<lparr>ctor := MakeCond\<rparr>
      | MakeCond \<Rightarrow> s\<lparr>ctor := Constructed\<rparr>
      | Constructed \<Rightarrow> s)"

text \<open>\<open>ThreadRoutine\<close>; \<open>addr\<close> is the address of its \<open>EventLoop\<close>.\<close>

definition routine_step :: "nat \<Rightarrow> Loopthread \<Rightarrow> Loopthread" where
  "routine_step addr s =
     (case routine s of
        NotStarted \<Rightarrow> s
      | MakeLoop \<Rightarrow> s\<lparr>routine := LockMutex\<rparr>
      | LockMutex \<Rightarrow>
          if ctor s = StartThread \<or> ctor s = MakeMutex then s\<lparr>undefined_use := True\<rparr>
          else if loop_mutex s = None then s\<lparr>loop_mutex := Some Routine, routine := SetLoop\<rparr> else s
      | SetLoop \<Rightarrow> s\<lparr>loop_ptr := Some addr, routine := NotifyWaiters\<rparr>
      | NotifyWaiters \<Rightarrow>
          if ctor s \<noteq> Constructed then s\<lparr>undefined_use := True\<rparr>
          else s\<lparr>routine := UnlockMutex, callers := (\<lambda>i. if callers s i = Sleeping then WantsMutex else callers s i)\<rparr>
      | UnlockMutex \<Rightarrow> s\<lparr>loop_mutex := None, routine := RunsLoop\<rparr>
      | RunsLoop \<Rightarrow> s)"

text \<open>\<open>Loop\<close>, called by thread \<open>i\<close>.\<close>

definition loop_step :: "nat \<Rightarrow> Loopthread \<Rightarrow> Loopthread" where
  "loop_step i s =
     (let at = (\<lambda>p t. t\<lparr>callers := (callers t)(i := p)\<rparr>)
      in case callers s i of
           OutsideLoop \<Rightarrow> if ctor s = Constructed then at WantsMutex s else s
         | WantsMutex \<Rightarrow> if loop_mutex s = None then at TestsLoop (s\<lparr>loop_mutex := Some (Caller i)\<rparr>) else s
         | TestsLoop \<Rightarrow> at (if loop_ptr s \<noteq> None then ReadsLoop else LeavesMutex) s
         | LeavesMutex \<Rightarrow> at Sleeping (s\<lparr>loop_mutex := None\<rparr>)
         | Sleeping \<Rightarrow> s
         | ReadsLoop \<Rightarrow> at (Returns (loop_ptr s)) (s\<lparr>loop_mutex := None\<rparr>)
         | Returns _ \<Rightarrow> s)"

datatype lt_action = CtorTurn | RoutineTurn | LoopTurn nat

fun lt_act :: "nat \<Rightarrow> lt_action \<Rightarrow> Loopthread \<Rightarrow> Loopthread" where
  "lt_act addr CtorTurn s = (if undefined_use s then s else ctor_step s)"
| "lt_act addr RoutineTurn s = (if undefined_use s then s else routine_step addr s)"
| "lt_act addr (LoopTurn i) s = (if undefined_use s then s else loop_step i s)"

definition lt_run :: "nat \<Rightarrow> lt_action list \<Rightarrow> Loopthread" where
  "lt_run addr as = fold (lt_act addr) as Loopthread_new"

definition routine_inv :: "nat \<Rightarrow> Loopthread \<Rightarrow> bool" where
  "routine_inv addr s \<longleftrightarrow> (loop_mutex s = Some Routine \<longleftrightarrow> routine s \<in> {SetLoop, NotifyWaiters, UnlockMutex})
     \<and> loop_ptr s = (if routine s \<in> {NotifyWaiters, UnlockMutex, RunsLoop} then Some addr else None)"

definition caller_inv :: "nat \<Rightarrow> Loopthread \<Rightarrow> nat \<Rightarrow> bool" where
  "caller_inv addr s i \<longleftrightarrow>
     (loop_mutex s = Some (Caller i) \<longleftrightarrow> callers s i \<in> {TestsLoop, LeavesMutex, ReadsLoop})
     \<and> (case callers s i of
          LeavesMutex \<Rightarrow> loop_ptr s = None
        | Sleeping \<Rightarrow> loop_ptr s = None \<or> routine s = NotifyWaiters
        | ReadsLoop \<Rightarrow> loop_ptr s = Some addr
        | Returns r \<Rightarrow> r = Some addr
        | _ \<Rightarrow> True)"

definition lt_inv :: "nat \<Rightarrow> Loopthread \<Rightarrow> bool" where
  "lt_inv addr s \<longleftrightarrow> routine_inv addr s \<and> (\<forall>i. caller_inv addr s i) \<and> (routine s = NotStarted \<longleftrightarrow> ctor s = StartThread)"

lemma ctor_step_inv: "lt_inv addr s \<Longrightarrow> lt_inv addr (ctor_step s)"
  by (cases "ctor s") (auto simp: ctor_step_def lt_inv_def routine_inv_def caller_inv_def split: loop_pc.splits)

lemma routine_step_inv:
  assumes "lt_inv addr s"
  shows "lt_inv addr (routine_step addr s)"
proof -
  have c: "caller_inv addr s i" for i using assms by (simp add: lt_inv_def)
  have r: "routine_inv addr s" using assms by (simp add: lt_inv_def)
  have "caller_inv addr (routine_step addr s) i" for i
    using c [of i] r
    by (cases "routine s"; cases "callers s i")
      (auto simp: routine_step_def caller_inv_def routine_inv_def)
  moreover have "routine_inv addr (routine_step addr s)"
    using r by (cases "routine s") (auto simp: routine_step_def routine_inv_def)
  moreover have "routine (routine_step addr s) = NotStarted \<longleftrightarrow> ctor (routine_step addr s) = StartThread"
    using assms by (cases "routine s") (auto simp: routine_step_def lt_inv_def)
  ultimately show ?thesis by (simp add: lt_inv_def)
qed

lemma loop_step_inv:
  assumes "lt_inv addr s"
  shows "lt_inv addr (loop_step i s)"
proof -
  have c: "caller_inv addr s j" for j using assms by (simp add: lt_inv_def)
  have r: "routine_inv addr s" using assms by (simp add: lt_inv_def)
  have "caller_inv addr (loop_step i s) j" for j
  proof (cases "j = i")
    case True
    then show ?thesis using c [of i] r
      by (cases "callers s i") (auto simp: loop_step_def caller_inv_def routine_inv_def Let_def split: if_splits)
  next
    case False
    then show ?thesis using c [of j] c [of i]
      by (cases "callers s i"; cases "callers s j") (auto simp: loop_step_def caller_inv_def Let_def)
  qed
  moreover have "routine_inv addr (loop_step i s)"
    using r c [of i] by (cases "callers s i") (auto simp: loop_step_def routine_inv_def caller_inv_def Let_def)
  moreover have "routine (loop_step i s) = routine s" "ctor (loop_step i s) = ctor s"
    by (cases "callers s i"; simp add: loop_step_def Let_def)+
  ultimately show ?thesis using assms by (simp add: lt_inv_def)
qed

lemma lt_run_inv: "lt_inv addr (lt_run addr as)"
proof -
  have "lt_inv addr (fold (lt_act addr) as s)" if "lt_inv addr s" for s
    using that
  proof (induction as arbitrary: s)
    case (Cons a as)
    then have "lt_inv addr (lt_act addr a s)"
      using ctor_step_inv routine_step_inv loop_step_inv by (cases a) auto
    then show ?case using Cons.IH by simp
  qed simp
  moreover have "lt_inv addr Loopthread_new"
    by (simp add: lt_inv_def Loopthread_new_def routine_inv_def caller_inv_def)
  ultimately show ?thesis by (simp add: lt_run_def)
qed

lemma constructed_stays:
  assumes "ctor s = Constructed" "\<not> undefined_use s"
  shows "ctor (fold (lt_act addr) as s) = Constructed \<and> \<not> undefined_use (fold (lt_act addr) as s)"
  using assms
proof (induction as arbitrary: s)
  case (Cons a as)
  have "ctor (routine_step addr s) = Constructed \<and> \<not> undefined_use (routine_step addr s)"
    using Cons.prems by (cases "routine s") (auto simp: routine_step_def)
  moreover have "ctor (loop_step i s) = Constructed \<and> \<not> undefined_use (loop_step i s)" for i
    using Cons.prems by (cases "callers s i") (auto simp: loop_step_def Let_def)
  ultimately have "ctor (lt_act addr a s) = Constructed \<and> \<not> undefined_use (lt_act addr a s)"
    using Cons.prems by (cases a) (auto simp: ctor_step_def)
  then show ?case using Cons.IH by simp
qed simp

text \<open>
  \<open>Loopthread\<close>, in every interleaving of its constructor, its thread and any number of callers of \<open>Loop\<close>:
  what \<open>Loop\<close> returns is the address of the thread's \<open>EventLoop\<close> and never null, and once the thread is in
  its event loop no caller is asleep.  When the constructor has finished before the new thread first runs,
  everything the thread uses exists.
\<close>

theorem loopthread_handover:
  "(callers (lt_run addr as) i = Returns r \<longrightarrow> r = Some addr)
   \<and> (routine (lt_run addr as) = RunsLoop \<longrightarrow> callers (lt_run addr as) i \<noteq> Sleeping)
   \<and> \<not> undefined_use (lt_run addr ([CtorTurn, CtorTurn, CtorTurn] @ as))"
proof -
  have c: "caller_inv addr (lt_run addr as) i" and r: "routine_inv addr (lt_run addr as)"
    using lt_run_inv [of addr as] by (simp_all add: lt_inv_def)
  let ?s = "fold (lt_act addr) [CtorTurn, CtorTurn, CtorTurn] Loopthread_new"
  have "ctor ?s = Constructed" "\<not> undefined_use ?s" by (simp_all add: ctor_step_def Loopthread_new_def)
  from constructed_stays [OF this, of addr as]
  have "\<not> undefined_use (lt_run addr ([CtorTurn, CtorTurn, CtorTurn] @ as))" by (simp add: lt_run_def)
  moreover have "callers (lt_run addr as) i \<noteq> Sleeping" if "routine (lt_run addr as) = RunsLoop"
    using c r that by (auto simp: caller_inv_def routine_inv_def)
  moreover have "r = Some addr" if "callers (lt_run addr as) i = Returns r"
    using c that by (simp add: caller_inv_def)
  ultimately show ?thesis by blast
qed

theorem loopthread_handover_witness:
  "let s = lt_run 5 [CtorTurn, CtorTurn, CtorTurn, LoopTurn 0, LoopTurn 0, LoopTurn 0, LoopTurn 0, RoutineTurn,
         RoutineTurn, RoutineTurn, RoutineTurn, RoutineTurn]
   in callers s 0 = WantsMutex \<and> callers s 0 \<noteq> Sleeping"
  using loopthread_handover [of 5 "[CtorTurn, CtorTurn, CtorTurn, LoopTurn 0, LoopTurn 0, LoopTurn 0, LoopTurn 0, RoutineTurn,
         RoutineTurn, RoutineTurn, RoutineTurn, RoutineTurn]" 0]
  by (simp add: lt_run_def Loopthread_new_def ctor_step_def routine_step_def loop_step_def Let_def)

text \<open>
  \<open>mutex_\<close> and \<open>cond_\<close> are declared after \<open>thread_\<close>, so the new thread can lock a mutex that has not
  been constructed yet.
\<close>

theorem loopthread_undefined_use: "undefined_use (lt_run addr [CtorTurn, RoutineTurn, RoutineTurn])"
  by (simp add: lt_run_def Loopthread_new_def ctor_step_def routine_step_def)

section \<open>Socket\<close>

text \<open>
  The calls that set a socket up.  The kernel is a parameter: the result of a call, given the calls made so
  far.  A call is recorded with the arguments that matter; an option is the number that is passed.
\<close>

datatype syscall =
    Sys_socket
  | Sys_bind int string nat
  | Sys_listen int int
  | Sys_connect int string nat
  | Sys_setsockopt int int
  | Sys_getfl int
  | Sys_setfl int

type_synonym kernel = "syscall list \<Rightarrow> syscall \<Rightarrow> int"
type_synonym socket = "int \<times> syscall list"

definition sys :: "kernel \<Rightarrow> syscall \<Rightarrow> socket \<Rightarrow> int \<times> socket" where
  "sys os c = (\<lambda>(fd, trace). (os trace c, fd, trace @ [c]))"

text \<open>A call whose negative result makes the member return false.\<close>

definition succeeds :: "kernel \<Rightarrow> (int \<Rightarrow> syscall) \<Rightarrow> socket \<Rightarrow> bool \<times> socket" where
  "succeeds os c s = (let (r, s1) = sys os (c (fst s)) s in (\<not> r < 0, s1))"

definition Socket_Create :: "kernel \<Rightarrow> socket \<Rightarrow> bool \<times> socket" where
  "Socket_Create os s =
     (let (r, (_, trace)) = sys os Sys_socket s in (\<not> r < 0, r, trace))"

definition Socket_Bind :: "kernel \<Rightarrow> string \<Rightarrow> nat \<Rightarrow> socket \<Rightarrow> bool \<times> socket" where
  "Socket_Bind os ip port = succeeds os (\<lambda>fd. Sys_bind fd ip port)"

definition Socket_Listen :: "kernel \<Rightarrow> int \<Rightarrow> socket \<Rightarrow> bool \<times> socket" where
  "Socket_Listen os backlog = succeeds os (\<lambda>fd. Sys_listen fd backlog)"

definition Socket_Connect :: "kernel \<Rightarrow> string \<Rightarrow> nat \<Rightarrow> socket \<Rightarrow> bool \<times> socket" where
  "Socket_Connect os ip port = succeeds os (\<lambda>fd. Sys_connect fd ip port)"

text \<open>\<open>SO_REUSEADDR\<close> is 2 and \<open>SO_REUSEPORT\<close> is 15; options are numbers, not flags.\<close>

definition SetAddressReuse :: "kernel \<Rightarrow> socket \<Rightarrow> bool \<times> socket" where
  "SetAddressReuse os = succeeds os (\<lambda>fd. Sys_setsockopt fd (2 OR 15))"

definition SetNonBlock :: "kernel \<Rightarrow> socket \<Rightarrow> bool \<times> socket" where
  "SetNonBlock os s =
     (case succeeds os Sys_getfl s of
        (False, s1) \<Rightarrow> (False, s1)
      | (True, s1) \<Rightarrow> succeeds os Sys_setfl s1)"

definition andThen :: "bool \<times> socket \<Rightarrow> (socket \<Rightarrow> bool \<times> socket) \<Rightarrow> bool \<times> socket" where
  "andThen r f = (if \<not> fst r then (False, snd r) else f (snd r))"

definition CreateServer :: "kernel \<Rightarrow> nat \<Rightarrow> string \<Rightarrow> bool \<Rightarrow> socket \<Rightarrow> bool \<times> socket" where
  "CreateServer os port ip flag s =
     andThen (andThen (andThen (andThen (Socket_Create os s)
       (\<lambda>s1. if flag then SetNonBlock os s1 else (True, s1)))
       (Socket_Bind os ip port))
       (Socket_Listen os 1024))
       (SetAddressReuse os)"

definition CreateClient :: "kernel \<Rightarrow> nat \<Rightarrow> string \<Rightarrow> socket \<Rightarrow> bool \<times> socket" where
  "CreateClient os port ip s = andThen (Socket_Create os s) (Socket_Connect os ip port)"

lemmas socket_defs = CreateServer_def CreateClient_def andThen_def Socket_Create_def Socket_Bind_def Socket_Listen_def
  Socket_Connect_def SetAddressReuse_def SetNonBlock_def succeeds_def sys_def

text \<open>
  \<open>CreateServer\<close> succeeds exactly when every call does, and then it has made them in the order socket, bind,
  listen, setsockopt: the option is set when the address has been bound already, too late to have an effect on
  it, and its number is that of \<open>SO_REUSEPORT\<close> alone.
\<close>

theorem server_reuse_too_late:
  assumes "CreateServer os port ip False (- 1, []) = (ok, fd, trace)"
  shows "ok \<longleftrightarrow> fd \<ge> 0 \<and> trace = [Sys_socket, Sys_bind fd ip port, Sys_listen fd 1024, Sys_setsockopt fd 15]
      \<and> os [] Sys_socket = fd \<and> os [Sys_socket] (Sys_bind fd ip port) \<ge> 0
      \<and> os [Sys_socket, Sys_bind fd ip port] (Sys_listen fd 1024) \<ge> 0
      \<and> os [Sys_socket, Sys_bind fd ip port, Sys_listen fd 1024] (Sys_setsockopt fd 15) \<ge> 0"
proof -
  have "(2 OR 15 :: int) = 15" by simp
  then show ?thesis using assms by (auto simp: socket_defs Let_def split: if_splits)
qed

theorem server_reuse_too_late_witness:
  "snd (snd (CreateServer (\<lambda>_ _. 3) 80 ''0.0.0.0'' False (- 1, [])))
     = [Sys_socket, Sys_bind 3 ''0.0.0.0'' 80, Sys_listen 3 1024, Sys_setsockopt 3 15]"
proof -
  obtain ok fd trace where r: "CreateServer (\<lambda>_ _. 3) 80 ''0.0.0.0'' False (- 1, []) = (ok, fd, trace)"
    using prod_cases3 by blast
  moreover have "ok" "fd = 3" using r by (auto simp: socket_defs Let_def)
  ultimately show ?thesis using server_reuse_too_late [OF r] by simp
qed

text \<open>
  When a call after \<open>socket\<close> fails, \<open>CreateServer\<close> and \<open>CreateClient\<close> return false and leave the descriptor
  open in the object, which has no destructor.
\<close>

theorem socket_failure_keeps_fd:
  assumes "os [] Sys_socket = fd" "0 \<le> fd"
  shows "fst (snd (CreateServer os port ip flag (- 1, []))) = fd \<and> fst (snd (CreateClient os port ip (- 1, []))) = fd"
  using assms by (auto simp: socket_defs Let_def split: bool.split)

end
