(* ===== verification/Spin_Handover.thy ===== *)
theory Spin_Handover
  imports Prelude
begin

text \<open>
  The hand-over of descriptors from other threads to the thread of a sub-reactor
  (\<open>enqueueNewConnection\<close> and \<open>processNewConnections\<close> in muduo/src/SubReactor.cpp; the send queue
  is used in the same way), instruction by instruction and in every interleaving: the \<open>Spinlock\<close> of
  muduo/include/Utils.hpp, the vector it protects, and the pipe that wakes the reactor.  A vector
  operation is a load of the vector and a later store, so that without the lock two of them could
  overwrite each other.
\<close>

section \<open>Threads\<close>

text \<open>What a thread does with the lock held: append a descriptor, or take the whole vector.\<close>

datatype job = Push int | Take

datatype pc =
    Idle
  | Exchange job
  | Spinning job
  | Locked job
  | Loaded job "int list"
  | Stored job
  | Notify

record handover =
  lock_flag :: bool
  queue :: "int list"
  pcs :: "nat \<Rightarrow> pc"
  wake :: bool
  pushed :: "int list"
  taken :: "int list"

definition handover_new :: handover where
  "handover_new = \<lparr>lock_flag = False, queue = [], pcs = (\<lambda>_. Idle), wake = False, pushed = [], taken = []\<rparr>"

abbreviation reactor_thread :: nat where "reactor_thread \<equiv> 0"

abbreviation at_pc :: "nat \<Rightarrow> pc \<Rightarrow> handover \<Rightarrow> handover" where
  "at_pc t p s \<equiv> s\<lparr>pcs := (pcs s)(t := p)\<rparr>"

text \<open>
  \<open>Spinlock::lock\<close>: exchange the flag with true; when it was true, load it until it is false and
  try again.
\<close>

definition lock_exchange :: "nat \<Rightarrow> job \<Rightarrow> handover \<Rightarrow> handover" where
  "lock_exchange t j s =
     (if \<not> lock_flag s then at_pc t (Locked j) (s\<lparr>lock_flag := True\<rparr>)
      else at_pc t (Spinning j) (s\<lparr>lock_flag := True\<rparr>))"

definition lock_wait :: "nat \<Rightarrow> job \<Rightarrow> handover \<Rightarrow> handover" where
  "lock_wait t j s = (if lock_flag s then s else at_pc t (Exchange j) s)"

definition lock_release :: "nat \<Rightarrow> pc \<Rightarrow> handover \<Rightarrow> handover" where
  "lock_release t p s = at_pc t p (s\<lparr>lock_flag := False\<rparr>)"

text \<open>The store: \<open>push_back\<close> of one descriptor, or \<open>std::move\<close> of the whole vector.\<close>

fun store :: "nat \<Rightarrow> job \<Rightarrow> int list \<Rightarrow> handover \<Rightarrow> handover" where
  "store t (Push fd) v s = at_pc t (Stored (Push fd)) (s\<lparr>queue := v @ [fd], pushed := pushed s @ [fd]\<rparr>)"
| "store t Take v s = at_pc t (Stored Take) (s\<lparr>queue := [], taken := taken s @ v\<rparr>)"

text \<open>The next instruction of a thread; a thread that pushed goes on to write the pipe.\<close>

definition thread_step :: "nat \<Rightarrow> handover \<Rightarrow> handover option" where
  "thread_step t s =
     (case pcs s t of
        Idle \<Rightarrow> None
      | Exchange j \<Rightarrow> Some (lock_exchange t j s)
      | Spinning j \<Rightarrow> Some (lock_wait t j s)
      | Locked j \<Rightarrow> Some (at_pc t (Loaded j (queue s)) s)
      | Loaded j v \<Rightarrow> Some (store t j v s)
      | Stored j \<Rightarrow> Some (lock_release t (case j of Push _ \<Rightarrow> Notify | Take \<Rightarrow> Idle) s)
      | Notify \<Rightarrow> Some (at_pc t Idle (s\<lparr>wake := True\<rparr>)))"

text \<open>
  A thread other than the reactor calls \<open>enqueueNewConnection\<close>; the reactor starts to take the
  queue when the pipe has woken it.
\<close>

inductive handover_reach :: "handover \<Rightarrow> bool" where
  start: "handover_reach handover_new"
| begin_push: "handover_reach s \<Longrightarrow> pcs s t = Idle \<Longrightarrow> t \<noteq> reactor_thread \<Longrightarrow>
    handover_reach (at_pc t (Exchange (Push fd)) s)"
| begin_take: "handover_reach s \<Longrightarrow> pcs s reactor_thread = Idle \<Longrightarrow> wake s \<Longrightarrow>
    handover_reach (at_pc reactor_thread (Exchange Take) (s\<lparr>wake := False\<rparr>))"
| instruction: "handover_reach s \<Longrightarrow> thread_step t s = Some s' \<Longrightarrow> handover_reach s'"

section \<open>The invariant\<close>

fun holds :: "pc \<Rightarrow> bool" where
  "holds (Locked _) = True"
| "holds (Loaded _ _) = True"
| "holds (Stored _) = True"
| "holds _ = False"

text \<open>The reactor is on its way to take the queue, or a thread that stored will still write the pipe.\<close>

fun will_take :: "pc \<Rightarrow> bool" where
  "will_take (Exchange Take) = True"
| "will_take (Spinning Take) = True"
| "will_take (Locked Take) = True"
| "will_take (Loaded Take _) = True"
| "will_take _ = False"

fun will_notify :: "pc \<Rightarrow> bool" where
  "will_notify (Stored (Push _)) = True"
| "will_notify Notify = True"
| "will_notify _ = False"

definition holders :: "(nat \<Rightarrow> pc) \<Rightarrow> nat set" where
  "holders f = {t. holds (f t)}"

definition wakers :: "(nat \<Rightarrow> pc) \<Rightarrow> nat set" where
  "wakers f = {t. will_take (f t) \<or> will_notify (f t)}"

definition mutex_inv :: "handover \<Rightarrow> bool" where
  "mutex_inv s \<longleftrightarrow> (if lock_flag s then \<exists>t. holders (pcs s) = {t} else holders (pcs s) = {})"

definition data_inv :: "handover \<Rightarrow> bool" where
  "data_inv s \<longleftrightarrow> taken s @ queue s = pushed s \<and> (\<forall>t j v. pcs s t = Loaded j v \<longrightarrow> v = queue s)"

definition wake_ok :: "handover \<Rightarrow> bool" where
  "wake_ok s \<longleftrightarrow> (queue s \<noteq> [] \<longrightarrow> wake s \<or> wakers (pcs s) \<noteq> {})"

lemmas handover_ops = thread_step_def lock_exchange_def lock_wait_def lock_release_def

lemma holders_update [simp]: "holders (f(t := p)) = (if holds p then insert t (holders f) else holders f - {t})"
  by (auto simp: holders_def)

lemma wakers_update [simp]:
  "wakers (f(t := p)) = (if will_take p \<or> will_notify p then insert t (wakers f) else wakers f - {t})"
  by (auto simp: wakers_def)

lemma in_holders: "holds (pcs s t) \<longleftrightarrow> t \<in> holders (pcs s)"
  by (simp add: holders_def)

lemma in_wakers: "t \<in> wakers (pcs s) \<longleftrightarrow> will_take (pcs s t) \<or> will_notify (pcs s t)"
  by (simp add: wakers_def)

lemma step_mutex:
  assumes "mutex_inv s" "thread_step t s = Some s'"
  shows "mutex_inv s'"
proof (cases "t \<in> holders (pcs s)")
  case True
  then have h: "holders (pcs s) = {t}" "lock_flag s" "holds (pcs s t)"
    using assms(1) by (auto simp: mutex_inv_def in_holders split: if_splits)
  show ?thesis
  proof (cases "pcs s t")
    case (Loaded j v)
    then show ?thesis using h assms(2) by (cases j) (auto simp: mutex_inv_def handover_ops)
  qed (use h assms(2) in \<open>auto simp: mutex_inv_def handover_ops split: job.splits\<close>)
next
  case False
  then have n: "\<not> holds (pcs s t)" by (simp add: in_holders)
  show ?thesis
  proof (cases "lock_flag s")
    case True
    then obtain h where "holders (pcs s) = {h}" "h \<noteq> t"
      using assms(1) False by (auto simp: mutex_inv_def)
    then show ?thesis using assms(2) True n by (cases "pcs s t") (auto simp: mutex_inv_def handover_ops)
  next
    case False
    then have "holders (pcs s) = {}" using assms(1) by (simp add: mutex_inv_def)
    then show ?thesis using assms(2) False n by (cases "pcs s t") (auto simp: mutex_inv_def handover_ops)
  qed
qed

lemma step_data:
  assumes "mutex_inv s" "data_inv s" "thread_step t s = Some s'"
  shows "data_inv s'"
proof (cases "pcs s t")
  case (Loaded j v)
  then have t: "t \<in> holders (pcs s)" by (simp add: holders_def)
  have "\<not> holds (pcs s u)" if "u \<noteq> t" for u
    using t that assms(1) by (auto simp: mutex_inv_def in_holders split: if_splits)
  then have o: "pcs s u = Loaded j' v' \<Longrightarrow> u = t" for u j' v' by fastforce
  have v: "v = queue s" using Loaded assms(2) by (auto simp: data_inv_def)
  show ?thesis
  proof (cases j)
    case (Push fd)
    then have s': "s' = store t (Push fd) (queue s) s" using Loaded v assms(3) by (simp add: thread_step_def)
    show ?thesis using assms(2) o unfolding s'
      by (auto simp: data_inv_def split: if_splits simp flip: append_assoc)
  next
    case Take
    then have s': "s' = store t Take (queue s) s" using Loaded v assms(3) by (simp add: thread_step_def)
    show ?thesis using assms(2) o unfolding s' by (auto simp: data_inv_def split: if_splits)
  qed
qed (use assms(2,3) in \<open>auto simp: data_inv_def handover_ops split: if_splits job.splits\<close>)

lemma step_wake:
  assumes "wake_ok s" "thread_step t s = Some s'"
  shows "wake_ok s'"
proof (cases "pcs s t")
  case (Exchange j)
  then show ?thesis using assms in_wakers [of t s] by (cases j) (auto simp: wake_ok_def handover_ops split: if_splits)
next
  case (Spinning j)
  then show ?thesis using assms in_wakers [of t s] by (cases j) (auto simp: wake_ok_def handover_ops split: if_splits)
next
  case (Locked j)
  then show ?thesis using assms in_wakers [of t s] by (cases j) (auto simp: wake_ok_def handover_ops split: if_splits)
next
  case (Loaded j v)
  then show ?thesis using assms in_wakers [of t s] by (cases j) (auto simp: wake_ok_def thread_step_def)
next
  case (Stored j)
  then show ?thesis using assms in_wakers [of t s] by (cases j) (auto simp: wake_ok_def handover_ops split: if_splits)
qed (use assms in \<open>auto simp: wake_ok_def handover_ops\<close>)

lemma start_pcs: "holders (\<lambda>_. Idle) = {}" "wakers (\<lambda>_. Idle) = {}"
  by (simp_all add: holders_def wakers_def)

lemma reach_invs: "handover_reach s \<Longrightarrow> mutex_inv s \<and> data_inv s \<and> wake_ok s"
proof (induction rule: handover_reach.induct)
  case start
  then show ?case by (simp add: handover_new_def mutex_inv_def data_inv_def wake_ok_def start_pcs)
next
  case (begin_push s t fd)
  then have "t \<notin> holders (pcs s)" "t \<notin> wakers (pcs s)" by (simp_all add: holders_def wakers_def)
  then show ?case using begin_push by (auto simp: mutex_inv_def data_inv_def wake_ok_def split: if_splits)
next
  case (begin_take s)
  then have "0 \<notin> holders (pcs s)" by (simp add: holders_def)
  then show ?case using begin_take by (auto simp: mutex_inv_def data_inv_def wake_ok_def split: if_splits)
next
  case (instruction s t s')
  then show ?case by (blast intro: step_mutex step_data step_wake)
qed

section \<open>Properties\<close>

text \<open>
  In every interleaving at most one thread is between acquiring and releasing the spinlock,
  and a thread that has loaded the vector still sees the current vector when it stores.
\<close>

theorem spinlock_exclusive:
  assumes "handover_reach s"
  shows "(holds (pcs s t) \<and> holds (pcs s u) \<longrightarrow> t = u) \<and> (pcs s t = Loaded j v \<longrightarrow> v = queue s)"
  using reach_invs [OF assms] by (auto simp: mutex_inv_def data_inv_def in_holders split: if_splits)

definition one_locked :: handover where
  "one_locked = handover_new\<lparr>lock_flag := True, pcs := (\<lambda>_. Idle)(1 := Loaded (Push 7) [])\<rparr>"

lemma one_locked_reach: "handover_reach one_locked"
proof -
  have r1: "handover_reach (at_pc 1 (Exchange (Push 7)) handover_new)"
    by (rule handover_reach.begin_push [OF handover_reach.start]) (simp_all add: handover_new_def)
  have r2: "handover_reach (at_pc 1 (Locked (Push 7)) (handover_new\<lparr>lock_flag := True\<rparr>))"
    by (rule handover_reach.instruction [OF r1, of 1]) (simp add: handover_ops handover_new_def)
  show ?thesis
    by (rule handover_reach.instruction [OF r2, of 1]) (simp add: handover_ops handover_new_def one_locked_def)
qed

theorem spinlock_exclusive_witness: "pcs one_locked 1 = Loaded (Push 7) [] \<and> [] = queue one_locked"
proof -
  have "pcs one_locked 1 = Loaded (Push 7) []" by (simp add: one_locked_def)
  then show ?thesis using spinlock_exclusive [OF one_locked_reach, of 1 1 "Push 7" "[]"] by blast
qed

text \<open>
  C18. In every interleaving the descriptors taken by the reactor followed by those still queued are
  exactly the descriptors pushed, in order; and while any is queued, the reactor has a wake-up
  pending, is on its way to take the queue, or a pushing thread has yet to write the pipe.
\<close>

theorem handover_exact:
  assumes "handover_reach s"
  shows "taken s @ queue s = pushed s
    \<and> (queue s \<noteq> [] \<longrightarrow> wake s \<or> (\<exists>t. will_take (pcs s t) \<or> will_notify (pcs s t)))"
  using reach_invs [OF assms] by (auto simp: data_inv_def wake_ok_def wakers_def)

definition one_stored :: handover where
  "one_stored = handover_new\<lparr>lock_flag := True, pcs := (\<lambda>_. Idle)(1 := Stored (Push 7)), queue := [7], pushed := [7]\<rparr>"

theorem handover_exact_witness:
  "queue one_stored = [7] \<and> taken one_stored @ queue one_stored = pushed one_stored
   \<and> (\<exists>t. will_take (pcs one_stored t) \<or> will_notify (pcs one_stored t))"
proof -
  have "handover_reach one_stored"
    by (rule handover_reach.instruction [OF one_locked_reach, of 1])
       (simp add: handover_ops handover_new_def one_locked_def one_stored_def)
  from handover_exact [OF this] show ?thesis by (simp add: one_stored_def handover_new_def)
qed

text \<open>
  C20. The hand-over never deadlocks: as long as some thread is inside one of the two operations,
  some thread has an instruction that changes the state.
\<close>

theorem handover_progress:
  assumes "handover_reach s" "pcs s t \<noteq> Idle"
  shows "\<exists>u s'. thread_step u s = Some s' \<and> s' \<noteq> s"
proof -
  have move: "\<exists>s'. thread_step u s = Some s' \<and> s' \<noteq> s"
    if "pcs s u \<noteq> Idle" "\<And>j. pcs s u = Spinning j \<Longrightarrow> \<not> lock_flag s" for u
  proof -
    have "thread_step u s \<noteq> None" using that(1) by (cases "pcs s u") (simp_all add: thread_step_def)
    then obtain s' where s': "thread_step u s = Some s'" by blast
    have "pcs s' u \<noteq> pcs s u"
    proof (cases "pcs s u")
      case (Loaded j v)
      then show ?thesis using s' by (cases j) (auto simp: handover_ops)
    qed (use s' that in \<open>auto simp: handover_ops split: if_splits job.splits\<close>)
    then show ?thesis using s' by auto
  qed
  show ?thesis
  proof (cases "lock_flag s")
    case True
    then obtain u where "u \<in> holders (pcs s)" using reach_invs [OF assms(1)] by (auto simp: mutex_inv_def)
    then have "holds (pcs s u)" by (simp add: holders_def)
    then show ?thesis using move [of u] by (cases "pcs s u") auto
  qed (use move [OF assms(2)] in blast)
qed

theorem handover_progress_witness: "\<exists>u s'. thread_step u one_locked = Some s' \<and> s' \<noteq> one_locked"
  by (rule handover_progress [OF one_locked_reach, of 1]) (simp add: one_locked_def)

end
