(* ===== verification/Mpsc_Ring.thy ===== *)
theory Mpsc_Ring
  imports Prelude
begin

text \<open>
  \<open>MPSCRingBuffer\<close> of ihs/include/kk.hpp with any number of producers and one consumer, access by
  access to the shared variables and in every interleaving (sequentially consistent).  A slot
  carries a sequence number: \<open>k\<close> when it is free for ticket \<open>k\<close>, \<open>k + 1\<close> when the item of ticket
  \<open>k\<close> is in it.  \<open>BufferSize\<close> is a power of two, so the mask is a remainder.  The 64-bit counters
  count operations and are natural numbers here; they would wrap after \<open>2 ^ 64\<close> of them.
  \<open>claimed\<close> and \<open>popped\<close> are history: the items in the order in which a ticket was taken for them,
  and the items the consumer has got.
\<close>

section \<open>State and steps\<close>

text \<open>The points of \<open>push\<close>, with the item and \<open>current_tail\<close>.\<close>

datatype 'a push_pc =
    PushIdle
  | LoadTail 'a
  | LoadSequence 'a nat
  | ExchangeTail 'a nat
  | WriteData 'a nat
  | PublishSlot 'a nat

datatype 'a pop_pc = PopIdle | ReadData | ResetSlot 'a | AdvanceHead 'a

record 'a MPSCRingBuffer =
  sequence :: "nat \<Rightarrow> nat"
  slot_data :: "nat \<Rightarrow> 'a option"
  ring_head :: nat
  ring_tail :: nat
  push_pcs :: "nat \<Rightarrow> 'a push_pc"
  pop_pc :: "'a pop_pc"
  claimed :: "'a list"
  popped :: "'a list"

definition MPSCRingBuffer_new :: "nat \<Rightarrow> 'a MPSCRingBuffer" where
  "MPSCRingBuffer_new n = \<lparr>sequence = (\<lambda>i. i), slot_data = (\<lambda>_. None), ring_head = 0, ring_tail = 0,
     push_pcs = (\<lambda>_. PushIdle), pop_pc = PopIdle, claimed = [], popped = []\<rparr>"

abbreviation push_at :: "nat \<Rightarrow> 'a push_pc \<Rightarrow> 'a MPSCRingBuffer \<Rightarrow> 'a MPSCRingBuffer" where
  "push_at t p s \<equiv> s\<lparr>push_pcs := (push_pcs s)(t := p)\<rparr>"

text \<open>
  One access of producer \<open>t\<close>.  \<open>compare_exchange_weak\<close> may fail although the value is the expected
  one (\<open>spurious\<close>); when it fails it loads the value into \<open>current_tail\<close>.
\<close>

definition push_step :: "nat \<Rightarrow> bool \<Rightarrow> nat \<Rightarrow> 'a MPSCRingBuffer \<Rightarrow> 'a MPSCRingBuffer option" where
  "push_step n spurious t s =
     (case push_pcs s t of
        PushIdle \<Rightarrow> None
      | LoadTail x \<Rightarrow> Some (push_at t (LoadSequence x (ring_tail s)) s)
      | LoadSequence x c \<Rightarrow>
          let diff = int (sequence s (c mod n)) - int c
          in Some (push_at t (if diff = 0 then ExchangeTail x c
                              else if diff < 0 then PushIdle else LoadTail x) s)
      | ExchangeTail x c \<Rightarrow>
          if ring_tail s = c \<and> \<not> spurious
          then Some (push_at t (WriteData x c) (s\<lparr>ring_tail := c + 1, claimed := claimed s @ [x]\<rparr>))
          else Some (push_at t (LoadSequence x (ring_tail s)) s)
      | WriteData x c \<Rightarrow> Some (push_at t (PublishSlot x c) (s\<lparr>slot_data := (slot_data s)(c mod n := Some x)\<rparr>))
      | PublishSlot x c \<Rightarrow> Some (push_at t PushIdle (s\<lparr>sequence := (sequence s)(c mod n := c + 1)\<rparr>)))"

text \<open>One access of the consumer; it alone writes \<open>head_\<close>.\<close>

definition pop_step :: "nat \<Rightarrow> 'a MPSCRingBuffer \<Rightarrow> 'a MPSCRingBuffer" where
  "pop_step n s =
     (let i = ring_head s mod n
      in case pop_pc s of
           PopIdle \<Rightarrow> if sequence s i \<noteq> ring_head s + 1 then s else s\<lparr>pop_pc := ReadData\<rparr>
         | ReadData \<Rightarrow> (case slot_data s i of None \<Rightarrow> s | Some x \<Rightarrow> s\<lparr>pop_pc := ResetSlot x\<rparr>)
         | ResetSlot x \<Rightarrow> s\<lparr>sequence := (sequence s)(i := ring_head s + n), pop_pc := AdvanceHead x\<rparr>
         | AdvanceHead x \<Rightarrow> s\<lparr>ring_head := ring_head s + 1, pop_pc := PopIdle, popped := popped s @ [x]\<rparr>)"

text \<open>What the threads can do: enter \<open>push\<close>, one access of a producer, one access of the consumer.\<close>

datatype 'a mpsc_action = BeginPush nat 'a | PushStep bool nat | PopStep

fun mpsc_act :: "nat \<Rightarrow> 'a mpsc_action \<Rightarrow> 'a MPSCRingBuffer \<Rightarrow> 'a MPSCRingBuffer option" where
  "mpsc_act n (BeginPush t x) s =
     (if push_pcs s t = PushIdle then Some (push_at t (LoadTail x) s) else None)"
| "mpsc_act n (PushStep spurious t) s = push_step n spurious t s"
| "mpsc_act n PopStep s = Some (pop_step n s)"

fun mpsc_run :: "nat \<Rightarrow> 'a mpsc_action list \<Rightarrow> 'a MPSCRingBuffer \<Rightarrow> 'a MPSCRingBuffer option" where
  "mpsc_run n [] s = Some s"
| "mpsc_run n (a # as) s = Option.bind (mpsc_act n a s) (mpsc_run n as)"

lemma mpsc_run_induct [consumes 1, case_names start act]:
  assumes "mpsc_run n as s = Some s'" "P s"
    and "\<And>a s s'. P s \<Longrightarrow> mpsc_act n a s = Some s' \<Longrightarrow> P s'"
  shows "P s'"
  using assms(1,2) by (induction as arbitrary: s) (auto split: bind_splits intro: assms(3))

section \<open>The invariant\<close>

text \<open>The ticket a producer has taken and not yet published, with its item.\<close>

fun ticket :: "'a push_pc \<Rightarrow> (nat \<times> 'a) option" where
  "ticket (WriteData x c) = Some (c, x)"
| "ticket (PublishSlot x c) = Some (c, x)"
| "ticket _ = None"

text \<open>The first ticket whose slot has not been given back yet.\<close>

definition low :: "'a MPSCRingBuffer \<Rightarrow> nat" where
  "low s = (case pop_pc s of AdvanceHead _ \<Rightarrow> ring_head s + 1 | _ \<Rightarrow> ring_head s)"

definition pending :: "'a MPSCRingBuffer \<Rightarrow> nat \<Rightarrow> bool" where
  "pending s k \<longleftrightarrow> (\<exists>t x. ticket (push_pcs s t) = Some (k, x))"

definition slots_inv :: "nat \<Rightarrow> 'a MPSCRingBuffer \<Rightarrow> bool" where
  "slots_inv n s \<longleftrightarrow> (\<forall>k. low s \<le> k \<and> k < low s + n \<longrightarrow>
     (if ring_tail s \<le> k \<or> pending s k then sequence s (k mod n) = k
      else sequence s (k mod n) = k + 1 \<and> slot_data s (k mod n) = Some (claimed s ! k)))"

definition tickets_inv :: "nat \<Rightarrow> 'a MPSCRingBuffer \<Rightarrow> bool" where
  "tickets_inv n s \<longleftrightarrow> (\<forall>t k x. ticket (push_pcs s t) = Some (k, x) \<longrightarrow>
       low s \<le> k \<and> k < ring_tail s \<and> x = claimed s ! k
       \<and> (push_pcs s t = PublishSlot x k \<longrightarrow> slot_data s (k mod n) = Some x)
       \<and> (\<forall>u y. ticket (push_pcs s u) = Some (k, y) \<longrightarrow> u = t))
     \<and> (\<forall>t x c. push_pcs s t = ExchangeTail x c \<longrightarrow> c \<le> sequence s (c mod n))"

definition pop_inv :: "nat \<Rightarrow> 'a MPSCRingBuffer \<Rightarrow> bool" where
  "pop_inv n s \<longleftrightarrow> (case pop_pc s of
       PopIdle \<Rightarrow> True
     | ReadData \<Rightarrow> sequence s (ring_head s mod n) = ring_head s + 1
     | ResetSlot x \<Rightarrow> sequence s (ring_head s mod n) = ring_head s + 1 \<and> x = claimed s ! ring_head s
     | AdvanceHead x \<Rightarrow> ring_head s < ring_tail s \<and> x = claimed s ! ring_head s)"

definition tally_inv :: "nat \<Rightarrow> 'a MPSCRingBuffer \<Rightarrow> bool" where
  "tally_inv n s \<longleftrightarrow> ring_tail s = length (claimed s) \<and> low s \<le> ring_tail s \<and> ring_tail s \<le> low s + n
     \<and> popped s = take (ring_head s) (claimed s)"

definition mpsc_inv :: "nat \<Rightarrow> 'a MPSCRingBuffer \<Rightarrow> bool" where
  "mpsc_inv n s \<longleftrightarrow> slots_inv n s \<and> tickets_inv n s \<and> pop_inv n s \<and> tally_inv n s"

text \<open>Two tickets of one window that use the same slot are the same ticket.\<close>

lemma window_inj:
  assumes "l \<le> j" "j < l + n" "l \<le> k" "k < l + n" "j mod n = k mod n"
  shows "j = (k :: nat)"
proof (rule ccontr)
  assume "j \<noteq> k"
  moreover have "(if j < k then k - j else j - k) < n" using assms by auto
  moreover have "n dvd (if j < k then k - j else j - k)"
    using assms(5) by (auto simp: mod_eq_dvd_iff_nat dest: sym)
  ultimately show False by (auto dest!: dvd_imp_le split: if_splits)
qed

lemma low_push [simp]: "low (push_at t p s) = low s"
  by (simp add: low_def split: pop_pc.split)

lemma pending_others:
  assumes "push_pcs s' = (push_pcs s)(t := p)"
    and "\<And>x. ticket (push_pcs s t) \<noteq> Some (k, x)" "\<And>x. ticket p \<noteq> Some (k, x)"
  shows "pending s' k = pending s k"
  unfolding pending_def assms(1) using assms(2,3) by (metis fun_upd_apply)

text \<open>A producer that has no ticket before and after a step, which changes nothing else.\<close>

lemma ring_quiet_step:
  assumes inv: "mpsc_inv n s" and none: "ticket (push_pcs s t) = None" "ticket p = None"
    and ex: "\<And>x c. p = ExchangeTail x c \<Longrightarrow> c \<le> sequence s (c mod n)"
  shows "mpsc_inv n (push_at t p s)"
proof -
  let ?s = "push_at t p s"
  have tick: "ticket (push_pcs ?s u) = ticket (push_pcs s u)" for u using none by simp
  have "slots_inv n ?s" 
    using inv pending_others [of ?s s t p] none by (simp add: mpsc_inv_def slots_inv_def)
  moreover have "tickets_inv n ?s"
    unfolding tickets_inv_def
  proof (intro conjI allI impI)
    fix u k x assume tk: "ticket (push_pcs ?s u) = Some (k, x)"
    then have tks: "ticket (push_pcs s u) = Some (k, x)" and u: "u \<noteq> t" using tick none by auto
    note t = inv [unfolded mpsc_inv_def tickets_inv_def, THEN conjunct2, THEN conjunct1, THEN conjunct1,
        rule_format, OF tks]
    show "low ?s \<le> k" "k < ring_tail ?s" "x = claimed ?s ! k" using t by simp_all
    show "slot_data ?s (k mod n) = Some x" if "push_pcs ?s u = PublishSlot x k" using t that u by simp
    show "v = u" if "ticket (push_pcs ?s v) = Some (k, y)" for v y using t that tick by metis
  next
    fix u x c assume "push_pcs ?s u = ExchangeTail x c"
    then show "c \<le> sequence ?s (c mod n)"
      using inv ex by (auto simp: mpsc_inv_def tickets_inv_def split: if_splits)
  qed
  moreover have "pop_inv n ?s" "tally_inv n ?s"
    using inv by (auto simp: mpsc_inv_def pop_inv_def tally_inv_def split: pop_pc.splits)
  ultimately show ?thesis by (simp add: mpsc_inv_def)
qed

text \<open>What the invariant says about a ticket and about the slot of a ticket in the window.\<close>

lemma ticketD:
  assumes "mpsc_inv n s" "ticket (push_pcs s t) = Some (k, x)"
  shows "low s \<le> k" "k < ring_tail s" "k < low s + n" "x = claimed s ! k" "pending s k"
    "sequence s (k mod n) = k" "push_pcs s t = PublishSlot x k \<Longrightarrow> slot_data s (k mod n) = Some x"
    "\<And>u y. ticket (push_pcs s u) = Some (k, y) \<Longrightarrow> u = t"
proof -
  have t: "low s \<le> k \<and> k < ring_tail s \<and> x = claimed s ! k
      \<and> (push_pcs s t = PublishSlot x k \<longrightarrow> slot_data s (k mod n) = Some x)
      \<and> (\<forall>u y. ticket (push_pcs s u) = Some (k, y) \<longrightarrow> u = t)"
    using assms unfolding mpsc_inv_def tickets_inv_def by blast
  then show "low s \<le> k" "k < ring_tail s" "x = claimed s ! k"
    "push_pcs s t = PublishSlot x k \<Longrightarrow> slot_data s (k mod n) = Some x"
    "\<And>u y. ticket (push_pcs s u) = Some (k, y) \<Longrightarrow> u = t" by auto
  show w: "k < low s + n" using t assms(1) by (auto simp: mpsc_inv_def tally_inv_def)
  show p: "pending s k" using assms(2) by (auto simp: pending_def)
  show "sequence s (k mod n) = k" using assms(1) t w p by (auto simp: mpsc_inv_def slots_inv_def)
qed

lemma slotD:
  assumes "mpsc_inv n s" "low s \<le> k" "k < low s + n"
  shows "ring_tail s \<le> k \<or> pending s k \<Longrightarrow> sequence s (k mod n) = k"
    and "\<not> (ring_tail s \<le> k \<or> pending s k) \<Longrightarrow>
      sequence s (k mod n) = k + 1 \<and> slot_data s (k mod n) = Some (claimed s ! k)"
  using assms unfolding mpsc_inv_def slots_inv_def by auto

text \<open>When the exchange succeeds, the slot of the ticket is free.\<close>

lemma exchange_free:
  assumes inv: "mpsc_inv n s" and n: "2 \<le> n" and pc: "push_pcs s t = ExchangeTail x c" and c: "ring_tail s = c"
  shows "low s \<le> c \<and> c < low s + n"
proof -
  have le: "low s \<le> c" "c \<le> low s + n" and seq: "c \<le> sequence s (c mod n)"
    using inv pc c by (auto simp: mpsc_inv_def tally_inv_def tickets_inv_def)
  have "c \<noteq> low s + n"
  proof
    assume full: "c = low s + n"
    then have "sequence s (c mod n) = sequence s (low s mod n)" by simp
    moreover have "sequence s (low s mod n) \<le> low s + 1"
      using slotD [OF inv, of "low s"] n by (cases "ring_tail s \<le> low s \<or> pending s (low s)") auto
    ultimately show False using seq full n by simp
  qed
  then show ?thesis using le by simp
qed

section \<open>The steps of a producer\<close>

lemma exchange_slots:
  assumes inv: "mpsc_inv n s" and n: "2 \<le> n" and pc: "push_pcs s t = ExchangeTail x c" and c: "ring_tail s = c"
  shows "slots_inv n (push_at t (WriteData x c) (s\<lparr>ring_tail := c + 1, claimed := claimed s @ [x]\<rparr>))"
proof -
  let ?s = "push_at t (WriteData x c) (s\<lparr>ring_tail := c + 1, claimed := claimed s @ [x]\<rparr>)"
  have free: "low s \<le> c" "c < low s + n" using exchange_free [OF inv n pc c] by auto
  have len: "length (claimed s) = c" using inv c by (auto simp: mpsc_inv_def tally_inv_def)
  have low: "low ?s = low s" by (simp add: low_def split: pop_pc.split)
  have old: "claimed ?s ! k = claimed s ! k" if "k < c" for k using that len by (simp add: nth_append)
  have pend: "pending ?s k = pending s k" if "k \<noteq> c" for k
    by (rule pending_others [of ?s s t "WriteData x c"]) (use that pc in auto)
  have pendc: "pending ?s c" unfolding pending_def by (auto intro!: exI [of _ t])
  show ?thesis
    unfolding slots_inv_def
  proof (intro allI impI)
    fix k assume "low ?s \<le> k \<and> k < low ?s + n"
    then have k: "low s \<le> k" "k < low s + n" using low by auto
    show "if ring_tail ?s \<le> k \<or> pending ?s k then sequence ?s (k mod n) = k
        else sequence ?s (k mod n) = k + 1 \<and> slot_data ?s (k mod n) = Some (claimed ?s ! k)"
    proof (cases "k < c")
      case True
      then have "ring_tail ?s \<le> k \<or> pending ?s k \<longleftrightarrow> ring_tail s \<le> k \<or> pending s k" using pend c by auto
      moreover have "if ring_tail s \<le> k \<or> pending s k then sequence s (k mod n) = k
          else sequence s (k mod n) = k + 1 \<and> slot_data s (k mod n) = Some (claimed s ! k)"
        using inv k by (simp add: mpsc_inv_def slots_inv_def)
      ultimately show ?thesis using old [OF True] by simp
    next
      case False
      then have "ring_tail ?s \<le> k \<or> pending ?s k" using pendc by (cases "k = c") auto
      moreover have "sequence s (k mod n) = k" by (rule slotD(1) [OF inv k]) (use False c in simp)
      ultimately show ?thesis by simp
    qed
  qed
qed

lemma exchange_tickets:
  assumes inv: "mpsc_inv n s" and n: "2 \<le> n" and pc: "push_pcs s t = ExchangeTail x c" and c: "ring_tail s = c"
  shows "tickets_inv n (push_at t (WriteData x c) (s\<lparr>ring_tail := c + 1, claimed := claimed s @ [x]\<rparr>))"
proof -
  let ?s = "push_at t (WriteData x c) (s\<lparr>ring_tail := c + 1, claimed := claimed s @ [x]\<rparr>)"
  have free: "low s \<le> c" "c < low s + n" using exchange_free [OF inv n pc c] by auto
  have len: "length (claimed s) = c" using inv c by (auto simp: mpsc_inv_def tally_inv_def)
  have low: "low ?s = low s" by (simp add: low_def split: pop_pc.split)
  have old: "claimed ?s ! k = claimed s ! k" if "k < c" for k using that len by (simp add: nth_append)
  show ?thesis
    unfolding tickets_inv_def
  proof (intro conjI allI impI)
    fix u k y assume tk: "ticket (push_pcs ?s u) = Some (k, y)"
    have own: "k = c \<and> y = x" if "u = t" using tk that by simp
    have other: "ticket (push_pcs s u) = Some (k, y)" if "u \<noteq> t" using tk that by simp
    have less: "k < c" if "u \<noteq> t" using ticketD(2) [OF inv other [OF that]] c by simp
    show "low ?s \<le> k" using own free(1) low ticketD(1) [OF inv other] by (cases "u = t") auto
    show "k < ring_tail ?s" using own less by (cases "u = t") auto
    show "y = claimed ?s ! k" using own len ticketD(4) [OF inv other] old [OF less] by (cases "u = t") auto
    show "slot_data ?s (k mod n) = Some y" if "push_pcs ?s u = PublishSlot y k"
      using that ticketD(7) [OF inv other] by (cases "u = t") auto
    show "v = u" if v: "ticket (push_pcs ?s v) = Some (k, z)" for v z
    proof (cases "u = t \<or> v = t")
      case True
      have "v \<noteq> t \<Longrightarrow> k < c" using ticketD(2) [OF inv, of v k z] v c by simp
      then show ?thesis using True own less v by fastforce
    next
      case False
      then show ?thesis using ticketD(8) [OF inv other, of v z] v by simp
    qed
  next
    fix u y d assume "push_pcs ?s u = ExchangeTail y d"
    then show "d \<le> sequence ?s (d mod n)"
      using inv by (auto simp: mpsc_inv_def tickets_inv_def split: if_splits)
  qed
qed

lemma exchange_step:
  assumes inv: "mpsc_inv n s" and n: "2 \<le> n" and pc: "push_pcs s t = ExchangeTail x c" and c: "ring_tail s = c"
  shows "mpsc_inv n (push_at t (WriteData x c) (s\<lparr>ring_tail := c + 1, claimed := claimed s @ [x]\<rparr>))"
proof -
  let ?s = "push_at t (WriteData x c) (s\<lparr>ring_tail := c + 1, claimed := claimed s @ [x]\<rparr>)"
  have free: "low s \<le> c" "c < low s + n" using exchange_free [OF inv n pc c] by auto
  have len: "length (claimed s) = c" using inv c by (auto simp: mpsc_inv_def tally_inv_def)
  have low: "low ?s = low s" by (simp add: low_def split: pop_pc.split)
  have pop: "popped s = take (ring_head s) (claimed s)" using inv by (auto simp: mpsc_inv_def tally_inv_def)
  have head: "ring_head s \<le> low s" by (simp add: low_def split: pop_pc.split)
  have "pop_inv n ?s"
  proof -
    have "ring_head s < c" if "pop_pc s = ReadData \<or> (\<exists>y. pop_pc s = ResetSlot y)"
    proof -
      have "low s = ring_head s" "sequence s (ring_head s mod n) = ring_head s + 1"
        using that inv by (auto simp: low_def mpsc_inv_def pop_inv_def)
      then show ?thesis using slotD(1) [OF inv, of "ring_head s"] n c by fastforce
    qed
    then show ?thesis using inv len c
      by (auto simp: mpsc_inv_def pop_inv_def nth_append split: pop_pc.splits)
  qed
  moreover have "tally_inv n ?s" using free len pop head low by (simp add: tally_inv_def)
  ultimately show ?thesis
    using exchange_slots [OF inv n pc c] exchange_tickets [OF inv n pc c] by (simp add: mpsc_inv_def)
qed

text \<open>A ticket's slot is used by no other ticket of the window.\<close>

lemma other_slot:
  assumes "mpsc_inv n s" "ticket (push_pcs s t) = Some (c, x)" "low s \<le> k" "k < low s + n" "k \<noteq> c"
  shows "k mod n \<noteq> c mod n"
  using window_inj [of "low s" k n c] ticketD(1,3) [OF assms(1,2)] assms(3-5) by blast

lemma write_step:
  assumes inv: "mpsc_inv n s" and pc: "push_pcs s t = WriteData x c"
  shows "mpsc_inv n (push_at t (PublishSlot x c) (s\<lparr>slot_data := (slot_data s)(c mod n := Some x)\<rparr>))"
proof -
  let ?s = "push_at t (PublishSlot x c) (s\<lparr>slot_data := (slot_data s)(c mod n := Some x)\<rparr>)"
  have tk: "ticket (push_pcs s t) = Some (c, x)" using pc by simp
  have low: "low ?s = low s" by (simp add: low_def split: pop_pc.split)
  have same: "ticket (push_pcs ?s u) = ticket (push_pcs s u)" for u using pc by simp
  then have pend: "pending ?s k = pending s k" for k by (simp add: pending_def)
  have "slots_inv n ?s"
    unfolding slots_inv_def
  proof (intro allI impI)
    fix k assume "low ?s \<le> k \<and> k < low ?s + n"
    then have k: "low s \<le> k" "k < low s + n" using low by auto
    have "k mod n \<noteq> c mod n" if "\<not> pending s k"
      using other_slot [OF inv tk k] that ticketD(5) [OF inv tk] by blast
    then show "if ring_tail ?s \<le> k \<or> pending ?s k then sequence ?s (k mod n) = k
        else sequence ?s (k mod n) = k + 1 \<and> slot_data ?s (k mod n) = Some (claimed ?s ! k)"
      using inv k pend by (simp add: mpsc_inv_def slots_inv_def)
  qed
  moreover have "tickets_inv n ?s"
    unfolding tickets_inv_def
  proof (intro conjI allI impI)
    fix u k y assume "ticket (push_pcs ?s u) = Some (k, y)"
    then have u: "ticket (push_pcs s u) = Some (k, y)" using same by metis
    show "low ?s \<le> k" "k < ring_tail ?s" "y = claimed ?s ! k"
      using ticketD(1,2,4) [OF inv u] low by simp_all
    show "slot_data ?s (k mod n) = Some y" if "push_pcs ?s u = PublishSlot y k"
    proof (cases "u = t")
      case False
      then have "k \<noteq> c" using ticketD(8) [OF inv u, of t x] tk by blast
      then have "k mod n \<noteq> c mod n" using other_slot [OF inv tk] ticketD(1,3) [OF inv u] by blast
      then show ?thesis using ticketD(7) [OF inv u] that False by simp
    qed (use that in simp)
    show "v = u" if "ticket (push_pcs ?s v) = Some (k, z)" for v z
      using ticketD(8) [OF inv u, of v z] that same by metis
  next
    fix u y d assume "push_pcs ?s u = ExchangeTail y d"
    then show "d \<le> sequence ?s (d mod n)"
      using inv by (auto simp: mpsc_inv_def tickets_inv_def split: if_splits)
  qed
  moreover have "pop_inv n ?s" "tally_inv n ?s"
    using inv low by (auto simp: mpsc_inv_def pop_inv_def tally_inv_def split: pop_pc.splits)
  ultimately show ?thesis by (simp add: mpsc_inv_def)
qed

lemma publish_step:
  assumes inv: "mpsc_inv n s" and pc: "push_pcs s t = PublishSlot x c" and n: "0 < n"
  shows "mpsc_inv n (push_at t PushIdle (s\<lparr>sequence := (sequence s)(c mod n := c + 1)\<rparr>))"
proof -
  let ?s = "push_at t PushIdle (s\<lparr>sequence := (sequence s)(c mod n := c + 1)\<rparr>)"
  have tk: "ticket (push_pcs s t) = Some (c, x)" using pc by simp
  note own = ticketD [OF inv tk]
  have low: "low ?s = low s" by (simp add: low_def split: pop_pc.split)
  have pend: "pending ?s k = pending s k" if "k \<noteq> c" for k
    by (rule pending_others [of ?s s t PushIdle]) (use that pc in auto)
  have gone: "\<not> pending ?s c"
    unfolding pending_def using own(8) by (auto split: if_splits)
  have "slots_inv n ?s"
    unfolding slots_inv_def
  proof (intro allI impI)
    fix k assume "low ?s \<le> k \<and> k < low ?s + n"
    then have k: "low s \<le> k" "k < low s + n" using low by auto
    show "if ring_tail ?s \<le> k \<or> pending ?s k then sequence ?s (k mod n) = k
        else sequence ?s (k mod n) = k + 1 \<and> slot_data ?s (k mod n) = Some (claimed ?s ! k)"
    proof (cases "k = c")
      case True
      then show ?thesis using gone own(2,4) own(7) [OF pc] by simp
    next
      case False
      then show ?thesis
        using inv k pend [OF False] other_slot [OF inv tk k False] by (simp add: mpsc_inv_def slots_inv_def)
    qed
  qed
  moreover have "tickets_inv n ?s"
    unfolding tickets_inv_def
  proof (intro conjI allI impI)
    fix u k y assume u': "ticket (push_pcs ?s u) = Some (k, y)"
    then have ut: "u \<noteq> t" and u: "ticket (push_pcs s u) = Some (k, y)" by (auto split: if_splits)
    show "low ?s \<le> k" "k < ring_tail ?s" "y = claimed ?s ! k"
      using ticketD(1,2,4) [OF inv u] low by simp_all
    show "slot_data ?s (k mod n) = Some y" if "push_pcs ?s u = PublishSlot y k"
      using ticketD(7) [OF inv u] that ut by simp
    show "v = u" if "ticket (push_pcs ?s v) = Some (k, z)" for v z
      using ticketD(8) [OF inv u, of v z] that by (simp split: if_splits)
  next
    fix u y d assume "push_pcs ?s u = ExchangeTail y d"
    then have "d \<le> sequence s (d mod n)"
      using inv by (auto simp: mpsc_inv_def tickets_inv_def split: if_splits)
    then show "d \<le> sequence ?s (d mod n)" using own(6) by (cases "d mod n = c mod n") simp_all
  qed
  moreover have "pop_inv n ?s"
  proof -
    have "ring_head s mod n \<noteq> c mod n" if "low s = ring_head s" "sequence s (ring_head s mod n) = ring_head s + 1"
      using other_slot [OF inv tk, of "ring_head s"] that own(6) n by fastforce
    moreover have "low s = ring_head s" if "\<nexists>y. pop_pc s = AdvanceHead y"
      using that by (auto simp: low_def split: pop_pc.split)
    ultimately show ?thesis
      using inv unfolding mpsc_inv_def pop_inv_def by (cases "pop_pc s") auto
  qed
  moreover have "tally_inv n ?s" using inv low by (simp add: mpsc_inv_def tally_inv_def)
  ultimately show ?thesis by (simp add: mpsc_inv_def)
qed

text \<open>Every step of a producer keeps the invariant when there are two slots or more.\<close>

lemma push_step_inv:
  assumes inv: "mpsc_inv n s" and n: "2 \<le> n" and st: "push_step n sp t s = Some s'"
  shows "mpsc_inv n s'"
proof (cases "push_pcs s t")
  case PushIdle
  then show ?thesis using st by (simp add: push_step_def)
next
  case (LoadTail x)
  then show ?thesis using st by (auto simp: push_step_def intro!: ring_quiet_step [OF inv])
next
  case (LoadSequence x c)
  let ?p = "if int (sequence s (c mod n)) - int c = 0 then ExchangeTail x c
    else if int (sequence s (c mod n)) - int c < 0 then PushIdle else LoadTail x"
  have "s' = push_at t ?p s" using st LoadSequence by (simp add: push_step_def Let_def)
  moreover have "mpsc_inv n (push_at t ?p s)"
    by (rule ring_quiet_step [OF inv]) (use LoadSequence in \<open>auto split: if_splits\<close>)
  ultimately show ?thesis by simp
next
  case (ExchangeTail x c)
  show ?thesis
  proof (cases "ring_tail s = c \<and> \<not> sp")
    case True
    then show ?thesis using st ExchangeTail exchange_step [OF inv n ExchangeTail] by (simp add: push_step_def)
  next
    case False
    then have "s' = push_at t (LoadSequence x (ring_tail s)) s"
      using st ExchangeTail by (auto simp: push_step_def split: if_splits)
    moreover have "mpsc_inv n (push_at t (LoadSequence x (ring_tail s)) s)"
      by (rule ring_quiet_step [OF inv]) (use ExchangeTail in auto)
    ultimately show ?thesis by simp
  qed
next
  case (WriteData x c)
  then show ?thesis using st write_step [OF inv WriteData] by (simp add: push_step_def)
next
  case (PublishSlot x c)
  then show ?thesis using st n publish_step [OF inv PublishSlot] by (simp add: push_step_def)
qed

section \<open>The steps of the consumer\<close>

lemma pop_ready:
  assumes inv: "mpsc_inv n s" and n: "0 < n" and low: "low s = ring_head s"
    and seq: "sequence s (ring_head s mod n) = ring_head s + 1"
  shows "ring_head s < ring_tail s" "\<not> pending s (ring_head s)"
    "slot_data s (ring_head s mod n) = Some (claimed s ! ring_head s)"
proof -
  have w: "low s \<le> ring_head s" "ring_head s < low s + n" using low n by auto
  have no: "\<not> (ring_tail s \<le> ring_head s \<or> pending s (ring_head s))"
    using slotD(1) [OF inv w] seq by linarith
  then show "ring_head s < ring_tail s" "\<not> pending s (ring_head s)" by auto
  show "slot_data s (ring_head s mod n) = Some (claimed s ! ring_head s)"
    using slotD(2) [OF inv w no] by simp
qed

lemma reset_step:
  assumes inv: "mpsc_inv n s" and n: "0 < n" and pc: "pop_pc s = ResetSlot x"
  shows "mpsc_inv n (s\<lparr>sequence := (sequence s)(ring_head s mod n := ring_head s + n), pop_pc := AdvanceHead x\<rparr>)"
proof -
  let ?h = "ring_head s"
  let ?s = "s\<lparr>sequence := (sequence s)(?h mod n := ?h + n), pop_pc := AdvanceHead x\<rparr>"
  have low: "low s = ?h" "low ?s = ?h + 1" using pc by (simp_all add: low_def)
  have seq: "sequence s (?h mod n) = ?h + 1" and x: "x = claimed s ! ?h"
    using inv pc by (auto simp: mpsc_inv_def pop_inv_def)
  note ready = pop_ready [OF inv n low(1) seq]
  have full: "ring_tail s \<le> ?h + n" using inv low by (simp add: mpsc_inv_def tally_inv_def)
  have pend: "pending ?s k = pending s k" for k by (simp add: pending_def)
  have "slots_inv n ?s"
    unfolding slots_inv_def
  proof (intro allI impI)
    fix k assume "low ?s \<le> k \<and> k < low ?s + n"
    then consider "k = ?h + n" | "?h < k" "k < ?h + n" using low by fastforce
    then show "if ring_tail ?s \<le> k \<or> pending ?s k then sequence ?s (k mod n) = k
        else sequence ?s (k mod n) = k + 1 \<and> slot_data ?s (k mod n) = Some (claimed ?s ! k)"
    proof cases
      case 1
      then show ?thesis using full by simp
    next
      case 2
      then have "k mod n \<noteq> ?h mod n" using window_inj [of ?h k n ?h] n by auto
      then show ?thesis using inv 2 low pend by (simp add: mpsc_inv_def slots_inv_def)
    qed
  qed
  moreover have "tickets_inv n ?s"
    unfolding tickets_inv_def
  proof (intro conjI allI impI)
    fix u k y assume "ticket (push_pcs ?s u) = Some (k, y)"
    then have u: "ticket (push_pcs s u) = Some (k, y)" by simp
    have "k \<noteq> ?h" using ready(2) ticketD(5) [OF inv u] by auto
    then show "low ?s \<le> k" using ticketD(1) [OF inv u] low by simp
    show "k < ring_tail ?s" "y = claimed ?s ! k" using ticketD(2,4) [OF inv u] by simp_all
    show "slot_data ?s (k mod n) = Some y" if "push_pcs ?s u = PublishSlot y k"
      using ticketD(7) [OF inv u] that by simp
    show "v = u" if "ticket (push_pcs ?s v) = Some (k, z)" for v z
      using ticketD(8) [OF inv u, of v z] that by simp
  next
    fix u y d assume "push_pcs ?s u = ExchangeTail y d"
    then have "d \<le> sequence s (d mod n)" using inv by (auto simp: mpsc_inv_def tickets_inv_def)
    then show "d \<le> sequence ?s (d mod n)" using seq n by (cases "d mod n = ?h mod n") simp_all
  qed
  moreover have "pop_inv n ?s" using ready x by (simp add: pop_inv_def)
  moreover have "tally_inv n ?s" using inv ready low full by (simp add: mpsc_inv_def tally_inv_def)
  ultimately show ?thesis by (simp add: mpsc_inv_def)
qed

text \<open>A step of the consumer that keeps the window, the slots and the producers.\<close>

lemma consumer_step:
  assumes inv: "mpsc_inv n s" and "low s' = low s" "sequence s' = sequence s" "slot_data s' = slot_data s"
    "ring_tail s' = ring_tail s" "push_pcs s' = push_pcs s" "claimed s' = claimed s"
    and pop: "pop_inv n s'" and cnt: "popped s' = take (ring_head s') (claimed s)"
  shows "mpsc_inv n s'"
proof -
  have "pending s' k = pending s k" for k using assms by (simp add: pending_def)
  then have "slots_inv n s'" using assms by (simp add: mpsc_inv_def slots_inv_def)
  moreover have "tickets_inv n s'" using assms by (simp add: mpsc_inv_def tickets_inv_def)
  moreover have "tally_inv n s'" using assms by (simp add: mpsc_inv_def tally_inv_def)
  ultimately show ?thesis using pop by (simp add: mpsc_inv_def)
qed

lemma pop_step_inv:
  assumes inv: "mpsc_inv n s" and n: "0 < n"
  shows "mpsc_inv n (pop_step n s)"
proof -
  have cnt: "popped s = take (ring_head s) (claimed s)" "ring_tail s = length (claimed s)"
    using inv by (auto simp: mpsc_inv_def tally_inv_def)
  show ?thesis
  proof (cases "pop_pc s")
    case PopIdle
    have "mpsc_inv n (s\<lparr>pop_pc := ReadData\<rparr>)" if "sequence s (ring_head s mod n) = ring_head s + 1"
      by (rule consumer_step [OF inv]) (use PopIdle that cnt in \<open>auto simp: low_def pop_inv_def\<close>)
    then show ?thesis using inv PopIdle by (simp add: pop_step_def Let_def)
  next
    case ReadData
    then have seq: "sequence s (ring_head s mod n) = ring_head s + 1" and low: "low s = ring_head s"
      using inv by (auto simp: mpsc_inv_def pop_inv_def low_def)
    let ?s = "s\<lparr>pop_pc := ResetSlot (claimed s ! ring_head s)\<rparr>"
    have "mpsc_inv n ?s"
      by (rule consumer_step [OF inv]) (use low seq cnt in \<open>auto simp: low_def pop_inv_def\<close>)
    then show ?thesis using pop_ready(3) [OF inv n low seq] ReadData by (simp add: pop_step_def Let_def)
  next
    case (ResetSlot x)
    then show ?thesis using reset_step [OF inv n ResetSlot] by (simp add: pop_step_def Let_def)
  next
    case (AdvanceHead x)
    then have "ring_head s < length (claimed s)" "x = claimed s ! ring_head s"
      using inv cnt by (auto simp: mpsc_inv_def pop_inv_def)
    then have "popped s @ [x] = take (Suc (ring_head s)) (claimed s)"
      using cnt by (simp add: take_Suc_conv_app_nth)
    then have "mpsc_inv n (s\<lparr>ring_head := ring_head s + 1, pop_pc := PopIdle, popped := popped s @ [x]\<rparr>)"
      by (intro consumer_step [OF inv]) (use AdvanceHead in \<open>auto simp: low_def pop_inv_def\<close>)
    then show ?thesis using AdvanceHead by (simp add: pop_step_def Let_def)
  qed
qed

section \<open>Every reachable state\<close>

lemma mpsc_new_inv: "0 < n \<Longrightarrow> mpsc_inv n (MPSCRingBuffer_new n)"
  by (auto simp: MPSCRingBuffer_new_def mpsc_inv_def slots_inv_def tickets_inv_def pop_inv_def tally_inv_def
      low_def pending_def)

lemma mpsc_act_inv:
  assumes "mpsc_inv n s" "2 \<le> n" "mpsc_act n a s = Some s'"
  shows "mpsc_inv n s'"
proof (cases a)
  case (BeginPush t x)
  then show ?thesis using assms by (auto intro!: ring_quiet_step split: if_splits)
qed (use assms push_step_inv pop_step_inv in fastforce)+

lemma mpsc_run_inv:
  assumes "mpsc_run n as (MPSCRingBuffer_new n) = Some s" "2 \<le> n"
  shows "mpsc_inv n s"
  using assms(1)
proof (induction rule: mpsc_run_induct)
  case start
  show ?case using assms(2) by (intro mpsc_new_inv) simp
next
  case (act a s s')
  then show ?case using mpsc_act_inv assms(2) by blast
qed

text \<open>
  C34. \<open>MPSCRingBuffer\<close> with two slots or more, in every interleaving of any number of producers with the
  consumer: the items the consumer has got are the first \<open>head_\<close> items in the order in which the producers
  took their tickets, so nothing is lost, duplicated or reordered; at most \<open>BufferSize\<close> items are in the
  ring besides the one the consumer is taking; and when the consumer is between two pops and the producer
  of the next ticket has published it, \<open>pop\<close> goes on to that item.
\<close>

theorem mpsc_exact:
  assumes run: "mpsc_run n as (MPSCRingBuffer_new n) = Some s" and n: "2 \<le> n"
  shows "popped s = take (ring_head s) (claimed s) \<and> ring_head s \<le> length (claimed s)
    \<and> ring_tail s = length (claimed s) \<and> ring_tail s \<le> ring_head s + 1 + n
    \<and> (pop_pc s = PopIdle \<and> ring_head s < ring_tail s \<and> \<not> pending s (ring_head s) \<longrightarrow>
        pop_pc (pop_step n (pop_step n s)) = ResetSlot (claimed s ! ring_head s))"
proof -
  have inv: "mpsc_inv n s" using mpsc_run_inv [OF run n] .
  have low: "low s \<le> ring_head s + 1" "ring_head s \<le> low s" by (simp_all add: low_def split: pop_pc.split)
  have cnt: "popped s = take (ring_head s) (claimed s)" "ring_tail s = length (claimed s)"
    "low s \<le> ring_tail s" "ring_tail s \<le> low s + n"
    using inv by (auto simp: mpsc_inv_def tally_inv_def)
  have "pop_pc (pop_step n (pop_step n s)) = ResetSlot (claimed s ! ring_head s)"
    if idle: "pop_pc s = PopIdle" and "ring_head s < ring_tail s" "\<not> pending s (ring_head s)"
  proof -
    have "low s = ring_head s" using idle by (simp add: low_def)
    then have "sequence s (ring_head s mod n) = ring_head s + 1
        \<and> slot_data s (ring_head s mod n) = Some (claimed s ! ring_head s)"
      using slotD(2) [OF inv, of "ring_head s"] that n by simp
    then show ?thesis using idle by (simp add: pop_step_def Let_def)
  qed
  then show ?thesis using cnt low by auto
qed

text \<open>A producer that pushes one item without being interrupted.\<close>

definition push_acts :: "nat \<Rightarrow> 'a \<Rightarrow> 'a mpsc_action list" where
  "push_acts t x = [BeginPush t x, PushStep False t, PushStep False t, PushStep False t,
     PushStep False t, PushStep False t]"

lemmas mpsc_exec = push_acts_def MPSCRingBuffer_new_def push_step_def pop_step_def Let_def

theorem mpsc_exact_witness:
  "\<exists>s. mpsc_run 2 (push_acts 0 7 @ push_acts 1 8 @ [PopStep, PopStep, PopStep, PopStep]) (MPSCRingBuffer_new 2)
         = Some s \<and> popped s = [7 :: int] \<and> popped s = take (ring_head s) (claimed s)
       \<and> claimed s = [7, 8]"
proof -
  let ?as = "push_acts 0 7 @ push_acts 1 (8 :: int) @ [PopStep, PopStep, PopStep, PopStep]"
  obtain s where s: "mpsc_run 2 ?as (MPSCRingBuffer_new 2) = Some s"
    and c: "claimed s = [7, 8]" and p: "popped s = [7]"
    by (simp add: mpsc_exec)
  show ?thesis using mpsc_exact [OF s] s c p by simp
qed

section \<open>A ring of one slot\<close>

text \<open>
  \<open>BufferSize = 1\<close> passes the \<open>static_assert\<close>.  Then \<open>k + 1\<close> in the slot means both that ticket \<open>k\<close> is
  filled and that ticket \<open>k + 1\<close> is free.
\<close>

definition overrun :: "'a MPSCRingBuffer \<Rightarrow> bool" where
  "overrun s \<longleftrightarrow> 2 \<le> sequence s 0 \<and> 2 \<le> ring_tail s \<and> ring_head s = 0 \<and> pop_pc s = PopIdle \<and> popped s = []
     \<and> (\<forall>t k x. ticket (push_pcs s t) = Some (k, x) \<longrightarrow> 2 \<le> k)"

lemma overrun_push_at: "overrun s \<Longrightarrow> (\<And>k x. ticket p = Some (k, x) \<Longrightarrow> 2 \<le> k) \<Longrightarrow> overrun (push_at t p s)"
  by (auto simp: overrun_def split: if_splits)

lemma overrun_act:
  assumes o: "overrun s" and a: "mpsc_act 1 a s = Some s'"
  shows "overrun s'"
proof (cases a)
  case (BeginPush t x)
  then show ?thesis using a by (auto intro!: overrun_push_at [OF o] split: if_splits)
next
  case PopStep
  then show ?thesis using o a by (auto simp: pop_step_def overrun_def)
next
  case (PushStep sp t)
  have k: "2 \<le> k" if "ticket (push_pcs s t) = Some (k, x)" for k x using o that by (auto simp: overrun_def)
  show ?thesis
  proof (cases "push_pcs s t")
    case (ExchangeTail x c)
    have "overrun (push_at t (WriteData x c) (s\<lparr>ring_tail := c + 1, claimed := claimed s @ [x]\<rparr>))"
      if "ring_tail s = c" by (rule overrun_push_at) (use o that in \<open>auto simp: overrun_def\<close>)
    moreover have "overrun (push_at t (LoadSequence x (ring_tail s)) s)" by (rule overrun_push_at [OF o]) simp
    ultimately show ?thesis using a PushStep ExchangeTail
      by (simp only: mpsc_act.simps push_step_def push_pc.case option.inject split: if_splits)
  next
    case (WriteData x c)
    have "overrun (push_at t (PublishSlot x c) (s\<lparr>slot_data := (slot_data s)(c mod 1 := Some x)\<rparr>))"
      by (rule overrun_push_at) (use o k WriteData in \<open>auto simp: overrun_def\<close>)
    then show ?thesis using a PushStep WriteData by (simp add: push_step_def)
  next
    case (PublishSlot x c)
    have "overrun (push_at t PushIdle (s\<lparr>sequence := (sequence s)(c mod 1 := c + 1)\<rparr>))"
      by (rule overrun_push_at) (use o k PublishSlot in \<open>auto simp: overrun_def\<close>)
    then show ?thesis using a PushStep PublishSlot by (simp add: push_step_def)
  qed (use a PushStep in \<open>auto simp: push_step_def Let_def intro!: overrun_push_at [OF o] split: if_splits\<close>)
qed

text \<open>
  With one slot, two pushes that both return true lose both items: whatever the threads do afterwards,
  \<open>pop\<close> returns false forever.
\<close>

theorem mpsc_size_one:
  "\<exists>s. mpsc_run 1 (push_acts 0 x @ push_acts 0 y) (MPSCRingBuffer_new 1) = Some s \<and> claimed s = [x, y]
     \<and> (\<forall>as s'. mpsc_run 1 as s = Some s' \<longrightarrow> popped s' = [] \<and> pop_step 1 s' = s')"
proof -
  obtain s where s: "mpsc_run 1 (push_acts 0 x @ push_acts 0 y) (MPSCRingBuffer_new 1) = Some s"
    and c: "claimed s = [x, y]" and o: "overrun s"
    by (simp add: mpsc_exec overrun_def)
  have "popped s' = [] \<and> pop_step 1 s' = s'" if "mpsc_run 1 as s = Some s'" for as s'
  proof -
    have "overrun s'" using that by (induction rule: mpsc_run_induct) (use o overrun_act in blast)+
    then show ?thesis by (simp add: overrun_def pop_step_def)
  qed
  then show ?thesis using s c by blast
qed

end
