(* ===== verification/Mpsc_Queues.thy ===== *)
theory Mpsc_Queues
  imports Ring_Queues
begin

text \<open>
  The two classes of ihs/include/kk.hpp that are called \<open>MPSCQueue\<close>: one with free-running counters
  and a cached \<open>tail\<close>, one with successor indices and a compare-exchange on \<open>tail_\<close>.  Each has its
  operations run to completion, and the enqueue again access by access for any number of producers.
  Run to completion they are the single-producer queues; with two producers at a time they lose items
  although both calls return true.
\<close>

section \<open>The counter queue\<close>

record 'a cmpsc = "'a mring" +
  cache_tail :: u64

definition cmpsc_new :: "nat \<Rightarrow> 'a \<Rightarrow> 'a cmpsc" where
  "cmpsc_new cap d = \<lparr>mbuffer = replicate cap d, mhead = 0, mtail = 0, cache_tail = 0\<rparr>"

definition cmpsc_slot :: "'a cmpsc \<Rightarrow> u64 \<Rightarrow> nat" where
  "cmpsc_slot q c = unat (c AND (of_nat (length (mbuffer q)) - 1))"

definition cmpsc_enqueue :: "'a \<Rightarrow> 'a cmpsc \<Rightarrow> bool \<times> 'a cmpsc" where
  "cmpsc_enqueue v q =
     (let current_head = mhead q; next_head = current_head + 1; capacity = of_nat (length (mbuffer q));
          full = next_head - cache_tail q > capacity;
          q1 = (if full then q\<lparr>cache_tail := mtail q\<rparr> else q)
      in if full \<and> next_head - cache_tail q1 > capacity then (False, q1)
         else (True, q1\<lparr>mbuffer := (mbuffer q1)[cmpsc_slot q1 current_head := v], mhead := next_head\<rparr>))"

definition cmpsc_dequeue :: "'a cmpsc \<Rightarrow> 'a option \<times> 'a cmpsc" where
  "cmpsc_dequeue q =
     (let current_tail = mtail q
      in if current_tail \<ge> mhead q then (None, q)
         else (Some (mbuffer q ! cmpsc_slot q current_tail), q\<lparr>mtail := current_tail + 1\<rparr>))"

text \<open>The points of \<open>enqueue\<close>, with the value, \<open>current_head\<close> and the tail that was loaded.\<close>

datatype 'a cmpsc_pc =
    CIdle
  | CLoadHead 'a
  | CCheckCache 'a u64
  | CLoadTail 'a u64
  | CStoreCache 'a u64 u64
  | CRecheck 'a u64
  | CWrite 'a u64
  | CPublish 'a u64

record 'a cmpsc_run =
  cqueue :: "'a cmpsc"
  cpcs :: "nat \<Rightarrow> 'a cmpsc_pc"
  returned :: "(nat \<times> 'a \<times> bool) list"

definition cmpsc_next :: "'a cmpsc \<Rightarrow> 'a cmpsc_pc \<Rightarrow> 'a cmpsc \<times> 'a cmpsc_pc \<times> ('a \<times> bool) option" where
  "cmpsc_next q pc =
     (let full = (\<lambda>h. h + 1 - cache_tail q > of_nat (length (mbuffer q)))
      in case pc of
           CIdle \<Rightarrow> (q, CIdle, None)
         | CLoadHead v \<Rightarrow> (q, CCheckCache v (mhead q), None)
         | CCheckCache v h \<Rightarrow> (q, if full h then CLoadTail v h else CWrite v h, None)
         | CLoadTail v h \<Rightarrow> (q, CStoreCache v h (mtail q), None)
         | CStoreCache v h l \<Rightarrow> (q\<lparr>cache_tail := l\<rparr>, CRecheck v h, None)
         | CRecheck v h \<Rightarrow> if full h then (q, CIdle, Some (v, False)) else (q, CWrite v h, None)
         | CWrite v h \<Rightarrow> (q\<lparr>mbuffer := (mbuffer q)[cmpsc_slot q h := v]\<rparr>, CPublish v h, None)
         | CPublish v h \<Rightarrow> (q\<lparr>mhead := h + 1\<rparr>, CIdle, Some (v, True)))"

datatype 'a cmpsc_action = CBegin nat 'a | CStep nat | CDequeue

fun cmpsc_act :: "'a cmpsc_action \<Rightarrow> 'a cmpsc_run \<Rightarrow> 'a cmpsc_run" where
  "cmpsc_act (CBegin t v) s = (if cpcs s t = CIdle then s\<lparr>cpcs := (cpcs s)(t := CLoadHead v)\<rparr> else s)"
| "cmpsc_act (CStep t) s =
     (case cmpsc_next (cqueue s) (cpcs s t) of (q, pc, r) \<Rightarrow>
        s\<lparr>cqueue := q, cpcs := (cpcs s)(t := pc),
          returned := returned s @ (case r of None \<Rightarrow> [] | Some (v, ok) \<Rightarrow> [(t, v, ok)])\<rparr>)"
| "cmpsc_act CDequeue s = s\<lparr>cqueue := snd (cmpsc_dequeue (cqueue s))\<rparr>"

definition cmpsc_run :: "'a cmpsc_action list \<Rightarrow> 'a cmpsc_run \<Rightarrow> 'a cmpsc_run" where
  "cmpsc_run as s = fold cmpsc_act as s"

definition cmpsc_start :: "nat \<Rightarrow> 'a \<Rightarrow> 'a cmpsc_run" where
  "cmpsc_start cap d = \<lparr>cqueue = cmpsc_new cap d, cpcs = (\<lambda>_. CIdle), returned = []\<rparr>"

section \<open>The queue with successor indices\<close>

record 'a lmpsc =
  next_of :: "nat list"
  node_data :: "'a list"
  lhead :: nat
  ltail :: nat

definition lmpsc_new :: "nat \<Rightarrow> 'a \<Rightarrow> 'a lmpsc" where
  "lmpsc_new cap d = \<lparr>next_of = map (\<lambda>i. (i + 1) mod cap) [0..<cap], node_data = replicate cap d, lhead = 0, ltail = 0\<rparr>"

text \<open>
  \<open>compare_exchange_weak\<close> on an unshared queue fails only spuriously, and then \<open>next\<close> is loaded from
  the same node again.
\<close>

definition lmpsc_enqueue :: "'a \<Rightarrow> 'a lmpsc \<Rightarrow> bool \<times> 'a lmpsc" where
  "lmpsc_enqueue v q =
     (let n = next_of q ! ltail q
      in if n = lhead q then (False, q)
         else (True, q\<lparr>node_data := (node_data q)[ltail q := v], ltail := n\<rparr>))"

definition lmpsc_dequeue :: "'a lmpsc \<Rightarrow> 'a option \<times> 'a lmpsc" where
  "lmpsc_dequeue q =
     (if lhead q = ltail q then (None, q)
      else (Some (node_data q ! lhead q), q\<lparr>lhead := next_of q ! lhead q\<rparr>))"

datatype 'a lmpsc_pc =
    LIdle
  | LLoadTail 'a
  | LLoadNext 'a nat
  | LCheckHead 'a nat nat
  | LWrite 'a nat nat
  | LExchange 'a nat nat
  | LReloadNext 'a nat

record 'a lmpsc_run =
  lqueue :: "'a lmpsc"
  lpcs :: "nat \<Rightarrow> 'a lmpsc_pc"
  lreturned :: "(nat \<times> 'a \<times> bool) list"

definition lmpsc_next :: "bool \<Rightarrow> 'a lmpsc \<Rightarrow> 'a lmpsc_pc \<Rightarrow> 'a lmpsc \<times> 'a lmpsc_pc \<times> ('a \<times> bool) option" where
  "lmpsc_next spurious q pc =
     (case pc of
        LIdle \<Rightarrow> (q, LIdle, None)
      | LLoadTail v \<Rightarrow> (q, LLoadNext v (ltail q), None)
      | LLoadNext v t \<Rightarrow> (q, LCheckHead v t (next_of q ! t), None)
      | LCheckHead v t n \<Rightarrow> if n = lhead q then (q, LIdle, Some (v, False)) else (q, LWrite v t n, None)
      | LWrite v t n \<Rightarrow> (q\<lparr>node_data := (node_data q)[t := v]\<rparr>, LExchange v t n, None)
      | LExchange v t n \<Rightarrow>
          if ltail q = t \<and> \<not> spurious then (q\<lparr>ltail := n\<rparr>, LIdle, Some (v, True))
          else (q, LReloadNext v (ltail q), None)
      | LReloadNext v t \<Rightarrow> (q, LExchange v t (next_of q ! t), None))"

datatype 'a lmpsc_action = LBegin nat 'a | LStep bool nat | LDequeue

fun lmpsc_act :: "'a lmpsc_action \<Rightarrow> 'a lmpsc_run \<Rightarrow> 'a lmpsc_run" where
  "lmpsc_act (LBegin t v) s = (if lpcs s t = LIdle then s\<lparr>lpcs := (lpcs s)(t := LLoadTail v)\<rparr> else s)"
| "lmpsc_act (LStep spurious t) s =
     (case lmpsc_next spurious (lqueue s) (lpcs s t) of (q, pc, r) \<Rightarrow>
        s\<lparr>lqueue := q, lpcs := (lpcs s)(t := pc),
          lreturned := lreturned s @ (case r of None \<Rightarrow> [] | Some (v, ok) \<Rightarrow> [(t, v, ok)])\<rparr>)"
| "lmpsc_act LDequeue s = s\<lparr>lqueue := snd (lmpsc_dequeue (lqueue s))\<rparr>"

definition lmpsc_run :: "'a lmpsc_action list \<Rightarrow> 'a lmpsc_run \<Rightarrow> 'a lmpsc_run" where
  "lmpsc_run as s = fold lmpsc_act as s"

definition lmpsc_start :: "nat \<Rightarrow> 'a \<Rightarrow> 'a lmpsc_run" where
  "lmpsc_start cap d = \<lparr>lqueue = lmpsc_new cap d, lpcs = (\<lambda>_. LIdle), lreturned = []\<rparr>"

section \<open>Run to completion, the counter queue is the single-producer queue\<close>

text \<open>The cached tail lags behind \<open>tail\<close> but never more than the queue is long.\<close>

definition cmpsc_inv :: "'a cmpsc \<Rightarrow> bool" where
  "cmpsc_inv q \<longleftrightarrow> unat (mhead q - mtail q) \<le> unat (mhead q - cache_tail q)
     \<and> unat (mhead q - cache_tail q) \<le> length (mbuffer q) \<and> length (mbuffer q) < sz_mod - 1"

lemma unat_next:
  assumes "unat (h - l) < 2 ^ 64 - 1"
  shows "unat (h + 1 - l) = Suc (unat (h - l :: u64))"
proof -
  have "h + 1 - l = (h - l) + 1" by simp
  moreover have "unat ((h - l) + 1) = Suc (unat (h - l))"
    using assms by (simp add: unat_word_ariths)
  ultimately show ?thesis by metis
qed

text \<open>The two tests of \<open>enqueue\<close>, in the lengths the two tails give.\<close>

lemma cmpsc_full_tests:
  assumes "cmpsc_inv q"
  shows "mhead q + 1 - cache_tail q > of_nat (length (mbuffer q))
      \<longleftrightarrow> length (mbuffer q) < Suc (unat (mhead q - cache_tail q))"
    and "mhead q + 1 - mtail q > of_nat (length (mbuffer q))
      \<longleftrightarrow> length (mbuffer q) < Suc (unat (mhead q - mtail q))"
proof -
  have len: "unat (of_nat (length (mbuffer q)) :: u64) = length (mbuffer q)"
    using assms by (simp add: unat_of_nat cmpsc_inv_def)
  show "mhead q + 1 - cache_tail q > of_nat (length (mbuffer q))
      \<longleftrightarrow> length (mbuffer q) < Suc (unat (mhead q - cache_tail q))"
    using assms by (subst word_less_nat_alt, subst unat_next) (auto simp: cmpsc_inv_def len)
  show "mhead q + 1 - mtail q > of_nat (length (mbuffer q))
      \<longleftrightarrow> length (mbuffer q) < Suc (unat (mhead q - mtail q))"
    using assms by (subst word_less_nat_alt, subst unat_next) (auto simp: cmpsc_inv_def len)
qed

lemma cmpsc_enqueue_inv:
  assumes inv: "cmpsc_inv q"
  shows "cmpsc_inv (snd (cmpsc_enqueue v q))"
proof -
  have step: "unat (mhead q + 1 - l) = Suc (unat (mhead q - l))" if "unat (mhead q - l) \<le> length (mbuffer q)" for l
    using that inv by (intro unat_next) (simp add: cmpsc_inv_def)
  show ?thesis
    using inv cmpsc_full_tests [OF inv] step [of "mtail q"] step [of "cache_tail q"]
    unfolding cmpsc_enqueue_def Let_def by (auto simp: cmpsc_inv_def)
qed

lemma cmpsc_dequeue_inv:
  assumes inv: "cmpsc_inv q"
  shows "cmpsc_inv (snd (cmpsc_dequeue q))"
proof (cases "mtail q \<ge> mhead q")
  case True
  then show ?thesis using inv by (simp add: cmpsc_dequeue_def)
next
  case False
  then have "mhead q - mtail q \<noteq> 0" by auto
  then have "unat (mhead q - mtail q - 1) = unat (mhead q - mtail q) - 1" by (rule unat_minus_one)
  moreover have "mhead q - mtail q - 1 = mhead q - (mtail q + 1)" by simp
  ultimately have "unat (mhead q - (mtail q + 1)) \<le> unat (mhead q - mtail q)" by simp
  then show ?thesis using inv False by (simp add: cmpsc_dequeue_def Let_def cmpsc_inv_def)
qed

text \<open>
  The cached tail of the counter \<open>MPSCQueue\<close> changes nothing: for every sequence of complete operations
  from a state in which the cache is valid, \<open>enqueue\<close> answers and stores, and \<open>dequeue\<close> returns, what
  the queue without a cache (the first \<open>SPSCQueue\<close>) does, and the cache stays valid.
\<close>

theorem cmpsc_cache_transparent:
  assumes "cmpsc_inv q"
    and "run_ops cmpsc_enqueue cmpsc_dequeue ops q = (acc, del, q')"
  shows "run_ops counter_spsc_enqueue counter_spsc_dequeue ops (mring.truncate q) = (acc, del, mring.truncate q')
    \<and> cmpsc_inv q'"
proof -
  have enq: "counter_spsc_enqueue v (mring.truncate q) = (fst (cmpsc_enqueue v q), mring.truncate (snd (cmpsc_enqueue v q)))"
    if "cmpsc_inv q" for q :: "'a cmpsc" and v
    using that cmpsc_full_tests [OF that]
    by (auto simp: counter_spsc_enqueue_def cmpsc_enqueue_def Let_def mring.truncate_def cap_mask_def
        cmpsc_slot_def cmpsc_inv_def)
  have deq: "counter_spsc_dequeue (mring.truncate q) = (fst (cmpsc_dequeue q), mring.truncate (snd (cmpsc_dequeue q)))"
    for q :: "'a cmpsc"
    by (auto simp: counter_spsc_dequeue_def cmpsc_dequeue_def Let_def mring.truncate_def cap_mask_def cmpsc_slot_def)
  show ?thesis using assms
  proof (induction ops arbitrary: q acc del)
    case (Cons op ops)
    show ?case
    proof (cases op)
      case (Push v)
      obtain ok q1 where e: "cmpsc_enqueue v q = (ok, q1)" by fastforce
      obtain acc1 where r: "run_ops cmpsc_enqueue cmpsc_dequeue ops q1 = (acc1, del, q')"
          and acc: "acc = (if ok then v # acc1 else acc1)"
        using Cons.prems(2) Push e by (auto split: prod.splits)
      have "cmpsc_inv q1" using cmpsc_enqueue_inv [OF Cons.prems(1), of v] e by simp
      from Cons.IH [OF this r] show ?thesis using Push acc enq [OF Cons.prems(1), of v] e by simp
    next
      case Pop
      obtain x q1 where e: "cmpsc_dequeue q = (x, q1)" by fastforce
      obtain del1 where r: "run_ops cmpsc_enqueue cmpsc_dequeue ops q1 = (acc, del1, q')"
          and del: "del = (case x of None \<Rightarrow> del1 | Some y \<Rightarrow> y # del1)"
        using Cons.prems(2) Pop e by (auto split: prod.splits)
      have "cmpsc_inv q1" using cmpsc_dequeue_inv [OF Cons.prems(1)] e by simp
      from Cons.IH [OF this r] show ?thesis using Pop del deq [of q] e by simp
    qed
  qed simp
qed

text \<open>A cache that has gone stale is refreshed: a queue of two that was full and has been emptied.\<close>

theorem cmpsc_cache_transparent_witness:
  "run_ops counter_spsc_enqueue counter_spsc_dequeue [Push (7 :: nat), Push 8, Pop, Push 9]
     (mring.truncate (cmpsc_new 2 0)) = ([7, 8, 9], [7], \<lparr>mbuffer = [9, 8], mhead = 3, mtail = 1\<rparr>)"
proof -
  let ?q = "\<lparr>mbuffer = [9, 8], mhead = 3, mtail = 1, cache_tail = 1\<rparr> :: nat cmpsc"
  have "run_ops cmpsc_enqueue cmpsc_dequeue [Push 7, Push 8, Pop, Push 9] (cmpsc_new 2 0) = ([7, 8, 9], [7], ?q)"
    by code_simp
  moreover have "cmpsc_inv (cmpsc_new 2 (0 :: nat))" by (simp add: cmpsc_inv_def cmpsc_new_def)
  ultimately show ?thesis
    using cmpsc_cache_transparent [of "cmpsc_new 2 0"] by (fastforce simp: mring.truncate_def)
qed

section \<open>Run to completion, the queue with successor indices is a ring\<close>

text \<open>The ring of lock_queue.hpp that a queue with successor indices is, and its invariant.\<close>

definition lmpsc_abs :: "'a lmpsc \<Rightarrow> 'a ring" where
  "lmpsc_abs q = \<lparr>buffer = node_data q, head = lhead q, tail = ltail q\<rparr>"

definition lmpsc_inv :: "'a lmpsc \<Rightarrow> bool" where
  "lmpsc_inv q \<longleftrightarrow> ring_inv (lmpsc_abs q)
     \<and> next_of q = map (\<lambda>i. (i + 1) mod length (node_data q)) [0..<length (node_data q)]"

lemma lmpsc_next_of: "lmpsc_inv q \<Longrightarrow> i < length (node_data q) \<Longrightarrow> next_of q ! i = (i + 1) mod length (node_data q)"
  by (simp add: lmpsc_inv_def)

lemma lmpsc_enqueue_abs:
  assumes "lmpsc_inv q"
  shows "lockq_push v (lmpsc_abs q) = (fst (lmpsc_enqueue v q), lmpsc_abs (snd (lmpsc_enqueue v q)))"
  using assms lmpsc_next_of [OF assms, of "ltail q"]
  by (auto simp: lockq_push_def lmpsc_enqueue_def lmpsc_abs_def Let_def lmpsc_inv_def ring_inv_def)

lemma lmpsc_dequeue_abs:
  assumes "lmpsc_inv q"
  shows "lockq_pop (lmpsc_abs q) = (fst (lmpsc_dequeue q), lmpsc_abs (snd (lmpsc_dequeue q)))"
  using assms lmpsc_next_of [OF assms, of "lhead q"]
  by (auto simp: lockq_pop_def lmpsc_dequeue_def lmpsc_abs_def Let_def lmpsc_inv_def ring_inv_def)

lemma lmpsc_same_nodes:
  "next_of (snd (lmpsc_enqueue v q)) = next_of q" "length (node_data (snd (lmpsc_enqueue v q))) = length (node_data q)"
  "next_of (snd (lmpsc_dequeue q)) = next_of q" "node_data (snd (lmpsc_dequeue q)) = node_data q"
  by (simp_all add: lmpsc_enqueue_def lmpsc_dequeue_def Let_def)

interpretation lmpsc: bounded_queue lmpsc_inv "\<lambda>q. ring_contents (lmpsc_abs q)" "\<lambda>q. ring_room (lmpsc_abs q)"
    lmpsc_enqueue lmpsc_dequeue
proof (unfold_locales, goal_cases)
  case (1 q x ok q')
  then have "lockq_push x (lmpsc_abs q) = (ok, lmpsc_abs q')" using lmpsc_enqueue_abs [OF 1(1), of x] by simp
  from lockq_push_law [OF _ this] 1 show ?case
    using lmpsc_same_nodes(1,2) [of x q] by (simp add: lmpsc_inv_def)
next
  case (2 q r q')
  then have "lockq_pop (lmpsc_abs q) = (r, lmpsc_abs q')" using lmpsc_dequeue_abs [OF 2(1)] by simp
  from lockq_pop_law [OF _ this] 2 show ?case
    using lmpsc_same_nodes(3,4) [of q] by (simp add: lmpsc_inv_def)
next
  case (3 q)
  then show ?case using ring_contents_bound [of "lmpsc_abs q"] by (simp add: lmpsc_inv_def)
qed

section \<open>One producer at a time\<close>

lemmas cmpsc_exec = cmpsc_run_def cmpsc_start_def cmpsc_new_def cmpsc_next_def cmpsc_slot_def
lemmas lmpsc_exec = lmpsc_run_def lmpsc_start_def lmpsc_new_def lmpsc_next_def

lemma replicate_steps: "replicate 7 a = [a, a, a, a, a, a, a]" "replicate 5 a = [a, a, a, a, a]"
  by (simp_all add: eval_nat_numeral)

lemma cmpsc_alone:
  assumes idle: "cpcs s t = CIdle"
  shows "cmpsc_run (CBegin t v # replicate 7 (CStep t)) s
     = s\<lparr>cqueue := snd (cmpsc_enqueue v (cqueue s)), returned := returned s @ [(t, v, fst (cmpsc_enqueue v (cqueue s)))]\<rparr>"
proof -
  let ?q = "cqueue s"
  have again: "(cpcs s)(t := CIdle) = cpcs s" using idle by (simp add: fun_upd_idem)
  consider "\<not> mhead ?q + 1 - cache_tail ?q > of_nat (length (mbuffer ?q))"
    | "mhead ?q + 1 - cache_tail ?q > of_nat (length (mbuffer ?q))" "mhead ?q + 1 - mtail ?q > of_nat (length (mbuffer ?q))"
    | "mhead ?q + 1 - cache_tail ?q > of_nat (length (mbuffer ?q))" "\<not> mhead ?q + 1 - mtail ?q > of_nat (length (mbuffer ?q))"
    by blast
  then show ?thesis
    by cases (simp_all add: replicate_steps cmpsc_run_def cmpsc_next_def cmpsc_enqueue_def cmpsc_slot_def Let_def idle again)
qed

lemma lmpsc_alone:
  assumes idle: "lpcs s t = LIdle"
  shows "lmpsc_run (LBegin t v # replicate 5 (LStep False t)) s
     = s\<lparr>lqueue := snd (lmpsc_enqueue v (lqueue s)), lreturned := lreturned s @ [(t, v, fst (lmpsc_enqueue v (lqueue s)))]\<rparr>"
proof -
  have again: "(lpcs s)(t := LIdle) = lpcs s" using idle by (simp add: fun_upd_idem)
  show ?thesis
    by (cases "next_of (lqueue s) ! ltail (lqueue s) = lhead (lqueue s)")
      (simp_all add: replicate_steps lmpsc_run_def lmpsc_next_def lmpsc_enqueue_def Let_def idle again)
qed

text \<open>
  The accesses of a producer that nobody interrupts add up to the operation run to completion, for both
  queues and in every state: seven accesses of the counter queue (a finished producer does nothing) and
  five of the other one give the same queue, the same answer and an idle producer; and complete
  operations of the second queue, by however many producers, are FIFO.
\<close>

theorem mpsc_alone:
  assumes "cpcs s t = CIdle" "lpcs u t = LIdle" "lmpsc_inv q"
    and "run_ops lmpsc_enqueue lmpsc_dequeue ops q = (acc, del, q')"
  shows "cmpsc_run (CBegin t v # replicate 7 (CStep t)) s
       = s\<lparr>cqueue := snd (cmpsc_enqueue v (cqueue s)), returned := returned s @ [(t, v, fst (cmpsc_enqueue v (cqueue s)))]\<rparr>
     \<and> lmpsc_run (LBegin t v # replicate 5 (LStep False t)) u
       = u\<lparr>lqueue := snd (lmpsc_enqueue v (lqueue u)), lreturned := lreturned u @ [(t, v, fst (lmpsc_enqueue v (lqueue u)))]\<rparr>
     \<and> ring_contents (lmpsc_abs q) @ acc = del @ ring_contents (lmpsc_abs q')"
  using cmpsc_alone [OF assms(1)] lmpsc_alone [OF assms(2)] lmpsc.run_ops_fifo [OF assms(3,4)] by simp

theorem mpsc_alone_witness:
  "cmpsc_run (CBegin 1 9 # replicate 7 (CStep 1)) (cmpsc_start 2 (0 :: nat))
     = (cmpsc_start 2 0)\<lparr>cqueue := snd (cmpsc_enqueue 9 (cmpsc_new 2 0)), returned := [(1, 9, True)]\<rparr>
   \<and> fst (run_ops lmpsc_enqueue lmpsc_dequeue [Push 7, Push (8 :: nat)] (lmpsc_new 2 0)) = [7]"
proof -
  have "cpcs (cmpsc_start 2 (0 :: nat)) 1 = CIdle" "lpcs (lmpsc_start 2 (0 :: nat)) 1 = LIdle"
    by (simp_all add: cmpsc_start_def lmpsc_start_def)
  moreover have "lmpsc_inv (lmpsc_new 2 (0 :: nat))"
    by (simp add: lmpsc_inv_def lmpsc_new_def ring_inv_def lmpsc_abs_def)
  moreover have run: "run_ops lmpsc_enqueue lmpsc_dequeue [Push 7, Push (8 :: nat)] (lmpsc_new 2 0)
      = ([7], [], \<lparr>next_of = [1, 0], node_data = [7, 0], lhead = 0, ltail = 1\<rparr>)" by code_simp
  ultimately have "cmpsc_run (CBegin 1 9 # replicate 7 (CStep 1)) (cmpsc_start 2 (0 :: nat))
      = (cmpsc_start 2 0)\<lparr>cqueue := snd (cmpsc_enqueue 9 (cqueue (cmpsc_start 2 0))),
          returned := returned (cmpsc_start 2 0) @ [(1, 9, fst (cmpsc_enqueue 9 (cqueue (cmpsc_start 2 (0 :: nat)))))]\<rparr>"
    by (rule mpsc_alone [THEN conjunct1])
  moreover have "fst (cmpsc_enqueue 9 (cmpsc_new 2 (0 :: nat)))" by code_simp
  ultimately show ?thesis using run by (simp add: cmpsc_start_def)
qed

section \<open>Two producers at a time\<close>

text \<open>
  Two producers that load \<open>head\<close> before either of them stores it: both calls return true, one item
  overwrites the other, and the consumer gets one item and then finds the queue empty.
\<close>

theorem cmpsc_lost_item:
  assumes "1 \<le> cap" "cap < sz_mod"
  shows "let s = cmpsc_run [CBegin 0 x, CBegin 1 y, CStep 0, CStep 1, CStep 0, CStep 1, CStep 0, CStep 1,
                   CStep 0, CStep 1] (cmpsc_start cap d)
         in returned s = [(0, x, True), (1, y, True)] \<and> (\<forall>t. cpcs s t = CIdle)
            \<and> fst (cmpsc_dequeue (cqueue s)) = Some y \<and> fst (cmpsc_dequeue (snd (cmpsc_dequeue (cqueue s)))) = None"
proof -
  have "unat (of_nat cap :: u64) = cap" using assms by (simp add: unat_of_nat)
  then have "\<not> (of_nat cap :: u64) < 1" using assms by (simp add: word_less_nat_alt)
  then show ?thesis using assms by (auto simp: cmpsc_exec cmpsc_dequeue_def Let_def)
qed

theorem cmpsc_lost_item_witness:
  "returned (cmpsc_run [CBegin 0 7, CBegin 1 8, CStep 0, CStep 1, CStep 0, CStep 1, CStep 0, CStep 1,
       CStep 0, CStep 1] (cmpsc_start 4 (0 :: nat))) = [(0, 7, True), (1, 8, True)]"
  using cmpsc_lost_item [of 4 7 8 "0 :: nat"] by (simp add: Let_def)

text \<open>
  Two producers of the queue with successor indices that have both passed the test for a full queue:
  the one that loses the exchange takes the next place without writing its item there and without
  testing again.  Both calls return true; the consumer then gets the second item from the first place
  and whatever was in the second place, and the first item is lost.  With two nodes the queue is left
  empty, and both items are lost.
\<close>

theorem lmpsc_lost_item:
  assumes "2 \<le> cap"
  shows "let s = lmpsc_run [LBegin 0 x, LBegin 1 y, LStep False 0, LStep False 1, LStep False 0, LStep False 1,
                   LStep False 0, LStep False 1, LStep False 0, LStep False 1, LStep False 0, LStep False 1,
                   LStep False 1, LStep False 1] (lmpsc_start cap d)
         in lreturned s = [(0, x, True), (1, y, True)] \<and> (\<forall>t. lpcs s t = LIdle)
            \<and> (if cap = 2 then fst (lmpsc_dequeue (lqueue s)) = None
               else fst (lmpsc_dequeue (lqueue s)) = Some y
                 \<and> fst (lmpsc_dequeue (snd (lmpsc_dequeue (lqueue s)))) = Some d
                 \<and> fst (lmpsc_dequeue (snd (lmpsc_dequeue (snd (lmpsc_dequeue (lqueue s)))))) = None)"
proof -
  have n: "map (\<lambda>i. (i + 1) mod cap) [0..<cap] ! 0 = 1"
    "map (\<lambda>i. (i + 1) mod cap) [0..<cap] ! 1 = (if cap = 2 then 0 else 2)"
    using assms by auto
  show ?thesis using assms n by (auto simp: lmpsc_exec lmpsc_dequeue_def Let_def)
qed

theorem lmpsc_lost_item_witness:
  "lreturned (lmpsc_run [LBegin 0 7, LBegin 1 8, LStep False 0, LStep False 1, LStep False 0, LStep False 1,
       LStep False 0, LStep False 1, LStep False 0, LStep False 1, LStep False 0, LStep False 1,
       LStep False 1, LStep False 1] (lmpsc_start 4 (0 :: nat))) = [(0, 7, True), (1, 8, True)]"
  using lmpsc_lost_item [of 4 7 8 "0 :: nat"] by (simp add: Let_def)

end
