(* ===== verification/Word_Bytes.thy ===== *)
theory Word_Bytes
  imports Prelude
begin

text \<open>
  The byte representations of a 32-bit number: little-endian, which is how \<open>memcpy\<close> and a pointer
  cast read it on the machines the code is built for, and big-endian, which is what \<open>ntohl\<close> of such a
  number means.  Reading undoes writing and the other way round.
\<close>

definition le32 :: "u32 \<Rightarrow> bytes" where
  "le32 w = [ucast w, ucast (drop_bit 8 w), ucast (drop_bit 16 w), ucast (drop_bit 24 w)]"

definition read_le32 :: "bytes \<Rightarrow> u32" where
  "read_le32 b = ucast (b ! 0) OR push_bit 8 (ucast (b ! 1)) OR push_bit 16 (ucast (b ! 2)) OR push_bit 24 (ucast (b ! 3))"

definition be32 :: "u32 \<Rightarrow> bytes" where
  "be32 w = rev (le32 w)"

text \<open>\<open>memcpy\<close> of four bytes and \<open>ntohl\<close>.\<close>

definition read_be32 :: "bytes \<Rightarrow> u32" where
  "read_be32 b = read_le32 (rev (take 4 b))"

lemma le32_length [simp]: "length (le32 w) = 4"
  by (simp add: le32_def)

lemma be32_length [simp]: "length (be32 w) = 4"
  by (simp add: be32_def)

lemma four_bytes:
  fixes w :: u32
  shows "ucast (ucast w :: u8) OR push_bit 8 (ucast (ucast (drop_bit 8 w) :: u8))
    OR push_bit 16 (ucast (ucast (drop_bit 16 w) :: u8)) OR push_bit 24 (ucast (ucast (drop_bit 24 w) :: u8)) = w" (is "?l = w")
proof (rule bit_word_eqI)
  fix n
  assume n: "n < LENGTH(32)"
  consider "n < 8" | "8 \<le> n" "n < 16" | "16 \<le> n" "n < 24" | "24 \<le> n" using n by linarith
  then show "bit ?l n = bit w n"
    by cases (use n in \<open>auto simp: bit_simps\<close>)
qed

lemma read_le32_le32 [simp]: "read_le32 (le32 w @ rest) = w"
  using four_bytes [of w] by (simp add: read_le32_def le32_def)

lemma read_be32_be32 [simp]: "read_be32 (be32 w @ rest) = w"
  using read_le32_le32 [of w "[]"] by (simp add: read_be32_def be32_def)

lemma byte_of_four:
  fixes a b c d :: u8
  defines "w \<equiv> ucast a OR push_bit 8 (ucast b) OR push_bit 16 (ucast c) OR push_bit 24 (ucast d) :: u32"
  shows "ucast w = a" "ucast (drop_bit 8 w) = b" "ucast (drop_bit 16 w) = c" "ucast (drop_bit 24 w) = d"
  unfolding w_def by (rule bit_word_eqI; auto simp: bit_simps dest: bit_imp_le_length)+

lemma list_of_four:
  assumes "4 \<le> length b"
  obtains p q r s rest where "b = p # q # r # s # rest"
proof -
  obtain p b1 where 1: "b = p # b1" "3 \<le> length b1" using assms by (cases b) auto
  obtain q b2 where 2: "b1 = q # b2" "2 \<le> length b2" using 1 by (cases b1) auto
  obtain r b3 where 3: "b2 = r # b3" "1 \<le> length b3" using 2 by (cases b2) auto
  obtain s b4 where 4: "b3 = s # b4" using 3 by (cases b3) auto
  show thesis using that 1 2 3 4 by blast
qed

lemma le32_read_le32: "4 \<le> length b \<Longrightarrow> le32 (read_le32 b) = take 4 b"
proof (erule list_of_four)
  fix p q r s rest
  assume b: "b = p # q # r # s # rest"
  then have "read_le32 b = ucast p OR push_bit 8 (ucast q) OR push_bit 16 (ucast r) OR push_bit 24 (ucast s)"
    by (simp add: read_le32_def)
  then show ?thesis unfolding le32_def by (simp only: byte_of_four b) simp
qed

lemma be32_read_be32: "4 \<le> length b \<Longrightarrow> be32 (read_be32 b) = take 4 b"
  using le32_read_le32 [of "rev (take 4 b)"] by (simp add: be32_def read_be32_def)

text \<open>A block behind its length, in one of the two orders.\<close>

definition framed :: "(u32 \<Rightarrow> bytes) \<Rightarrow> bytes \<Rightarrow> bytes" where
  "framed enc b = enc (of_nat (length b)) @ b"

definition whole_frame :: "(bytes \<Rightarrow> u32) \<Rightarrow> bytes \<Rightarrow> bool" where
  "whole_frame rd b \<longleftrightarrow> 4 \<le> length b \<and> unat (rd b) \<le> length b - 4"

lemma unat_length32: "length b < 4294967296 \<Longrightarrow> unat (of_nat (length b) :: u32) = length b"
  by (simp add: unat_of_nat)

end
