(* ===== verification/Market_Feed.thy ===== *)
theory Market_Feed
  imports Word_Bytes
begin

text \<open>
  The three receivers of the compressed market feed: ihs/src/ana.cpp (a receiver thread and a
  processing thread with a queue between them), ihs/src/analyze.cpp and ihs/src/main.cpp.  A datagram
  is a sequence number and a list of blocks, each behind its length.  Decompression is the snappy
  library's and a parameter (\<open>unsnap\<close>, \<open>None\<close> when it refuses the block).  Datagrams are byte
  lists; sockets, threads and printing are not modelled.
\<close>

section \<open>ana.cpp\<close>

text \<open>
  The loop of \<open>process_thread_func\<close> over the blocks of a packet: the blocks handed to
  \<open>algo_callback\<close>.  A packet is at most 65503 bytes long, so the sums of offsets do not wrap.
\<close>

function feed_blocks :: "(bytes \<Rightarrow> bytes option) \<Rightarrow> bytes \<Rightarrow> nat \<Rightarrow> bytes list" where
  "feed_blocks unsnap packet offset =
     (if offset < length packet then
        if offset + 4 > length packet then []
        else
          let block_len = unat (read_be32 (drop offset packet)); start = offset + 4
          in if start + block_len > length packet then []
             else case unsnap (segment packet start (start + block_len)) of
                    None \<Rightarrow> feed_blocks unsnap packet (start + block_len)
                  | Some uncompressed \<Rightarrow> uncompressed # feed_blocks unsnap packet (start + block_len)
      else [])"
  by pat_completeness auto
termination
  by (relation "measure (\<lambda>(_, packet, offset). length packet - offset)") auto

declare feed_blocks.simps [simp del]

text \<open>
  The state of the program.  \<open>exited\<close>: \<open>exit(EXIT_FAILURE)\<close> has been called.  \<open>acks\<close> are the
  addresses an acknowledgement has been sent to, \<open>seqno_log\<close> the log file, \<open>callbacks\<close> the calls of
  \<open>algo_callback\<close>; \<open>accepted\<close> is history, everything that was ever put into the queue.
\<close>

record 'addr feed =
  authenticated :: bool
  data_queue :: "(u32 \<times> bytes) list"
  expected_seqno :: u32
  exited :: bool
  acks :: "'addr list"
  seqno_log :: "u32 list"
  callbacks :: "bytes list"
  accepted :: "(u32 \<times> bytes) list"

definition feed_start :: "'addr feed" where
  "feed_start = \<lparr>authenticated = False, data_queue = [], expected_seqno = 1, exited = False,
     acks = [], seqno_log = [], callbacks = [], accepted = []\<rparr>"

text \<open>The ten bytes of \<open>valid_auth\<close>: "user1" and "pass1".\<close>

definition valid_auth :: bytes where
  "valid_auth = [0x75, 0x73, 0x65, 0x72, 0x31, 0x70, 0x61, 0x73, 0x73, 0x31]"

text \<open>One iteration of the receive loop of \<open>test\<close>; \<open>None\<close> is a failed \<open>recvfrom\<close>.\<close>

definition feed_receive :: "('addr \<times> bytes) option \<Rightarrow> 'addr feed \<Rightarrow> 'addr feed" where
  "feed_receive r s =
     (case r of
        None \<Rightarrow> s
      | Some (client_addr, buffer) \<Rightarrow>
          if \<not> authenticated s then
            if length buffer = 10 \<and> buffer = valid_auth
            then s\<lparr>authenticated := True, acks := acks s @ [client_addr]\<rparr> else s
          else if length buffer < 4 then s
          else
            let seqno = read_be32 buffer
            in s\<lparr>seqno_log := seqno_log s @ [seqno],
                 data_queue := data_queue s @ [(seqno, drop 4 buffer)],
                 accepted := accepted s @ [(seqno, drop 4 buffer)]\<rparr>)"

text \<open>One iteration of \<open>process_thread_func\<close>; on an empty queue it waits.\<close>

definition feed_process :: "(bytes \<Rightarrow> bytes option) \<Rightarrow> 'addr feed \<Rightarrow> 'addr feed" where
  "feed_process unsnap s =
     (case data_queue s of
        [] \<Rightarrow> s
      | (seqno, packet) # rest \<Rightarrow>
          if seqno \<noteq> expected_seqno s then s\<lparr>data_queue := rest, exited := True\<rparr>
          else s\<lparr>data_queue := rest, callbacks := callbacks s @ feed_blocks unsnap packet 0,
                 expected_seqno := expected_seqno s + 1\<rparr>)"

text \<open>The two threads in any order; after \<open>exit\<close> neither runs.\<close>

datatype 'addr feed_action = Received "('addr \<times> bytes) option" | ProcessTurn

fun feed_event :: "(bytes \<Rightarrow> bytes option) \<Rightarrow> 'addr feed_action \<Rightarrow> 'addr feed \<Rightarrow> 'addr feed" where
  "feed_event unsnap (Received r) s = (if exited s then s else feed_receive r s)"
| "feed_event unsnap ProcessTurn s = (if exited s then s else feed_process unsnap s)"

definition feed_run :: "(bytes \<Rightarrow> bytes option) \<Rightarrow> 'addr feed_action list \<Rightarrow> 'addr feed \<Rightarrow> 'addr feed" where
  "feed_run unsnap es s = fold (feed_event unsnap) es s"

section \<open>analyze.cpp\<close>

text \<open>
  The inner loop of \<open>process_packet\<close>: it reads in \<open>recv_buf\<close>, whatever the length of the datagram, and
  queues the position and the length of each block.  \<open>remaining\<close> is a \<open>size_t\<close>.
\<close>

function packet_blocks :: "bytes \<Rightarrow> nat \<Rightarrow> nat \<Rightarrow> fault + (nat \<times> nat) list" where
  "packet_blocks recv_buf ptr remaining =
     (if remaining > 4 then
        if ptr + 4 > length recv_buf then Inl OutOfBounds
        else
          let len = unat (read_le32 (drop ptr recv_buf)); p = ptr + 4; r = remaining - 4
          in if len > r then Inr []
             else sum_bind (packet_blocks recv_buf (p + len) (r - len)) (\<lambda>bs. Inr ((p, len) # bs))
      else Inr [])"
  by pat_completeness auto
termination
  by (relation "measure (\<lambda>(_, _, remaining). remaining)") auto

declare packet_blocks.simps [simp del]

text \<open>
  One iteration of \<open>process_packet\<close> with the datagram that \<open>recvfrom\<close> stored, none when it returned
  an error or nothing: the buffer afterwards, the logged sequence number and the queued blocks.
\<close>

definition process_packet :: "bytes option \<Rightarrow> bytes \<Rightarrow> fault + bytes \<times> u32 list \<times> (nat \<times> nat) list" where
  "process_packet datagram recv_buf =
     (case datagram of
        None \<Rightarrow> Inr (recv_buf, [], [])
      | Some d \<Rightarrow>
          let recv_len = length (take 65536 d); buf = overwrite recv_buf 0 (take 65536 d)
          in if recv_len = 0 then Inr (recv_buf, [], [])
             else sum_bind (packet_blocks buf 4 (sz_sub recv_len 4))
                    (\<lambda>bs. Inr (buf, [read_le32 buf], bs)))"

section \<open>main.cpp\<close>

text \<open>
  \<open>processMarketData\<close>.  The four bytes of the length are read without a test; a string has a
  terminating zero behind its last character.  \<open>substr\<close> throws when it starts behind the end and
  otherwise clips; \<open>RawUncompress\<close> is told the unclipped length and needs that many bytes.
\<close>

function market_blocks :: "(bytes \<Rightarrow> bytes) \<Rightarrow> bytes \<Rightarrow> nat \<Rightarrow> fault + bytes list" where
  "market_blocks unsnap data offset =
     (if offset < length data then
        if offset + 4 > length data + 1 then Inl OutOfBounds
        else
          let compressedSize = unat (read_le32 (drop offset (data @ [0]))); start = offset + 4
          in if start > length data then Inl (Thrown ''out_of_range'')
             else
               let compressedData = take compressedSize (drop start data)
               in if compressedSize > length compressedData then Inl OutOfBounds
                  else sum_bind (market_blocks unsnap data (start + compressedSize))
                         (\<lambda>bs. Inr (unsnap compressedData # bs))
      else Inr [])"
  by pat_completeness auto
termination
  by (relation "measure (\<lambda>(_, data, offset). length data - offset)") auto

declare market_blocks.simps [simp del]



section \<open>Frames\<close>

text \<open>Every packet is a sequence of frames and a rest that is not a whole frame.\<close>

lemma frame_split:
  assumes inv: "\<And>b. 4 \<le> length b \<Longrightarrow> enc (rd b) = take 4 b"
  shows "\<exists>bs rest. data = concat (map (framed enc) bs) @ rest \<and> \<not> whole_frame rd rest
    \<and> (\<forall>b\<in>set bs. length b < 4294967296)"
proof (induction data rule: length_induct)
  case (1 data)
  show ?case
  proof (cases "whole_frame rd data")
    case False
    then show ?thesis by (intro exI [of _ "[]"] exI [of _ data]) simp
  next
    case True
    define n where "n = unat (rd data)"
    have len: "4 + n \<le> length data" and n: "n < 4294967296"
      using True unsigned_less [of "rd data"] by (auto simp: whole_frame_def n_def)
    let ?b = "take n (drop 4 data)"
    have shorter: "length (drop (4 + n) data) < length data" using len by simp
    obtain bs rest where d: "drop (4 + n) data = concat (map (framed enc) bs) @ rest"
        and r: "\<not> whole_frame rd rest" "\<forall>b\<in>set bs. length b < 4294967296"
      using 1 [rule_format, OF shorter] by blast
    have "enc (of_nat (length ?b)) = take 4 data" using inv [of data] len by (simp add: n_def)
    then have "data = framed enc ?b @ drop (4 + n) data"
      using append_take_drop_id [of 4 data] append_take_drop_id [of n "drop 4 data"]
      by (simp add: framed_def add.commute)
    then have "data = concat (map (framed enc) (?b # bs)) @ rest" using d by simp
    moreover have "\<forall>b\<in>set (?b # bs). length b < 4294967296" using r(2) n by simp
    ultimately show ?thesis using r(1) by blast
  qed
qed

lemma frames_length: "length (framed be32 b) = 4 + length b" "length (framed le32 b) = 4 + length b"
  by (simp_all add: framed_def)

section \<open>The blocks that ana.cpp hands over\<close>

lemma feed_blocks_frame:
  assumes "length b < 4294967296"
  shows "feed_blocks unsnap (pre @ framed be32 b @ rest) (length pre)
    = (case unsnap b of None \<Rightarrow> [] | Some d \<Rightarrow> [d])
      @ feed_blocks unsnap ((pre @ framed be32 b) @ rest) (length (pre @ framed be32 b))"
proof -
  have "read_be32 (be32 (of_nat (length b)) @ b @ rest) = of_nat (length b)" by simp
  then have n: "unat (read_be32 (framed be32 b @ rest)) = length b"
    using assms by (simp add: framed_def unat_length32)
  have seg: "segment (pre @ framed be32 b @ rest) (length pre + 4) (length pre + 4 + length b) = b"
    by (simp add: segment_def framed_def)
  show ?thesis
    by (subst feed_blocks.simps) (use n seg in \<open>simp add: frames_length Let_def add.assoc split: option.split\<close>)
qed

lemma feed_blocks_frames:
  assumes "\<forall>b\<in>set bs. length b < 4294967296"
  shows "feed_blocks unsnap (pre @ concat (map (framed be32) bs) @ rest) (length pre)
    = List.map_filter unsnap bs
      @ feed_blocks unsnap ((pre @ concat (map (framed be32) bs)) @ rest) (length (pre @ concat (map (framed be32) bs)))"
  using assms
proof (induction bs arbitrary: pre)
  case (Cons b bs)
  from Cons.IH [of "pre @ framed be32 b"] Cons.prems show ?case
    using feed_blocks_frame [of b unsnap pre "concat (map (framed be32) bs) @ rest"]
    by (simp add: map_filter_simps split: option.split)
qed (simp add: map_filter_simps)

lemma feed_blocks_rest: "\<not> whole_frame read_be32 rest \<Longrightarrow> feed_blocks unsnap (pre @ rest) (length pre) = []"
  by (subst feed_blocks.simps) (auto simp: whole_frame_def Let_def)

text \<open>
  ana.cpp, one packet: whatever the packet is, it is a sequence of whole frames (length in network order,
  block) and a rest that is not a whole frame, and exactly the blocks of those frames that snappy accepts
  are handed to the algorithm, in order; the rest is dropped.  No read leaves the packet.
\<close>

theorem feed_blocks_exact:
  "\<exists>bs rest. packet = concat (map (framed be32) bs) @ rest \<and> \<not> whole_frame read_be32 rest
     \<and> feed_blocks unsnap packet 0 = List.map_filter unsnap bs"
proof -
  obtain bs rest where p: "packet = concat (map (framed be32) bs) @ rest" and r: "\<not> whole_frame read_be32 rest"
      and b: "\<forall>b\<in>set bs. length b < 4294967296"
    using frame_split [OF be32_read_be32] by blast
  have "feed_blocks unsnap packet 0 = List.map_filter unsnap bs"
    using feed_blocks_frames [OF b, of unsnap "[]" rest] feed_blocks_rest [OF r, of unsnap] p by simp
  then show ?thesis using p r by blast
qed

section \<open>The two threads of ana.cpp\<close>

definition feed_inv :: "(bytes \<Rightarrow> bytes option) \<Rightarrow> 'addr feed \<Rightarrow> nat \<Rightarrow> bool" where
  "feed_inv unsnap s k \<longleftrightarrow> k \<le> length (accepted s) \<and> expected_seqno s = 1 + of_nat k
     \<and> map fst (take k (accepted s)) = map (\<lambda>i. 1 + of_nat i) [0..<k]
     \<and> callbacks s = concat (map (\<lambda>(_, p). feed_blocks unsnap p 0) (take k (accepted s)))
     \<and> (if exited s then k < length (accepted s) \<and> fst (accepted s ! k) \<noteq> expected_seqno s
        else data_queue s = drop k (accepted s))
     \<and> seqno_log s = map fst (accepted s) \<and> (accepted s = [] \<or> authenticated s)"

lemma feed_receive_inv:
  assumes "feed_inv unsnap s k" "\<not> exited s"
  shows "feed_inv unsnap (feed_receive r s) k"
proof (cases r)
  case (Some d)
  obtain a b where d: "d = (a, b)" by fastforce
  show ?thesis using assms unfolding feed_inv_def feed_receive_def Some d
    by (simp add: Let_def) blast
qed (use assms in \<open>simp add: feed_receive_def\<close>)

lemma feed_process_inv:
  assumes inv: "feed_inv unsnap s k" and run: "\<not> exited s"
  shows "\<exists>k'. feed_inv unsnap (feed_process unsnap s) k'"
proof (cases "data_queue s")
  case Nil
  then show ?thesis using inv by (auto simp: feed_process_def)
next
  case (Cons h rest)
  obtain n p where h: "h = (n, p)" by fastforce
  have q: "drop k (accepted s) = (n, p) # rest" using inv run Cons h by (simp add: feed_inv_def)
  then have k: "k < length (accepted s)" by (metis drop_eq_Nil linorder_not_le list.distinct(1))
  have at: "accepted s ! k = (n, p)" and dr: "drop (Suc k) (accepted s) = rest"
    using q by (metis k Cons_nth_drop_Suc list.inject)+
  have next_taken: "take (Suc k) (accepted s) = take k (accepted s) @ [(n, p)]"
    using k at by (simp add: take_Suc_conv_app_nth)
  show ?thesis
  proof (cases "n = expected_seqno s")
    case True
    then have "feed_process unsnap s = s\<lparr>data_queue := rest, callbacks := callbacks s @ feed_blocks unsnap p 0,
        expected_seqno := expected_seqno s + 1\<rparr>" using Cons h by (simp add: feed_process_def)
    then have "feed_inv unsnap (feed_process unsnap s) (Suc k)"
      using inv run True k dr next_taken by (simp add: feed_inv_def)
    then show ?thesis ..
  next
    case False
    then have "feed_process unsnap s = s\<lparr>data_queue := rest, exited := True\<rparr>"
      using Cons h by (simp add: feed_process_def)
    then have "feed_inv unsnap (feed_process unsnap s) k"
      using inv False k at by (simp add: feed_inv_def)
    then show ?thesis ..
  qed
qed

lemma feed_run_inv: "\<exists>k. feed_inv unsnap (feed_run unsnap es feed_start) k"
proof -
  have "\<exists>k'. feed_inv unsnap (feed_event unsnap e s) k'" if "feed_inv unsnap s k"
    for e k and s :: "'a feed"
    using that feed_receive_inv feed_process_inv by (cases e; cases "exited s") fastforce+
  then have "\<exists>k'. feed_inv unsnap (fold (feed_event unsnap) es s) k'" if "\<exists>k. feed_inv unsnap s k"
    for s :: "'a feed"
    using that by (induction es arbitrary: s) (simp, metis fold_simps(2))
  moreover have "feed_inv unsnap (feed_start :: 'a feed) 0" by (simp add: feed_inv_def feed_start_def)
  ultimately show ?thesis unfolding feed_run_def by blast
qed

text \<open>
  C38. ana.cpp, in every order of datagrams and turns of the processing thread: the algorithm has got the blocks
  of exactly the first \<open>k\<close> datagrams accepted after the login, and these carry the numbers 1 to \<open>k\<close>;
  either the others are waiting in the queue, or the program has exited at the first number that was not
  the next one.  The log has the number of every accepted datagram, and none is accepted before a login.
\<close>

theorem feed_in_order:
  assumes s: "s = feed_run unsnap es feed_start"
  shows "\<exists>k. k \<le> length (accepted s) \<and> map fst (take k (accepted s)) = map (\<lambda>i. 1 + of_nat i) [0..<k]
     \<and> callbacks s = concat (map (\<lambda>(_, p). feed_blocks unsnap p 0) (take k (accepted s)))
     \<and> (if exited s then k < length (accepted s) \<and> fst (accepted s ! k) \<noteq> 1 + of_nat k
        else data_queue s = drop k (accepted s))
     \<and> seqno_log s = map fst (accepted s) \<and> (accepted s = [] \<or> authenticated s)"
proof -
  obtain k where "feed_inv unsnap s k" using feed_run_inv unfolding s by blast
  then show ?thesis unfolding feed_inv_def by (intro exI [of _ k]) (auto split: if_splits)
qed

theorem feed_in_order_witness:
  "let s = feed_run Some [Received (Some (0 :: nat, valid_auth)), Received (Some (0, be32 1 @ framed be32 [7])), ProcessTurn]
       feed_start
   in callbacks s = concat (map (\<lambda>(_, p). feed_blocks Some p 0) (take 1 (accepted s))) \<and> accepted s \<noteq> []"
proof -
  let ?s = "feed_run Some [Received (Some (0 :: nat, valid_auth)), Received (Some (0, be32 1 @ framed be32 [7])), ProcessTurn]
       feed_start"
  have acc: "accepted ?s = [(1, framed be32 [7])]" and run: "\<not> exited ?s" and q: "data_queue ?s = []"
    by (simp_all add: feed_run_def feed_receive_def feed_process_def feed_start_def valid_auth_def Let_def)
  obtain k where k: "k \<le> length (accepted ?s)"
      "callbacks ?s = concat (map (\<lambda>(_, p). feed_blocks Some p 0) (take k (accepted ?s)))"
      "if exited ?s then k < length (accepted ?s) \<and> fst (accepted ?s ! k) \<noteq> 1 + of_nat k
        else data_queue ?s = drop k (accepted ?s)"
    using feed_in_order [OF refl, of Some "[Received (Some (0 :: nat, valid_auth)), Received (Some (0, be32 1 @ framed be32 [7])), ProcessTurn]"]
    by blast
  have "k = 1" using k(1,3) run q acc by (cases k) auto
  then show ?thesis using k(2) acc by (simp add: Let_def)
qed

text \<open>
  ana.cpp gives up at the first irregularity: when the queue is empty and the next datagram has another number
  than the expected one, because one was lost or two changed places, the program exits; so does a second login
  (its bytes are taken for the number 0x75736572), from whatever address.
\<close>

theorem feed_gap_exits:
  assumes "\<not> exited s" "authenticated s" "data_queue s = []" "4 \<le> length d" "read_be32 d \<noteq> expected_seqno s"
  shows "exited (feed_run unsnap [Received (Some (a, d)), ProcessTurn] s)
     \<and> callbacks (feed_run unsnap [Received (Some (a, d)), ProcessTurn] s) = callbacks s
     \<and> 4 \<le> length valid_auth \<and> read_be32 valid_auth = 0x75736572"
  using assms
  by (simp_all add: feed_run_def feed_receive_def feed_process_def Let_def valid_auth_def read_be32_def read_le32_def)

theorem feed_gap_exits_witness:
  "exited (feed_run Some [Received (Some (1, valid_auth)), ProcessTurn]
     (feed_run Some [Received (Some (0 :: nat, valid_auth))] feed_start))"
proof -
  let ?s = "feed_run Some [Received (Some (0 :: nat, valid_auth))] feed_start"
  have "\<not> exited ?s" "authenticated ?s" "data_queue ?s = []" "expected_seqno ?s = 1"
    by (simp_all add: feed_run_def feed_receive_def feed_start_def valid_auth_def Let_def)
  moreover have "4 \<le> length valid_auth" "read_be32 valid_auth \<noteq> 1" by code_simp+
  ultimately show ?thesis using feed_gap_exits [of ?s valid_auth Some 1] by simp
qed

section \<open>The blocks that analyze.cpp queues\<close>





text \<open>Whatever is received, the blocks lie behind each other inside the datagram.\<close>

lemma packet_blocks_inside:
  assumes "ptr + remaining \<le> length buf"
  shows "\<exists>bs. packet_blocks buf ptr remaining = Inr bs \<and> (\<forall>(i, n)\<in>set bs. ptr + 4 \<le> i \<and> i + n \<le> ptr + remaining)
     \<and> sorted_wrt (\<lambda>(i, n) (i', n'). i + n < i') bs"
  using assms
proof (induction buf ptr remaining rule: packet_blocks.induct)
  case (1 buf ptr remaining)
  show ?case
  proof (cases "4 < remaining")
    case False
    then show ?thesis by (subst packet_blocks.simps) simp
  next
    case True
    define n where "n = unat (read_le32 (drop ptr buf))"
    have inb: "\<not> length buf < ptr + 4" using 1(2) True by simp
    show ?thesis
    proof (cases "remaining - 4 < n")
      case True
      then show ?thesis using inb \<open>4 < remaining\<close> by (subst packet_blocks.simps) (simp add: n_def Let_def)
    next
      case False
      have "ptr + 4 + n + (remaining - 4 - n) \<le> length buf" using 1(2) False True by simp
      then obtain bs where bs: "packet_blocks buf (ptr + 4 + n) (remaining - 4 - n) = Inr bs"
          "\<forall>(i, m)\<in>set bs. ptr + 4 + n + 4 \<le> i \<and> i + m \<le> ptr + 4 + n + (remaining - 4 - n)"
          "sorted_wrt (\<lambda>(i, n) (i', n'). i + n < i') bs"
        using 1(1) [OF True inb n_def refl refl] False by fastforce
      have "packet_blocks buf ptr remaining = Inr ((ptr + 4, n) # bs)"
        using bs(1) inb True False by (subst packet_blocks.simps) (simp add: n_def Let_def)
      moreover have "\<forall>(i, m)\<in>set ((ptr + 4, n) # bs). ptr + 4 \<le> i \<and> i + m \<le> ptr + remaining"
        using bs(2) False True by fastforce
      moreover have "sorted_wrt (\<lambda>(i, n) (i', n'). i + n < i') ((ptr + 4, n) # bs)"
        using bs(2,3) by fastforce
      ultimately show ?thesis by blast
    qed
  qed
qed

lemma overwrite_start: "length d \<le> length buf \<Longrightarrow> overwrite buf 0 d = d @ drop (length d) buf"
  by (simp add: overwrite_def)

lemma read_le32_append: "4 \<le> length b \<Longrightarrow> read_le32 (b @ x) = read_le32 b"
  by (auto simp: read_le32_def nth_append)

lemma process_packet_received:
  assumes "length buf = 65536" "4 \<le> length d" "length d \<le> 65536"
  shows "process_packet (Some d) buf
    = sum_bind (packet_blocks (d @ drop (length d) buf) 4 (length d - 4))
        (\<lambda>bs. Inr (d @ drop (length d) buf, [read_le32 d], bs))"
proof -
  have "d \<noteq> []" using assms(2) by auto
  moreover have "sz_sub (length d) 4 = length d - 4" using assms by (intro sz_sub_le) simp_all
  ultimately show ?thesis using assms
    by (simp add: process_packet_def Let_def overwrite_start read_le32_append)
qed

text \<open>
  analyze.cpp, a datagram of four bytes or more: the loop returns, and whatever the bytes are, the blocks it
  queues lie inside the received bytes, one after the other without overlap.
\<close>

theorem analyze_in_bounds:
  assumes "length buf = 65536" "4 \<le> length d" "length d \<le> 65536"
  shows "\<exists>bs. process_packet (Some d) buf = Inr (d @ drop (length d) buf, [read_le32 d], bs)
     \<and> (\<forall>(i, n)\<in>set bs. 8 \<le> i \<and> i + n \<le> length d) \<and> sorted_wrt (\<lambda>(i, n) (i', n'). i + n < i') bs"
proof -
  have "4 + (length d - 4) \<le> length (d @ drop (length d) buf)" using assms by simp
  from packet_blocks_inside [OF this] obtain bs where bs:
      "packet_blocks (d @ drop (length d) buf) 4 (length d - 4) = Inr bs"
      "\<forall>(i, n)\<in>set bs. 4 + 4 \<le> i \<and> i + n \<le> 4 + (length d - 4)"
      "sorted_wrt (\<lambda>(i, n) (i', n'). i + n < i') bs" by blast
  have "\<forall>(i, n)\<in>set bs. 8 \<le> i \<and> i + n \<le> length d" using bs(2) assms(2) by auto
  then show ?thesis using bs(1,3) process_packet_received [OF assms] by (intro exI [of _ bs]) simp
qed

theorem analyze_in_bounds_witness:
  "\<exists>bs. process_packet (Some [1, 0, 0, 0, 200, 0, 0, 0, 7]) (replicate 65536 0)
     = Inr ([1, 0, 0, 0, 200, 0, 0, 0, 7] @ drop 9 (replicate 65536 0), [read_le32 [1, 0, 0, 0, 200, 0, 0, 0, 7]], bs)
   \<and> (\<forall>(i, n)\<in>set bs. 8 \<le> i \<and> i + n \<le> 9)"
proof -
  define d buf where "d = [1, 0, 0, 0, 200, 0, 0, 0, 7 :: u8]" and "buf = replicate 65536 (0 :: u8)"
  have "length buf = 65536" "length d = 9" unfolding d_def buf_def by (rule length_replicate) simp
  then have "\<exists>bs. process_packet (Some d) buf = Inr (d @ drop 9 buf, [read_le32 d], bs)
      \<and> (\<forall>(i, n)\<in>set bs. 8 \<le> i \<and> i + n \<le> 9)"
    using analyze_in_bounds [of buf d] by force
  then show ?thesis by (simp only: d_def buf_def)
qed

text \<open>
  What analyze.cpp queues is a position in \<open>recv_buf\<close>, not the bytes: once the next datagram has arrived, a
  block that the worker has not decompressed yet consists of the bytes of that datagram.
\<close>

theorem analyze_block_overwritten:
  assumes "length buf = 65536" "4 \<le> length d" "length d \<le> 65536" "4 \<le> length e" "length e \<le> 65536"
    and "process_packet (Some d) buf = Inr (buf1, logged1, bs1)"
    and "process_packet (Some e) buf1 = Inr (buf2, logged2, bs2)"
    and "(i, n) \<in> set bs1" "i + n \<le> length e"
  shows "segment buf2 i (i + n) = segment e i (i + n)"
proof -
  have b1: "buf1 = d @ drop (length d) buf"
    using assms(6) process_packet_received [OF assms(1-3)] by (auto simp: sum_bind_eq_Inr)
  then have "length buf1 = 65536" using assms(1,3) by simp
  then have "buf2 = e @ drop (length e) buf1"
    using assms(7) process_packet_received [OF _ assms(4,5), of buf1] by (auto simp: sum_bind_eq_Inr)
  then show ?thesis using assms(9) by (simp add: segment_def)
qed

section \<open>A datagram shorter than its header\<close>

text \<open>Over zero bytes the loop finds empty blocks until it leaves the buffer.\<close>

lemma zeros_overrun:
  assumes "ptr = length buf - 4 * j" "4 * j \<le> length buf" "\<forall>i. ptr \<le> i \<and> i < length buf \<longrightarrow> buf ! i = 0" "4 * j + 4 < r"
  shows "packet_blocks buf ptr r = Inl OutOfBounds"
  using assms
proof (induction j arbitrary: ptr r)
  case 0
  then show ?case by (subst packet_blocks.simps) simp
next
  case (Suc j)
  have p: "ptr + 4 = length buf - 4 * j" using Suc.prems by simp
  have in_buf: "ptr + 3 < length buf" "ptr + 4 \<le> length buf" using Suc.prems by auto
  have "read_le32 (drop ptr buf) = 0" using Suc.prems(3) in_buf by (simp add: read_le32_def)
  moreover have "packet_blocks buf (ptr + 4) (r - 4) = Inl OutOfBounds"
    by (rule Suc.IH [OF p]) (use Suc.prems in auto)
  ultimately show ?case using Suc.prems(4) in_buf by (subst packet_blocks.simps) (simp add: Let_def)
qed

text \<open>
  analyze.cpp, a datagram of one to three bytes: \<open>recv_len - sizeof(PacketHeader)\<close> wraps to almost
  \<open>2 ^ 64\<close>, and on a buffer that is zero behind the header the loop runs out of the buffer.
\<close>

theorem analyze_short_overrun:
  assumes "length buf = 65536" "d \<noteq> []" "length d < 4" "\<forall>i. 4 \<le> i \<and> i < 65536 \<longrightarrow> buf ! i = 0"
  shows "process_packet (Some d) buf = Inl OutOfBounds"
proof -
  let ?buf = "overwrite buf 0 d"
  have len: "length ?buf = 65536" using assms by (simp add: length_overwrite)
  have zero: "\<forall>i. 4 \<le> i \<and> i < length ?buf \<longrightarrow> ?buf ! i = 0"
    using assms len by (auto simp: overwrite_def nth_append)
  have short: "1 \<le> length d" using assms(2) by (cases d) auto
  then have "sz_sub (length d) 4 = length d + (sz_mod - 4)" using assms(3) by (simp add: sz_sub_def)
  then have "4 * 16383 + 4 < sz_sub (length d) 4" by simp
  moreover have "(4 :: nat) = length ?buf - 4 * 16383" "4 * 16383 \<le> length ?buf" using len by simp_all
  ultimately have "packet_blocks ?buf 4 (sz_sub (length d) 4) = Inl OutOfBounds"
    using zeros_overrun [of 4 ?buf 16383] zero by blast
  then show ?thesis using assms(2,3) by (simp add: process_packet_def Let_def)
qed

theorem analyze_short_overrun_witness: "process_packet (Some [1, 2, 3]) (replicate 65536 0) = Inl OutOfBounds"
proof -
  have "length (replicate 65536 (0 :: u8)) = 65536" by (rule length_replicate)
  moreover have "\<forall>i. 4 \<le> i \<and> i < 65536 \<longrightarrow> replicate 65536 (0 :: u8) ! i = 0" by simp
  ultimately show ?thesis using analyze_short_overrun [of "replicate 65536 0" "[1, 2, 3]"] by simp
qed

section \<open>The blocks that main.cpp decompresses\<close>

lemma market_blocks_frame:
  assumes "length b < 4294967296"
  shows "market_blocks unsnap (pre @ framed le32 b @ rest) (length pre)
    = sum_bind (market_blocks unsnap ((pre @ framed le32 b) @ rest) (length (pre @ framed le32 b)))
        (\<lambda>bs. Inr (unsnap b # bs))"
proof -
  have n: "unat (read_le32 (framed le32 b @ rest @ [0])) = length b"
    using assms by (simp add: framed_def unat_length32)
  have dr: "take (length b) (drop (length pre + 4) (pre @ framed le32 b @ rest)) = b"
    by (simp add: framed_def)
  show ?thesis
    by (subst market_blocks.simps) (use n dr in \<open>simp add: frames_length Let_def add.assoc\<close>)
qed

lemma market_blocks_frames:
  assumes "\<forall>b\<in>set bs. length b < 4294967296"
  shows "market_blocks unsnap (pre @ concat (map (framed le32) bs) @ rest) (length pre)
    = sum_bind (market_blocks unsnap ((pre @ concat (map (framed le32) bs)) @ rest)
          (length (pre @ concat (map (framed le32) bs)))) (\<lambda>r. Inr (map unsnap bs @ r))"
  using assms
proof (induction bs arbitrary: pre)
  case Nil
  show ?case by (simp add: sum_bind_def split: sum.split)
next
  case (Cons b bs)
  from Cons.IH [of "pre @ framed le32 b"] Cons.prems show ?case
    using market_blocks_frame [of b unsnap pre "concat (map (framed le32) bs) @ rest"]
    by (simp add: sum_bind_def split: sum.split)
qed

lemma market_blocks_end: "market_blocks unsnap data (length data) = Inr []"
  by (subst market_blocks.simps) simp

lemma market_blocks_rest:
  assumes "rest \<noteq> []" "\<not> whole_frame read_le32 rest"
  shows "market_blocks unsnap (pre @ rest) (length pre)
    = Inl (if length rest = 3 then Thrown ''out_of_range'' else OutOfBounds)"
proof (cases "4 \<le> length rest")
  case True
  then have "unat (read_le32 (rest @ [0])) > length rest - 4"
    using assms(2) by (simp add: whole_frame_def read_le32_append)
  then show ?thesis using True assms(1) by (subst market_blocks.simps) (simp add: Let_def)
next
  case False
  then show ?thesis using assms(1) by (subst market_blocks.simps) (auto simp: Let_def)
qed

text \<open>
  main.cpp, one packet: every byte string is a sequence of whole frames (length in host order, block) and a
  rest that is not a whole frame; when the rest is empty all blocks are decompressed in order, and otherwise
  the routine does not return: it reads outside the packet, or \<open>substr\<close> throws when three bytes are left.
\<close>

theorem market_blocks_exact:
  "\<exists>bs rest. data = concat (map (framed le32) bs) @ rest \<and> \<not> whole_frame read_le32 rest
     \<and> market_blocks unsnap data 0 = (if rest = [] then Inr (map unsnap bs)
          else Inl (if length rest = 3 then Thrown ''out_of_range'' else OutOfBounds))"
proof -
  obtain bs rest where p: "data = concat (map (framed le32) bs) @ rest" and r: "\<not> whole_frame read_le32 rest"
      and b: "\<forall>b\<in>set bs. length b < 4294967296"
    using frame_split [OF le32_read_le32] by blast
  let ?all = "concat (map (framed le32) bs)"
  have "market_blocks unsnap data 0
      = sum_bind (market_blocks unsnap (?all @ rest) (length ?all)) (\<lambda>r. Inr (map unsnap bs @ r))"
    using market_blocks_frames [OF b, of unsnap "[]" rest] p by simp
  moreover have "market_blocks unsnap (?all @ rest) (length ?all) = Inr []" if "rest = []"
    using that market_blocks_end [of unsnap ?all] by simp
  ultimately have "market_blocks unsnap data 0 = (if rest = [] then Inr (map unsnap bs)
      else Inl (if length rest = 3 then Thrown ''out_of_range'' else OutOfBounds))"
    using market_blocks_rest [OF _ r, of unsnap ?all] by simp
  then show ?thesis using p r by blast
qed



end
