(* ===== verification/Packet_Pool.thy ===== *)
theory Packet_Pool
  imports Ring_Queues "HOL-Library.Multiset"
begin

text \<open>
  The burst receiver of ihs/src/what.cpp: \<open>MemoryPool\<close>, the receive loop of \<open>main\<close> and four worker
  threads, each with a single-producer single-consumer queue of buffer pointers.  A pointer is the
  number of the buffer.  The main thread and the workers take turns in any order, one operation of
  the pool, a queue or the socket at a time.  \<open>dispatched\<close>, \<open>decoded\<close> and \<open>received\<close> are history.
\<close>

section \<open>The pool\<close>

definition pool_new :: "nat \<Rightarrow> nat list" where
  "pool_new n = [0..<n]"

fun pool_acquire :: "nat list \<Rightarrow> nat option \<times> nat list" where
  "pool_acquire [] = (None, [])"
| "pool_acquire (b # free_list) = (Some b, free_list)"

definition pool_release :: "nat \<Rightarrow> nat list \<Rightarrow> nat list" where
  "pool_release b free_list = free_list @ [b]"

section \<open>The threads\<close>

text \<open>Where the main thread is: waiting in \<open>epoll_wait\<close>, or in its receive loop.\<close>

datatype main_pc = EpollWait | Acquire | Receive nat | Dispatch nat

record receiver =
  free_list :: "nat list"
  packet_data :: "nat \<Rightarrow> bytes"
  queues :: "nat \<Rightarrow> nat ring"
  held :: "nat \<Rightarrow> nat option"
  main_pc :: main_pc
  worker_index :: nat
  burst_start :: u64
  packets_in_burst :: int
  alerts :: nat
  received :: "bytes list"
  dispatched :: "nat \<Rightarrow> bytes list"
  decoded :: "nat \<Rightarrow> bytes list"

definition receiver_new :: receiver where
  "receiver_new = \<lparr>free_list = pool_new 2000, packet_data = (\<lambda>_. []),
     queues = (\<lambda>_. \<lparr>buffer = replicate 1024 0, head = 0, tail = 0\<rparr>), held = (\<lambda>_. None),
     main_pc = EpollWait, worker_index = 0, burst_start = 0, packets_in_burst = 0, alerts = 0,
     received = [], dispatched = (\<lambda>_. []), decoded = (\<lambda>_. [])\<rparr>"

text \<open>
  The detection of bursts with the clock's value \<open>now\<close>; the comparisons with floating-point constants
  are exact at these magnitudes.
\<close>

definition detect_burst :: "u64 \<Rightarrow> receiver \<Rightarrow> receiver" where
  "detect_burst now s =
     (let s1 = (if now - burst_start s > 3000000000 then s\<lparr>burst_start := now, packets_in_burst := 0\<rparr> else s);
          n = packets_in_burst s1 + 1
      in s1\<lparr>packets_in_burst := n, alerts := (if n > 1200 then alerts s1 + 1 else alerts s1)\<rparr>)"

text \<open>
  A step of the main thread.  The socket answers a \<open>recvfrom\<close> with a datagram (cut to
  \<open>MAX_PACKET_SIZE\<close>) or with none; \<open>again\<close> is whether \<open>errno\<close> is then \<open>EAGAIN\<close>.  Without a free
  buffer a datagram is received into a temporary and dropped.
\<close>

definition main_step :: "bytes option \<Rightarrow> bool \<Rightarrow> u64 \<Rightarrow> receiver \<Rightarrow> receiver" where
  "main_step datagram again now s =
     (case main_pc s of
        EpollWait \<Rightarrow> s\<lparr>main_pc := Acquire\<rparr>
      | Acquire \<Rightarrow>
          (case pool_acquire (free_list s) of
             (None, _) \<Rightarrow> s\<lparr>alerts := alerts s + 1\<rparr>
           | (Some b, fs) \<Rightarrow> s\<lparr>free_list := fs, main_pc := Receive b\<rparr>)
      | Receive b \<Rightarrow>
          (case datagram of
             Some (c # d) \<Rightarrow>
               let data = take 1000 (c # d)
               in detect_burst now
                    (s\<lparr>packet_data := (packet_data s)(b := data), received := received s @ [data],
                       main_pc := Dispatch b\<rparr>)
           | _ \<Rightarrow> s\<lparr>free_list := pool_release b (free_list s),
                    main_pc := (if again then EpollWait else Acquire)\<rparr>)
      | Dispatch b \<Rightarrow>
          let i = worker_index s; (ok, q) = spscq_push b (queues s i)
          in if ok
             then s\<lparr>queues := (queues s)(i := q), worker_index := (i + 1) mod 4, main_pc := Acquire,
                    dispatched := (dispatched s)(i := dispatched s i @ [packet_data s b])\<rparr>
             else s\<lparr>worker_index := (i + 1) mod 4\<rparr>)"

text \<open>A step of worker \<open>i\<close>: take a packet (and decode it), or give its buffer back.\<close>

definition worker_step :: "nat \<Rightarrow> receiver \<Rightarrow> receiver" where
  "worker_step i s =
     (case held s i of
        None \<Rightarrow>
          (case spscq_pop (queues s i) of
             (None, q) \<Rightarrow> s
           | (Some b, q) \<Rightarrow> s\<lparr>queues := (queues s)(i := q), held := (held s)(i := Some b),
                              decoded := (decoded s)(i := decoded s i @ [packet_data s b])\<rparr>)
      | Some b \<Rightarrow> s\<lparr>free_list := pool_release b (free_list s), held := (held s)(i := None)\<rparr>)"

datatype turn = MainTurn "bytes option" bool u64 | WorkerTurn nat

fun take_turn :: "turn \<Rightarrow> receiver \<Rightarrow> receiver" where
  "take_turn (MainTurn datagram again now) s = main_step datagram again now s"
| "take_turn (WorkerTurn i) s = (if i < 4 then worker_step i s else s)"

definition receiver_run :: "turn list \<Rightarrow> receiver" where
  "receiver_run ts = fold take_turn ts receiver_new"

section \<open>Where the buffers are\<close>

definition in_hand :: "main_pc \<Rightarrow> nat list" where
  "in_hand pc = (case pc of Receive b \<Rightarrow> [b] | Dispatch b \<Rightarrow> [b] | _ \<Rightarrow> [])"

definition places :: "receiver \<Rightarrow> nat multiset" where
  "places s = mset (free_list s) + (\<Sum>i<4. mset (ring_contents (queues s i))) + (\<Sum>i<4. mset (case held s i of None \<Rightarrow> [] | Some b \<Rightarrow> [b]))
     + mset (in_hand (main_pc s))"

definition unsent :: "(nat \<Rightarrow> bytes) \<Rightarrow> main_pc \<Rightarrow> bytes list" where
  "unsent data pc = (case pc of Dispatch b \<Rightarrow> [data b] | _ \<Rightarrow> [])"

definition pool_inv :: "receiver \<Rightarrow> bool" where
  "pool_inv s \<longleftrightarrow> places s = mset [0..<2000] \<and> worker_index s < 4
     \<and> (\<forall>i<4. ring_inv (queues s i) \<and> ring_room (queues s i) = 1023)
     \<and> (\<forall>i<4. dispatched s i = decoded s i @ map (packet_data s) (ring_contents (queues s i)))
     \<and> mset (received s) = (\<Sum>i<4. mset (dispatched s i))
         + mset (unsent (packet_data s) (main_pc s))"

lemma sum_upd:
  fixes g :: "'a \<Rightarrow> 'b::comm_monoid_add"
  assumes "j < (n :: nat)"
  shows "(\<Sum>i<n. g ((f(j := x)) i)) + g (f j) = (\<Sum>i<n. g (f i)) + g x"
proof -
  have "(\<Sum>i<n. g ((f(j := x)) i)) = g x + (\<Sum>i\<in>{..<n} - {j}. g (f i))"
    using assms by (subst sum.remove [of _ j]) (auto intro: sum.cong)
  moreover have "(\<Sum>i<n. g (f i)) = g (f j) + (\<Sum>i\<in>{..<n} - {j}. g (f i))"
    using assms by (intro sum.remove) auto
  ultimately show ?thesis by (simp add: ac_simps)
qed

lemma detect_burst_fields [simp]:
  "free_list (detect_burst now s) = free_list s" "packet_data (detect_burst now s) = packet_data s"
  "queues (detect_burst now s) = queues s" "held (detect_burst now s) = held s"
  "main_pc (detect_burst now s) = main_pc s" "worker_index (detect_burst now s) = worker_index s"
  "received (detect_burst now s) = received s" "dispatched (detect_burst now s) = dispatched s"
  "decoded (detect_burst now s) = decoded s"
  by (simp_all add: detect_burst_def Let_def)

text \<open>The buffer the main thread has in hand is in no queue.\<close>

lemma hand_not_queued:
  assumes "pool_inv s" "b \<in> set (in_hand (main_pc s))" "i < 4"
  shows "b \<notin> set (ring_contents (queues s i))"
proof
  assume "b \<in> set (ring_contents (queues s i))"
  then have q: "1 \<le> count (mset (ring_contents (queues s i))) b" by (simp add: Suc_le_eq count_mset_gt_0)
  have "count (mset (ring_contents (queues s i))) b \<le> count (\<Sum>i<4. mset (ring_contents (queues s i))) b"
    unfolding count_sum using assms(3) by (intro member_le_sum) auto
  moreover have "1 \<le> count (mset (in_hand (main_pc s))) b" using assms(2) by (simp add: Suc_le_eq count_mset_gt_0)
  moreover have "count (places s) b \<le> 1"
    using assms(1) distinct_count_atmost_1 [of "[0..<2000]"] by (simp add: pool_inv_def)
  ultimately show False using q unfolding places_def count_union by linarith
qed

lemma acquire_inv:
  assumes "pool_inv s" "main_pc s = Acquire" "free_list s = b # fs"
  shows "pool_inv (s\<lparr>free_list := fs, main_pc := Receive b\<rparr>)"
proof -
  have "places (s\<lparr>free_list := fs, main_pc := Receive b\<rparr>) = places s"
    using assms by (simp add: places_def in_hand_def)
  then show ?thesis using assms by (simp add: pool_inv_def unsent_def)
qed

lemma receive_inv:
  assumes inv: "pool_inv s" and pc: "main_pc s = Receive b"
  shows "pool_inv (detect_burst now (s\<lparr>packet_data := (packet_data s)(b := data), received := received s @ [data],
      main_pc := Dispatch b\<rparr>))"
proof -
  let ?s = "detect_burst now (s\<lparr>packet_data := (packet_data s)(b := data), received := received s @ [data],
      main_pc := Dispatch b\<rparr>)"
  have "map ((packet_data s)(b := data)) (ring_contents (queues s i)) = map (packet_data s) (ring_contents (queues s i))"
    if "i < 4" for i
    using hand_not_queued [OF inv _ that, of b] pc by (auto simp: in_hand_def)
  moreover have "places ?s = places s" using pc by (simp add: places_def in_hand_def)
  ultimately show ?thesis using inv pc by (simp add: pool_inv_def unsent_def)
qed

lemma no_data_inv:
  assumes "pool_inv s" "main_pc s = Receive b"
  shows "pool_inv (s\<lparr>free_list := pool_release b (free_list s), main_pc := (if again then EpollWait else Acquire)\<rparr>)"
proof -
  have "places (s\<lparr>free_list := pool_release b (free_list s), main_pc := (if again then EpollWait else Acquire)\<rparr>) = places s"
    using assms by (simp add: places_def in_hand_def pool_release_def)
  then show ?thesis using assms by (simp add: pool_inv_def unsent_def)
qed

lemma dispatch_inv:
  assumes inv: "pool_inv s" and pc: "main_pc s = Dispatch b" and i: "i = worker_index s"
    and push: "spscq_push b (queues s i) = (True, q)"
  shows "pool_inv (s\<lparr>queues := (queues s)(i := q), worker_index := (i + 1) mod 4, main_pc := Acquire,
      dispatched := (dispatched s)(i := dispatched s i @ [packet_data s b])\<rparr>)"
proof -
  let ?s = "s\<lparr>queues := (queues s)(i := q), worker_index := (i + 1) mod 4, main_pc := Acquire,
      dispatched := (dispatched s)(i := dispatched s i @ [packet_data s b])\<rparr>"
  have lt: "i < 4" and ring: "ring_inv (queues s i)" "ring_room (queues s i) = 1023"
    using inv i by (auto simp: pool_inv_def)
  have q: "ring_inv q" "ring_room q = 1023" "ring_contents q = ring_contents (queues s i) @ [b]"
    using spscq.push_law [OF ring(1) push] ring(2) by auto
  have "(\<Sum>j<4. mset (ring_contents (((queues s)(i := q)) j))) + mset (ring_contents (queues s i))
      = (\<Sum>j<4. mset (ring_contents (queues s j))) + mset (ring_contents q)"
    by (rule sum_upd [OF lt, where g = "\<lambda>r. mset (ring_contents r)"])
  then have "(\<Sum>j<4. mset (ring_contents (((queues s)(i := q)) j))) = (\<Sum>j<4. mset (ring_contents (queues s j))) + {#b#}"
    using q(3) by simp
  then have "places ?s = places s" using pc by (simp add: places_def in_hand_def)
  moreover have "(\<Sum>j<4. mset (((dispatched s)(i := dispatched s i @ [packet_data s b])) j)) + mset (dispatched s i)
      = (\<Sum>j<4. mset (dispatched s j)) + mset (dispatched s i @ [packet_data s b])"
    by (rule sum_upd [OF lt, where g = mset])
  then have sent: "(\<Sum>j<4. mset (dispatched ?s j)) = (\<Sum>j<4. mset (dispatched s j)) + {#packet_data s b#}" by simp
  have "mset (received ?s) = (\<Sum>j<4. mset (dispatched ?s j)) + {#}"
    unfolding sent using inv pc by (simp add: pool_inv_def unsent_def)
  moreover have "\<forall>j<4. dispatched ?s j = decoded ?s j @ map (packet_data ?s) (ring_contents (queues ?s j))"
    "\<forall>j<4. ring_inv (queues ?s j) \<and> ring_room (queues ?s j) = 1023"
    using inv q by (auto simp: pool_inv_def)
  moreover have "places s = mset [0..<2000]" "worker_index ?s < 4" "main_pc ?s = Acquire"
    using inv by (simp_all add: pool_inv_def)
  ultimately show ?thesis unfolding pool_inv_def by (simp add: unsent_def)
qed

lemma main_step_inv:
  assumes inv: "pool_inv s"
  shows "pool_inv (main_step datagram again now s)"
proof (cases "main_pc s")
  case EpollWait
  then show ?thesis using inv by (simp add: main_step_def pool_inv_def places_def in_hand_def unsent_def)
next
  case Acquire
  show ?thesis
  proof (cases "free_list s")
    case Nil
    then show ?thesis using inv Acquire by (simp add: main_step_def pool_inv_def places_def)
  next
    case (Cons b fs)
    then show ?thesis using acquire_inv [OF inv Acquire Cons] Acquire by (simp add: main_step_def)
  qed
next
  case (Receive b)
  then show ?thesis using receive_inv [OF inv Receive] no_data_inv [OF inv Receive, of again]
    by (cases again) (auto simp: main_step_def Let_def split: option.split list.split)
next
  case (Dispatch b)
  obtain ok q where p: "spscq_push b (queues s (worker_index s)) = (ok, q)" by fastforce
  show ?thesis
  proof (cases ok)
    case True
    then show ?thesis using dispatch_inv [OF inv Dispatch refl] p Dispatch by (simp add: main_step_def Let_def)
  next
    case False
    then show ?thesis using inv p Dispatch by (simp add: main_step_def Let_def pool_inv_def places_def)
  qed
qed

lemma worker_pop_inv:
  assumes inv: "pool_inv s" and i: "i < 4" and idle: "held s i = None"
    and pop: "spscq_pop (queues s i) = (Some b, q)"
  shows "pool_inv (s\<lparr>queues := (queues s)(i := q), held := (held s)(i := Some b),
      decoded := (decoded s)(i := decoded s i @ [packet_data s b])\<rparr>)"
proof -
  let ?s = "s\<lparr>queues := (queues s)(i := q), held := (held s)(i := Some b),
      decoded := (decoded s)(i := decoded s i @ [packet_data s b])\<rparr>"
  let ?h = "\<lambda>x. mset (case x of None \<Rightarrow> [] | Some b \<Rightarrow> [b])"
  have ring: "ring_inv (queues s i)" "ring_room (queues s i) = 1023" using inv i by (auto simp: pool_inv_def)
  have q: "ring_inv q" "ring_room q = 1023" "ring_contents (queues s i) = b # ring_contents q"
    using spscq.pop_law [OF ring(1) pop] ring(2) by (auto split: list.splits)
  have "(\<Sum>j<4. mset (ring_contents (((queues s)(i := q)) j))) + mset (ring_contents (queues s i))
      = (\<Sum>j<4. mset (ring_contents (queues s j))) + mset (ring_contents q)"
    by (rule sum_upd [OF i, where g = "\<lambda>r. mset (ring_contents r)"])
  then have "(\<Sum>j<4. mset (ring_contents (((queues s)(i := q)) j))) + {#b#} = (\<Sum>j<4. mset (ring_contents (queues s j)))"
    using q(3) by simp
  moreover have "(\<Sum>j<4. ?h (((held s)(i := Some b)) j)) + ?h (held s i) = (\<Sum>j<4. ?h (held s j)) + ?h (Some b)"
    by (rule sum_upd [OF i])
  then have "(\<Sum>j<4. ?h (((held s)(i := Some b)) j)) = (\<Sum>j<4. ?h (held s j)) + {#b#}" using idle by simp
  ultimately have "places ?s = places s" by (simp add: places_def add.assoc add.left_commute)
  moreover have "\<forall>j<4. dispatched ?s j = decoded ?s j @ map (packet_data ?s) (ring_contents (queues ?s j))"
    "\<forall>j<4. ring_inv (queues ?s j) \<and> ring_room (queues ?s j) = 1023"
    using inv q by (auto simp: pool_inv_def)
  ultimately show ?thesis using inv unfolding pool_inv_def by simp
qed

lemma worker_release_inv:
  assumes inv: "pool_inv s" and i: "i < 4" and busy: "held s i = Some b"
  shows "pool_inv (s\<lparr>free_list := pool_release b (free_list s), held := (held s)(i := None)\<rparr>)"
proof -
  let ?s = "s\<lparr>free_list := pool_release b (free_list s), held := (held s)(i := None)\<rparr>"
  let ?h = "\<lambda>x. mset (case x of None \<Rightarrow> [] | Some b \<Rightarrow> [b])"
  have "(\<Sum>j<4. ?h (((held s)(i := None)) j)) + ?h (held s i) = (\<Sum>j<4. ?h (held s j)) + ?h None"
    by (rule sum_upd [OF i])
  then have "(\<Sum>j<4. ?h (((held s)(i := None)) j)) + {#b#} = (\<Sum>j<4. ?h (held s j))" using busy by simp
  then have "places ?s = places s" by (simp add: places_def pool_release_def)
  then show ?thesis using inv unfolding pool_inv_def by simp
qed

lemma worker_step_inv: "pool_inv s \<Longrightarrow> i < 4 \<Longrightarrow> pool_inv (worker_step i s)"
  using worker_pop_inv [of s i] worker_release_inv [of s i]
  by (auto simp: worker_step_def split: option.split prod.split)

lemma receiver_new_inv: "pool_inv receiver_new"
proof -
  let ?q = "\<lparr>buffer = replicate 1024 (0 :: nat), head = 0, tail = 0\<rparr>"
  have "ring_inv ?q" "ring_room ?q = 1023" by (simp_all only: ring_inv_def ring_room_def ring.simps length_replicate) simp_all
  moreover have "ring_contents ?q = []" unfolding ring_contents_def ring.simps by (simp add: ring_seg_Nil_iff)
  ultimately show ?thesis
    unfolding pool_inv_def places_def in_hand_def unsent_def receiver_new_def pool_new_def by simp
qed

lemma receiver_run_inv: "pool_inv (receiver_run ts)"
proof -
  have "pool_inv (take_turn t s)" if "pool_inv s" for t s
    using that main_step_inv worker_step_inv by (cases t) auto
  then have "pool_inv (fold take_turn ts s)" if "pool_inv s" for s
    using that by (induction ts arbitrary: s) auto
  then show ?thesis using receiver_new_inv by (simp add: receiver_run_def)
qed

text \<open>
  C35. In every order of turns of the main thread and the workers, every one of the 2000 buffers is in exactly
  one place (free, in a queue, with a worker or with the main thread), so none is leaked or given back
  twice; every worker decodes the packets that were sent to it, in that order and with the bytes that
  were received, whatever has been received into other buffers since; and what has been received is
  what has been sent to the workers and the packet in hand.
\<close>

theorem packets_intact:
  assumes "i < 4"
  shows "places (receiver_run ts) = mset [0..<2000]
    \<and> dispatched (receiver_run ts) i
        = decoded (receiver_run ts) i @ map (packet_data (receiver_run ts)) (ring_contents (queues (receiver_run ts) i))
    \<and> mset (received (receiver_run ts))
        = (\<Sum>j<4. mset (dispatched (receiver_run ts) j)) + mset (unsent (packet_data (receiver_run ts)) (main_pc (receiver_run ts)))"
  using receiver_run_inv [of ts] assms by (simp add: pool_inv_def)

theorem packets_intact_witness:
  "let s = receiver_run [MainTurn None False 0, MainTurn None False 0, MainTurn (Some [7]) False 0]
   in received s = [[7]] \<and> main_pc s = Dispatch 0 \<and> places s = mset [0..<2000]"
proof -
  have "pool_new 2000 = 0 # [1..<2000]" unfolding pool_new_def by (subst upt_conv_Cons) simp_all
  then have "received (receiver_run [MainTurn None False 0, MainTurn None False 0, MainTurn (Some [7]) False 0]) = [[7]]"
    "main_pc (receiver_run [MainTurn None False 0, MainTurn None False 0, MainTurn (Some [7]) False 0]) = Dispatch 0"
    by (simp_all add: receiver_run_def main_step_def receiver_new_def Let_def)
  then show ?thesis
    using packets_intact [of 0 "[MainTurn None False 0, MainTurn None False 0, MainTurn (Some [7]) False 0]"]
    by (simp add: Let_def)
qed

section \<open>The dispatch loop ends\<close>

definition has_room :: "receiver \<Rightarrow> nat \<Rightarrow> bool" where
  "has_room s j \<longleftrightarrow> length (ring_contents (queues s j)) < 1023"

text \<open>The queues have room for more than twice as many buffers as there are.\<close>

lemma some_queue_has_room:
  assumes "pool_inv s"
  shows "\<exists>j<4. has_room s j"
proof (rule ccontr)
  assume "\<not> (\<exists>j<4. has_room s j)"
  then have full: "\<And>j. j < 4 \<Longrightarrow> 1023 \<le> length (ring_contents (queues s j))" by (meson has_room_def not_less)
  have "(\<Sum>j<(4::nat). 1023 :: nat) \<le> (\<Sum>j<4. length (ring_contents (queues s j)))"
    by (rule sum_mono) (use full in simp)
  moreover have "(\<Sum>j<4. length (ring_contents (queues s j))) \<le> size (places s)"
    by (simp add: places_def size_multiset_sum)
  moreover have "size (places s) = 2000" using assms by (simp add: pool_inv_def)
  ultimately show False by simp
qed

lemma worker_keeps_dispatch:
  assumes "pool_inv s" "i < 4" "has_room s j"
  shows "has_room (worker_step i s) j" "main_pc (worker_step i s) = main_pc s"
    "worker_index (worker_step i s) = worker_index s"
proof -
  have "length (ring_contents q) \<le> length (ring_contents (queues s i))"
    if "spscq_pop (queues s i) = (r, q)" for r q
    using spscq.pop_law [OF _ that] assms(1,2) by (auto simp: pool_inv_def split: list.splits)
  then show "has_room (worker_step i s) j"
    using assms(3) by (fastforce simp: worker_step_def has_room_def split: option.split prod.split)
  show "main_pc (worker_step i s) = main_pc s" "worker_index (worker_step i s) = worker_index s"
    by (simp_all add: worker_step_def split: option.split prod.split)
qed

text \<open>A try of the main thread succeeds, or comes one queue nearer to the one with room.\<close>

lemma main_try:
  assumes inv: "pool_inv s" and pc: "main_pc s = Dispatch b" and j: "j < 4" "has_room s j"
    and fail: "main_pc (main_step datagram again now s) \<noteq> Acquire"
  shows "main_pc (main_step datagram again now s) = Dispatch b" "has_room (main_step datagram again now s) j"
    "(j + 4 - worker_index s) mod 4 = Suc ((j + 4 - worker_index (main_step datagram again now s)) mod 4)"
proof -
  obtain ok q where p: "spscq_push b (queues s (worker_index s)) = (ok, q)" by fastforce
  have i: "worker_index s < 4" and ring: "ring_inv (queues s (worker_index s))" "ring_room (queues s (worker_index s)) = 1023"
    using inv by (auto simp: pool_inv_def)
  have no: "\<not> ok" using fail p pc by (auto simp: main_step_def Let_def)
  then have s': "main_step datagram again now s = s\<lparr>worker_index := (worker_index s + 1) mod 4\<rparr>"
    using p pc by (simp add: main_step_def Let_def)
  show "main_pc (main_step datagram again now s) = Dispatch b" "has_room (main_step datagram again now s) j"
    using s' pc j by (simp_all add: has_room_def)
  have "\<not> has_room s (worker_index s)" using spscq.push_law [OF ring(1) p] no ring(2) by (simp add: has_room_def)
  then have "worker_index s \<noteq> j" using j by auto
  moreover have "worker_index s \<in> {0, 1, 2, 3}" "j \<in> {0, 1, 2, 3}" using i j by auto
  ultimately show "(j + 4 - worker_index s) mod 4 = Suc ((j + 4 - worker_index (main_step datagram again now s)) mod 4)"
    unfolding s' by auto
qed

fun main_turns :: "turn list \<Rightarrow> nat" where
  "main_turns [] = 0"
| "main_turns (MainTurn _ _ _ # ts) = Suc (main_turns ts)"
| "main_turns (WorkerTurn _ # ts) = main_turns ts"

lemma dispatch_progress:
  assumes "pool_inv s" "main_pc s = Dispatch b" "j < 4" "has_room s j" "(j + 4 - worker_index s) mod 4 < main_turns us"
  shows "\<exists>k\<le>length us. main_pc (fold take_turn (take k us) s) = Acquire"
  using assms
proof (induction us arbitrary: s)
  case (Cons u us)
  let ?s = "take_turn u s"
  have inv: "pool_inv ?s" using Cons.prems(1) main_step_inv worker_step_inv by (cases u) auto
  have step: "\<exists>k\<le>length (u # us). main_pc (fold take_turn (take k (u # us)) s) = Acquire"
    if "\<exists>k\<le>length us. main_pc (fold take_turn (take k us) ?s) = Acquire"
    using that by (metis fold_simps(2) length_Cons not_less_eq_eq take_Suc_Cons)
  show ?case
  proof (cases u)
    case (MainTurn d again now)
    show ?thesis
    proof (cases "main_pc ?s = Acquire")
      case True
      then show ?thesis by (intro exI [of _ 1]) simp
    next
      case False
      then have "main_pc (main_step d again now s) \<noteq> Acquire" using MainTurn by simp
      note t = main_try [OF Cons.prems(1-4) this]
      show ?thesis
        by (rule step, rule Cons.IH [OF inv]) (use t Cons.prems(3,5) MainTurn in auto)
    qed
  next
    case (WorkerTurn i)
    then have "main_pc ?s = main_pc s" "worker_index ?s = worker_index s" "has_room ?s j"
      using worker_keeps_dispatch [OF Cons.prems(1) _ Cons.prems(4), of i] Cons.prems(4) by auto
    then show ?thesis
      by (intro step Cons.IH [OF inv]) (use Cons.prems WorkerTurn in auto)
  qed
qed simp

text \<open>
  The loop that offers a packet to one queue after the other ends: with 2000 buffers and four queues of
  1023 places some queue always has room, so from any reachable state, whatever the workers do in between,
  the main thread has placed the packet after at most four tries.
\<close>

theorem dispatch_ends:
  assumes "main_pc (receiver_run ts) = Dispatch b" "4 \<le> main_turns us"
  shows "\<exists>k\<le>length us. main_pc (receiver_run (ts @ take k us)) = Acquire"
proof -
  obtain j where j: "j < 4" "has_room (receiver_run ts) j"
    using some_queue_has_room [OF receiver_run_inv] by blast
  have "(j + 4 - worker_index (receiver_run ts)) mod 4 < main_turns us"
    using assms(2) by (meson less_le_trans mod_less_divisor zero_less_numeral)
  from dispatch_progress [OF receiver_run_inv assms(1) j this] show ?thesis by (simp add: receiver_run_def)
qed

theorem dispatch_ends_witness:
  "\<exists>k\<le>5. main_pc (receiver_run ([MainTurn None False 0, MainTurn None False 0, MainTurn (Some [7]) False 0]
     @ take k [WorkerTurn 1, MainTurn None False 0, MainTurn None False 0, MainTurn None False 0, MainTurn None False 0])) = Acquire"
proof -
  have "pool_new 2000 = 0 # [1..<2000]" unfolding pool_new_def by (subst upt_conv_Cons) simp_all
  then have "main_pc (receiver_run [MainTurn None False 0, MainTurn None False 0, MainTurn (Some [7]) False 0]) = Dispatch 0"
    by (simp add: receiver_run_def main_step_def receiver_new_def Let_def)
  from dispatch_ends [OF this, of "[WorkerTurn 1, MainTurn None False 0, MainTurn None False 0, MainTurn None False 0, MainTurn None False 0]"]
  show ?thesis by (simp add: numeral_eq_Suc)
qed

end
