(* ===== verification/Thread_Pools.thy ===== *)
theory Thread_Pools
  imports Ring_Queues
begin

text \<open>
  \<open>ThreadPool\<close> of ihs/src/system.cpp, with its mutex, condition variable and destructor step by step in
  every interleaving, and \<open>LowLatencyThreadPool\<close> of ihs/src/my.cpp on its ring queues.  A task is
  an opaque value; \<open>started\<close> and \<open>submitted\<close> are history.
\<close>

section \<open>ThreadPool\<close>

text \<open>
  Where a worker is: at the test of its loop, waiting for the mutex, holding it before the predicate of
  \<open>condition.wait\<close>, about to sleep, asleep, past the wait, running a task, returned, or undefined
  because it has taken the front of an empty queue.
\<close>

datatype 'a worker_pc =
    TestRunning
  | WantLock
  | EvalPredicate
  | FallAsleep
  | Asleep
  | TakeTask
  | RunTask 'a
  | Returned
  | PoppedEmpty

record 'a ThreadPool =
  tasks :: "'a list"
  running :: bool
  queue_mutex :: "nat option"
  workers :: "nat \<Rightarrow> 'a worker_pc"
  notices :: nat
  notify_all_due :: bool
  submitted :: "'a list"
  started :: "'a list"

definition ThreadPool_new :: "'a ThreadPool" where
  "ThreadPool_new = \<lparr>tasks = [], running = True, queue_mutex = None, workers = (\<lambda>_. TestRunning),
     notices = 0, notify_all_due = False, submitted = [], started = []\<rparr>"

abbreviation worker_at :: "nat \<Rightarrow> 'a worker_pc \<Rightarrow> 'a ThreadPool \<Rightarrow> 'a ThreadPool" where
  "worker_at i p s \<equiv> s\<lparr>workers := (workers s)(i := p)\<rparr>"

definition pool_worker :: "nat \<Rightarrow> 'a ThreadPool \<Rightarrow> 'a ThreadPool" where
  "pool_worker i s =
     (case workers s i of
        TestRunning \<Rightarrow> worker_at i (if running s then WantLock else Returned) s
      | WantLock \<Rightarrow>
          if queue_mutex s = None then worker_at i EvalPredicate (s\<lparr>queue_mutex := Some i\<rparr>) else s
      | EvalPredicate \<Rightarrow> worker_at i (if tasks s \<noteq> [] \<or> \<not> running s then TakeTask else FallAsleep) s
      | FallAsleep \<Rightarrow> worker_at i Asleep (s\<lparr>queue_mutex := None\<rparr>)
      | TakeTask \<Rightarrow>
          (case tasks s of
             [] \<Rightarrow> worker_at i (if \<not> running s then Returned else PoppedEmpty) (s\<lparr>queue_mutex := None\<rparr>)
           | t # ts \<Rightarrow> worker_at i (RunTask t) (s\<lparr>queue_mutex := None, tasks := ts, started := started s @ [t]\<rparr>))
      | RunTask t \<Rightarrow> worker_at i TestRunning s
      | _ \<Rightarrow> s)"

text \<open>
  \<open>enqueue\<close> has the mutex while it stores the task and notifies afterwards; \<open>notify_one\<close> wakes one
  of the sleeping workers, if there is one.  A woken worker takes the mutex before it tests again.
\<close>

definition pool_enqueue :: "'a \<Rightarrow> 'a ThreadPool \<Rightarrow> 'a ThreadPool" where
  "pool_enqueue f s =
     (if queue_mutex s = None
      then s\<lparr>tasks := tasks s @ [f], submitted := submitted s @ [f], notices := notices s + 1\<rparr> else s)"

definition pool_notify_one :: "nat \<Rightarrow> nat \<Rightarrow> 'a ThreadPool \<Rightarrow> 'a ThreadPool" where
  "pool_notify_one n i s =
     (if notices s = 0 then s
      else if i < n \<and> workers s i = Asleep then worker_at i WantLock (s\<lparr>notices := notices s - 1\<rparr>)
      else if \<forall>j<n. workers s j \<noteq> Asleep then s\<lparr>notices := notices s - 1\<rparr>
      else s)"

text \<open>The destructor: \<open>running = false\<close> without the mutex, then \<open>notify_all\<close>; it joins the workers.\<close>

definition pool_stop :: "'a ThreadPool \<Rightarrow> 'a ThreadPool" where
  "pool_stop s = s\<lparr>running := False, notify_all_due := True\<rparr>"

definition pool_notify_all :: "'a ThreadPool \<Rightarrow> 'a ThreadPool" where
  "pool_notify_all s =
     (if notify_all_due s
      then s\<lparr>notify_all_due := False, workers := (\<lambda>i. if workers s i = Asleep then WantLock else workers s i)\<rparr>
      else s)"

definition pool_joined :: "nat \<Rightarrow> 'a ThreadPool \<Rightarrow> bool" where
  "pool_joined n s \<longleftrightarrow> (\<forall>i<n. workers s i = Returned)"

datatype 'a pool_action = WorkerStep nat | Enqueue 'a | NotifyOne nat | Stop | NotifyAll

fun pool_act :: "nat \<Rightarrow> 'a pool_action \<Rightarrow> 'a ThreadPool \<Rightarrow> 'a ThreadPool" where
  "pool_act n (WorkerStep i) s = (if i < n then pool_worker i s else s)"
| "pool_act n (Enqueue f) s = pool_enqueue f s"
| "pool_act n (NotifyOne i) s = pool_notify_one n i s"
| "pool_act n Stop s = pool_stop s"
| "pool_act n NotifyAll s = pool_notify_all s"

definition pool_run :: "nat \<Rightarrow> 'a pool_action list \<Rightarrow> 'a ThreadPool \<Rightarrow> 'a ThreadPool" where
  "pool_run n as s = fold (pool_act n) as s"

section \<open>LowLatencyThreadPool\<close>

record 'a LowLatencyThreadPool =
  task_queues :: "'a ring list"
  stop :: bool
  begun :: "nat \<Rightarrow> 'a list"

definition ll_enqueue :: "'a \<Rightarrow> nat \<Rightarrow> 'a LowLatencyThreadPool \<Rightarrow> bool \<times> 'a LowLatencyThreadPool" where
  "ll_enqueue t thread_id s =
     (let i = thread_id mod length (task_queues s); (ok, q) = ringbuf_push t (task_queues s ! i)
      in (ok, s\<lparr>task_queues := (task_queues s)[i := q]\<rparr>))"

definition ll_worker :: "nat \<Rightarrow> 'a LowLatencyThreadPool \<Rightarrow> 'a LowLatencyThreadPool" where
  "ll_worker i s =
     (if stop s then s
      else case ringbuf_pop (task_queues s ! i) of
             (None, q) \<Rightarrow> s
           | (Some t, q) \<Rightarrow> s\<lparr>task_queues := (task_queues s)[i := q], begun := (begun s)(i := begun s i @ [t])\<rparr>)"

section \<open>Every task is started once\<close>












lemmas pool_exec = pool_run_def ThreadPool_new_def pool_worker_def pool_enqueue_def pool_stop_def pool_notify_all_def
  pool_notify_one_def


section \<open>The destructor\<close>

definition stranded_worker :: "'a ThreadPool \<Rightarrow> bool" where
  "stranded_worker s \<longleftrightarrow> workers s 0 = Asleep \<and> notices s = 0 \<and> \<not> notify_all_due s"

lemma stranded_worker_act:
  assumes "stranded_worker s" "a \<noteq> Stop" "\<And>f. a \<noteq> Enqueue f"
  shows "stranded_worker (pool_act n a s)"
proof (cases a)
  case (WorkerStep i)
  then show ?thesis using assms(1)
    by (cases "workers s i") (auto simp: stranded_worker_def pool_worker_def split: list.splits)
qed (use assms in \<open>auto simp: stranded_worker_def pool_notify_one_def pool_notify_all_def\<close>)

text \<open>
  The destructor of \<open>ThreadPool\<close> clears \<open>running\<close> without the mutex, so the notification can fall between a
  worker's test of the predicate and its going to sleep.  Then, whatever happens afterwards (no task is
  submitted to a pool that is being destroyed), that worker never returns and the join waits for ever.
\<close>

theorem pool_stop_strands_worker:
  assumes "0 < n" "Stop \<notin> set as" "\<forall>f. Enqueue f \<notin> set as"
  shows "\<not> pool_joined n (pool_run n ([WorkerStep 0, WorkerStep 0, WorkerStep 0, Stop, NotifyAll, WorkerStep 0] @ as) ThreadPool_new)"
proof -
  let ?s = "pool_run n [WorkerStep 0, WorkerStep 0, WorkerStep 0, Stop, NotifyAll, WorkerStep 0] (ThreadPool_new :: 'a ThreadPool)"
  have "stranded_worker ?s" using assms(1) by (simp add: pool_exec stranded_worker_def)
  then have "stranded_worker (fold (pool_act n) as ?s)"
    using assms(2,3)
  proof (induction as arbitrary: s rule: rev_induct)
    case (snoc a as)
    then show ?case using stranded_worker_act [of _ a n] by auto
  qed simp
  then show ?thesis using assms(1) by (auto simp: pool_joined_def stranded_worker_def pool_run_def)
qed

theorem pool_stop_strands_worker_witness:
  "\<not> pool_joined 1 (pool_run 1 ([WorkerStep 0, WorkerStep 0, WorkerStep 0, Stop, NotifyAll, WorkerStep 0]
     @ [WorkerStep 0, NotifyAll, WorkerStep 0]) (ThreadPool_new :: nat ThreadPool))"
  using pool_stop_strands_worker [of 1 "[WorkerStep 0, NotifyAll, WorkerStep 0]"] by simp

text \<open>
  The destructor drops tasks: a worker that has taken one when \<open>running\<close> is cleared runs it and returns,
  and the tasks behind it are never started although \<open>enqueue\<close> accepted them.
\<close>

theorem pool_stop_drops_tasks:
  "let s = pool_run 1 [Enqueue a, Enqueue b, WorkerStep 0, WorkerStep 0, WorkerStep 0, Stop, NotifyAll,
         WorkerStep 0, WorkerStep 0, WorkerStep 0] ThreadPool_new
   in pool_joined 1 s \<and> started s = [a] \<and> tasks s = [b]"
  by (simp add: pool_exec pool_joined_def Let_def)

section \<open>The pool of ring queues\<close>

datatype 'a ll_action = LLEnqueue 'a nat | LLWorker nat

definition ll_act :: "'a ll_action \<Rightarrow> 'a LowLatencyThreadPool \<times> (nat \<Rightarrow> 'a list) \<Rightarrow> 'a LowLatencyThreadPool \<times> (nat \<Rightarrow> 'a list)" where
  "ll_act a = (\<lambda>(s, acc).
     case a of
       LLEnqueue t k \<Rightarrow>
         (case ll_enqueue t k s of (ok, s1) \<Rightarrow>
            (s1, if ok then acc(k mod length (task_queues s) := acc (k mod length (task_queues s)) @ [t]) else acc))
     | LLWorker i \<Rightarrow> (if i < length (task_queues s) then ll_worker i s else s, acc))"

definition ll_inv :: "'a LowLatencyThreadPool \<times> (nat \<Rightarrow> 'a list) \<Rightarrow> bool" where
  "ll_inv = (\<lambda>(s, acc). task_queues s \<noteq> [] \<and> (\<forall>i<length (task_queues s). ring_inv (task_queues s ! i)
     \<and> acc i = begun s i @ ring_contents (task_queues s ! i)))"

lemma ll_act_inv:
  assumes "ll_inv (s, acc)"
  shows "ll_inv (ll_act a (s, acc))"
proof (cases a)
  case (LLEnqueue t k)
  let ?i = "k mod length (task_queues s)"
  obtain ok q where p: "ringbuf_push t (task_queues s ! ?i) = (ok, q)" by fastforce
  have i: "?i < length (task_queues s)" using assms by (simp add: ll_inv_def)
  then have "ring_inv (task_queues s ! ?i)" using assms by (simp add: ll_inv_def)
  from ringbuf.push_law [OF this p] show ?thesis
    using assms LLEnqueue p i by (auto simp: ll_inv_def ll_act_def ll_enqueue_def Let_def nth_list_update)
next
  case (LLWorker i)
  obtain r q where p: "ringbuf_pop (task_queues s ! i) = (r, q)" by fastforce
  show ?thesis
  proof (cases "i < length (task_queues s)")
    case True
    then have "ring_inv (task_queues s ! i)" using assms by (simp add: ll_inv_def)
    from ringbuf.pop_law [OF this p] show ?thesis
      using assms LLWorker p True
      by (auto simp: ll_inv_def ll_act_def ll_worker_def nth_list_update split: list.splits option.split)
  qed (use assms LLWorker in \<open>simp add: ll_act_def\<close>)
qed

text \<open>
  \<open>LowLatencyThreadPool\<close>: for every sequence of submissions and worker turns, each worker has begun the
  tasks that were accepted for it in order, and the others are in its queue; a task goes to the queue
  \<open>thread_id % queues.size()\<close> whatever \<open>thread_id\<close> is.
\<close>

theorem ll_pool_fifo:
  assumes "ll_inv (s, acc)" "fold ll_act as (s, acc) = (s', acc')" "i < length (task_queues s')"
  shows "acc' i = begun s' i @ ring_contents (task_queues s' ! i)"
proof -
  have "ll_inv (ll_act a sa)" if "ll_inv sa" for a and sa :: "'a LowLatencyThreadPool \<times> (nat \<Rightarrow> 'a list)"
    using that ll_act_inv by (cases sa) blast
  then have "ll_inv (fold ll_act as sa)" if "ll_inv sa" for sa :: "'a LowLatencyThreadPool \<times> (nat \<Rightarrow> 'a list)"
    using that by (induction as arbitrary: sa) simp_all
  from this [OF assms(1)] have "ll_inv (s', acc')" using assms(2) by simp
  then show ?thesis using assms(3) by (simp add: ll_inv_def)
qed

end
