(* ===== verification/Fix_Text.thy ===== *)
theory Fix_Text
  imports Ordered_Map "HOL-Library.Sublist"
begin

text \<open>
  The text layer that the FIX components share: what they use of \<open>std::string\<close>, of the number
  conversions \<open>std::to_string\<close>, \<open>std::stoi\<close> and \<open>std::stoul\<close>, of zero padding and of
  \<open>std::getline\<close>, and the form \<open>tag=value<separator>\<close> of a FIX field.  The laws that a separator
  has to satisfy are a locale; it is interpreted for the SOH byte and for the bar.
\<close>

section \<open>Strings and numbers of the standard library\<close>

abbreviation SOH :: char where
  "SOH \<equiv> CHR 0x01"

fun find_char :: "char \<Rightarrow> string \<Rightarrow> nat option" where
  "find_char c [] = None"
| "find_char c (x # xs) = (if x = c then Some 0 else map_option Suc (find_char c xs))"

fun find_str :: "string \<Rightarrow> string \<Rightarrow> nat option" where
  "find_str p [] = (if p = [] then Some 0 else None)"
| "find_str p (x # xs) = (if prefix p (x # xs) then Some 0 else map_option Suc (find_str p xs))"

definition getline :: "char \<Rightarrow> string \<Rightarrow> (string \<times> string) option" where
  "getline d s = (if s = [] then None else Some (takeWhile (\<lambda>c. c \<noteq> d) s, drop 1 (dropWhile (\<lambda>c. c \<noteq> d) s)))"

definition digit_char :: "nat \<Rightarrow> char" where
  "digit_char n = char_of (48 + n)"

fun digits :: "nat \<Rightarrow> string" where
  "digits n = (if n < 10 then [digit_char n] else digits (n div 10) @ [digit_char (n mod 10)])"

declare digits.simps [simp del]

definition to_string :: "int \<Rightarrow> string" where
  "to_string i = (if i < 0 then CHR ''-'' # digits (nat (- i)) else digits (nat i))"

definition pad :: "nat \<Rightarrow> string \<Rightarrow> string" where
  "pad w s = replicate (w - length s) CHR ''0'' @ s"

definition char_code :: "char \<Rightarrow> nat" where
  "char_code c = of_char c"

definition is_digit :: "char \<Rightarrow> bool" where
  "is_digit c \<longleftrightarrow> 48 \<le> char_code c \<and> char_code c \<le> 57"

definition is_space :: "char \<Rightarrow> bool" where
  "is_space c \<longleftrightarrow> char_code c = 32 \<or> 9 \<le> char_code c \<and> char_code c \<le> 13"

definition number_of :: "string \<Rightarrow> int" where
  "number_of ds = foldl (\<lambda>a c. 10 * a + (int (char_code c) - 48)) 0 ds"

text \<open>
  The common part of the conversions: leading white space, a sign, and the longest run of digits;
  what follows is ignored.  Without a digit there is no number.
\<close>

definition parse_int :: "string \<Rightarrow> int option" where
  "parse_int s =
     (let t = dropWhile is_space s;
          neg = (t \<noteq> [] \<and> hd t = CHR ''-'');
          u = (if t \<noteq> [] \<and> (hd t = CHR ''-'' \<or> hd t = CHR ''+'') then tl t else t);
          ds = takeWhile is_digit u
      in if ds = [] then None else Some (if neg then - number_of ds else number_of ds))"

definition stoi :: "string \<Rightarrow> fault + int" where
  "stoi s = (case parse_int s of
       None \<Rightarrow> Inl (Thrown ''invalid_argument'')
     | Some n \<Rightarrow> if - 2147483648 \<le> n \<and> n < 2147483648 then Inr n else Inl (Thrown ''out_of_range''))"

text \<open>\<open>std::stoul\<close> negates in \<open>unsigned long\<close>.\<close>

definition stoul :: "string \<Rightarrow> fault + int" where
  "stoul s = (case parse_int s of
       None \<Rightarrow> Inl (Thrown ''invalid_argument'')
     | Some n \<Rightarrow> if \<bar>n\<bar> < 18446744073709551616 then Inr (u64_of n) else Inl (Thrown ''out_of_range''))"

definition byte_sum :: "string \<Rightarrow> nat" where
  "byte_sum s = sum_list (map char_code s)"

section \<open>Laws of the conversions\<close>

lemma takeWhile_all: "\<forall>c \<in> set s. P c \<Longrightarrow> takeWhile P s = s"
  by (induction s) auto

lemma char_code_digit [simp]: "n < 10 \<Longrightarrow> char_code (digit_char n) = 48 + n"
  by (simp add: char_code_def digit_char_def of_char_of)

lemma digits_not_Nil [simp]: "digits n \<noteq> []"
  by (subst digits.simps) simp

lemma digits_digit: "c \<in> set (digits n) \<Longrightarrow> is_digit c"
  by (induction n rule: digits.induct) (subst (asm) (2) digits.simps, auto simp: is_digit_def split: if_splits)

lemma number_of_digits: "number_of (digits n) = int n"
proof (induction n rule: digits.induct)
  case (1 n)
  show ?case
  proof (cases "n < 10")
    case True
    then show ?thesis by (subst digits.simps) (simp add: number_of_def)
  next
    case False
    then have "number_of (digits n) = 10 * number_of (digits (n div 10)) + int (n mod 10)"
      by (subst digits.simps) (simp add: number_of_def)
    also have "\<dots> = int n" using 1 False by (simp add: zdiv_int zmod_int)
    finally show ?thesis .
  qed
qed

lemma is_digit_not [simp]: "\<not> is_digit CHR ''=''" "\<not> is_digit SOH" "\<not> is_digit CHR ''|''" "\<not> is_digit CHR ''-''"
    "\<not> is_digit CHR ''+''"
  by (simp_all add: is_digit_def char_code_def)

lemma is_digit_space: "is_digit c \<Longrightarrow> \<not> is_space c"
  by (auto simp: is_digit_def is_space_def)

lemma digits_hd:
  obtains d ds where "digits n = d # ds" "is_digit d" "\<forall>c \<in> set ds. is_digit c"
proof -
  obtain d ds where "digits n = d # ds" using digits_not_Nil [of n] by (cases "digits n") auto
  moreover from this have "\<forall>c \<in> set (d # ds). is_digit c" using digits_digit [of _ n] by metis
  ultimately show thesis using that by simp
qed

lemma parse_int_to_string: "parse_int (to_string i) = Some i"
proof (cases "i < 0")
  case True
  then have "to_string i = CHR ''-'' # digits (nat (- i))" by (simp add: to_string_def)
  moreover have "\<forall>c \<in> set (digits (nat (- i))). is_digit c" using digits_digit by blast
  moreover have "\<not> is_space CHR ''-''" by (simp add: is_space_def char_code_def)
  ultimately show ?thesis using True by (simp add: parse_int_def Let_def number_of_digits takeWhile_all)
next
  case False
  obtain d ds where d: "digits (nat i) = d # ds" "is_digit d" "\<forall>c \<in> set ds. is_digit c" by (rule digits_hd)
  then have "d \<noteq> CHR ''-''" "d \<noteq> CHR ''+''" using d(2) by auto
  moreover have "number_of (d # ds) = i" using number_of_digits [of "nat i"] d False by simp
  ultimately show ?thesis using False d is_digit_space [OF d(2)]
    by (simp add: to_string_def parse_int_def Let_def takeWhile_all)
qed

lemma stoi_to_string: "- 2147483648 \<le> i \<Longrightarrow> i < 2147483648 \<Longrightarrow> stoi (to_string i) = Inr i"
  by (simp add: stoi_def parse_int_to_string)

lemma stoul_to_string: "0 \<le> i \<Longrightarrow> i < 18446744073709551616 \<Longrightarrow> stoul (to_string i) = Inr i"
  by (simp add: stoul_def parse_int_to_string u64_of_id)

lemma to_string_chars: "c \<in> set (to_string i) \<Longrightarrow> is_digit c \<or> c = CHR ''-''"
  by (auto simp: to_string_def dest: digits_digit split: if_splits)

lemma length_pad: "length (pad w s) = max w (length s)"
  by (simp add: pad_def)

lemma find_char_append:
  "c \<notin> set s \<Longrightarrow> find_char c (s @ c # t) = Some (length s)"
  by (induction s) auto

lemma find_char_None: "find_char c s = None \<longleftrightarrow> c \<notin> set s"
  by (induction s) auto

lemma find_char_Some:
  "find_char c s = Some n \<Longrightarrow> n < length s \<and> s ! n = c \<and> c \<notin> set (take n s) \<and> s = take n s @ c # drop (Suc n) s"
proof (induction s arbitrary: n)
  case (Cons x s)
  then show ?case by (cases n) (auto split: if_splits)
qed simp

lemma find_str_None: "p \<noteq> [] \<Longrightarrow> find_str p s = None \<longleftrightarrow> \<not> sublist p s"
  by (induction s) (auto simp: sublist_Cons_right)

lemma find_str_first:
  assumes "\<And>i. i < length a \<Longrightarrow> \<not> prefix p (drop i (a @ p @ b))"
  shows "find_str p (a @ p @ b) = Some (length a)"
  using assms
proof (induction a)
  case Nil
  have "prefix p (p @ b)" by simp
  then show ?case by (cases "p @ b") auto
next
  case (Cons x a)
  have "\<not> prefix p (drop i (a @ p @ b))" if "i < length a" for i
    using Cons.prems [of "Suc i"] that by simp
  moreover have "\<not> prefix p (x # a @ p @ b)" using Cons.prems [of 0] by simp
  ultimately show ?case using Cons.IH by simp
qed

lemma getline_cut: "d \<notin> set s \<Longrightarrow> getline d (s @ d # t) = Some (s, t)"
  by (induction s) (auto simp: getline_def)

section \<open>Fields\<close>

text \<open>One field in its wire form, and a list of fields one after another.\<close>

definition field_text :: "char \<Rightarrow> int \<times> string \<Rightarrow> string" where
  "field_text sep f = to_string (fst f) @ ''='' @ snd f @ [sep]"

definition fields_text :: "char \<Rightarrow> (int \<times> string) list \<Rightarrow> string" where
  "fields_text sep fs = concat (map (field_text sep) fs)"

lemma fields_text_simps [simp]:
  "fields_text sep [] = []"
  "fields_text sep (f # fs) = field_text sep f @ fields_text sep fs"
  "fields_text sep (fs @ gs) = fields_text sep fs @ fields_text sep gs"
  by (simp_all add: fields_text_def)

text \<open>A field that survives the wire: its tag is an \<open>int\<close> and its value has no separator.\<close>

definition field_ok :: "char \<Rightarrow> int \<times> string \<Rightarrow> bool" where
  "field_ok sep f \<longleftrightarrow> - 2147483648 \<le> fst f \<and> fst f < 2147483648 \<and> sep \<notin> set (snd f)"

locale field_separator =
  fixes sep :: char
  assumes sep_digit: "\<not> is_digit sep"
    and sep_minus: "sep \<noteq> CHR ''-''"
    and sep_equals: "sep \<noteq> CHR ''=''"
begin

lemma sep_tag: "sep \<notin> set (to_string t)"
  using sep_digit sep_minus to_string_chars by blast

lemma sep_token: "field_ok sep f \<Longrightarrow> sep \<notin> set (to_string (fst f) @ ''='' @ snd f)"
  using sep_tag sep_equals by (simp add: field_ok_def)

lemma find_sep:
  assumes "field_ok sep f"
  shows "find_char sep (field_text sep f @ s) = Some (length (to_string (fst f) @ ''='' @ snd f))"
  using find_char_append [OF sep_token [OF assms], of s] by (simp add: field_text_def)

lemma token_of_field:
  assumes "field_ok sep f" and "n = length (to_string (fst f) @ ''='' @ snd f)"
  shows "take n (field_text sep f @ s) = to_string (fst f) @ ''='' @ snd f"
    and "drop (Suc n) (field_text sep f @ s) = s"
  using assms by (simp_all add: field_text_def)

lemma getline_field:
  assumes "field_ok sep f"
  shows "getline sep (field_text sep f @ s) = Some (to_string (fst f) @ ''='' @ snd f, s)"
  using getline_cut [OF sep_token [OF assms], of s] by (simp add: field_text_def)

lemma fields_text_neq_Nil: "fs \<noteq> [] \<Longrightarrow> fields_text sep fs \<noteq> []"
  by (cases fs) (auto simp: field_text_def)

end

interpretation soh: field_separator SOH
  by unfold_locales simp_all

interpretation bar: field_separator "CHR ''|''"
  by unfold_locales simp_all

text \<open>A token splits at its first equals sign into the tag and the value.\<close>

lemma equals_tag: "CHR ''='' \<notin> set (to_string t)"
  using to_string_chars [of "CHR ''=''" t] by auto

lemma find_equals: "find_char CHR ''='' (to_string t @ CHR ''='' # v) = Some (length (to_string t))"
  by (rule find_char_append [OF equals_tag])

section \<open>Padded three-digit checksums\<close>

lemma pad_digits_chars: "c \<in> set (pad w (digits n)) \<Longrightarrow> is_digit c"
  using digits_digit by (auto simp: pad_def is_digit_def char_code_def)

lemma number_of_pad: "number_of (pad w (digits n)) = int n"
proof -
  have "number_of (replicate k CHR ''0'' @ s) = number_of s" for k s
    by (induction k) (simp_all add: number_of_def char_code_def)
  then show ?thesis by (simp add: pad_def number_of_digits)
qed

lemma length_digits: "n < 10 ^ Suc k \<Longrightarrow> length (digits n) \<le> Suc k"
proof (induction k arbitrary: n)
  case 0
  then show ?case by (subst digits.simps) simp
next
  case (Suc k)
  then have "n div 10 < 10 ^ Suc k" by (simp add: less_mult_imp_div_less mult.commute)
  then show ?case using Suc.IH [of "n div 10"] by (subst digits.simps) simp
qed

lemma length_pad3: "n < 1000 \<Longrightarrow> length (pad 3 (digits n)) = 3"
  using length_digits [of n 2] by (simp add: length_pad)

lemma stoi_pad: "n < 2147483648 \<Longrightarrow> stoi (pad w (digits n)) = Inr (int n)"
proof -
  assume n: "n < 2147483648"
  let ?p = "pad w (digits n)"
  have all: "\<forall>c \<in> set ?p. is_digit c" using pad_digits_chars by blast
  have ne: "?p \<noteq> []" by (simp add: pad_def)
  then have h: "is_digit (hd ?p)" using all by simp
  then have "\<not> is_space (hd ?p)" "hd ?p \<noteq> CHR ''-''" "hd ?p \<noteq> CHR ''+''" using is_digit_space by auto
  moreover from this(1) have "dropWhile is_space ?p = ?p" using ne by (cases ?p) auto
  ultimately have "parse_int ?p = Some (int n)"
    using ne all by (simp add: parse_int_def Let_def number_of_pad takeWhile_all)
  then show ?thesis using n by (simp add: stoi_def)
qed

lemma byte_sum_append [simp]: "byte_sum (s @ t) = byte_sum s + byte_sum t"
  by (simp add: byte_sum_def)

text \<open>
  The 32-bit running sum of the checksum loops may wrap around; its residue modulo 256 is that of
  the byte sum all the same.
\<close>

lemma checksum_fold: "foldl (\<lambda>s c. s + of_nat (char_code c)) (w :: u32) msg = w + of_nat (byte_sum msg)"
  by (induction msg arbitrary: w) (simp_all add: byte_sum_def algebra_simps)

lemma checksum_word: "unat (foldl (\<lambda>s c. s + of_nat (char_code c)) (0 :: u32) msg mod 256) = byte_sum msg mod 256"
proof -
  have "unat ((of_nat n :: u32) mod 256) = n mod 256" for n
  proof -
    have "unat ((of_nat n :: u32) mod 256) = n mod 2 ^ 32 mod 256" by (simp add: unat_mod unat_of_nat)
    also have "\<dots> = n mod 256" by (rule mod_mod_cancel) simp
    finally show ?thesis .
  qed
  then show ?thesis by (simp add: checksum_fold)
qed

section \<open>Where the text \<open>10=\<close> can occur\<close>

lemma sublist_sep:
  assumes "SOH \<notin> set p" and "sublist p (a @ SOH # b)"
  shows "sublist p a \<or> sublist p b"
proof -
  from assms(2) have "sublist p a \<or> sublist p (SOH # b) \<or> (\<exists>p1 p2. p = p1 @ p2 \<and> suffix p1 a \<and> prefix p2 (SOH # b))"
    by (simp add: sublist_append)
  then consider "sublist p a" | "sublist p (SOH # b)" | p1 p2 where "p = p1 @ p2" "suffix p1 a" "prefix p2 (SOH # b)"
    by blast
  then show ?thesis
  proof cases
    case 2
    then show ?thesis using assms(1) by (cases p) (auto simp: sublist_Cons_right)
  next
    case 3
    then have "p2 = []" using assms(1) by (cases p2) auto
    then show ?thesis using 3 by (auto intro: suffix_imp_sublist)
  qed simp
qed

lemma sublist_token:
  assumes "CHR ''='' \<notin> set a" and "sublist ''10='' (a @ CHR ''='' # v)"
  shows "suffix ''10'' a \<or> sublist ''10='' v"
proof -
  from assms(2) obtain l r where e: "a @ CHR ''='' # v = l @ ''10='' @ r" by (auto simp: sublist_def)
  then consider z where "a = l @ z" "z @ CHR ''='' # v = ''10='' @ r" | z where "a @ z = l" "CHR ''='' # v = z @ ''10='' @ r"
    by (auto simp: append_eq_append_conv2)
  then show ?thesis
  proof cases
    case 1
    have "z = ''10''"
      using 1 assms(1) by (cases z; cases "tl z"; cases "tl (tl z)") (auto simp: Cons_eq_append_conv)
    then show ?thesis using 1 by (simp add: suffix_def)
  next
    case 2
    then obtain z' where "v = z' @ ''10='' @ r" by (cases z) auto
    then show ?thesis by (auto simp: sublist_def)
  qed
qed

lemma digits_suffix_10:
  assumes "suffix ''10'' (digits n)"
  shows "n mod 100 = 10"
proof -
  from assms obtain p where "digits n = p @ ''10''" by (auto simp: suffix_def)
  then have "int n = 100 * number_of p + 10" using number_of_digits [of n] by (simp add: number_of_def char_code_def)
  then have "int n mod 100 = 10" by (simp add: mod_add_left_eq [symmetric])
  then show ?thesis by (metis of_nat_eq_iff of_nat_mod of_nat_numeral)
qed

lemma tag_suffix_10:
  assumes "suffix ''10'' (to_string t)"
  shows "\<bar>t\<bar> mod 100 = 10"
proof -
  have "suffix ''10'' (digits (nat \<bar>t\<bar>))"
    using assms digits_not_Nil by (auto simp: to_string_def suffix_Cons split: if_splits)
  from digits_suffix_10 [OF this] have "int (nat \<bar>t\<bar>) mod 100 = 10" by (metis of_nat_mod of_nat_numeral)
  then show ?thesis by simp
qed

text \<open>A field that cannot be taken for the start of the checksum field.\<close>

definition no_checksum_text :: "int \<times> string \<Rightarrow> bool" where
  "no_checksum_text f \<longleftrightarrow> \<bar>fst f\<bar> mod 100 \<noteq> 10 \<and> \<not> sublist ''10='' (snd f)"

lemma no_checksum_fields:
  "\<forall>f \<in> set fs. no_checksum_text f \<Longrightarrow> \<not> sublist ''10='' (fields_text SOH fs)"
proof (induction fs)
  case (Cons f fs)
  show ?case
  proof
    assume "sublist ''10='' (fields_text SOH (f # fs))"
    then have "sublist ''10='' ((to_string (fst f) @ CHR ''='' # snd f) @ SOH # fields_text SOH fs)"
      by (simp add: field_text_def)
    from sublist_sep [OF _ this] Cons have "sublist ''10='' (to_string (fst f) @ CHR ''='' # snd f)" by auto
    from sublist_token [OF equals_tag this] show False
      using tag_suffix_10 Cons.prems by (auto simp: no_checksum_text_def)
  qed
qed simp

lemma find_after_sep:
  assumes "SOH \<notin> set p" and "p \<noteq> []" and "\<not> sublist p h" and "h = h' @ [SOH]"
  shows "find_str p (h @ p @ b) = Some (length h)"
proof (rule find_str_first)
  fix i
  assume i: "i < length h"
  show "\<not> prefix p (drop i (h @ p @ b))"
  proof
    assume "prefix p (drop i (h @ p @ b))"
    then have pre: "prefix p (drop i h' @ SOH # p @ b)" using i assms(4) by simp
    then have "prefix p (drop i h')" using assms(1)
      by (auto simp: prefix_append prefix_Cons)
    then have "sublist p h'" by (meson prefix_imp_sublist sublist_drop sublist_order.order_trans)
    then show False using assms(3,4) by (simp add: sublist_appendI sublist_append)
  qed
qed

lemma fields_text_last: "fs \<noteq> [] \<Longrightarrow> \<exists>h. fields_text SOH fs = h @ [SOH]"
  by (cases fs rule: rev_cases) (simp_all add: field_text_def)

lemma tag_texts [simp]: "to_string 8 = ''8''" "to_string 9 = ''9''" "to_string 10 = ''10''" "to_string 35 = ''35''"
  by code_simp+

end
