(* ===== verification/Pipeline.thy ===== *)
theory Pipeline
  imports Fix_Text Ring_Queues
begin

text \<open>
  The market data pipeline of ihs/src/system.cpp: the simulated receiver, the parser tasks, the algorithm
  tasks, the trader and the monitor's counters, connected by three ring queues.  A queue operation is one
  step, as if the queues were safe for several tasks on one side, which they are not for the real ones; so is
  an operation on a counter.  The tasks take turns in any order.  Prices are doubles: elements of an arbitrary type, on which the
  conversion from text and the comparison of the strategy are arguments.
\<close>

section \<open>Data\<close>

record 'd MarketDataRec =
  timestamp :: u64
  symbol :: string
  bid :: 'd
  ask :: 'd
  bid_sz :: u32
  ask_sz :: u32

datatype OrderActionType = NEW_ORDER | CANCEL_ORDER

record 'd OrderAction =
  act_type :: OrderActionType
  act_order_id :: string
  act_symbol :: string
  act_side :: char
  act_quantity :: u32
  act_price :: 'd

section \<open>Scanning\<close>






section \<open>The stages\<close>

text \<open>Where a parser task and an algorithm task are in their loops.\<close>

datatype 'd parser_pc = PopRaw | PushParsed "'d MarketDataRec" | LogReceive

datatype 'd algo_pc = PopParsed | PushAction "'d OrderAction" | LogParsed | LogGenerated

datatype counter = CtrReceived | CtrParsed | CtrGenerated | CtrSent

record 'd pipeline =
  receiver_running :: bool
  trader_running :: bool
  monitor_running :: bool
  seq :: u64
  receiver :: "string option"
  raw_md_queue :: "string ring"
  parsers :: "nat \<Rightarrow> 'd parser_pc"
  parsed_md_queue :: "'d MarketDataRec ring"
  algos :: "nat \<Rightarrow> 'd algo_pc"
  order_id :: u64
  action_queue :: "'d OrderAction ring"
  sent :: "'d OrderAction list"
  md_received :: u64
  md_parsed :: u64
  actions_generated :: u64
  actions_sent :: u64
  monitor_pc :: counter
  stats :: "(counter \<times> u64) list"




text \<open>
  The decision of \<open>AlgorithmEngine::process\<close>; \<open>wide a b\<close> is \<open>a - b > 0.05\<close> and \<open>cent b\<close> is \<open>b + 0.01\<close>
  on doubles.
\<close>

definition process :: "('d \<Rightarrow> 'd \<Rightarrow> bool) \<Rightarrow> ('d \<Rightarrow> 'd) \<Rightarrow> 'd MarketDataRec \<Rightarrow> u64 \<Rightarrow> ('d OrderAction \<times> u64) option" where
  "process wide cent data n =
     (if wide (ask data) (bid data) \<and> bid_sz data > 1000 \<and> ask_sz data > 1000
      then Some (\<lparr>act_type = NEW_ORDER, act_order_id = ''ORD'' @ to_string (int (unat (n + 1))),
             act_symbol = symbol data, act_side = CHR ''B'', act_quantity = 100, act_price = cent (bid data)\<rparr>, n + 1)
      else None)"

text \<open>An algorithm task: pop, \<open>process\<close>, push until the queue takes it, \<open>log_md_parsed\<close>, \<open>log_action_generated\<close>.\<close>

definition algo_step :: "('d \<Rightarrow> 'd \<Rightarrow> bool) \<Rightarrow> ('d \<Rightarrow> 'd) \<Rightarrow> nat \<Rightarrow> 'd pipeline \<Rightarrow> 'd pipeline" where
  "algo_step wide cent i s =
     (case algos s i of
        PopParsed \<Rightarrow>
          (case sysq_pop (parsed_md_queue s) of
             (None, q) \<Rightarrow> s
           | (Some d, q) \<Rightarrow>
               (case process wide cent d (order_id s) of
                  None \<Rightarrow> s\<lparr>parsed_md_queue := q, algos := (algos s)(i := LogParsed)\<rparr>
                | Some (a, n) \<Rightarrow> s\<lparr>parsed_md_queue := q, order_id := n, algos := (algos s)(i := PushAction a)\<rparr>))
      | PushAction a \<Rightarrow>
          (case sysq_push a (action_queue s) of
             (True, q) \<Rightarrow> s\<lparr>action_queue := q, algos := (algos s)(i := LogParsed)\<rparr>
           | (False, q) \<Rightarrow> s)
      | LogParsed \<Rightarrow> s\<lparr>md_parsed := md_parsed s + 1, algos := (algos s)(i := LogGenerated)\<rparr>
      | LogGenerated \<Rightarrow> s\<lparr>actions_generated := actions_generated s + 1, algos := (algos s)(i := PopParsed)\<rparr>)"








section \<open>Every generated line is parsed\<close>






section \<open>The pipeline at work\<close>

definition small_sizes :: "'d MarketDataRec \<Rightarrow> bool" where
  "small_sizes d \<longleftrightarrow> bid_sz d = 100 \<and> ask_sz d = 200"




lemma process_small: "small_sizes d \<Longrightarrow> process wide cent d n = None"
  by (simp add: process_def small_sizes_def)




text \<open>
  The statistics are wrong too: one round of an algorithm task on a line that gives no order counts an
  action as generated.
\<close>

theorem pipeline_counts_no_action:
  assumes "algos s i = PopParsed" "sysq_pop (parsed_md_queue s) = (Some d, q)" "small_sizes d"
    and t: "t = algo_step wide cent i (algo_step wide cent i (algo_step wide cent i s))"
  shows "actions_generated t = actions_generated s + 1 \<and> md_parsed t = md_parsed s + 1
    \<and> action_queue t = action_queue s \<and> order_id t = order_id s \<and> algos t i = PopParsed"
  using assms by (simp add: algo_step_def process_small)






end
