(* ===== verification/Loop_Wakeup.thy ===== *)
theory Loop_Wakeup
  imports Prelude
begin

text \<open>
  \<open>EventLoop\<close> of muduo/server.hpp with its task queue and its eventfd, instruction by instruction and in every
  interleaving: threads that call \<open>PushTaskToQueue\<close>, and the thread of the loop, which waits in
  \<open>epoll_wait\<close>, runs the handlers, takes the queue and runs the tasks.  Handlers and tasks of the loop may post
  tasks themselves.  A change of the vector is a load and a later store, so that without the mutex two changes
  could overwrite each other.
\<close>

section \<open>State\<close>

text \<open>Where a thread is in \<open>PushTaskToQueue\<close>.\<close>

datatype 't task_push_pc =
    NoPush
  | PushLock 't
  | PushLocked 't
  | PushLoaded 't "'t list"
  | PushStored
  | PushWrite

text \<open>
  Where the thread of the loop is in \<open>Run\<close>; a channel that \<open>epoll_wait\<close> reports is the eventfd's or another.
\<close>

datatype active = Eventfd | OtherFd

datatype 't run_pc =
    EpollWait
  | Handle "active list"
  | SwapLock
  | SwapLocked
  | SwapLoaded "'t list"
  | SwapStored "'t list"
  | RunTasks "'t list"

text \<open>
  Thread 0 is the loop's.  \<open>posts\<close> is what the running handler or task of the loop has yet to post; the histories
  \<open>posted\<close> and \<open>executed\<close> are not part of the code.
\<close>

record 't loop_state =
  loop_tasks :: "'t list"
  loop_mutex :: "nat option"
  eventfd :: u64
  push_pcs :: "nat \<Rightarrow> 't task_push_pc"
  run_pc :: "'t run_pc"
  posts :: "'t list"
  posted :: "'t list"
  executed :: "'t list"

definition loop_state_new :: "'t loop_state" where
  "loop_state_new = \<lparr>loop_tasks = [], loop_mutex = None, eventfd = 0, push_pcs = (\<lambda>_. NoPush), run_pc = EpollWait,
     posts = [], posted = [], executed = []\<rparr>"

abbreviation push_at :: "nat \<Rightarrow> 't task_push_pc \<Rightarrow> 't loop_state \<Rightarrow> 't loop_state" where
  "push_at i p s \<equiv> s\<lparr>push_pcs := (push_pcs s)(i := p)\<rparr>"

section \<open>Steps\<close>

text \<open>
  A write of 1 to the eventfd; when the count would pass its largest value the write fails with EAGAIN and \<open>WriteEventfd\<close> returns.
\<close>

definition WriteEventfd :: "u64 \<Rightarrow> u64" where
  "WriteEventfd n = (if - 1 - n > 1 then n + 1 else n)"

text \<open>A read of the eventfd takes the whole count; on zero it fails with EAGAIN and \<open>ReadEventfd\<close> returns.\<close>

definition ReadEventfd :: "u64 \<Rightarrow> u64" where
  "ReadEventfd n = 0"

definition PushTask_step :: "nat \<Rightarrow> 't loop_state \<Rightarrow> 't loop_state" where
  "PushTask_step i s =
     (case push_pcs s i of
        NoPush \<Rightarrow> s
      | PushLock t \<Rightarrow> if loop_mutex s = None then push_at i (PushLocked t) (s\<lparr>loop_mutex := Some i\<rparr>) else s
      | PushLocked t \<Rightarrow> push_at i (PushLoaded t (loop_tasks s)) s
      | PushLoaded t v \<Rightarrow> push_at i PushStored (s\<lparr>loop_tasks := v @ [t], posted := posted s @ [t]\<rparr>)
      | PushStored \<Rightarrow> push_at i PushWrite (s\<lparr>loop_mutex := None\<rparr>)
      | PushWrite \<Rightarrow> push_at i NoPush (s\<lparr>eventfd := WriteEventfd (eventfd s)\<rparr>))"

text \<open>
  One step of \<open>Run\<close>: the reported channels \<open>acts\<close>, empty when the wait was interrupted, and the tasks \<open>ps\<close> that
  the handler or task run in this step posts are arguments.  The eventfd is reported only while it is not zero.
\<close>

definition Run_step :: "active list \<Rightarrow> 't list \<Rightarrow> 't loop_state \<Rightarrow> 't loop_state" where
  "Run_step acts ps s =
     (case run_pc s of
        EpollWait \<Rightarrow> if Eventfd \<in> set acts \<and> eventfd s = 0 then s else s\<lparr>run_pc := Handle acts\<rparr>
      | Handle [] \<Rightarrow> s\<lparr>run_pc := SwapLock\<rparr>
      | Handle (Eventfd # r) \<Rightarrow> s\<lparr>eventfd := ReadEventfd (eventfd s), run_pc := Handle r\<rparr>
      | Handle (OtherFd # r) \<Rightarrow> s\<lparr>posts := ps, run_pc := Handle r\<rparr>
      | SwapLock \<Rightarrow> if loop_mutex s = None then s\<lparr>loop_mutex := Some 0, run_pc := SwapLocked\<rparr> else s
      | SwapLocked \<Rightarrow> s\<lparr>run_pc := SwapLoaded (loop_tasks s)\<rparr>
      | SwapLoaded v \<Rightarrow> s\<lparr>loop_tasks := [], run_pc := SwapStored v\<rparr>
      | SwapStored v \<Rightarrow> s\<lparr>loop_mutex := None, run_pc := RunTasks v\<rparr>
      | RunTasks [] \<Rightarrow> s\<lparr>run_pc := EpollWait\<rparr>
      | RunTasks (t # v) \<Rightarrow> s\<lparr>executed := executed s @ [t], posts := ps, run_pc := RunTasks v\<rparr>)"

definition loop_thread_step :: "active list \<Rightarrow> 't list \<Rightarrow> 't loop_state \<Rightarrow> 't loop_state" where
  "loop_thread_step acts ps s =
     (if push_pcs s 0 \<noteq> NoPush then PushTask_step 0 s
      else case posts s of
          p # r \<Rightarrow> push_at 0 (PushLock p) (s\<lparr>posts := r\<rparr>)
        | [] \<Rightarrow> Run_step acts ps s)"

text \<open>A step of another thread, which begins to push \<open>t\<close> when it is not pushing.\<close>

definition other_thread_step :: "nat \<Rightarrow> 't \<Rightarrow> 't loop_state \<Rightarrow> 't loop_state" where
  "other_thread_step i t s =
     (if push_pcs s (Suc i) = NoPush then push_at (Suc i) (PushLock t) s else PushTask_step (Suc i) s)"

datatype 't loop_turn = LoopTurn "active list" "'t list" | OtherTurn nat 't

fun loop_act :: "'t loop_turn \<Rightarrow> 't loop_state \<Rightarrow> 't loop_state" where
  "loop_act (LoopTurn acts ps) s = loop_thread_step acts ps s"
| "loop_act (OtherTurn i t) s = other_thread_step i t s"

section \<open>Invariant\<close>

fun push_inside :: "'t task_push_pc \<Rightarrow> bool" where
  "push_inside (PushLocked t) = True"
| "push_inside (PushLoaded t v) = True"
| "push_inside PushStored = True"
| "push_inside _ = False"

fun swap_inside :: "'t run_pc \<Rightarrow> bool" where
  "swap_inside SwapLocked = True"
| "swap_inside (SwapLoaded v) = True"
| "swap_inside (SwapStored v) = True"
| "swap_inside _ = False"

text \<open>The loop posts only while it runs handlers or tasks.\<close>

fun runs_code :: "'t run_pc \<Rightarrow> bool" where
  "runs_code (Handle r) = True"
| "runs_code (RunTasks v) = True"
| "runs_code _ = False"

text \<open>The points from which the loop takes the queue before it waits again.\<close>

fun before_swap :: "'t run_pc \<Rightarrow> bool" where
  "before_swap (Handle r) = True"
| "before_swap SwapLock = True"
| "before_swap SwapLocked = True"
| "before_swap (SwapLoaded v) = True"
| "before_swap _ = False"

fun batch :: "'t run_pc \<Rightarrow> 't list" where
  "batch (SwapStored v) = v"
| "batch (RunTasks v) = v"
| "batch _ = []"

definition holds_mutex :: "(nat \<Rightarrow> 't task_push_pc) \<Rightarrow> 't run_pc \<Rightarrow> nat \<Rightarrow> bool" where
  "holds_mutex pcs r i \<longleftrightarrow> push_inside (pcs i) \<or> i = 0 \<and> swap_inside r"

definition mutex_ok :: "'t loop_state \<Rightarrow> bool" where
  "mutex_ok s \<longleftrightarrow> (\<forall>i. holds_mutex (push_pcs s) (run_pc s) i \<longleftrightarrow> loop_mutex s = Some i)"

definition loads_ok :: "'t loop_state \<Rightarrow> bool" where
  "loads_ok s \<longleftrightarrow> (\<forall>i t v. push_pcs s i = PushLoaded t v \<longrightarrow> v = loop_tasks s)
     \<and> (\<forall>v. run_pc s = SwapLoaded v \<longrightarrow> v = loop_tasks s)"

definition posts_ok :: "'t loop_state \<Rightarrow> bool" where
  "posts_ok s \<longleftrightarrow> (posts s \<noteq> [] \<or> push_pcs s 0 \<noteq> NoPush \<longrightarrow> runs_code (run_pc s))"

definition history_ok :: "'t loop_state \<Rightarrow> bool" where
  "history_ok s \<longleftrightarrow> executed s @ batch (run_pc s) @ loop_tasks s = posted s"

definition notifying :: "'t task_push_pc \<Rightarrow> bool" where
  "notifying p \<longleftrightarrow> p = PushStored \<or> p = PushWrite"

definition wake_ok :: "'t loop_state \<Rightarrow> bool" where
  "wake_ok s \<longleftrightarrow> (loop_tasks s \<noteq> [] \<longrightarrow>
     eventfd s \<noteq> 0 \<or> before_swap (run_pc s) \<or> (\<exists>i. notifying (push_pcs s i)))"

definition loop_inv :: "'t loop_state \<Rightarrow> bool" where
  "loop_inv s \<longleftrightarrow> mutex_ok s \<and> loads_ok s \<and> posts_ok s \<and> history_ok s \<and> wake_ok s"

lemma WriteEventfd_nonzero: "WriteEventfd n \<noteq> 0"
proof (cases "- 1 - n > 1")
  case True
  have "n + 1 = 0 \<Longrightarrow> - 1 - n = 0" by (metis add_diff_cancel_right' diff_0 minus_diff_eq diff_minus_eq_add add.commute)
  then show ?thesis using True by (auto simp: WriteEventfd_def)
next
  case False
  have "(1 :: u64) < - 1" by code_simp
  then show ?thesis using False by (auto simp: WriteEventfd_def)
qed

text \<open>At most one thread is inside, and nobody is while the mutex is free.\<close>

lemma mutex_exclusive:
  assumes "mutex_ok s" "holds_mutex (push_pcs s) (run_pc s) i" "holds_mutex (push_pcs s) (run_pc s) j"
  shows "i = j"
  using assms unfolding mutex_ok_def by (metis option.inject)

lemma mutex_ok_D: "mutex_ok s \<Longrightarrow> holds_mutex (push_pcs s) (run_pc s) i \<longleftrightarrow> loop_mutex s = Some i"
  by (simp add: mutex_ok_def)

lemma posting_not_swapping: "posts_ok s \<Longrightarrow> push_pcs s 0 \<noteq> NoPush \<Longrightarrow> \<not> swap_inside (run_pc s)"
  by (cases "run_pc s") (auto simp: posts_ok_def)

lemma mutex_ok_push:
  assumes "mutex_ok s" "posts_ok s"
  shows "mutex_ok (PushTask_step i s)"
  unfolding mutex_ok_def
proof
  fix j
  show "holds_mutex (push_pcs (PushTask_step i s)) (run_pc (PushTask_step i s)) j \<longleftrightarrow> loop_mutex (PushTask_step i s) = Some j"
    using mutex_ok_D [OF assms(1), of i] mutex_ok_D [OF assms(1), of j] posting_not_swapping [OF assms(2)]
    by (cases "push_pcs s i"; cases "j = i") (auto simp: PushTask_step_def holds_mutex_def)
qed

lemma loads_ok_push:
  assumes "mutex_ok s" "posts_ok s" "loads_ok s"
  shows "loads_ok (PushTask_step i s)"
proof (cases "push_pcs s i")
  case (PushLoaded t v)
  then have held: "holds_mutex (push_pcs s) (run_pc s) i" by (simp add: holds_mutex_def)
  have "push_pcs s j \<noteq> PushLoaded u w" if "j \<noteq> i" for j u w
  proof
    assume "push_pcs s j = PushLoaded u w"
    then have "holds_mutex (push_pcs s) (run_pc s) j" by (simp add: holds_mutex_def)
    then show False using mutex_exclusive [OF assms(1) held] that by simp
  qed
  moreover have "run_pc s \<noteq> SwapLoaded w" for w
  proof
    assume swap: "run_pc s = SwapLoaded w"
    then have "holds_mutex (push_pcs s) (run_pc s) 0" by (simp add: holds_mutex_def)
    then have "i = 0" using mutex_exclusive [OF assms(1) held] by simp
    then show False using posting_not_swapping [OF assms(2)] PushLoaded swap by simp
  qed
  ultimately show ?thesis using PushLoaded by (auto simp: PushTask_step_def loads_ok_def)
qed (use assms in \<open>auto simp: PushTask_step_def loads_ok_def\<close>)

lemma posts_ok_push: "posts_ok s \<Longrightarrow> posts_ok (PushTask_step i s)"
  by (cases "push_pcs s i"; cases "i = 0") (auto simp: PushTask_step_def posts_ok_def)

lemma history_ok_push: "loads_ok s \<Longrightarrow> history_ok s \<Longrightarrow> history_ok (PushTask_step i s)"
  by (cases "push_pcs s i") (auto simp: PushTask_step_def history_ok_def loads_ok_def)

lemma wake_ok_push:
  assumes "wake_ok s"
  shows "wake_ok (PushTask_step i s)"
proof (cases "push_pcs s i")
  case (PushLoaded t v)
  then have "notifying (push_pcs (PushTask_step i s) i)" by (simp add: PushTask_step_def notifying_def)
  then show ?thesis unfolding wake_ok_def by blast
next
  case PushStored
  then have "notifying (push_pcs (PushTask_step i s) i)" by (simp add: PushTask_step_def notifying_def)
  then show ?thesis unfolding wake_ok_def by blast
next
  case PushWrite
  then show ?thesis using WriteEventfd_nonzero by (simp add: PushTask_step_def wake_ok_def)
next
  case (PushLock t)
  then have "notifying (push_pcs (PushTask_step i s) j) \<longleftrightarrow> notifying (push_pcs s j)" for j
    by (cases "j = i") (simp_all add: PushTask_step_def notifying_def)
  then show ?thesis using assms PushLock by (simp add: PushTask_step_def wake_ok_def)
next
  case (PushLocked t)
  then have "notifying (push_pcs (PushTask_step i s) j) \<longleftrightarrow> notifying (push_pcs s j)" for j
    by (cases "j = i") (simp_all add: PushTask_step_def notifying_def)
  then show ?thesis using assms PushLocked by (simp add: PushTask_step_def wake_ok_def)
qed (use assms in \<open>simp add: PushTask_step_def\<close>)

lemma loop_inv_push: "loop_inv s \<Longrightarrow> loop_inv (PushTask_step i s)"
  using mutex_ok_push loads_ok_push posts_ok_push history_ok_push wake_ok_push unfolding loop_inv_def by blast

text \<open>Beginning to push, which needs no lock.\<close>

lemma loop_inv_begin:
  assumes "loop_inv s" "push_pcs s i = NoPush" "i = 0 \<longrightarrow> runs_code (run_pc s)"
    and t: "t = push_at i (PushLock x) (s\<lparr>posts := r\<rparr>)" "r \<noteq> [] \<longrightarrow> posts s \<noteq> []"
  shows "loop_inv t"
proof -
  have "holds_mutex (push_pcs t) (run_pc t) j \<longleftrightarrow> holds_mutex (push_pcs s) (run_pc s) j" for j
    using assms by (cases "j = i") (simp_all add: holds_mutex_def)
  moreover have "notifying (push_pcs t j) \<longleftrightarrow> notifying (push_pcs s j)" for j
    using assms by (cases "j = i") (simp_all add: notifying_def)
  moreover have "push_pcs t j = PushLoaded u v \<longleftrightarrow> push_pcs s j = PushLoaded u v" for j u v
    using assms by (cases "j = i") simp_all
  moreover have "posts_ok t" using assms by (auto simp: loop_inv_def posts_ok_def)
  ultimately show ?thesis using assms(1) t(1)
    by (simp add: loop_inv_def mutex_ok_def loads_ok_def history_ok_def wake_ok_def)
qed

text \<open>A step of \<open>Run\<close>, made while the loop posts nothing.\<close>

lemma mutex_ok_run:
  assumes "mutex_ok s" "push_pcs s 0 = NoPush"
  shows "mutex_ok (Run_step acts ps s)"
  unfolding mutex_ok_def
proof
  fix j
  show "holds_mutex (push_pcs (Run_step acts ps s)) (run_pc (Run_step acts ps s)) j \<longleftrightarrow> loop_mutex (Run_step acts ps s) = Some j"
    using mutex_ok_D [OF assms(1), of 0] mutex_ok_D [OF assms(1), of j] assms(2)
    by (cases "j = 0") (auto simp: Run_step_def holds_mutex_def split: run_pc.split list.split active.split)
qed

lemma loads_ok_run:
  assumes "mutex_ok s" "loads_ok s" and idle: "push_pcs s 0 = NoPush"
  shows "loads_ok (Run_step acts ps s)"
proof (cases "run_pc s")
  case (SwapLoaded v)
  have "push_pcs s j \<noteq> PushLoaded u w" for j u w
    using SwapLoaded mutex_exclusive [OF assms(1), of 0 j] idle by (cases "j = 0") (auto simp: holds_mutex_def)
  then show ?thesis using SwapLoaded by (simp add: Run_step_def loads_ok_def)
qed (use assms in \<open>auto simp: Run_step_def loads_ok_def split: list.split active.split\<close>)

lemma posts_ok_run: "push_pcs s 0 = NoPush \<Longrightarrow> posts s = [] \<Longrightarrow> posts_ok (Run_step acts ps s)"
  by (auto simp: Run_step_def posts_ok_def split: run_pc.split list.split active.split)

lemma history_ok_run: "loads_ok s \<Longrightarrow> history_ok s \<Longrightarrow> history_ok (Run_step acts ps s)"
  by (auto simp: Run_step_def history_ok_def loads_ok_def split: run_pc.split list.split active.split)

lemma wake_ok_run: "wake_ok s \<Longrightarrow> wake_ok (Run_step acts ps s)"
  by (auto simp: Run_step_def wake_ok_def split: run_pc.split list.split active.split)

lemma loop_inv_act:
  assumes inv: "loop_inv s"
  shows "loop_inv (loop_act t s)"
proof (cases t)
  case (LoopTurn acts ps)
  consider (push) "push_pcs s 0 \<noteq> NoPush" | (start) p r where "push_pcs s 0 = NoPush" "posts s = p # r"
    | (run) "push_pcs s 0 = NoPush" "posts s = []" by (cases "posts s") auto
  then show ?thesis
  proof cases
    case push
    then show ?thesis using LoopTurn loop_inv_push [OF inv] by (simp add: loop_thread_step_def)
  next
    case start
    have "runs_code (run_pc s)" using inv start by (simp add: loop_inv_def posts_ok_def)
    then show ?thesis using LoopTurn start loop_inv_begin [OF inv start(1) _ refl, of r p]
      by (simp add: loop_thread_step_def)
  next
    case run
    then have "loop_inv (Run_step acts ps s)"
      using inv mutex_ok_run loads_ok_run posts_ok_run history_ok_run wake_ok_run unfolding loop_inv_def by blast
    then show ?thesis using LoopTurn run by (simp add: loop_thread_step_def)
  qed
next
  case (OtherTurn i x)
  show ?thesis
  proof (cases "push_pcs s (Suc i) = NoPush")
    case True
    then show ?thesis using OtherTurn loop_inv_begin [OF inv True _ refl, of "posts s" x]
      by (simp add: other_thread_step_def)
  qed (use OtherTurn loop_inv_push [OF inv] in \<open>simp add: other_thread_step_def\<close>)
qed

lemma loop_inv_new: "loop_inv loop_state_new"
  by (simp add: loop_inv_def mutex_ok_def loads_ok_def posts_ok_def history_ok_def wake_ok_def
      loop_state_new_def holds_mutex_def)

lemma loop_inv_reachable: "loop_inv (fold loop_act ts loop_state_new)"
proof -
  have "loop_inv (fold loop_act ts s)" if "loop_inv s" for s :: "'a loop_state"
    using that by (induction ts arbitrary: s) (simp_all add: loop_inv_act)
  then show ?thesis using loop_inv_new .
qed

section \<open>The loop alone\<close>

definition loop_runs :: "'t loop_state \<Rightarrow> 't loop_state \<Rightarrow> bool" where
  "loop_runs s t \<longleftrightarrow> (\<exists>us. (\<forall>u\<in>set us. \<exists>acts ps. u = LoopTurn acts ps) \<and> t = fold loop_act us s)"

lemma loop_runs_refl: "loop_runs s s"
  unfolding loop_runs_def by (rule exI [of _ "[]"]) simp

lemma loop_runs_trans: "loop_runs s t \<Longrightarrow> loop_runs t u \<Longrightarrow> loop_runs s u"
  unfolding loop_runs_def
proof (elim exE conjE)
  fix us vs
  assume "\<forall>u\<in>set us. \<exists>acts ps. u = LoopTurn acts ps" "t = fold loop_act us s"
    "\<forall>u\<in>set vs. \<exists>acts ps. u = LoopTurn acts ps" "u = fold loop_act vs t"
  then show "\<exists>us. (\<forall>u\<in>set us. \<exists>acts ps. u = LoopTurn acts ps) \<and> u = fold loop_act us s"
    by (intro exI [of _ "us @ vs"]) auto
qed

lemma loop_runs_pow: "loop_runs s ((loop_thread_step acts ps ^^ n) s)"
proof -
  have "loop_act (LoopTurn acts ps) = loop_thread_step acts ps" by (rule ext) simp
  then show ?thesis unfolding loop_runs_def
    by (intro exI [of _ "replicate n (LoopTurn acts ps)"]) simp
qed

text \<open>The loop's thread between two operations: it posts nothing and the mutex is free.\<close>

definition loop_free :: "'t loop_state \<Rightarrow> bool" where
  "loop_free s \<longleftrightarrow> push_pcs s 0 = NoPush \<and> loop_mutex s = None"

lemma post_one:
  assumes "loop_free s" "posts s = p # r"
  shows "\<exists>t. loop_runs s t \<and> loop_free t \<and> posts t = r \<and> loop_tasks t = loop_tasks s @ [p]
    \<and> run_pc t = run_pc s \<and> executed t = executed s"
proof -
  have "(loop_thread_step [] [] ^^ 6) s = s\<lparr>posts := r, loop_tasks := loop_tasks s @ [p], posted := posted s @ [p],
      loop_mutex := None, eventfd := WriteEventfd (eventfd s), push_pcs := (push_pcs s)(0 := NoPush)\<rparr>"
    using assms by (simp add: eval_nat_numeral loop_thread_step_def PushTask_step_def loop_free_def)
  then show ?thesis using assms loop_runs_pow [of s 6 "[]" "[]"] by (auto simp: loop_free_def)
qed

lemma post_all:
  assumes "loop_free s"
  shows "\<exists>t. loop_runs s t \<and> loop_free t \<and> posts t = [] \<and> loop_tasks t = loop_tasks s @ posts s
    \<and> run_pc t = run_pc s \<and> executed t = executed s"
  using assms
proof (induction "posts s" arbitrary: s)
  case Nil
  then show ?case using loop_runs_refl by fastforce
next
  case (Cons p r)
  obtain t where t: "loop_runs s t" "loop_free t" "posts t = r" "loop_tasks t = loop_tasks s @ [p]"
    "run_pc t = run_pc s" "executed t = executed s" using post_one [OF Cons(3), of p r] Cons(2) by auto
  obtain u where "loop_runs t u" "loop_free u" "posts u = []" "loop_tasks u = loop_tasks t @ posts t"
    "run_pc u = run_pc t" "executed u = executed t" using Cons(1) [of t] t by auto
  then show ?case using t Cons(2) loop_runs_trans by (intro exI [of _ u]) auto
qed

text \<open>A batch of tasks, each of which posts \<open>post t\<close>.\<close>

lemma run_batch:
  assumes "loop_free s" "posts s = []" "run_pc s = RunTasks v"
  shows "\<exists>t. loop_runs s t \<and> loop_free t \<and> posts t = [] \<and> run_pc t = EpollWait
    \<and> executed t = executed s @ v \<and> loop_tasks t = loop_tasks s @ concat (map post v)"
  using assms
proof (induction v arbitrary: s)
  case Nil
  then have "(loop_thread_step [] [] ^^ 1) s = s\<lparr>run_pc := EpollWait\<rparr>"
    by (simp add: loop_thread_step_def Run_step_def loop_free_def)
  then show ?case using Nil loop_runs_pow [of s 1 "[]" "[]"] by (auto simp: loop_free_def)
next
  case (Cons x v)
  let ?t = "s\<lparr>executed := executed s @ [x], posts := post x, run_pc := RunTasks v\<rparr>"
  have "(loop_thread_step [] (post x) ^^ 1) s = ?t"
    using Cons(2-) by (simp add: loop_thread_step_def Run_step_def loop_free_def)
  then have run: "loop_runs s ?t" using loop_runs_pow by metis
  have "loop_free ?t" using Cons(2) by (simp add: loop_free_def)
  from post_all [OF this] obtain u where u: "loop_runs ?t u" "loop_free u" "posts u = []"
    "loop_tasks u = loop_tasks s @ post x" "run_pc u = RunTasks v" "executed u = executed s @ [x]" by auto
  from Cons(1) [OF u(2,3,5)] obtain w where "loop_runs u w" "loop_free w" "posts w = []" "run_pc w = EpollWait"
    "executed w = executed u @ v" "loop_tasks w = loop_tasks u @ concat (map post v)" by blast
  then show ?case using u loop_runs_trans [OF loop_runs_trans [OF run u(1)], of w] by (intro exI [of _ w]) auto
qed

lemma take_queue:
  assumes "loop_free s" "posts s = []" "run_pc s = EpollWait" "eventfd s \<noteq> 0"
  shows "\<exists>t. loop_runs s t \<and> loop_free t \<and> posts t = [] \<and> run_pc t = RunTasks (loop_tasks s)
    \<and> executed t = executed s \<and> loop_tasks t = []"
proof -
  have "(loop_thread_step [Eventfd] [] ^^ 7) s = s\<lparr>eventfd := 0, loop_mutex := None, loop_tasks := [], run_pc := RunTasks (loop_tasks s)\<rparr>"
    using assms by (simp add: eval_nat_numeral loop_thread_step_def Run_step_def loop_free_def ReadEventfd_def)
  then show ?thesis using assms loop_runs_pow [of s 7 "[Eventfd]" "[]"] by (auto simp: loop_free_def)
qed

text \<open>
  C17. \<open>EventLoop\<close> in every interleaving of the loop's thread and of any number of threads that push tasks, the
  handlers and tasks of the loop posting tasks as well: the tasks are executed once each and in the order in which
  they entered the queue, and the mutex is held exactly by the thread that works on the queue.
\<close>

theorem loop_tasks_exactly_once:
  fixes ts :: "'t loop_turn list"
  defines "s \<equiv> fold loop_act ts loop_state_new"
  shows "executed s @ batch (run_pc s) @ loop_tasks s = posted s
    \<and> {i. holds_mutex (push_pcs s) (run_pc s) i} = set_option (loop_mutex s)"
  using loop_inv_reachable [of ts] unfolding s_def [symmetric] loop_inv_def
  by (auto simp: history_ok_def mutex_ok_def)

text \<open>
  C19. No wake-up of \<open>EventLoop\<close> is lost: when the loop waits, tasks are queued and no thread is inside
  \<open>PushTaskToQueue\<close> with its task stored or the mutex held, the eventfd is readable, and the steps of the loop's
  thread alone execute every task posted so far, whatever the tasks post themselves.
\<close>

theorem loop_no_lost_wakeup:
  fixes ts :: "'t loop_turn list"
  assumes s: "s = fold loop_act ts loop_state_new"
    and waits: "run_pc s = EpollWait" "loop_tasks s \<noteq> []"
    and quiet: "\<forall>i. \<not> push_inside (push_pcs s i) \<and> push_pcs s i \<noteq> PushWrite"
  shows "eventfd s \<noteq> 0 \<and> (\<exists>us. (\<forall>u\<in>set us. \<exists>acts ps. u = LoopTurn acts ps)
    \<and> executed (fold loop_act us s) = posted s \<and> run_pc (fold loop_act us s) = EpollWait
    \<and> loop_tasks (fold loop_act us s) = concat (map post (loop_tasks s)))"
proof -
  have inv: "loop_inv s" using s loop_inv_reachable by simp
  have idle: "push_pcs s 0 = NoPush" "posts s = []" using inv waits by (auto simp: loop_inv_def posts_ok_def)
  have "\<not> notifying (push_pcs s i)" for i
    using spec [OF quiet, of i] by (cases "push_pcs s i") (auto simp: notifying_def)
  then have efd: "eventfd s \<noteq> 0" using inv waits by (simp add: loop_inv_def wake_ok_def)
  have "loop_mutex s \<noteq> Some i" for i
    using inv quiet waits mutex_ok_D [of s i] by (simp add: loop_inv_def holds_mutex_def)
  then have free: "loop_free s" using idle by (cases "loop_mutex s") (auto simp: loop_free_def)
  obtain t where t: "loop_runs s t" "loop_free t" "posts t = []" "run_pc t = RunTasks (loop_tasks s)"
    "executed t = executed s" "loop_tasks t = []" using take_queue [OF free idle(2) waits(1) efd] by blast
  obtain u where u: "loop_runs t u" "run_pc u = EpollWait" "executed u = executed t @ loop_tasks s"
    "loop_tasks u = loop_tasks t @ concat (map post (loop_tasks s))" using run_batch [OF t(2-4)] by blast
  have "executed u = posted s" using inv u(3) t(5) waits by (simp add: loop_inv_def history_ok_def)
  then show ?thesis using efd u t(6) loop_runs_trans [OF t(1) u(1)] unfolding loop_runs_def by auto
qed

theorem loop_no_lost_wakeup_witness:
  "\<exists>us. executed (fold loop_act us (fold loop_act (replicate 6 (OtherTurn 0 (7 :: nat))) loop_state_new)) = [7]"
proof -
  let ?s = "fold loop_act (replicate 6 (OtherTurn 0 (7 :: nat))) loop_state_new"
  have s: "?s = loop_state_new\<lparr>loop_tasks := [7], posted := [7], eventfd := WriteEventfd 0\<rparr>"
    by (simp add: eval_nat_numeral loop_state_new_def other_thread_step_def PushTask_step_def fun_eq_iff)
  have "run_pc ?s = EpollWait" "loop_tasks ?s \<noteq> []" "posted ?s = [7]"
    "\<forall>i. \<not> push_inside (push_pcs ?s i) \<and> push_pcs ?s i \<noteq> PushWrite"
    unfolding s by (simp_all add: loop_state_new_def)
  from loop_no_lost_wakeup [OF refl this(1,2,4), of "\<lambda>_. []"] this(3) show ?thesis by metis
qed

end
