(* ===== verification/Cube_Codec.thy ===== *)
theory Cube_Codec
  imports Byte_Buffers Word_Bytes
begin

text \<open>
  The message format of the example server: \<open>encoder\<close> and \<open>decoder\<close> of muduo/protocol.hpp, and
  \<open>encoder\<close>, \<open>Coder\<close> and \<open>CubeServer::onMessage\<close> of muduo/example/main.cpp.  A message is a type
  byte, a length of four bytes in host order (little-endian here) and a payload in which every byte
  has a constant added that depends on whether its index is even or odd.  Arrays are byte lists; a
  null pointer is \<open>None\<close>.  \<open>data_len\<close> is the length of the data, a 32-bit number.
\<close>

section \<open>Bytes\<close>

definition offset_byte :: "nat \<Rightarrow> u8" where
  "offset_byte i = (if i mod 2 \<noteq> 0 then 0x51 else 0x4A)"

text \<open>The sum \<open>5 + data_len\<close> is computed in 32 bits, as is the index \<open>5 + i\<close>.\<close>

definition message_size :: "u32 \<Rightarrow> nat" where
  "message_size data_len = unat (5 + data_len)"

fun write_payload :: "nat \<Rightarrow> bytes \<Rightarrow> bytes \<Rightarrow> fault + bytes" where
  "write_payload i [] out = Inr out"
| "write_payload i (d # ds) out =
     (let p = message_size (word_of_nat i)
      in if p < length out then write_payload (Suc i) ds (out[p := d + offset_byte i]) else Inl OutOfBounds)"

text \<open>The header: one byte and a block of four.\<close>

definition write_header :: "u8 \<Rightarrow> u32 \<Rightarrow> bytes \<Rightarrow> fault + bytes" where
  "write_header type len out =
     (if length out < 5 then Inl OutOfBounds else Inr (overwrite (out[0 := type]) 1 (le32 len)))"

section \<open>protocol.hpp\<close>

definition encoder :: "u8 \<Rightarrow> bytes \<Rightarrow> bytes option \<Rightarrow> nat \<Rightarrow> fault + nat \<times> bytes option" where
  "encoder type data output out_size =
     (let data_len = word_of_nat (length data)
      in if out_size < message_size data_len then Inr (0, output)
         else case output of
           None \<Rightarrow> Inr (0, output)
         | Some out \<Rightarrow>
             sum_bind (write_header type data_len out) (\<lambda>out.
             sum_bind (write_payload 0 data out) (\<lambda>out.
             Inr (message_size data_len, Some out))))"

text \<open>
  The decoding loop for the remaining \<open>n\<close> indices from \<open>i\<close> on; the result of \<open>decoder\<close> is what it
  stored: nothing, the type and the length, or also the data.
\<close>

fun read_payload :: "nat \<Rightarrow> nat \<Rightarrow> bytes \<Rightarrow> bytes \<Rightarrow> fault + bytes" where
  "read_payload 0 i inp out = Inr out"
| "read_payload (Suc n) i inp out =
     (let p = message_size (word_of_nat i)
      in if p < length inp \<and> i < length out
         then read_payload n (Suc i) inp (out[i := inp ! p - offset_byte i])
         else Inl OutOfBounds)"

datatype decoded = Untouched | HeaderOnly u8 u32 | Decoded u8 u32 bytes

definition decoder :: "bytes \<Rightarrow> bytes \<Rightarrow> fault + decoded" where
  "decoder inp out_data =
     (if length inp < 5 then Inr Untouched
      else
        let type = inp ! 0; out_len = read_le32 (drop 1 inp)
        in if length inp < message_size out_len then Inr (HeaderOnly type out_len)
           else sum_bind (read_payload (unat out_len) 0 inp out_data) (\<lambda>out. Inr (Decoded type out_len out)))"

section \<open>example/main.cpp\<close>

text \<open>The encoder of the example writes the length of the whole message.\<close>

definition example_encoder :: "u8 \<Rightarrow> bytes \<Rightarrow> bytes option \<Rightarrow> nat \<Rightarrow> fault + nat \<times> bytes option" where
  "example_encoder type data output out_size =
     (let data_len = word_of_nat (length data); total_len = 5 + data_len
      in if out_size < message_size data_len then Inr (0, output)
         else case output of
           None \<Rightarrow> Inr (0, output)
         | Some out \<Rightarrow>
             sum_bind (write_header type total_len out) (\<lambda>out.
             sum_bind (write_payload 0 data out) (\<lambda>out.
             Inr (unat total_len, Some out))))"

abbreviation kHeaderLen :: nat where "kHeaderLen \<equiv> 5"

text \<open>The length is returned as an \<open>int\<close>.\<close>

definition getMessageTypeLength :: "bytes \<Rightarrow> u8 \<times> int" where
  "getMessageTypeLength data = (data ! 0, sint (read_le32 (drop 1 data)))"

fun decode_bytes :: "nat \<Rightarrow> bytes \<Rightarrow> u64" where
  "decode_bytes i [] = 0"
| "decode_bytes i (b # bs) = push_bit (i * 8) (ucast (b - offset_byte i)) OR decode_bytes (Suc i) bs"

definition decodeTimeStamp :: "bytes \<Rightarrow> fault + u64" where
  "decodeTimeStamp data = (if length data < 8 then Inl OutOfBounds else Inr (decode_bytes 0 (take 8 data)))"

definition encodeTimeStamp :: "u64 \<Rightarrow> bytes" where
  "encodeTimeStamp current_time = map (\<lambda>i. ucast (drop_bit (i * 8) current_time) + offset_byte i) [0..<8]"

definition encodeHeaderWithTimeStamp :: "u64 \<Rightarrow> u32 \<Rightarrow> bytes" where
  "encodeHeaderWithTimeStamp current_time totalLen = 3 # le32 totalLen @ encodeTimeStamp current_time"

text \<open>
  \<open>encodeData\<close> on the 120 bytes of a packed \<open>Data\<close>.
\<close>

definition encodeData :: "bytes \<Rightarrow> bytes" where
  "encodeData data = 1 # le32 (word_of_nat (length data + 5)) @ map (\<lambda>i. data ! i + offset_byte i) [0..<length data]"

text \<open>The bytes of the array from the read position on, which is what \<open>data()\<close> points to.\<close>

definition from_readPos :: "SimpleBuffer \<Rightarrow> bytes" where
  "from_readPos b = drop (readPos b) (sb_buffer b)"

text \<open>
  \<open>Coder::decode\<close>: no message yet, or the length of the body as an \<open>int\<close> and the buffer without
  the header.  The type and the length are read from the array; the time stamp is read from the
  eight bytes behind the header whatever the length says.
\<close>

definition coder_decode :: "SimpleBuffer \<Rightarrow> fault + (int \<times> SimpleBuffer) option" where
  "coder_decode b =
     (if sb_size b < kHeaderLen then Inr None
      else if length (from_readPos b) < kHeaderLen then Inl OutOfBounds
      else case getMessageTypeLength (from_readPos b) of (type, messageLen) \<Rightarrow>
        if type \<noteq> 2 then Inr None
        else if messageLen < 0 then Inr None
        else if int (sb_size b) \<ge> messageLen then
          sum_bind (advance kHeaderLen b) (\<lambda>b.
          sum_bind (decodeTimeStamp (from_readPos b)) (\<lambda>timestamp.
          Inr (Some (messageLen - int kHeaderLen, b))))
        else Inr None)"

text \<open>
  One round of the loop of \<open>onMessage\<close>: the two blocks passed to \<open>send\<close>, the second of which is
  read from the buffer with the body length converted to \<open>size_t\<close>.
\<close>

definition onMessage_round :: "u64 \<Rightarrow> SimpleBuffer \<Rightarrow> fault + (bytes list \<times> SimpleBuffer) option" where
  "onMessage_round time b =
     sum_bind (coder_decode b) (\<lambda>r. case r of
       None \<Rightarrow> Inr None
     | Some (messageBodyLen, b) \<Rightarrow>
         let n = nat (messageBodyLen mod int sz_mod)
         in if n > length (from_readPos b) then Inl OutOfBounds
            else sum_bind (advance n b) (\<lambda>b1.
              Inr (Some ([encodeHeaderWithTimeStamp time (word_of_int messageBodyLen), take n (from_readPos b)], b1))))"

text \<open>The endless loop; \<open>clock k\<close> is the time read in round \<open>k\<close>, and \<open>None\<close> means it never returns.\<close>

partial_function (option) onMessage_loop ::
    "(nat \<Rightarrow> u64) \<Rightarrow> nat \<Rightarrow> bytes list \<Rightarrow> SimpleBuffer \<Rightarrow> (fault + bytes list \<times> SimpleBuffer) option" where
  "onMessage_loop clock k sends b =
     (case onMessage_round (clock k) b of
        Inl e \<Rightarrow> Some (Inl e)
      | Inr None \<Rightarrow> Some (Inr (sends, b))
      | Inr (Some (blocks, b1)) \<Rightarrow> onMessage_loop clock (Suc k) (sends @ blocks) b1)"

definition cube_onMessage ::
    "(nat \<Rightarrow> u8) \<Rightarrow> (nat \<Rightarrow> u64) \<Rightarrow> nat \<Rightarrow> bytes \<Rightarrow> SimpleBuffer \<Rightarrow> (fault + bytes list \<times> SimpleBuffer) option" where
  "cube_onMessage fresh clock k data b =
     (case sb_write fresh data b of Inl e \<Rightarrow> Some (Inl e) | Inr b1 \<Rightarrow> onMessage_loop clock k [] b1)"

section \<open>Lemmas on the byte encodings\<close>

lemma bit_decode_bytes:
  "bit (decode_bytes i bs) n \<longleftrightarrow> i * 8 \<le> n \<and> n < 64 \<and> n div 8 < i + length bs
     \<and> bit (bs ! (n div 8 - i) - offset_byte (n div 8)) (n mod 8)"
proof (induction bs arbitrary: i)
  case (Cons b bs)
  have byte: "bit (x :: u8) k \<Longrightarrow> k < 8" for x k using bit_imp_le_length [of x k] by simp
  show ?case
  proof (cases "n div 8 = i")
    case True
    then have n: "n = i * 8 + n mod 8" by (metis div_mult_mod_eq)
    then have "i * 8 \<le> n" "n - i * 8 = n mod 8" by linarith+
    then show ?thesis using True by (auto simp: Cons.IH bit_simps)
  next
    case False
    have "n div 8 = i" if "i * 8 \<le> n" "n - i * 8 < 8" using that by (intro div_nat_eqI) simp_all
    then have "\<not> (i * 8 \<le> n \<and> n - i * 8 < 8)" using False by blast
    then have no: "\<not> bit (push_bit (i * 8) (ucast (b - offset_byte i)) :: u64) n" using byte by (auto simp: bit_simps)
    show ?thesis
    proof (cases "i < n div 8")
      case True
      then have "Suc i * 8 \<le> n" by presburger
      moreover have "n div 8 - i = Suc (n div 8 - Suc i)" using True by simp
      ultimately show ?thesis using no by (simp add: Cons.IH bit_or_iff)
    next
      case lt: False
      then show ?thesis using False no by (auto simp: Cons.IH bit_or_iff)
    qed
  qed
next
  case Nil
  have "\<not> (i * 8 \<le> n \<and> n div 8 < i)" by presburger
  then show ?case by auto
qed

lemma decode_encode_timestamp: "decode_bytes 0 (encodeTimeStamp t) = t"
proof (rule bit_word_eqI)
  fix n
  assume "n < LENGTH(64)"
  then have n: "n < 64" "n div 8 < 8" by simp_all
  then have "encodeTimeStamp t ! (n div 8) = ucast (drop_bit (n div 8 * 8) t) + offset_byte (n div 8)"
    by (simp add: encodeTimeStamp_def)
  moreover have "length (encodeTimeStamp t) = 8" by (simp add: encodeTimeStamp_def)
  moreover have "n div 8 * 8 + n mod 8 = n" by simp
  ultimately show "bit (decode_bytes 0 (encodeTimeStamp t)) n = bit t n"
    using n by (simp add: bit_decode_bytes bit_simps)
qed

section \<open>The payload loops\<close>

fun scramble :: "nat \<Rightarrow> bytes \<Rightarrow> bytes" where
  "scramble i [] = []"
| "scramble i (d # ds) = (d + offset_byte i) # scramble (Suc i) ds"

lemma scramble_length [simp]: "length (scramble i ds) = length ds"
  by (induction ds arbitrary: i) simp_all

definition message :: "u8 \<Rightarrow> u32 \<Rightarrow> bytes \<Rightarrow> bytes" where
  "message type len payload = type # le32 len @ payload"

lemma message_length [simp]: "length (message type len payload) = 5 + length payload"
  by (simp add: message_def)

lemma message_size_small: "5 + i < 4294967296 \<Longrightarrow> message_size (word_of_nat i) = 5 + i"
proof -
  assume i: "5 + i < 4294967296"
  have "(5 :: u32) + word_of_nat i = word_of_nat (5 + i)" by simp
  then have "message_size (word_of_nat i) = unat (word_of_nat (5 + i) :: u32)" unfolding message_size_def by (rule arg_cong)
  also have "\<dots> = 5 + i" using i unfolding unsigned_of_nat by (simp add: take_bit_nat_eq_self)
  finally show ?thesis .
qed

lemma overwrite_step: "p < length xs \<Longrightarrow> overwrite (xs[p := y]) (Suc p) ys = overwrite xs p (y # ys)"
  by (simp add: overwrite_def take_Suc_conv_app_nth)

lemma write_payload_law:
  "5 + i + length ds \<le> length out \<Longrightarrow> 5 + i + length ds < 4294967296 \<Longrightarrow>
     write_payload i ds out = Inr (overwrite out (5 + i) (scramble i ds))"
proof (induction ds arbitrary: i out)
  case (Cons d ds)
  have p: "message_size (word_of_nat i) = 5 + i" using Cons.prems by (intro message_size_small) simp
  have "write_payload (Suc i) ds (out[5 + i := d + offset_byte i])
      = Inr (overwrite (out[5 + i := d + offset_byte i]) (5 + Suc i) (scramble (Suc i) ds))"
    using Cons.prems by (intro Cons.IH) simp_all
  then show ?case using Cons.prems p overwrite_step [of "5 + i" out] by simp
qed (simp add: overwrite_def)

lemma read_payload_law:
  "segment inp (5 + i) (5 + i + length ds) = scramble i ds \<Longrightarrow> 5 + i + length ds \<le> length inp \<Longrightarrow>
   5 + i + length ds < 4294967296 \<Longrightarrow> i + length ds \<le> length out \<Longrightarrow>
     read_payload (length ds) i inp out = Inr (overwrite out i ds)"
proof (induction ds arbitrary: i out)
  case (Cons d ds)
  have p: "message_size (word_of_nat i) = 5 + i" using Cons.prems by (intro message_size_small) simp
  have seg: "segment inp (5 + i) (5 + i + length (d # ds))
      = inp ! (5 + i) # segment inp (5 + Suc i) (5 + Suc i + length ds)"
    using Cons.prems(2) by (simp add: segment_def Cons_nth_drop_Suc [symmetric] add.assoc)
  then have d: "inp ! (5 + i) = d + offset_byte i"
    and r: "segment inp (5 + Suc i) (5 + Suc i + length ds) = scramble (Suc i) ds"
    using Cons.prems(1) by simp_all
  have "read_payload (length ds) (Suc i) inp (out[i := d]) = Inr (overwrite (out[i := d]) (Suc i) ds)"
    using Cons.prems r by (intro Cons.IH) simp_all
  then show ?case using Cons.prems p d overwrite_step [of i out] by simp
qed (simp add: overwrite_def)

lemma write_header_law:
  "5 \<le> length out \<Longrightarrow> write_header type len out = Inr (message type len (drop 5 out))"
  by (cases out) (auto simp: write_header_def overwrite_def message_def)

lemma overwrite_message:
  "overwrite (message type len out) 5 ds = message type len (ds @ drop (length ds) out)"
proof -
  have "take 5 (message type len out) = type # le32 len"
    by (simp add: message_def eval_nat_numeral le32_def)
  moreover have "drop (5 + length ds) (message type len out) = drop (length ds) out"
    by (simp add: message_def eval_nat_numeral le32_def)
  ultimately show ?thesis by (simp add: overwrite_def message_def)
qed

lemma encode_message:
  assumes "5 + length data \<le> length out" "5 + length data < 4294967296"
  shows "sum_bind (write_header type len out) (\<lambda>out. write_payload 0 data out)
    = Inr (message type len (scramble 0 data @ drop (5 + length data) out))"
proof -
  have "write_payload 0 data (message type len (drop 5 out))
      = Inr (overwrite (message type len (drop 5 out)) (5 + 0) (scramble 0 data))"
    using assms by (intro write_payload_law) simp_all
  then show ?thesis using assms(1) by (simp add: write_header_law overwrite_message add.commute)
qed

lemma encoder_message:
  assumes "5 + length data \<le> length out" "5 + length data < 4294967296"
  shows "encoder type data (Some out) (length out)
    = Inr (5 + length data, Some (message type (word_of_nat (length data)) (scramble 0 data @ drop (5 + length data) out)))"
proof -
  note e = encode_message [OF assms, of type "word_of_nat (length data)"]
  obtain h where h: "write_header type (word_of_nat (length data)) out = Inr h"
    using assms(1) by (simp add: write_header_law)
  then show ?thesis using e assms message_size_small [OF assms(2)] by (simp add: encoder_def Let_def)
qed

lemma decoder_message:
  assumes "5 + length data < 4294967296" "length data \<le> length out"
  shows "decoder (message type (word_of_nat (length data)) (scramble 0 data @ rest)) out
    = Inr (Decoded type (word_of_nat (length data)) (overwrite out 0 data))"
proof -
  let ?len = "word_of_nat (length data) :: u32" and ?m = "message type (word_of_nat (length data)) (scramble 0 data @ rest)"
  have len: "unat ?len = length data" using assms(1) by (simp add: unsigned_of_nat take_bit_nat_eq_self)
  have hd: "?m ! 0 = type" "read_le32 (drop 1 ?m) = ?len" by (simp_all add: message_def)
  have "segment ?m (5 + 0) (5 + 0 + length data) = scramble 0 data"
    by (simp add: segment_def message_def eval_nat_numeral le32_def)
  then have "read_payload (length data) 0 ?m out = Inr (overwrite out 0 data)"
    using assms by (intro read_payload_law) simp_all
  then show ?thesis using message_size_small [OF assms(1)] hd len by (simp add: decoder_def Let_def)
qed

section \<open>The server against a parser of byte strings\<close>

text \<open>
  What the server should do with the bytes received so far: take off whole messages from the front.
  A message whose declared length is smaller than the header is \<open>ShortFrame\<close>.
\<close>

datatype frame_result = NoFrame | ShortFrame | Frame bytes bytes

definition next_frame :: "bytes \<Rightarrow> frame_result" where
  "next_frame d =
     (if length d < 5 then NoFrame
      else case getMessageTypeLength d of (type, len) \<Rightarrow>
        if type \<noteq> 2 \<or> len < 0 \<or> int (length d) < len then NoFrame
        else if len < 5 then ShortFrame
        else Frame (segment d 5 (nat len)) (drop (nat len) d))"

lemma next_frame_shorter: "next_frame d = Frame body rest \<Longrightarrow> length rest < length d"
  by (auto simp: next_frame_def split: if_splits prod.splits)

function parse_frames :: "bytes \<Rightarrow> bytes list \<times> bytes" where
  "parse_frames d =
     (case next_frame d of
        Frame body rest \<Rightarrow> (case parse_frames rest of (bodies, r) \<Rightarrow> (body # bodies, r))
      | _ \<Rightarrow> ([], d))"
  by pat_completeness auto
termination
  by (relation "measure length") (auto dest: next_frame_shorter)

declare parse_frames.simps [simp del]

fun replies :: "(nat \<Rightarrow> u64) \<Rightarrow> nat \<Rightarrow> bytes list \<Rightarrow> bytes list" where
  "replies clock k [] = []"
| "replies clock k (body # bodies) =
     encodeHeaderWithTimeStamp (clock k) (word_of_nat (length body)) # body # replies clock (Suc k) bodies"

definition cube_inv :: "SimpleBuffer \<Rightarrow> bool" where
  "cube_inv b \<longleftrightarrow> sb_inv b \<and> 16 \<le> bufferSize b"

lemma from_readPos_data:
  assumes "sb_inv b"
  shows "\<exists>rest. from_readPos b = sb_data b @ rest"
proof -
  have "from_readPos b = sb_data b @ drop (writePos b) (sb_buffer b)"
    using assms segment_split [of "readPos b" "writePos b" "length (sb_buffer b)" "sb_buffer b"]
    by (simp add: from_readPos_def sb_data_def sb_inv_def segment_def)
  then show ?thesis by blast
qed

lemma header_prefix: "5 \<le> length x \<Longrightarrow> getMessageTypeLength (x @ y) = getMessageTypeLength x"
  by (auto simp: getMessageTypeLength_def read_le32_def nth_append)

lemma advance_room:
  assumes "cube_inv b" "n \<le> length (sb_data b)"
  shows "\<exists>b'. advance n b = Inr b' \<and> cube_inv b' \<and> sb_data b' = drop n (sb_data b) \<and> 8 \<le> length (from_readPos b')"
proof -
  have inv: "sb_inv b" "16 \<le> bufferSize b" using assms(1) by (simp_all add: cube_inv_def)
  from advance_law [OF inv(1) assms(2)] obtain b' where b': "advance n b = Inr b'" "sb_inv b'"
    "sb_data b' = drop n (sb_data b)" by blast
  have le: "readPos b + n \<le> writePos b" using inv(1) assms(2) by (auto simp: sb_sizes(2) [OF inv(1)] sb_inv_def)
  have add: "sz_add (readPos b) n = readPos b + n" using inv(1) le by (intro sz_add_small) (simp add: sb_inv_def)
  let ?b = "b\<lparr>readPos := readPos b + n\<rparr>"
  have "sb_inv ?b" using inv(1) le by (simp add: sb_inv_def)
  from compact_law [OF this] have "bufferSize b' = bufferSize b \<and> readPos b' \<le> bufferSize b' div 2"
    using b'(1) by (auto simp: advance_def add Let_def split: if_splits)
  then show ?thesis using b' inv(2) by (auto simp: cube_inv_def sb_inv_def from_readPos_def)
qed

lemma round_refines:
  assumes "cube_inv b"
  shows "case next_frame (sb_data b) of
      NoFrame \<Rightarrow> onMessage_round t b = Inr None
    | ShortFrame \<Rightarrow> onMessage_round t b = Inl OutOfBounds
    | Frame body rest \<Rightarrow> \<exists>b'. cube_inv b' \<and> sb_data b' = rest
        \<and> onMessage_round t b = Inr (Some ([encodeHeaderWithTimeStamp t (word_of_nat (length body)), body], b'))"
proof -
  have inv: "sb_inv b" using assms by (simp add: cube_inv_def)
  have sz: "sb_size b = length (sb_data b)" using sb_sizes [OF inv] by simp
  obtain rest where fr: "from_readPos b = sb_data b @ rest" using from_readPos_data [OF inv] by blast
  obtain type len where h: "getMessageTypeLength (sb_data b) = (type, len)" by fastforce
  show ?thesis
  proof (cases "length (sb_data b) < 5 \<or> type \<noteq> 2 \<or> len < 0 \<or> int (length (sb_data b)) < len")
    case True
    then have "next_frame (sb_data b) = NoFrame" using h by (auto simp: next_frame_def)
    moreover have "coder_decode b = Inr None"
      using True h sz fr header_prefix [of "sb_data b" rest] by (auto simp: coder_decode_def)
    ultimately show ?thesis by (simp add: onMessage_round_def)
  next
    case False
    then have f: "5 \<le> length (sb_data b)" "type = 2" "0 \<le> len" "len \<le> int (length (sb_data b))" by auto
    from advance_room [OF assms f(1)] obtain b1 where b1: "advance 5 b = Inr b1" "cube_inv b1"
      "sb_data b1 = drop 5 (sb_data b)" "8 \<le> length (from_readPos b1)" by blast
    have dec: "coder_decode b = Inr (Some (len - 5, b1))"
      using f h sz fr header_prefix [OF f(1), of rest] b1(1,4) by (simp add: coder_decode_def decodeTimeStamp_def)
    have i1: "sb_inv b1" using b1(2) by (simp add: cube_inv_def)
    obtain rest1 where fr1: "from_readPos b1 = sb_data b1 @ rest1" using from_readPos_data [OF i1] by blast
    have small: "length (from_readPos b1) \<le> max_obj" using i1 by (auto simp: from_readPos_def sb_inv_def)
    show ?thesis
    proof (cases "len < 5")
      case True
      then have "(len - 5) mod int sz_mod = len - 5 + int sz_mod"
        using f(3) by (intro mod_pos_pos_trivial [of "len - 5 + int sz_mod" "int sz_mod", simplified mod_add_self2]) simp_all
      then have "length (from_readPos b1) < nat ((len - 5) mod int sz_mod)" using f(3) small by simp
      then have "onMessage_round t b = Inl OutOfBounds" by (simp add: onMessage_round_def dec Let_def)
      then show ?thesis using True f h by (simp add: next_frame_def)
    next
      case False
      define n where "n = nat len - 5"
      have n3: "len - 5 = int n" using False by (simp add: n_def)
      have n2: "n \<le> length (sb_data b1)" using f b1(3) n3 by simp
      have "n \<le> max_obj" using n2 small fr1 by simp
      then have "int n mod int sz_mod = int n" by (intro mod_pos_pos_trivial) simp_all
      then have n1: "nat ((len - 5) mod int sz_mod) = n" unfolding n3 by (simp only: nat_int)
      note n = n1 n2 n3
      from advance_room [OF b1(2) n(2)] obtain b2 where b2: "advance n b1 = Inr b2" "cube_inv b2"
        "sb_data b2 = drop n (sb_data b1)" by blast
      have nl: "nat len = 5 + n" using n3 by simp
      have d1: "drop n (sb_data b1) = drop (nat len) (sb_data b)" unfolding b1(3) nl by (simp add: add.commute)
      have "take n (from_readPos b1) = take n (sb_data b1)" unfolding fr1 using n2 by simp
      also have "\<dots> = segment (sb_data b) 5 (nat len)" unfolding b1(3) nl segment_def by (simp add: take_drop add.commute)
      finally have d2: "take n (from_readPos b1) = segment (sb_data b) 5 (nat len)" .
      note body = d2 d1
      have "nat len \<le> length (sb_data b)" using f(4) by linarith
      then have len_body: "length (segment (sb_data b) 5 (nat len)) = n" unfolding nl by (simp add: length_segment)
      have "onMessage_round t b = Inr (Some ([encodeHeaderWithTimeStamp t (word_of_nat n), take n (from_readPos b1)], b2))"
        using n b2(1) fr1 by (simp add: onMessage_round_def dec Let_def)
      then show ?thesis using False f h b2 body len_body by (simp add: next_frame_def)
    qed
  qed
qed

text \<open>The loop always returns, with the replies to the whole messages or with the fault.\<close>

lemma loop_refines:
  assumes "cube_inv b" "parse_frames (sb_data b) = (bodies, r)"
  shows "if next_frame r = ShortFrame then onMessage_loop clock k sends b = Some (Inl OutOfBounds)
    else \<exists>b'. onMessage_loop clock k sends b = Some (Inr (sends @ replies clock k bodies, b')) \<and> cube_inv b' \<and> sb_data b' = r"
  using assms
proof (induction "length (sb_data b)" arbitrary: b bodies k sends rule: less_induct)
  case less
  note rr = round_refines [OF less.prems(1), of "clock k"]
  show ?case
  proof (cases "next_frame (sb_data b)")
    case (Frame body rest)
    then obtain b1 where b1: "cube_inv b1" "sb_data b1 = rest"
      "onMessage_round (clock k) b = Inr (Some ([encodeHeaderWithTimeStamp (clock k) (word_of_nat (length body)), body], b1))"
      using rr by auto
    obtain bodies1 where p: "parse_frames rest = (bodies1, r)" "bodies = body # bodies1"
      using less.prems(2) Frame by (auto simp: parse_frames.simps [of "sb_data b"] split: prod.splits)
    have "length (sb_data b1) < length (sb_data b)" using next_frame_shorter [OF Frame] b1(2) by simp
    note ih = less.hyps [OF this b1(1), of bodies1 "Suc k"
        "sends @ [encodeHeaderWithTimeStamp (clock k) (word_of_nat (length body)), body]"]
    have step: "onMessage_loop clock k sends b = onMessage_loop clock (Suc k)
        (sends @ [encodeHeaderWithTimeStamp (clock k) (word_of_nat (length body)), body]) b1"
      using b1(3) by (subst onMessage_loop.simps) simp
    show ?thesis using ih p b1(2) unfolding step p(2) replies.simps by (simp split: if_splits)
  qed (use less.prems rr in \<open>simp_all add: parse_frames.simps [of "sb_data b"] onMessage_loop.simps\<close>)
qed

text \<open>Parsing what has arrived and parsing again with what arrives later is parsing all of it.\<close>

lemma next_frame_append:
  "next_frame d = Frame body rest \<Longrightarrow> next_frame (d @ e) = Frame body (rest @ e)"
  "next_frame d = ShortFrame \<Longrightarrow> next_frame (d @ e) = ShortFrame"
  by (auto simp: next_frame_def header_prefix segment_def split: if_splits prod.splits)

lemma parse_frames_append:
  "parse_frames d = (bodies, r) \<Longrightarrow>
     parse_frames (d @ e) = (case parse_frames (r @ e) of (bodies', r') \<Rightarrow> (bodies @ bodies', r'))"
proof (induction d arbitrary: bodies rule: parse_frames.induct)
  case (1 d)
  show ?case
  proof (cases "next_frame d")
    case (Frame body rest)
    then obtain bs where bs: "parse_frames rest = (bs, r)" "bodies = body # bs"
      using 1(2) by (auto simp: parse_frames.simps [of d] split: prod.splits)
    have "parse_frames (rest @ e) = (case parse_frames (r @ e) of (bodies', r') \<Rightarrow> (bs @ bodies', r'))"
      by (rule 1(1) [OF Frame bs(1)])
    then show ?thesis using Frame bs(2)
      by (simp add: parse_frames.simps [of "d @ e"] next_frame_append split: prod.splits)
  qed (use 1(2) in \<open>simp_all add: parse_frames.simps [of d] split: prod.splits\<close>)
qed

text \<open>The server's buffer over a sequence of received blocks.\<close>

fun cube_feed ::
    "(nat \<Rightarrow> u8) \<Rightarrow> (nat \<Rightarrow> u64) \<Rightarrow> nat \<Rightarrow> bytes list \<Rightarrow> SimpleBuffer \<Rightarrow> (fault + bytes list \<times> SimpleBuffer) option" where
  "cube_feed fresh clock k [] b = Some (Inr ([], b))"
| "cube_feed fresh clock k (d # ds) b =
     (case cube_onMessage fresh clock k d b of
        None \<Rightarrow> None
      | Some (Inl e) \<Rightarrow> Some (Inl e)
      | Some (Inr (sends, b1)) \<Rightarrow>
          (case cube_feed fresh clock (k + length sends div 2) ds b1 of
             None \<Rightarrow> None
           | Some (Inl e) \<Rightarrow> Some (Inl e)
           | Some (Inr (sends', b2)) \<Rightarrow> Some (Inr (sends @ sends', b2))))"

lemma length_replies: "length (replies clock k bodies) = 2 * length bodies"
  by (induction bodies arbitrary: k) simp_all

lemma replies_append: "replies clock k (xs @ ys) = replies clock k xs @ replies clock (k + length xs) ys"
  by (induction xs arbitrary: k) simp_all

lemma sb_write_cube:
  assumes "cube_inv b" "length d \<le> max_obj"
  shows "(\<exists>b'. sb_write fresh d b = Inr b' \<and> cube_inv b' \<and> sb_data b' = sb_data b @ d) \<or> sb_write fresh d b = Inl BadAlloc"
proof -
  have inv: "sb_inv b" using assms(1) by (simp add: cube_inv_def)
  have "bufferSize b \<le> bufferSize b'" if "sb_write fresh d b = Inr b'" for b'
  proof -
    from that obtain b1 where e: "ensureCapacity fresh (length d) b = Inr b1" and "bufferSize b' = bufferSize b1"
      by (auto simp: sb_write_def split: sum.splits if_splits)
    moreover have "bufferSize b \<le> bufferSize b1"
    proof -
      have "bufferSize b \<le> sz_mul (bufferSize b) 2" using inv by (subst sz_mul_small) (auto simp: sb_inv_def)
      then show ?thesis using e by (auto simp: ensureCapacity_def compact_def Let_def split: if_splits sum.splits)
    qed
    ultimately show ?thesis by simp
  qed
  then show ?thesis using sb_write_law [OF inv assms(2), of fresh] assms(1) by (fastforce simp: cube_inv_def)
qed

text \<open>The encoder of the example produces messages that the server finds whole.\<close>

lemma next_frame_message:
  assumes "5 + length body < 2147483648"
  shows "next_frame (message 2 (word_of_nat (5 + length body)) body @ e) = Frame body e"
proof -
  let ?m = "message 2 (word_of_nat (5 + length body)) body"
  have "signed_take_bit 31 (int (5 + length body)) = int (5 + length body)"
    using assms by (intro signed_take_bit_int_eq_self) simp_all
  then have "sint (word_of_nat (5 + length body) :: u32) = int (5 + length body)"
    unfolding signed_of_nat by simp
  then have h: "getMessageTypeLength (?m @ e) = (2, int (5 + length body))"
    by (simp add: getMessageTypeLength_def message_def)
  have "segment (?m @ e) 5 (5 + length body) = body" "drop (5 + length body) (?m @ e) = e"
    by (simp_all add: segment_def message_def eval_nat_numeral le32_def)
  then show ?thesis using h by (simp add: next_frame_def nat_add_distrib)
qed

lemma example_encoder_fits:
  assumes "5 + length data \<le> length out" "5 + length data \<le> out_size" "5 + length data < 2147483648"
  shows "example_encoder type data (Some out) out_size
    = Inr (5 + length data, Some (message type (word_of_nat (5 + length data)) (scramble 0 data @ drop (5 + length data) out)))"
proof -
  have s: "5 + length data < 4294967296" using assms(3) by simp
  have len: "(5 :: u32) + word_of_nat (length data) = word_of_nat (5 + length data)" by simp
  have u: "unat (word_of_nat (5 + length data) :: u32) = 5 + length data"
    using s unfolding unsigned_of_nat by (simp add: take_bit_nat_eq_self)
  have "sum_bind (write_header type (word_of_nat (5 + length data)) out) (\<lambda>out. write_payload 0 data out)
      = Inr (message type (word_of_nat (5 + length data)) (scramble 0 data @ drop (5 + length data) out))"
    using assms(1) s by (intro encode_message) simp_all
  moreover obtain h where "write_header type (word_of_nat (5 + length data)) out = Inr h"
    using assms(1) by (simp add: write_header_law)
  ultimately show ?thesis using assms(2) message_size_small [OF s] u unfolding example_encoder_def Let_def len by simp
qed

lemma example_encoder_message:
  assumes "5 + length data = length out" "5 + length data < 2147483648"
  shows "example_encoder type data (Some out) (length out)
    = Inr (5 + length data, Some (message type (word_of_nat (5 + length data)) (scramble 0 data)))"
  using example_encoder_fits [of data out "length out" type] assms by simp

text \<open>A sequence of blocks fed to the server, by induction on the blocks.\<close>

lemma feed_refines:
  assumes "cube_inv b" "\<forall>d \<in> set ds. length d \<le> max_obj"
    and "parse_frames (sb_data b @ concat ds) = (bodies, r)" "next_frame r \<noteq> ShortFrame"
    and "next_frame (sb_data b) = NoFrame"
  shows "cube_feed fresh clock k ds b = Some (Inl BadAlloc)
    \<or> (\<exists>b'. cube_feed fresh clock k ds b = Some (Inr (replies clock k bodies, b')) \<and> sb_data b' = r \<and> cube_inv b')"
  using assms
proof (induction ds arbitrary: b k bodies)
  case Nil
  then show ?case by (auto simp: parse_frames.simps [of "sb_data b"])
next
  case (Cons d ds)
  from sb_write_cube [OF Cons.prems(1), of d fresh] Cons.prems(2)
  consider (full) "sb_write fresh d b = Inl BadAlloc"
    | (ok) b1 where "sb_write fresh d b = Inr b1" "cube_inv b1" "sb_data b1 = sb_data b @ d" by auto
  then show ?case
  proof cases
    case full
    then show ?thesis by (simp add: cube_onMessage_def)
  next
    case ok
    obtain bs1 r1 where p1: "parse_frames (sb_data b1) = (bs1, r1)" by fastforce
    obtain bs2 where p2: "parse_frames (r1 @ concat ds) = (bs2, r)" "bodies = bs1 @ bs2"
      using Cons.prems(3) parse_frames_append [OF p1, of "concat ds"] ok(3) by (auto split: prod.splits)
    have stop: "next_frame r1 = NoFrame"
    proof (cases "next_frame r1")
      case ShortFrame
      then have "parse_frames (r1 @ concat ds) = ([], r1 @ concat ds)"
        by (simp add: parse_frames.simps [of "r1 @ concat ds"] next_frame_append)
      then show ?thesis using p2(1) Cons.prems(4) next_frame_append(2) [OF ShortFrame] by simp
    next
      case (Frame x y)
      have "parse_frames r1 = ([], r1)" using parse_frames_append [OF p1, of "[]"] p1 by (auto split: prod.splits)
      then show ?thesis using Frame by (auto simp: parse_frames.simps [of r1] split: prod.splits)
    qed
    from loop_refines [OF ok(2) p1, of clock k "[]"] stop obtain b2
      where b2: "onMessage_loop clock k [] b1 = Some (Inr (replies clock k bs1, b2))" "cube_inv b2" "sb_data b2 = r1" by auto
    have "cube_feed fresh clock (k + length bs1) ds b2 = Some (Inl BadAlloc)
      \<or> (\<exists>b'. cube_feed fresh clock (k + length bs1) ds b2 = Some (Inr (replies clock (k + length bs1) bs2, b'))
          \<and> sb_data b' = r \<and> cube_inv b')"
      using Cons.prems(2,4) p2 b2 stop by (intro Cons.IH) simp_all
    then show ?thesis using ok(1) b2(1) p2(2)
      by (auto simp: cube_onMessage_def length_replies replies_append)
  qed
qed

section \<open>Properties\<close>

text \<open>
  C12. \<open>decoder\<close> of protocol.hpp undoes \<open>encoder\<close>: a message of fewer than \<open>2 ^ 32 - 5\<close> bytes encoded
  into an array that is large enough is decoded to its type, its length and its bytes.
\<close>

theorem cube_roundtrip:
  assumes "5 + length data \<le> length out" "5 + length data < 4294967296" "length data \<le> length buf"
  shows "\<exists>m. encoder type data (Some out) (length out) = Inr (5 + length data, Some m)
    \<and> decoder m buf = Inr (Decoded type (word_of_nat (length data)) (overwrite buf 0 data))"
  using encoder_message [OF assms(1,2), of type] decoder_message [OF assms(2,3), of type "drop (5 + length data) out"]
  by blast

theorem cube_roundtrip_witness:
  "\<exists>m. encoder 2 [10, 20] (Some [0, 0, 0, 0, 0, 0, 0]) 7 = Inr (7, Some m)
     \<and> decoder m [0, 0, 0] = Inr (Decoded 2 2 [10, 20, 0])"
proof -
  define out :: bytes where "out = [0, 0, 0, 0, 0, 0, 0]"
  have l: "length out = 7" "5 + length [10, 20 :: u8] = 7" by (simp_all add: out_def)
  have p: "5 + length [10, 20 :: u8] \<le> length out" "5 + length [10, 20 :: u8] < 4294967296"
      "length [10, 20 :: u8] \<le> length [0, 0, 0 :: u8]" by (simp_all add: out_def)
  have o: "overwrite [0, 0, 0] 0 [10, 20] = [10, 20, 0 :: u8]" "word_of_nat (length [10, 20 :: u8]) = (2 :: u32)"
    by (simp_all add: overwrite_def)
  show ?thesis using cube_roundtrip [OF p, of 2] unfolding l o by (simp only: out_def)
qed

lemma read_payload_overrun:
  "length inp < 5 + i + n \<Longrightarrow> 5 + i \<le> length inp \<Longrightarrow> length inp < 4294967296 \<Longrightarrow> read_payload n i inp out = Inl OutOfBounds"
proof (induction n arbitrary: i out)
  case (Suc n)
  have p: "message_size (word_of_nat i) = 5 + i" using Suc.prems by (intro message_size_small) simp
  show ?case
  proof (cases "5 + i < length inp \<and> i < length out")
    case True
    have "read_payload n (Suc i) inp (out[i := inp ! (5 + i) - offset_byte i]) = Inl OutOfBounds"
      using Suc.prems True by (intro Suc.IH) simp_all
    then show ?thesis using True p by simp
  qed (use p in auto)
qed simp

text \<open>
  A length field of at least \<open>2 ^ 32 - 5\<close> wraps the size that \<open>decoder\<close> compares with, passes
  the test, and makes it read behind the received bytes.
\<close>

theorem cube_length_wrap:
  assumes "5 \<le> length inp" "length inp < 4294967291" "4294967291 \<le> unat (read_le32 (drop 1 inp))"
  shows "decoder inp out = Inl OutOfBounds"
proof -
  let ?l = "read_le32 (drop 1 inp)"
  have l: "unat ?l < 4294967296" using unsigned_less [of ?l] by simp
  have "message_size ?l = (5 + unat ?l) mod 4294967296" unfolding message_size_def by (simp add: unat_word_ariths)
  also have "\<dots> = 5 + unat ?l - 4294967296" using l assms(3) by (simp add: mod_if)
  finally have "message_size ?l < 5" using l by linarith
  moreover have "read_payload (unat ?l) 0 inp out = Inl OutOfBounds"
    using assms by (intro read_payload_overrun) simp_all
  ultimately show ?thesis using assms(1) by (simp add: decoder_def Let_def)
qed

theorem cube_length_wrap_witness: "decoder [2, 255, 255, 255, 255] (replicate 100 0) = Inl OutOfBounds"
proof (rule cube_length_wrap)
  have "read_le32 (drop 1 [2, 255, 255, 255, 255]) = 4294967295" by (simp add: read_le32_def)
  then show "4294967291 \<le> unat (read_le32 (drop 1 [2, 255, 255, 255, 255]))" by simp
qed simp_all

text \<open>
  C11. The server answers every complete message once and in order, however the stream is cut into
  blocks, and its loop always returns: fed with any blocks, it sends the replies to the messages
  that a parser of the whole stream finds and keeps the rest, or it runs out of memory; unless the
  stream reaches a message whose declared length is smaller than the header, on which the server
  reads out of bounds.
\<close>

theorem cube_server_stream:
  assumes "cube_inv b" "\<forall>d \<in> set ds. length d \<le> max_obj"
    and "parse_frames (sb_data b @ concat ds) = (bodies, r)" "next_frame r \<noteq> ShortFrame"
    and "next_frame (sb_data b) = NoFrame"
  shows "cube_feed fresh clock k ds b = Some (Inl BadAlloc)
    \<or> (\<exists>b'. cube_feed fresh clock k ds b = Some (Inr (replies clock k bodies, b')) \<and> sb_data b' = r \<and> cube_inv b')"
  by (rule feed_refines [OF assms])

definition empty_buffer :: SimpleBuffer where
  "empty_buffer = \<lparr>sb_buffer = replicate 16 0, bufferSize = 16, readPos = 0, writePos = 0\<rparr>"

theorem cube_server_stream_witness:
  "\<exists>r. cube_feed (\<lambda>_. 0) (\<lambda>_. 0) 0 [[2, 7], [0, 0, 0, 65, 66]] empty_buffer = Some r
     \<and> (r = Inl BadAlloc \<or> (\<exists>b'. r = Inr (replies (\<lambda>_. 0) 0 [[65, 66]], b')))"
proof -
  have e: "cube_inv empty_buffer" "sb_data empty_buffer = []"
    by (simp_all add: cube_inv_def empty_buffer_def sb_inv_def sb_data_def)
  have m: "message 2 (word_of_nat (5 + length [65, 66])) [65, 66] = [2, 7, 0, 0, 0, 65, 66]"
    by (simp add: message_def le32_def)
  have "next_frame [2, 7, 0, 0, 0, 65, 66] = Frame [65, 66] []"
    using next_frame_message [of "[65, 66]" "[]"] unfolding m by simp
  moreover have n: "next_frame [] = NoFrame" by (simp add: next_frame_def)
  ultimately have p: "parse_frames (sb_data empty_buffer @ concat [[2, 7], [0, 0, 0, 65, 66]]) = ([[65, 66]], [])"
    by (simp add: e(2) parse_frames.simps)
  show ?thesis
    using cube_server_stream [OF e(1) _ p, of "\<lambda>_. 0" "\<lambda>_. 0" 0] n e(2) by auto
qed

end
