(* ===== verification/Echo_Server.thy ===== *)
theory Echo_Server
  imports Cube_Codec
begin

text \<open>
  The thread per client of muduo/echo_server.cpp: it receives into a buffer of 4096 bytes, decodes and
  encodes with protocol.hpp and sends the result.  Local arrays that are not initialised hold arbitrary
  bytes, which are arguments (\<open>junk\<close>).
\<close>

text \<open>\<open>decoder\<close> with the size that the caller passes, on the array that it passes.\<close>

definition decoder_sized :: "nat \<Rightarrow> bytes \<Rightarrow> bytes \<Rightarrow> fault + decoded" where
  "decoder_sized in_size inp out_data =
     (if in_size < 5 then Inr Untouched
      else if length inp < 5 then Inl OutOfBounds
      else
        let type = inp ! 0; out_len = read_le32 (drop 1 inp)
        in if in_size < message_size out_len then Inr (HeaderOnly type out_len)
           else sum_bind (read_payload (unat out_len) 0 inp out_data) (\<lambda>out. Inr (Decoded type out_len out)))"

text \<open>The call of \<open>encoder\<close> with a pointer to an array and a length.\<close>

definition encode_array :: "u8 \<Rightarrow> bytes \<Rightarrow> u32 \<Rightarrow> bytes \<Rightarrow> fault + nat \<times> bytes option" where
  "encode_array type arr data_len out =
     (if length out < message_size data_len then Inr (0, Some out)
      else if length arr < unat data_len then Inl OutOfBounds
      else encoder type (take (unat data_len) arr) (Some out) (length out))"

text \<open>
  One round of \<open>handle_client\<close>: what \<open>recv\<close> stored, \<open>None\<close> for an error, whose result -1 is stored in a
  \<open>size_t\<close>.  \<open>Closed\<close> when the loop is left, otherwise the bytes sent and the buffer.
\<close>

datatype echo_result = Closed | Sent bytes bytes

record echo_junk =
  junk_decode :: bytes
  junk_out :: bytes
  junk_type :: u8
  junk_len :: u32

definition handle_round :: "echo_junk \<Rightarrow> bytes option \<Rightarrow> bytes \<Rightarrow> fault + echo_result" where
  "handle_round junk r buffer =
     (let (bytes_read, buf) =
        (case r of None \<Rightarrow> (sz_mod - 1, buffer) | Some d \<Rightarrow> (length (take 4096 d), overwrite buffer 0 (take 4096 d)))
      in if bytes_read = 0 then Inr Closed
         else sum_bind (decoder_sized bytes_read buf (junk_decode junk)) (\<lambda>dec.
           let (type, data_len, decode) =
             (case dec of
                Untouched \<Rightarrow> (junk_type junk, junk_len junk, junk_decode junk)
              | HeaderOnly ty n \<Rightarrow> (ty, n, junk_decode junk)
              | Decoded ty n out \<Rightarrow> (ty, n, out))
           in sum_bind (encode_array type decode data_len (junk_out junk)) (\<lambda>(len, out).
                Inr (Sent (take len (the out)) buf))))"

section \<open>Lemmas\<close>

lemma decoder_sized_decoder: "decoder_sized (length inp) inp out = decoder inp out"
  by (simp add: decoder_sized_def decoder_def Let_def)

lemma message_append: "message type len (p @ rest) = message type len p @ rest"
  by (simp add: message_def)

lemma word_length: "length data \<le> 4091 \<Longrightarrow> unat (word_of_nat (length data) :: u32) = length data"
  by (simp add: unsigned_of_nat take_bit_nat_eq_self)

lemma encode_array_message:
  assumes "length data \<le> length arr" "length out = 4096" "length data \<le> 4091" "take (length data) arr = data"
  shows "\<exists>rest. encode_array type arr (word_of_nat (length data)) out
    = Inr (5 + length data, Some (message type (word_of_nat (length data)) (scramble 0 data @ rest)))"
proof -
  note len = word_length [OF assms(3)]
  have small: "5 + length data < 4294967296" "5 + length data \<le> length out" using assms by simp_all
  show ?thesis
    using encoder_message [OF small(2,1), of type] message_size_small [OF small(1)] len assms small(2)
    by (auto simp: encode_array_def)
qed

lemma decoder_sized_fits:
  assumes "length data \<le> 4091" "length data \<le> length out" "5 + length data \<le> in_size"
  shows "decoder_sized in_size (message type (word_of_nat (length data)) (scramble 0 data @ rest)) out
    = Inr (Decoded type (word_of_nat (length data)) (overwrite out 0 data))"
proof -
  let ?n = "word_of_nat (length data) :: u32"
  let ?m = "message type ?n (scramble 0 data @ rest)"
  have small: "5 + length data < 4294967296" using assms(1) by simp
  have m: "?m ! 0 = type" "read_le32 (drop 1 ?m) = ?n" by (simp_all add: message_def)
  have size: "message_size ?n = 5 + length data" by (rule message_size_small [OF small])
  have "sum_bind (read_payload (unat ?n) 0 ?m out) (\<lambda>out. Inr (Decoded type ?n out))
      = Inr (Decoded type ?n (overwrite out 0 data))"
    using decoder_message [OF small, of out type rest] assms(1,2) m size by (simp add: decoder_def Let_def)
  then show ?thesis using m size assms(3) by (simp add: decoder_sized_def Let_def)
qed

lemma decoder_sized_message:
  assumes "length data \<le> 4091" "length out = 4096" "5 + length data \<le> in_size"
  shows "decoder_sized in_size (message type (word_of_nat (length data)) (scramble 0 data @ rest)) out
    = Inr (Decoded type (word_of_nat (length data)) (overwrite out 0 data))"
  using decoder_sized_fits [of data out in_size type rest] assms by simp

lemma handle_round_received:
  assumes "d \<noteq> []" "length d \<le> 4096" "length buffer = 4096"
    and dec: "decoder_sized (length d) (d @ drop (length d) buffer) (junk_decode junk) = Inr dec"
    and out: "(case dec of Untouched \<Rightarrow> (junk_type junk, junk_len junk, junk_decode junk)
        | HeaderOnly ty n \<Rightarrow> (ty, n, junk_decode junk) | Decoded ty n out \<Rightarrow> (ty, n, out)) = (type, word_of_nat (length data), arr)"
    and data: "length data \<le> length arr" "length data \<le> 4091" "take (length data) arr = data" "length (junk_out junk) = 4096"
  shows "handle_round junk (Some d) buffer
    = Inr (Sent (message type (word_of_nat (length data)) (scramble 0 data)) (d @ drop (length d) buffer))"
proof -
  obtain rest where e: "encode_array type arr (word_of_nat (length data)) (junk_out junk)
      = Inr (5 + length data, Some (message type (word_of_nat (length data)) (scramble 0 data) @ rest))"
    using encode_array_message [OF data(1,4,2,3), of type] unfolding message_append by blast
  have "take (5 + length data) (message type (word_of_nat (length data)) (scramble 0 data) @ rest)
      = message type (word_of_nat (length data)) (scramble 0 data)" by simp
  then show ?thesis using assms(1-3) dec out e by (simp add: handle_round_def overwrite_def)
qed

section \<open>Properties\<close>

text \<open>
  A client's message that arrives whole, of at most 4091 bytes of data, is sent back byte for byte.
\<close>

theorem echo_whole_message:
  assumes "length data \<le> 4091" "length buffer = 4096" "length (junk_decode junk) = 4096" "length (junk_out junk) = 4096"
    and d: "d = message type (word_of_nat (length data)) (scramble 0 data)"
  shows "handle_round junk (Some d) buffer = Inr (Sent d (d @ drop (length d) buffer))"
proof -
  let ?arr = "overwrite (junk_decode junk) 0 data"
  have len: "length d = 5 + length data" using d by simp
  have "decoder_sized (length d) (d @ drop (length d) buffer) (junk_decode junk)
      = Inr (Decoded type (word_of_nat (length data)) ?arr)"
    using decoder_sized_message [OF assms(1,3), of "length d" type "drop (length d) buffer"] len
    unfolding d message_append by simp
  moreover have "d \<noteq> []" "length d \<le> 4096" using len assms(1) by auto
  moreover have "length data \<le> length ?arr" "take (length data) ?arr = data"
    using assms(1,3) by (simp_all add: overwrite_def)
  ultimately show ?thesis
    using handle_round_received [of d buffer junk "Decoded type (word_of_nat (length data)) ?arr" type data ?arr] assms d
    by simp
qed

theorem echo_whole_message_witness:
  "let j = \<lparr>junk_decode = replicate 4096 9, junk_out = replicate 4096 9, junk_type = 0, junk_len = 0\<rparr>;
       d = message 1 3 (scramble 0 [66, 66, 66])
   in handle_round j (Some d) (replicate 4096 0) = Inr (Sent d (d @ drop (length d) (replicate 4096 0)))"
proof -
  define j where "j = \<lparr>junk_decode = replicate 4096 9, junk_out = replicate 4096 9, junk_type = 0, junk_len = 0\<rparr>"
  have "length (replicate 4096 (0 :: u8)) = 4096" "length (junk_decode j) = 4096" "length (junk_out j) = 4096"
    unfolding j_def by (simp_all only: echo_junk.simps length_replicate)
  then show ?thesis
    using echo_whole_message [of "[66, 66, 66]" "replicate 4096 0" j _ 1, OF _ _ _ _ refl] unfolding Let_def j_def [symmetric] by simp
qed

text \<open>
  A message that arrives in pieces is answered at once with bytes the server never received: the header has
  come but not all of the \<open>n\<close> bytes of data, the decoder leaves the array untouched, and what the uninitialised
  array happens to hold is encoded and sent to the client.
\<close>

theorem echo_leaks_stack:
  assumes "n \<le> 4091" "length p < n" "length buffer = 4096" "length (junk_decode junk) = 4096" "length (junk_out junk) = 4096"
  shows "\<exists>b. handle_round junk (Some (message type (word_of_nat n) p)) buffer
    = Inr (Sent (message type (word_of_nat n) (scramble 0 (take n (junk_decode junk)))) b)"
proof -
  let ?d = "message type (word_of_nat n) p"
  let ?data = "take n (junk_decode junk)"
  have n: "length ?data = n" using assms by simp
  have len: "length ?d = 5 + length p" by simp
  have size: "message_size (word_of_nat n) = 5 + n" using assms(1) by (intro message_size_small) simp
  have m: "(?d @ x) ! 0 = type" "read_le32 (drop 1 (?d @ x)) = word_of_nat n" for x by (simp_all add: message_def)
  have "decoder_sized (length ?d) (?d @ drop (length ?d) buffer) (junk_decode junk) = Inr (HeaderOnly type (word_of_nat n))"
    using m size assms(2) len by (simp add: decoder_sized_def Let_def)
  moreover have "?d \<noteq> []" "length ?d \<le> 4096" using assms(1,2) len by (auto simp: message_def)
  ultimately show ?thesis
    using handle_round_received [of ?d buffer junk "HeaderOnly type (word_of_nat n)" type ?data "junk_decode junk"] assms n
    by simp
qed

text \<open>
  A failed \<open>recv\<close> does not end the loop: its result is compared as an unsigned number, and the bytes of the
  previous message are decoded and sent once more.
\<close>

theorem echo_error_repeats:
  assumes "length data \<le> 4091" "length (junk_decode junk) = 4096" "length (junk_out junk) = 4096"
    and "buffer = message type (word_of_nat (length data)) (scramble 0 data) @ rest" "length buffer = 4096"
  shows "handle_round junk None buffer
    = Inr (Sent (message type (word_of_nat (length data)) (scramble 0 data)) buffer)"
proof -
  let ?arr = "overwrite (junk_decode junk) 0 data"
  have dec: "decoder_sized (sz_mod - 1) buffer (junk_decode junk) = Inr (Decoded type (word_of_nat (length data)) ?arr)"
    using decoder_sized_message [OF assms(1,2), of "sz_mod - 1" type rest] assms(1) unfolding assms(4) message_append by simp
  have arr: "length data \<le> length ?arr" "take (length data) ?arr = data"
    using assms(1,2) by (simp_all add: overwrite_def)
  obtain r where e: "encode_array type ?arr (word_of_nat (length data)) (junk_out junk)
      = Inr (5 + length data, Some (message type (word_of_nat (length data)) (scramble 0 data) @ r))"
    using encode_array_message [OF arr(1) assms(3,1) arr(2), of type] unfolding message_append by blast
  have "take (5 + length data) (message type (word_of_nat (length data)) (scramble 0 data) @ r)
      = message type (word_of_nat (length data)) (scramble 0 data)" by simp
  then show ?thesis using dec e by (simp add: handle_round_def)
qed

end
