(* ===== verification/Trading_System.thy ===== *)
theory Trading_System
  imports Fix_Text
begin

text \<open>
  The trading system of ihs/include/trade.hpp and ihs/src/trade.cpp: \<open>ConcurrentQueue\<close>, the thread
  pool, the algorithm module and the trader.  Prices are doubles: they are elements of an arbitrary
  type, and the two comparisons of the algorithm are arguments.  The FIX session that the trader
  uses comes from a header outside the repository; the calls made on it are recorded.
\<close>

section \<open>ConcurrentQueue\<close>

record 'a ConcurrentQueue =
  cq_queue :: "'a list"
  cq_running :: bool

definition ConcurrentQueue_new :: "'a ConcurrentQueue" where
  "ConcurrentQueue_new = \<lparr>cq_queue = [], cq_running = True\<rparr>"

definition cq_push :: "'a \<Rightarrow> 'a ConcurrentQueue \<Rightarrow> 'a ConcurrentQueue" where
  "cq_push item q = (if cq_running q then q\<lparr>cq_queue := cq_queue q @ [item]\<rparr> else q)"

text \<open>
  \<open>pop\<close>: \<open>Waits\<close> while the predicate is false and no timeout is given, \<open>Fails\<close> on a timeout or a
  stopped queue.
\<close>

datatype 'a pop_result = Waits | Fails | Item 'a "'a ConcurrentQueue"

definition cq_pop :: "int \<Rightarrow> 'a ConcurrentQueue \<Rightarrow> 'a pop_result" where
  "cq_pop timeout_ms q =
     (if cq_queue q = [] \<and> cq_running q then (if timeout_ms \<ge> 0 then Fails else Waits)
      else if \<not> cq_running q then Fails
      else Item (hd (cq_queue q)) (q\<lparr>cq_queue := tl (cq_queue q)\<rparr>))"

definition cq_stop :: "'a ConcurrentQueue \<Rightarrow> 'a ConcurrentQueue" where
  "cq_stop q = q\<lparr>cq_running := False\<rparr>"

section \<open>Waiting and stopping, instruction by instruction\<close>

text \<open>
  A thread in \<open>pop\<close> without a timeout holds the mutex while it evaluates the predicate, and gives
  it up when it goes to sleep on the condition variable.  \<open>push\<close> runs under the mutex and wakes one
  sleeper; \<open>stop\<close> takes no mutex: it clears the flag and later wakes all sleepers.
\<close>

datatype wait_pc = Outside | Testing | Resigned | Asleep | Woken | Returned "int option"

datatype stop_pc = NotStopped | FlagCleared | Notified

record waiting =
  w_queue :: "int ConcurrentQueue"
  w_mutex :: "nat option"
  w_pcs :: "nat \<Rightarrow> wait_pc"
  w_stop :: stop_pc

definition waiting_new :: waiting where
  "waiting_new = \<lparr>w_queue = ConcurrentQueue_new, w_mutex = None, w_pcs = (\<lambda>_. Outside), w_stop = NotStopped\<rparr>"

definition wake_all :: "(nat \<Rightarrow> wait_pc) \<Rightarrow> nat \<Rightarrow> wait_pc" where
  "wake_all f = (\<lambda>t. if f t = Asleep then Woken else f t)"

inductive wait_step :: "waiting \<Rightarrow> waiting \<Rightarrow> bool" where
  enter: "w_pcs s t = Outside \<Longrightarrow> w_mutex s = None \<Longrightarrow>
    wait_step s (s\<lparr>w_pcs := (w_pcs s)(t := Testing), w_mutex := Some t\<rparr>)"
| test_false: "w_pcs s t = Testing \<Longrightarrow> cq_pop (-1) (w_queue s) = Waits \<Longrightarrow>
    wait_step s (s\<lparr>w_pcs := (w_pcs s)(t := Resigned)\<rparr>)"
| sleep: "w_pcs s t = Resigned \<Longrightarrow>
    wait_step s (s\<lparr>w_pcs := (w_pcs s)(t := Asleep), w_mutex := None\<rparr>)"
| reacquire: "w_pcs s t = Woken \<Longrightarrow> w_mutex s = None \<Longrightarrow>
    wait_step s (s\<lparr>w_pcs := (w_pcs s)(t := Testing), w_mutex := Some t\<rparr>)"
| fails: "w_pcs s t = Testing \<Longrightarrow> cq_pop (-1) (w_queue s) = Fails \<Longrightarrow>
    wait_step s (s\<lparr>w_pcs := (w_pcs s)(t := Returned None), w_mutex := None\<rparr>)"
| item: "w_pcs s t = Testing \<Longrightarrow> cq_pop (-1) (w_queue s) = Item x q \<Longrightarrow>
    wait_step s (s\<lparr>w_pcs := (w_pcs s)(t := Returned (Some x)), w_queue := q, w_mutex := None\<rparr>)"
| push_wake: "w_mutex s = None \<Longrightarrow> cq_running (w_queue s) \<Longrightarrow> w_pcs s t = Asleep \<Longrightarrow>
    wait_step s (s\<lparr>w_queue := cq_push x (w_queue s), w_pcs := (w_pcs s)(t := Woken)\<rparr>)"
| push_quiet: "w_mutex s = None \<Longrightarrow> (\<not> cq_running (w_queue s) \<or> (\<forall>t. w_pcs s t \<noteq> Asleep)) \<Longrightarrow>
    wait_step s (s\<lparr>w_queue := cq_push x (w_queue s)\<rparr>)"
| clear: "w_stop s = NotStopped \<Longrightarrow>
    wait_step s (s\<lparr>w_queue := cq_stop (w_queue s), w_stop := FlagCleared\<rparr>)"
| notify: "w_stop s = FlagCleared \<Longrightarrow>
    wait_step s (s\<lparr>w_pcs := wake_all (w_pcs s), w_stop := Notified\<rparr>)"

inductive_cases wait_stepE: "wait_step s s'"

section \<open>The algorithm\<close>

record 'd MarketData =
  md_symbol :: string
  bid_price :: 'd
  bid_size :: int
  ask_price :: 'd
  ask_size :: int
  md_timestamp :: u64

datatype request_type = NEW_REQ | CANCEL_REQ
datatype order_side = BUY_SIDE | SELL_SIDE

record 'd OrderRequest =
  req_type :: request_type
  req_order_id :: string
  req_symbol :: string
  req_side :: order_side
  req_price :: 'd
  req_quantity :: int

record 'd AlgoModule =
  last_prices :: "string \<Rightarrow> 'd MarketData option"
  order_counter :: int
  active_order_id :: string
  order_queue :: "'d OrderRequest ConcurrentQueue"

definition AlgoModule_new :: "'d AlgoModule" where
  "AlgoModule_new = \<lparr>last_prices = (\<lambda>_. None), order_counter = 0, active_order_id = [],
     order_queue = ConcurrentQueue_new\<rparr>"

definition algo_id :: "int \<Rightarrow> string" where
  "algo_id n = ''ALGO_ORD_'' @ to_string n"

text \<open>\<open>now\<close> is the count of the system clock that \<open>generate_order\<close> puts into the identifier.\<close>

definition generate_order :: "int \<Rightarrow> string \<Rightarrow> order_side \<Rightarrow> 'd \<Rightarrow> int \<Rightarrow> 'd AlgoModule \<Rightarrow> 'd AlgoModule" where
  "generate_order now symbol side price quantity a =
     a\<lparr>order_queue := cq_push \<lparr>req_type = NEW_REQ, req_order_id = algo_id now, req_symbol = symbol,
         req_side = side, req_price = price, req_quantity = quantity\<rparr> (order_queue a)\<rparr>"

text \<open>
  A cancel request leaves side, price and quantity uninitialised: they are whatever the memory
  holds, given as \<open>junk\<close>.
\<close>

definition cancel_order :: "order_side \<times> 'd \<times> int \<Rightarrow> string \<Rightarrow> string \<Rightarrow> 'd AlgoModule \<Rightarrow> 'd AlgoModule" where
  "cancel_order junk order_id symbol a =
     (case junk of (side, price, quantity) \<Rightarrow>
        a\<lparr>order_queue := cq_push \<lparr>req_type = CANCEL_REQ, req_order_id = order_id, req_symbol = symbol,
            req_side = side, req_price = price, req_quantity = quantity\<rparr> (order_queue a)\<rparr>)"

text \<open>\<open>cheap p\<close> is \<open>p < 155.0\<close> and \<open>wide a b\<close> is \<open>a > b + 0.5\<close> on doubles.\<close>

definition handle_market_data ::
    "('d \<Rightarrow> bool) \<Rightarrow> ('d \<Rightarrow> 'd \<Rightarrow> bool) \<Rightarrow> int \<Rightarrow> order_side \<times> 'd \<times> int \<Rightarrow> 'd MarketData \<Rightarrow> 'd AlgoModule \<Rightarrow> 'd AlgoModule" where
  "handle_market_data cheap wide now junk md a =
     (let a = a\<lparr>last_prices := (last_prices a)(md_symbol md \<mapsto> md)\<rparr>
      in if active_order_id a = [] \<and> cheap (bid_price md) then
           let counter = order_counter a + 1;
               a = a\<lparr>order_counter := counter, active_order_id := algo_id counter\<rparr>
           in generate_order now (md_symbol md) BUY_SIDE (bid_price md) 100 a
         else if active_order_id a \<noteq> [] \<and> wide (ask_price md) (bid_price md) then
           (cancel_order junk (active_order_id a) (md_symbol md) a)\<lparr>active_order_id := []\<rparr>
         else a)"

text \<open>One round of \<open>process_loop\<close>: a market data update if one arrives within 100 milliseconds.\<close>

definition process_round ::
    "('d \<Rightarrow> bool) \<Rightarrow> ('d \<Rightarrow> 'd \<Rightarrow> bool) \<Rightarrow> int \<Rightarrow> order_side \<times> 'd \<times> int
       \<Rightarrow> 'd MarketData ConcurrentQueue \<times> 'd AlgoModule \<Rightarrow> 'd MarketData ConcurrentQueue \<times> 'd AlgoModule" where
  "process_round cheap wide now junk qa =
     (case qa of (q, a) \<Rightarrow>
        (case cq_pop 100 q of
           Item md q1 \<Rightarrow> (q1, handle_market_data cheap wide now junk md a)
         | _ \<Rightarrow> (q, a)))"

section \<open>The trader\<close>

datatype 'd fix_call =
    SendLimitOrder string order_side 'd int
  | CancelOrder string string order_side 'd

definition fix_call_of :: "'d OrderRequest \<Rightarrow> 'd fix_call" where
  "fix_call_of req =
     (case req_type req of
        NEW_REQ \<Rightarrow> SendLimitOrder (req_symbol req) (req_side req) (req_price req) (req_quantity req)
      | CANCEL_REQ \<Rightarrow> CancelOrder (req_order_id req) (req_symbol req) (req_side req) (req_price req))"

definition trading_round ::
    "'d OrderRequest ConcurrentQueue \<times> 'd fix_call list \<Rightarrow> 'd OrderRequest ConcurrentQueue \<times> 'd fix_call list" where
  "trading_round st =
     (case st of (q, calls) \<Rightarrow>
        (case cq_pop 100 q of
           Item req q1 \<Rightarrow> (q1, calls @ [fix_call_of req])
         | _ \<Rightarrow> (q, calls)))"

text \<open>The conversion of an execution report; the status stays as it was for a type that is not listed.\<close>

datatype exec_type = EXEC_NEW | EXEC_FILLED | EXEC_PARTIALLY_FILLED | EXEC_CANCELLED | EXEC_REJECTED | EXEC_OTHER

datatype response_status = ST_NEW | ST_FILLED | ST_PARTIALLY_FILLED | ST_CANCELLED | ST_REJECTED

record 'd OrderResponse =
  resp_order_id :: string
  resp_exec_id :: string
  resp_status :: response_status
  resp_price :: 'd
  filled_quantity :: int
  resp_reason :: string

definition trader_execution_report ::
    "response_status \<Rightarrow> string \<Rightarrow> exec_type \<Rightarrow> string \<Rightarrow> 'd \<Rightarrow> int \<Rightarrow> string
       \<Rightarrow> 'd OrderResponse ConcurrentQueue \<Rightarrow> 'd OrderResponse ConcurrentQueue" where
  "trader_execution_report junk order_id et exec_id price quantity reason q =
     cq_push \<lparr>resp_order_id = order_id, resp_exec_id = exec_id,
       resp_status = (case et of EXEC_NEW \<Rightarrow> ST_NEW | EXEC_FILLED \<Rightarrow> ST_FILLED
         | EXEC_PARTIALLY_FILLED \<Rightarrow> ST_PARTIALLY_FILLED | EXEC_CANCELLED \<Rightarrow> ST_CANCELLED
         | EXEC_REJECTED \<Rightarrow> ST_REJECTED | EXEC_OTHER \<Rightarrow> junk),
       resp_price = price, filled_quantity = quantity,
       resp_reason = (if et = EXEC_REJECTED then reason else [])\<rparr> q"

section \<open>Lemmas\<close>

lemma algo_id_inj: "algo_id m = algo_id n \<longleftrightarrow> m = n"
proof
  assume "algo_id m = algo_id n"
  then have "to_string m = to_string n" by (simp add: algo_id_def)
  then have "parse_int (to_string m) = parse_int (to_string n)" by (rule arg_cong)
  then show "m = n" unfolding parse_int_to_string by simp
qed simp

lemma algo_id_nonempty [simp]: "algo_id n \<noteq> []"
  by (simp add: algo_id_def)

text \<open>A sequence of market data updates, each with its clock reading and the junk of a cancel.\<close>

fun algo_run :: "('d \<Rightarrow> bool) \<Rightarrow> ('d \<Rightarrow> 'd \<Rightarrow> bool) \<Rightarrow> (int \<times> (order_side \<times> 'd \<times> int) \<times> 'd MarketData) list
    \<Rightarrow> 'd AlgoModule \<Rightarrow> 'd AlgoModule" where
  "algo_run cheap wide [] a = a"
| "algo_run cheap wide ((now, junk, md) # evs) a = algo_run cheap wide evs (handle_market_data cheap wide now junk md a)"

text \<open>
  The state of the module against the requests it has queued; \<open>clocks\<close> are the clock readings so
  far.
\<close>

definition algo_inv :: "int set \<Rightarrow> 'd AlgoModule \<Rightarrow> bool" where
  "algo_inv clocks a \<longleftrightarrow>
     (let reqs = cq_queue (order_queue a)
      in cq_running (order_queue a)
       \<and> (\<forall>i < length reqs. if even i
            then req_type (reqs ! i) = NEW_REQ \<and> req_order_id (reqs ! i) \<in> algo_id ` clocks
            else req_type (reqs ! i) = CANCEL_REQ \<and> req_order_id (reqs ! i) = algo_id (int (i div 2) + 1))
       \<and> order_counter a = int ((length reqs + 1) div 2)
       \<and> active_order_id a = (if even (length reqs) then [] else algo_id (order_counter a)))"

lemma cq_push_running: "cq_running q \<Longrightarrow> cq_push x q = q\<lparr>cq_queue := cq_queue q @ [x]\<rparr>"
  by (simp add: cq_push_def)

lemma handle_inv:
  assumes "algo_inv C a"
  shows "algo_inv (insert now C) (handle_market_data cheap wide now junk md a)"
proof -
  let ?reqs = "cq_queue (order_queue a)" and ?h = "handle_market_data cheap wide now junk md a"
  have run: "cq_running (order_queue a)"
    and reqs: "\<And>i. i < length ?reqs \<Longrightarrow> if even i
        then req_type (?reqs ! i) = NEW_REQ \<and> req_order_id (?reqs ! i) \<in> algo_id ` C
        else req_type (?reqs ! i) = CANCEL_REQ \<and> req_order_id (?reqs ! i) = algo_id (int (i div 2) + 1)"
    and cnt: "order_counter a = int ((length ?reqs + 1) div 2)"
    and act: "active_order_id a = (if even (length ?reqs) then [] else algo_id (order_counter a))"
    using assms by (auto simp: algo_inv_def Let_def)
  obtain side price qty where j: "junk = (side, price, qty)" by (cases junk)
  consider (buy) "active_order_id a = []" "cheap (bid_price md)"
    | (cancel) "active_order_id a \<noteq> []" "wide (ask_price md) (bid_price md)"
    | (keep) "\<not> (active_order_id a = [] \<and> cheap (bid_price md))"
        "\<not> (active_order_id a \<noteq> [] \<and> wide (ask_price md) (bid_price md))" by blast
  then show ?thesis
  proof cases
    case buy
    then have ev: "even (length ?reqs)" using act by (auto split: if_splits)
    then show ?thesis using buy run reqs cnt
      by (auto simp: algo_inv_def handle_market_data_def generate_order_def cq_push_running Let_def nth_append
          less_Suc_eq split: if_splits)
  next
    case cancel
    then have od: "odd (length ?reqs)" using act by (auto split: if_splits)
    then have "order_counter a = int (length ?reqs div 2) + 1" using cnt by (auto elim!: oddE)
    then show ?thesis using cancel od run reqs cnt act j
      by (auto simp: algo_inv_def handle_market_data_def cancel_order_def cq_push_running Let_def nth_append
          less_Suc_eq algo_id_inj split: if_splits)
  next
    case keep
    have "?h = a\<lparr>last_prices := (last_prices a)(md_symbol md \<mapsto> md)\<rparr>"
      using keep by (auto simp: handle_market_data_def Let_def)
    then show ?thesis using run reqs cnt act by (auto simp: algo_inv_def Let_def split: if_splits)
  qed
qed

lemma algo_run_inv: "algo_inv C a \<Longrightarrow> algo_inv (C \<union> fst ` set evs) (algo_run cheap wide evs a)"
proof (induction evs arbitrary: C a)
  case (Cons ev evs)
  obtain now junk md where ev: "ev = (now, junk, md)" by (cases ev)
  from Cons.IH [OF handle_inv [OF Cons.prems]] show ?case by (simp add: ev insert_is_Un [symmetric] ac_simps)
qed simp

lemma algo_new_inv: "algo_inv {} AlgoModule_new"
  by (simp add: algo_inv_def AlgoModule_new_def ConcurrentQueue_new_def)

lemma algo_run_count: "length (cq_queue (order_queue (algo_run cheap wide evs a))) \<le> length (cq_queue (order_queue a)) + length evs"
proof (induction evs arbitrary: a)
  case (Cons ev evs)
  obtain now junk md where ev: "ev = (now, junk, md)" by (cases ev)
  have "length (cq_queue (order_queue (handle_market_data cheap wide now junk md a))) \<le> Suc (length (cq_queue (order_queue a)))"
    by (auto simp: handle_market_data_def generate_order_def cancel_order_def cq_push_def Let_def split: prod.split)
  with Cons.IH [of "handle_market_data cheap wide now junk md a"] show ?case by (simp add: ev)
qed simp

text \<open>A sleeper that nobody will wake: the flag is cleared and the notification has been sent.\<close>

definition stranded :: "waiting \<Rightarrow> bool" where
  "stranded s \<longleftrightarrow> w_stop s = Notified \<and> \<not> cq_running (w_queue s) \<and> w_pcs s 0 = Asleep"

lemma stranded_step: "wait_step s s' \<Longrightarrow> stranded s \<Longrightarrow> stranded s'"
  by (erule wait_stepE) (auto simp: stranded_def cq_pop_def cq_push_def split: if_splits intro!: gr0I)

lemma stranded_forever: "wait_step\<^sup>*\<^sup>* s s' \<Longrightarrow> stranded s \<Longrightarrow> stranded s'"
  by (induction rule: rtranclp_induct) (auto intro: stranded_step)

definition stranded_state :: waiting where
  "stranded_state = waiting_new\<lparr>w_queue := cq_stop ConcurrentQueue_new, w_stop := Notified, w_pcs := (\<lambda>_. Outside)(0 := Asleep)\<rparr>"

lemma stranded_reached: "wait_step\<^sup>*\<^sup>* waiting_new stranded_state"
proof -
  let ?s1 = "waiting_new\<lparr>w_pcs := (w_pcs waiting_new)(0 := Testing), w_mutex := Some 0\<rparr>"
  let ?s2 = "?s1\<lparr>w_pcs := (w_pcs ?s1)(0 := Resigned)\<rparr>"
  let ?s3 = "?s2\<lparr>w_queue := cq_stop (w_queue ?s2), w_stop := FlagCleared\<rparr>"
  let ?s4 = "?s3\<lparr>w_pcs := wake_all (w_pcs ?s3), w_stop := Notified\<rparr>"
  let ?s5 = "?s4\<lparr>w_pcs := (w_pcs ?s4)(0 := Asleep), w_mutex := None\<rparr>"
  have "wait_step waiting_new ?s1" by (rule wait_step.enter) (simp_all add: waiting_new_def)
  moreover have "wait_step ?s1 ?s2"
    by (rule wait_step.test_false) (simp_all add: waiting_new_def cq_pop_def ConcurrentQueue_new_def)
  moreover have "wait_step ?s2 ?s3" by (rule wait_step.clear) (simp add: waiting_new_def)
  moreover have "wait_step ?s3 ?s4" by (rule wait_step.notify) simp
  moreover have "wait_step ?s4 ?s5" by (rule wait_step.sleep) (simp add: wake_all_def)
  moreover have "?s5 = stranded_state" by (simp add: stranded_state_def waiting_new_def wake_all_def fun_eq_iff)
  ultimately show ?thesis by (metis (no_types, lifting) converse_rtranclp_into_rtranclp rtranclp.rtrancl_refl)
qed

section \<open>Properties\<close>

text \<open>
  The algorithm works on one order at a time: the requests it queues are a buy and a cancel in
  turn, the cancel number \<open>k\<close> names \<open>ALGO_ORD_k\<close>, and an order is active exactly when the last
  request was a buy.
\<close>

theorem algo_alternates:
  assumes "reqs = cq_queue (order_queue (algo_run cheap wide evs AlgoModule_new))" "i < length reqs"
  shows "(if even i then req_type (reqs ! i) = NEW_REQ
      else req_type (reqs ! i) = CANCEL_REQ \<and> req_order_id (reqs ! i) = ''ALGO_ORD_'' @ to_string (int (i div 2) + 1))
    \<and> (active_order_id (algo_run cheap wide evs AlgoModule_new) = [] \<longleftrightarrow> even (length reqs))"
proof -
  have "algo_inv (fst ` set evs) (algo_run cheap wide evs AlgoModule_new)"
    using algo_run_inv [OF algo_new_inv, of evs cheap wide] by simp
  then show ?thesis using assms by (auto simp: algo_inv_def Let_def algo_id_def)
qed

definition sample_md :: "nat \<Rightarrow> nat \<Rightarrow> nat MarketData" where
  "sample_md bid ask = \<lparr>md_symbol = ''AAPL'', bid_price = bid, bid_size = 10, ask_price = ask, ask_size = 10, md_timestamp = 0\<rparr>"

definition sample_events :: "(int \<times> (order_side \<times> nat \<times> int) \<times> nat MarketData) list" where
  "sample_events = [(1000, (SELL_SIDE, 0, 0), sample_md 150 151), (1001, (SELL_SIDE, 0, 0), sample_md 150 152)]"

lemma sample_requests:
  "map req_order_id (cq_queue (order_queue (algo_run (\<lambda>p. p < 155) (\<lambda>a b. a > b + 1) sample_events AlgoModule_new)))
     = [algo_id 1000, algo_id 1]"
  by (simp add: sample_events_def sample_md_def handle_market_data_def generate_order_def cancel_order_def
      cq_push_def AlgoModule_new_def ConcurrentQueue_new_def Let_def)

theorem algo_alternates_witness:
  "req_type (cq_queue (order_queue (algo_run (\<lambda>p. p < 155) (\<lambda>a b. a > b + 1) sample_events AlgoModule_new)) ! 1) = CANCEL_REQ"
proof -
  let ?reqs = "cq_queue (order_queue (algo_run (\<lambda>p. p < 155) (\<lambda>a b. a > b + 1) sample_events AlgoModule_new))"
  have "length ?reqs = 2" using arg_cong [OF sample_requests, of length] by simp
  then show ?thesis using algo_alternates [where cheap = "\<lambda>p. p < 155" and wide = "\<lambda>a b. a > b + 1" and evs = sample_events and i = 1, OF refl] by simp
qed

text \<open>
  The algorithm never cancels an order it has placed: as long as the clock counts are larger than
  the number of updates, no cancel request carries the identifier of a buy request.
\<close>

theorem algo_cancels_unknown:
  assumes "reqs = cq_queue (order_queue (algo_run cheap wide evs AlgoModule_new))"
    and "\<forall>ev \<in> set evs. int (length evs) < fst ev"
    and "r \<in> set reqs" "req_type r = NEW_REQ" "c \<in> set reqs" "req_type c = CANCEL_REQ"
  shows "req_order_id c \<noteq> req_order_id r"
proof -
  have inv: "algo_inv (fst ` set evs) (algo_run cheap wide evs AlgoModule_new)"
    using algo_run_inv [OF algo_new_inv, of evs cheap wide] by simp
  have len: "length reqs \<le> length evs"
    using algo_run_count [of cheap wide evs AlgoModule_new] assms(1) by (simp add: AlgoModule_new_def ConcurrentQueue_new_def)
  obtain i where i: "i < length reqs" "reqs ! i = r" using assms(3) by (auto simp: in_set_conv_nth)
  obtain k where k: "k < length reqs" "reqs ! k = c" using assms(5) by (auto simp: in_set_conv_nth)
  have "req_order_id r \<in> algo_id ` fst ` set evs"
    using inv i assms(1,4) by (auto simp: algo_inv_def Let_def split: if_splits)
  then obtain now where now: "req_order_id r = algo_id now" "int (length evs) < now" using assms(2) by auto
  have "req_order_id c = algo_id (int (k div 2) + 1)"
    using inv k assms(1,6) by (auto simp: algo_inv_def Let_def split: if_splits)
  moreover have "int (k div 2) + 1 \<le> int (length evs)" using k(1) len by linarith
  ultimately show ?thesis using now by (simp add: algo_id_inj)
qed

theorem algo_cancels_unknown_witness:
  "\<exists>r c. {r, c} \<subseteq> set (cq_queue (order_queue (algo_run (\<lambda>p. p < 155) (\<lambda>a b. a > b + 1) sample_events AlgoModule_new)))
     \<and> req_type c = CANCEL_REQ \<and> req_type r = NEW_REQ \<and> req_order_id c \<noteq> req_order_id r"
proof -
  let ?reqs = "cq_queue (order_queue (algo_run (\<lambda>p. p < 155) (\<lambda>a b. a > b + 1) sample_events AlgoModule_new))"
  have "\<exists>r c. ?reqs = [r, c] \<and> req_type r = NEW_REQ \<and> req_type c = CANCEL_REQ"
    by (simp add: sample_events_def sample_md_def handle_market_data_def generate_order_def cancel_order_def
      cq_push_def AlgoModule_new_def ConcurrentQueue_new_def Let_def)
  then obtain r c where rc: "?reqs = [r, c]" "req_type r = NEW_REQ" "req_type c = CANCEL_REQ" by blast
  have "req_order_id c \<noteq> req_order_id r"
    by (rule algo_cancels_unknown [where cheap = "\<lambda>p. p < 155" and wide = "\<lambda>a b. a > b + 1" and evs = sample_events, OF refl _ _ rc(2) _ rc(3)])
       (unfold rc(1), simp_all add: sample_events_def)
  moreover have "{r, c} \<subseteq> set ?reqs" unfolding rc(1) by simp
  ultimately show ?thesis using rc(2,3) by blast
qed

text \<open>
  Stopping a \<open>ConcurrentQueue\<close> can leave a waiting thread asleep for ever: \<open>stop\<close> clears the
  flag and notifies without the mutex, so a thread that has tested the predicate but not yet gone
  to sleep misses the notification, and no later step wakes it.
\<close>

theorem cq_stop_strands_waiter:
  "\<exists>s. wait_step\<^sup>*\<^sup>* waiting_new s \<and> w_stop s = Notified \<and> (\<forall>s'. wait_step\<^sup>*\<^sup>* s s' \<longrightarrow> w_pcs s' 0 = Asleep)"
proof -
  have "stranded stranded_state" by (simp add: stranded_def stranded_state_def cq_stop_def)
  then have "\<forall>s'. wait_step\<^sup>*\<^sup>* stranded_state s' \<longrightarrow> w_pcs s' 0 = Asleep"
    using stranded_forever stranded_def by blast
  moreover have "w_stop stranded_state = Notified" by (simp add: stranded_state_def)
  ultimately show ?thesis using stranded_reached by blast
qed

theorem cq_stop_strands_waiter_witness:
  "\<exists>s. wait_step\<^sup>*\<^sup>* waiting_new s \<and> w_stop s = Notified \<and> w_pcs s 0 = Asleep"
  using cq_stop_strands_waiter by blast

text \<open>
  The trader passes every queued request to the FIX session once and in order; once the queue
  is stopped it passes on nothing, and the requests that are left are dropped.
\<close>

theorem trader_in_order:
  "(trading_round ^^ length reqs) (\<lparr>cq_queue = reqs, cq_running = run\<rparr>, calls)
     = (if run then (\<lparr>cq_queue = [], cq_running = run\<rparr>, calls @ map fix_call_of reqs)
        else (\<lparr>cq_queue = reqs, cq_running = run\<rparr>, calls))"
proof (cases run)
  case True
  then show ?thesis
  proof (induction reqs arbitrary: calls)
    case (Cons r reqs)
    have "trading_round (\<lparr>cq_queue = r # reqs, cq_running = True\<rparr>, calls)
        = (\<lparr>cq_queue = reqs, cq_running = True\<rparr>, calls @ [fix_call_of r])"
      by (simp add: trading_round_def cq_pop_def)
    then show ?case using Cons by (simp add: funpow_Suc_right del: funpow.simps)
  qed simp
next
  case False
  have "(trading_round ^^ n) (\<lparr>cq_queue = reqs, cq_running = False\<rparr>, calls) = (\<lparr>cq_queue = reqs, cq_running = False\<rparr>, calls)" for n
    by (induction n) (simp_all add: trading_round_def cq_pop_def)
  then show ?thesis using False by simp
qed

end
