(* ===== verification/Trading_Life.thy ===== *)
theory Trading_Life
  imports Trading_System
begin

text \<open>
  The life cycle of the trading system of ihs/src/trade.cpp: start and stop of the receiver, the algorithm
  and the trader with their threads, the connection of the trader, and \<open>TradingSystem\<close> itself.  A thread
  object is joinable or not; giving a joinable one a new thread terminates the program.  The FIX session
  comes from a header outside the repository: whether \<open>connect\<close> succeeds is an argument, and the session
  objects that exist are counted.  The three module threads run their rounds in any order.
\<close>

record 'd TradingSystem =
  md_queue :: "'d MarketData ConcurrentQueue"
  response_queue :: "'d OrderResponse ConcurrentQueue"
  algo :: "'d AlgoModule"
  sys_running :: bool
  md_running :: bool
  md_thread :: bool
  algo_running :: bool
  algo_thread :: bool
  trader_running :: bool
  trader_thread :: bool
  fix_session :: "nat option"
  sessions :: "nat list"
  next_session :: nat
  fix_calls :: "'d fix_call list"

definition TradingSystem_new :: "'d TradingSystem" where
  "TradingSystem_new = \<lparr>md_queue = ConcurrentQueue_new, response_queue = ConcurrentQueue_new, algo = AlgoModule_new,
     sys_running = False, md_running = False, md_thread = False, algo_running = False, algo_thread = False,
     trader_running = False, trader_thread = False, fix_session = None, sessions = [], next_session = 0, fix_calls = []\<rparr>"

section \<open>The modules\<close>

abbreviation terminate :: fault where
  "terminate \<equiv> Thrown ''std::terminate''"

definition MDReceiver_start :: "'d TradingSystem \<Rightarrow> fault + 'd TradingSystem" where
  "MDReceiver_start s = (if md_thread s then Inl terminate else Inr (s\<lparr>md_running := True, md_thread := True\<rparr>))"

definition MDReceiver_stop :: "'d TradingSystem \<Rightarrow> 'd TradingSystem" where
  "MDReceiver_stop s = s\<lparr>md_running := False, md_thread := False\<rparr>"

definition AlgoModule_start :: "'d TradingSystem \<Rightarrow> fault + 'd TradingSystem" where
  "AlgoModule_start s = (if algo_thread s then Inl terminate else Inr (s\<lparr>algo_running := True, algo_thread := True\<rparr>))"

definition AlgoModule_stop :: "'d TradingSystem \<Rightarrow> 'd TradingSystem" where
  "AlgoModule_stop s = s\<lparr>algo_running := False, algo_thread := False\<rparr>"

text \<open>\<open>connect\<close> stores a new session in \<open>fix_session_\<close>, whatever was there.\<close>

definition Trader_connect :: "'d TradingSystem \<Rightarrow> 'd TradingSystem" where
  "Trader_connect s = s\<lparr>fix_session := Some (next_session s), sessions := sessions s @ [next_session s],
     next_session := next_session s + 1\<rparr>"

definition Trader_start :: "bool \<Rightarrow> 'd TradingSystem \<Rightarrow> fault + 'd TradingSystem" where
  "Trader_start connected s =
     (let s1 = Trader_connect (s\<lparr>trader_running := True\<rparr>)
      in if \<not> connected then Inr s1
         else if trader_thread s1 then Inl terminate
         else Inr (s1\<lparr>trader_thread := True\<rparr>))"

definition Trader_stop :: "'d TradingSystem \<Rightarrow> 'd TradingSystem" where
  "Trader_stop s = s\<lparr>trader_running := False, trader_thread := False\<rparr>"

text \<open>\<open>disconnect\<close> logs out and deletes the session that \<open>fix_session_\<close> points to.\<close>

definition Trader_disconnect :: "'d TradingSystem \<Rightarrow> 'd TradingSystem" where
  "Trader_disconnect s =
     (case fix_session s of None \<Rightarrow> s | Some f \<Rightarrow> s\<lparr>sessions := removeAll f (sessions s), fix_session := None\<rparr>)"

section \<open>TradingSystem\<close>

definition TradingSystem_start :: "bool \<Rightarrow> 'd TradingSystem \<Rightarrow> fault + 'd TradingSystem" where
  "TradingSystem_start connected s =
     sum_bind (MDReceiver_start (s\<lparr>sys_running := True\<rparr>)) (\<lambda>s.
     sum_bind (AlgoModule_start s) (Trader_start connected))"

definition TradingSystem_stop :: "'d TradingSystem \<Rightarrow> 'd TradingSystem" where
  "TradingSystem_stop s =
     (let s = MDReceiver_stop (AlgoModule_stop (Trader_stop (s\<lparr>sys_running := False\<rparr>)))
      in s\<lparr>md_queue := cq_stop (md_queue s), algo := (algo s)\<lparr>order_queue := cq_stop (order_queue (algo s))\<rparr>,
           response_queue := cq_stop (response_queue s)\<rparr>)"

text \<open>
  The members are destroyed in the reverse order of their declaration: the trader stops and disconnects, the
  algorithm and the receiver stop.
\<close>

definition TradingSystem_destroy :: "'d TradingSystem \<Rightarrow> 'd TradingSystem" where
  "TradingSystem_destroy s = MDReceiver_stop (AlgoModule_stop (Trader_disconnect (Trader_stop s)))"

text \<open>
  The loop of \<open>run\<close> over the characters of the input (white space is skipped by \<open>>>\<close>): it leaves at a \<open>q\<close>;
  at the end of the input no character is read and it goes on for ever (\<open>None\<close>).
\<close>

fun run_input :: "string \<Rightarrow> unit option" where
  "run_input [] = None"
| "run_input (c # cs) = (if c = CHR ''q'' \<or> c = CHR ''Q'' then Some () else run_input cs)"

definition TradingSystem_run :: "bool \<Rightarrow> string \<Rightarrow> 'd TradingSystem \<Rightarrow> (fault + 'd TradingSystem) option" where
  "TradingSystem_run connected input s =
     (case TradingSystem_start connected s of
        Inl e \<Rightarrow> Some (Inl e)
      | Inr s1 \<Rightarrow> (case run_input input of None \<Rightarrow> None | Some _ \<Rightarrow> Some (Inr (TradingSystem_stop s1))))"

section \<open>The threads at work\<close>

text \<open>A round of a module's loop, made only while the module runs.\<close>

datatype 'd round = FeedRound "'d MarketData" | AlgoRound int "order_side \<times> 'd \<times> int" | TraderRound

fun activity :: "('d \<Rightarrow> bool) \<Rightarrow> ('d \<Rightarrow> 'd \<Rightarrow> bool) \<Rightarrow> 'd round \<Rightarrow> 'd TradingSystem \<Rightarrow> 'd TradingSystem" where
  "activity cheap wide (FeedRound md) s =
     (if md_running s \<and> md_thread s then s\<lparr>md_queue := cq_push md (md_queue s)\<rparr> else s)"
| "activity cheap wide (AlgoRound now junk) s =
     (if algo_running s \<and> algo_thread s
      then let (q, a) = process_round cheap wide now junk (md_queue s, algo s) in s\<lparr>md_queue := q, algo := a\<rparr>
      else s)"
| "activity cheap wide TraderRound s =
     (if trader_running s \<and> trader_thread s
      then let (q, calls) = trading_round (order_queue (algo s), fix_calls s)
           in s\<lparr>algo := (algo s)\<lparr>order_queue := q\<rparr>, fix_calls := calls\<rparr>
      else s)"

section \<open>Properties\<close>

lemmas life_defs = TradingSystem_start_def TradingSystem_stop_def TradingSystem_destroy_def MDReceiver_start_def
  MDReceiver_stop_def AlgoModule_start_def AlgoModule_stop_def Trader_start_def Trader_stop_def Trader_connect_def
  Trader_disconnect_def

lemma run_input_iff: "run_input cs = Some () \<longleftrightarrow> CHR ''q'' \<in> set cs \<or> CHR ''Q'' \<in> set cs"
  by (induction cs) auto

text \<open>
  One run of the trading system: it returns exactly when a \<open>q\<close> is typed (at the end of the input it goes on
  for ever), and then every thread has been joined, the queues are stopped, and the destructor leaves no FIX
  session behind.
\<close>

theorem trading_run_clean:
  "(TradingSystem_run connected input (TradingSystem_new :: 'd TradingSystem) = None \<longleftrightarrow> CHR ''q'' \<notin> set input \<and> CHR ''Q'' \<notin> set input)
   \<and> (\<forall>r. TradingSystem_run connected input (TradingSystem_new :: 'd TradingSystem) = Some r \<longrightarrow>
        (\<exists>s. r = Inr s \<and> \<not> md_thread s \<and> \<not> algo_thread s \<and> \<not> trader_thread s
          \<and> \<not> cq_running (md_queue s) \<and> \<not> cq_running (order_queue (algo s)) \<and> \<not> cq_running (response_queue s)
          \<and> sessions (TradingSystem_destroy s) = []))"
proof -
  have "\<exists>s1. TradingSystem_start connected (TradingSystem_new :: 'd TradingSystem) = Inr s1 \<and> sessions s1 = [0] \<and> fix_session s1 = Some 0"
    by (simp add: life_defs TradingSystem_new_def Let_def)
  then obtain s1 where st: "TradingSystem_start connected (TradingSystem_new :: 'd TradingSystem) = Inr s1"
    and se: "sessions s1 = [0]" "fix_session s1 = Some 0" by blast
  have "\<not> md_thread s \<and> \<not> algo_thread s \<and> \<not> trader_thread s
      \<and> \<not> cq_running (md_queue s) \<and> \<not> cq_running (order_queue (algo s)) \<and> \<not> cq_running (response_queue s)
      \<and> sessions (TradingSystem_destroy s) = []" if "s = TradingSystem_stop s1" for s
    unfolding that using se by (simp add: life_defs cq_stop_def Let_def)
  then show ?thesis using st run_input_iff [of input]
    by (auto simp: TradingSystem_run_def split: option.splits)
qed

theorem trading_run_clean_witness:
  "TradingSystem_run True ''xyz'' (TradingSystem_new :: int TradingSystem) = None
   \<and> TradingSystem_run True ''xq'' (TradingSystem_new :: int TradingSystem) \<noteq> None"
  using trading_run_clean [of True "''xyz''", where 'd = int] trading_run_clean [of True "''xq''", where 'd = int] by simp

text \<open>With stopped queues no round changes what the algorithm and the trader have done.\<close>

lemma stopped_activity:
  assumes "\<not> cq_running (md_queue s)" "\<not> cq_running (order_queue (algo s))"
  shows "md_queue (activity cheap wide r s) = md_queue s \<and> algo (activity cheap wide r s) = algo s
    \<and> fix_calls (activity cheap wide r s) = fix_calls s"
  using assms by (cases r) (auto simp: process_round_def trading_round_def cq_pop_def cq_push_def Let_def)

text \<open>
  A trading system that has been stopped cannot be started again: \<open>stop\<close> stops the queues for good, so after
  another \<open>start\<close>, whatever the three threads do, no market data reaches the algorithm and no order the FIX
  session.  Nor can a running one be started twice: its threads are joinable and the program terminates.
\<close>

theorem trading_restart_dead:
  assumes "TradingSystem_start connected (TradingSystem_stop s) = Inr s1"
  shows "fix_calls (fold (activity cheap wide) rs s1) = fix_calls s
    \<and> last_prices (algo (fold (activity cheap wide) rs s1)) = last_prices (algo s)
    \<and> TradingSystem_start connected' s1 = Inl terminate"
proof -
  have s1: "\<not> cq_running (md_queue s1)" "\<not> cq_running (order_queue (algo s1))" "fix_calls s1 = fix_calls s"
    "last_prices (algo s1) = last_prices (algo s)" "md_thread s1"
    using assms by (auto simp: life_defs cq_stop_def Let_def split: if_splits)
  have "algo (fold (activity cheap wide) rs t) = algo t \<and> fix_calls (fold (activity cheap wide) rs t) = fix_calls t"
    if "\<not> cq_running (md_queue t)" "\<not> cq_running (order_queue (algo t))" for t
    using that
  proof (induction rs arbitrary: t)
    case (Cons r rs)
    then show ?case using stopped_activity [OF Cons.prems, of cheap wide r] Cons.IH [of "activity cheap wide r t"] by simp
  qed simp
  then show ?thesis using s1 by (simp add: life_defs)
qed

theorem trading_restart_dead_witness:
  "\<exists>s1. TradingSystem_start True (TradingSystem_stop (TradingSystem_new :: int TradingSystem)) = Inr s1
     \<and> fix_calls (fold (activity (\<lambda>_. True) (\<lambda>_ _. True)) [TraderRound] s1) = []"
proof -
  obtain s1 where s1: "TradingSystem_start True (TradingSystem_stop (TradingSystem_new :: int TradingSystem)) = Inr s1"
    by (simp add: life_defs TradingSystem_new_def Let_def)
  show ?thesis using trading_restart_dead [OF s1, of "\<lambda>_. True" "\<lambda>_ _. True" "[TraderRound]"] s1
    by (simp add: TradingSystem_new_def)
qed

text \<open>
  \<open>connect\<close> overwrites the pointer to the session: when the system is started again after a stop, the first
  session is never logged out, disconnected or deleted.
\<close>

theorem trading_session_leak:
  "\<exists>s1 s2. TradingSystem_start True (TradingSystem_new :: 'd TradingSystem) = Inr s1
     \<and> TradingSystem_start True (TradingSystem_stop s1) = Inr s2 \<and> sessions (TradingSystem_destroy (TradingSystem_stop s2)) = [0]"
  by (simp add: life_defs TradingSystem_new_def Let_def)

end
