(* ===== verification/Fix42.thy ===== *)
theory Fix42
  imports Fix_Text
begin

text \<open>
  The FIX 4.2 client of \<open>ihs/src/fix42.cpp\<close> and \<open>ihs/include/fix42.hpp\<close>: message construction,
  the wire format with its body length and checksum, validation, the handling of received
  messages and the session life cycle.  Results of system calls, the clock and the conversions
  of \<open>double\<close> are inputs; a call of a user handler is an entry of the log \<open>calls\<close> and a message
  that left completely an entry of the log \<open>sent\<close>.
\<close>

section \<open>Data\<close>

datatype MessageType =
    LOGON | LOGOUT | HEARTBEAT | TEST_REQUEST | RESEND_REQUEST | REJECT | SEQUENCE_RESET
  | NEW_ORDER_SINGLE | ORDER_CANCEL_REQUEST | EXECUTION_REPORT | ORDER_CANCEL_REJECT

datatype Side = BUY | SELL

datatype OrdType = MARKET | LIMIT

datatype TimeInForce = DAY | IMMEDIATE_OR_CANCEL | FILL_OR_KILL

datatype ExecType = NEW | PARTIAL_FILL | FILL | CANCELLED | REJECTED

type_synonym field_map = "(int \<times> string) list"

record Message =
  msg_fields :: field_map
  raw_data :: string

text \<open>The tags of the name space \<open>FIXField\<close> that the code uses.\<close>

abbreviation "BeginString \<equiv> 8 :: int"
abbreviation "BodyLength \<equiv> 9 :: int"
abbreviation "MsgType \<equiv> 35 :: int"
abbreviation "SenderCompID \<equiv> 49 :: int"
abbreviation "TargetCompID \<equiv> 56 :: int"
abbreviation "MsgSeqNum \<equiv> 34 :: int"
abbreviation "SendingTime \<equiv> 52 :: int"
abbreviation "CheckSum \<equiv> 10 :: int"
abbreviation "HeartBtInt \<equiv> 108 :: int"
abbreviation "ResetSeqNumFlag \<equiv> 141 :: int"
abbreviation "TestReqID \<equiv> 112 :: int"
abbreviation "Text \<equiv> 58 :: int"
abbreviation "ClOrdID \<equiv> 11 :: int"
abbreviation "Symbol \<equiv> 55 :: int"
abbreviation "SideTag \<equiv> 54 :: int"
abbreviation "OrdTypeTag \<equiv> 40 :: int"
abbreviation "Price \<equiv> 44 :: int"
abbreviation "OrderQty \<equiv> 38 :: int"
abbreviation "TimeInForceTag \<equiv> 59 :: int"
abbreviation "OrigClOrdID \<equiv> 41 :: int"
abbreviation "ExecTypeTag \<equiv> 150 :: int"
abbreviation "ExecID \<equiv> 17 :: int"
abbreviation "CumQty \<equiv> 14 :: int"

datatype 'd fix_call =
    LogonCall bool string
  | LogoutCall string
  | ExecutionReportCall string "ExecType option" string 'd int string
  | CancelRejectCall string string

record 'd FIX42Protocol =
  socket_fd :: int
  host :: string
  port :: int
  is_connected :: bool
  is_logged_on :: bool
  receive_thread :: bool
  sender_comp_id :: string
  target_comp_id :: string
  heartbt_int :: int
  sender_msg_seq_num :: u32
  target_msg_seq_num :: u32
  last_test_request_id :: string
  heartbeat_running :: bool
  on_logon_handler :: bool
  on_logout_handler :: bool
  on_execution_report_handler :: bool
  on_cancel_reject_handler :: bool
  calls :: "'d fix_call list"
  sent :: "Message list"

text \<open>The conversions of \<open>double\<close>: \<open>std::to_string\<close>, \<open>std::stod\<close> (\<open>None\<close> when it throws) and \<open>0.0\<close>.\<close>

record 'd doubles =
  double_text :: "'d \<Rightarrow> string"
  stod :: "string \<Rightarrow> 'd option"
  double_zero :: 'd

text \<open>What the environment answers during one call: the clocks and the result of \<open>send\<close>.\<close>

record utc =
  year :: nat
  month :: nat
  day :: nat
  hour :: nat
  minute :: nat
  second :: nat
  millis :: nat

record environ =
  system_clock :: utc
  high_resolution_clock :: int
  send_result :: "string \<Rightarrow> int"

definition FIX42Protocol_new :: "string \<Rightarrow> string \<Rightarrow> int \<Rightarrow> 'd FIX42Protocol" where
  "FIX42Protocol_new sender target heartbt =
     \<lparr>socket_fd = - 1, host = [], port = 0, is_connected = False, is_logged_on = False, receive_thread = False,
      sender_comp_id = sender, target_comp_id = target, heartbt_int = heartbt,
      sender_msg_seq_num = 1, target_msg_seq_num = 0, last_test_request_id = [],
      heartbeat_running = False, on_logon_handler = False, on_logout_handler = False,
      on_execution_report_handler = False, on_cancel_reject_handler = False, calls = [], sent = []\<rparr>"

section \<open>Enumerations and their text\<close>

fun messageTypeToString :: "MessageType \<Rightarrow> string" where
  "messageTypeToString LOGON = ''A''"
| "messageTypeToString LOGOUT = ''5''"
| "messageTypeToString HEARTBEAT = ''0''"
| "messageTypeToString TEST_REQUEST = ''1''"
| "messageTypeToString RESEND_REQUEST = ''2''"
| "messageTypeToString REJECT = ''3''"
| "messageTypeToString SEQUENCE_RESET = ''4''"
| "messageTypeToString NEW_ORDER_SINGLE = ''D''"
| "messageTypeToString ORDER_CANCEL_REQUEST = ''F''"
| "messageTypeToString EXECUTION_REPORT = ''8''"
| "messageTypeToString ORDER_CANCEL_REJECT = ''9''"

fun sideToString :: "Side \<Rightarrow> string" where
  "sideToString BUY = ''1''"
| "sideToString SELL = ''2''"

fun ordTypeToString :: "OrdType \<Rightarrow> string" where
  "ordTypeToString MARKET = ''1''"
| "ordTypeToString LIMIT = ''2''"

fun timeInForceToString :: "TimeInForce \<Rightarrow> string" where
  "timeInForceToString DAY = ''0''"
| "timeInForceToString IMMEDIATE_OR_CANCEL = ''3''"
| "timeInForceToString FILL_OR_KILL = ''4''"

text \<open>\<open>None\<close> is the cast of \<open>-1\<close>, which no case label of a switch matches.\<close>

definition stringToMessageType :: "string \<Rightarrow> MessageType option" where
  "stringToMessageType str =
     (if str = ''A'' then Some LOGON
      else if str = ''5'' then Some LOGOUT
      else if str = ''0'' then Some HEARTBEAT
      else if str = ''1'' then Some TEST_REQUEST
      else if str = ''2'' then Some RESEND_REQUEST
      else if str = ''3'' then Some REJECT
      else if str = ''4'' then Some SEQUENCE_RESET
      else if str = ''D'' then Some NEW_ORDER_SINGLE
      else if str = ''F'' then Some ORDER_CANCEL_REQUEST
      else if str = ''8'' then Some EXECUTION_REPORT
      else if str = ''9'' then Some ORDER_CANCEL_REJECT
      else None)"

definition stringToExecType :: "string \<Rightarrow> ExecType option" where
  "stringToExecType str =
     (if str = ''0'' then Some NEW
      else if str = ''1'' then Some PARTIAL_FILL
      else if str = ''2'' then Some FILL
      else if str = ''4'' then Some CANCELLED
      else if str = ''8'' then Some REJECTED
      else None)"

section \<open>The wire format\<close>

definition calculateChecksum :: "string \<Rightarrow> string" where
  "calculateChecksum msg =
     (let sum = foldl (\<lambda>s c. s + of_nat (char_code c)) (0 :: u32) msg mod 256
      in pad 3 (digits (unat sum)))"

definition serialize_body :: "field_map \<Rightarrow> string" where
  "serialize_body fs = concat (map (\<lambda>(tag, value).
     if tag \<noteq> BeginString \<and> tag \<noteq> BodyLength \<and> tag \<noteq> CheckSum
     then to_string tag @ ''='' @ value @ [SOH] else []) fs)"

definition serialize :: "Message \<Rightarrow> string" where
  "serialize msg =
     (let body = serialize_body (msg_fields msg);
          header = to_string BeginString @ ''=FIX.4.2'' @ [SOH]
            @ to_string BodyLength @ ''='' @ to_string (int (length body)) @ [SOH] @ body;
          checksum = calculateChecksum header
      in header @ to_string CheckSum @ ''='' @ checksum @ [SOH])"

definition set_field :: "int \<Rightarrow> string \<Rightarrow> field_map \<Rightarrow> field_map" where
  "set_field tag value m = map_put (<) tag value m"

definition deserialize_field :: "string \<Rightarrow> field_map \<Rightarrow> field_map" where
  "deserialize_field field_str m =
     (case find_char CHR ''='' field_str of
        None \<Rightarrow> m
      | Some eq_pos \<Rightarrow>
          (case stoi (take eq_pos field_str) of
             Inl _ \<Rightarrow> m
           | Inr tag \<Rightarrow> set_field tag (drop (Suc eq_pos) field_str) m))"

function deserialize_loop :: "string \<Rightarrow> field_map \<Rightarrow> field_map" where
  "deserialize_loop s m =
     (case find_char SOH s of
        None \<Rightarrow> m
      | Some n \<Rightarrow> deserialize_loop (drop (Suc n) s) (deserialize_field (take n s) m))"
  by auto
termination
  by (relation "measure (\<lambda>(s, m). length s)") (auto dest: find_char_Some)

declare deserialize_loop.simps [simp del]

definition deserialize :: "string \<Rightarrow> bool \<times> Message" where
  "deserialize raw_msg =
     (let m = deserialize_loop raw_msg [] in (m \<noteq> [], \<lparr>msg_fields = m, raw_data = raw_msg\<rparr>))"

definition validateMessage :: "'d FIX42Protocol \<Rightarrow> Message \<Rightarrow> bool" where
  "validateMessage s msg =
     (let f = map_of (msg_fields msg)
      in if f BeginString = None \<or> f BodyLength = None \<or> f MsgType = None \<or> f SenderCompID = None
            \<or> f TargetCompID = None \<or> f MsgSeqNum = None \<or> f SendingTime = None \<or> f CheckSum = None
         then False
         else if f BeginString \<noteq> Some ''FIX.4.2'' then False
         else if f SenderCompID \<noteq> Some (target_comp_id s) \<or> f TargetCompID \<noteq> Some (sender_comp_id s) then False
         else let header_without_checksum =
                    (case find_str (to_string CheckSum @ ''='') (raw_data msg) of
                       None \<Rightarrow> raw_data msg | Some n \<Rightarrow> take n (raw_data msg))
              in f CheckSum = Some (calculateChecksum header_without_checksum))"

section \<open>Building and sending messages\<close>

definition getNextSenderMsgSeqNum :: "'d FIX42Protocol \<Rightarrow> u32 \<times> 'd FIX42Protocol" where
  "getNextSenderMsgSeqNum s = (sender_msg_seq_num s, s\<lparr>sender_msg_seq_num := sender_msg_seq_num s + 1\<rparr>)"

definition getNextTargetMsgSeqNum :: "'d FIX42Protocol \<Rightarrow> u32 \<times> 'd FIX42Protocol" where
  "getNextTargetMsgSeqNum s = (target_msg_seq_num s, s\<lparr>target_msg_seq_num := target_msg_seq_num s + 1\<rparr>)"

definition sending_time :: "utc \<Rightarrow> string" where
  "sending_time t =
     digits (year t) @ pad 2 (digits (month t)) @ pad 2 (digits (day t)) @ ''-''
     @ pad 2 (digits (hour t)) @ '':'' @ pad 2 (digits (minute t)) @ '':'' @ pad 2 (digits (second t))
     @ ''.'' @ digits (millis t)"

definition createBaseMessage :: "environ \<Rightarrow> MessageType \<Rightarrow> 'd FIX42Protocol \<Rightarrow> Message \<times> 'd FIX42Protocol" where
  "createBaseMessage e msg_type s =
     (let f1 = set_field BeginString ''FIX.4.2'' [];
          f2 = set_field SenderCompID (sender_comp_id s) f1;
          f3 = set_field TargetCompID (target_comp_id s) f2;
          (n, s1) = getNextSenderMsgSeqNum s;
          f4 = set_field MsgSeqNum (to_string (uint n)) f3;
          f5 = set_field SendingTime (sending_time (system_clock e)) f4;
          f6 = set_field MsgType (messageTypeToString msg_type) f5
      in (\<lparr>msg_fields = f6, raw_data = []\<rparr>, s1))"

definition sendMessage :: "environ \<Rightarrow> Message \<Rightarrow> 'd FIX42Protocol \<Rightarrow> bool \<times> 'd FIX42Protocol" where
  "sendMessage e msg s =
     (if \<not> is_connected s then (False, s)
      else let raw_msg = serialize msg
           in if send_result e raw_msg \<noteq> int (length raw_msg) then (False, s)
              else (True, s\<lparr>sent := sent s @ [msg]\<rparr>))"

definition add_field :: "int \<Rightarrow> string \<Rightarrow> Message \<Rightarrow> Message" where
  "add_field tag value msg = msg\<lparr>msg_fields := set_field tag value (msg_fields msg)\<rparr>"

definition logon :: "environ \<Rightarrow> bool \<Rightarrow> 'd FIX42Protocol \<Rightarrow> 'd FIX42Protocol" where
  "logon e handler s =
     (if \<not> is_connected s
      then if handler then s\<lparr>calls := calls s @ [LogonCall False ''Not connected to server'']\<rparr> else s
      else let s1 = s\<lparr>on_logon_handler := handler\<rparr>;
               (msg, s2) = createBaseMessage e LOGON s1;
               msg1 = add_field HeartBtInt (to_string (heartbt_int s2)) msg;
               msg2 = add_field ResetSeqNumFlag ''Y'' msg1
           in snd (sendMessage e msg2 s2))"

definition logout :: "environ \<Rightarrow> string \<Rightarrow> 'd FIX42Protocol \<Rightarrow> 'd FIX42Protocol" where
  "logout e reason s =
     (if \<not> is_connected s \<or> \<not> is_logged_on s then s
      else let (msg, s1) = createBaseMessage e LOGOUT s;
               msg1 = (if reason \<noteq> [] then add_field Text reason msg else msg)
           in snd (sendMessage e msg1 s1))"

definition sendLimitOrder :: "'d doubles \<Rightarrow> environ \<Rightarrow> string \<Rightarrow> Side \<Rightarrow> 'd \<Rightarrow> int \<Rightarrow> TimeInForce
    \<Rightarrow> 'd FIX42Protocol \<Rightarrow> string \<times> 'd FIX42Protocol" where
  "sendLimitOrder dbl e symbol side price quantity time_in_force s =
     (if \<not> is_connected s \<or> \<not> is_logged_on s then ([], s)
      else let cl_ord_id = ''ORD'' @ to_string (high_resolution_clock e);
               (msg, s1) = createBaseMessage e NEW_ORDER_SINGLE s;
               msg1 = add_field ClOrdID cl_ord_id msg;
               msg2 = add_field Symbol symbol msg1;
               msg3 = add_field SideTag (sideToString side) msg2;
               msg4 = add_field OrdTypeTag (ordTypeToString LIMIT) msg3;
               msg5 = add_field Price (double_text dbl price) msg4;
               msg6 = add_field OrderQty (to_string quantity) msg5;
               msg7 = add_field TimeInForceTag (timeInForceToString time_in_force) msg6;
               (ok, s2) = sendMessage e msg7 s1
           in (if ok then cl_ord_id else [], s2))"

definition cancelOrder :: "'d doubles \<Rightarrow> environ \<Rightarrow> string \<Rightarrow> string \<Rightarrow> Side \<Rightarrow> 'd
    \<Rightarrow> 'd FIX42Protocol \<Rightarrow> 'd FIX42Protocol" where
  "cancelOrder dbl e order_id symbol side price s =
     (if \<not> is_connected s \<or> \<not> is_logged_on s then s
      else let (msg, s1) = createBaseMessage e ORDER_CANCEL_REQUEST s;
               msg1 = add_field OrigClOrdID order_id msg;
               msg2 = add_field ClOrdID (''CAN'' @ to_string (high_resolution_clock e)) msg1;
               msg3 = add_field Symbol symbol msg2;
               msg4 = add_field SideTag (sideToString side) msg3;
               msg5 = add_field Price (double_text dbl price) msg4
           in snd (sendMessage e msg5 s1))"

definition setOnExecutionReportHandler :: "bool \<Rightarrow> 'd FIX42Protocol \<Rightarrow> 'd FIX42Protocol" where
  "setOnExecutionReportHandler handler s = s\<lparr>on_execution_report_handler := handler\<rparr>"

definition setOnCancelRejectHandler :: "bool \<Rightarrow> 'd FIX42Protocol \<Rightarrow> 'd FIX42Protocol" where
  "setOnCancelRejectHandler handler s = s\<lparr>on_cancel_reject_handler := handler\<rparr>"

section \<open>Heartbeats\<close>

definition sendHeartbeat :: "environ \<Rightarrow> 'd FIX42Protocol \<Rightarrow> 'd FIX42Protocol" where
  "sendHeartbeat e s =
     (if \<not> is_connected s \<or> \<not> is_logged_on s then s
      else let (msg, s1) = createBaseMessage e HEARTBEAT s;
               (msg1, s2) = (if last_test_request_id s1 \<noteq> []
                  then (add_field TestReqID (last_test_request_id s1) msg, s1\<lparr>last_test_request_id := []\<rparr>)
                  else (msg, s1))
           in snd (sendMessage e msg1 s2))"

definition startHeartbeatTimer :: "'d FIX42Protocol \<Rightarrow> 'd FIX42Protocol" where
  "startHeartbeatTimer s =
     (if heartbeat_running s \<or> heartbt_int s \<le> 0 then s else s\<lparr>heartbeat_running := True\<rparr>)"

definition stopHeartbeatTimer :: "'d FIX42Protocol \<Rightarrow> 'd FIX42Protocol" where
  "stopHeartbeatTimer s = (if \<not> heartbeat_running s then s else s\<lparr>heartbeat_running := False\<rparr>)"

text \<open>One round of the heartbeat thread, after its sleep.\<close>

definition heartbeatLoop_round :: "environ \<Rightarrow> 'd FIX42Protocol \<Rightarrow> 'd FIX42Protocol" where
  "heartbeatLoop_round e s =
     (if heartbeat_running s \<and> is_connected s \<and> is_logged_on s then sendHeartbeat e s else s)"

section \<open>Connecting\<close>

text \<open>
  \<open>sock\<close> is the result of \<open>socket\<close>, \<open>addr_ok\<close> and \<open>conn_ok\<close> say whether the address and the
  connection are accepted.  Assigning to a \<open>std::thread\<close> that has not been joined aborts.
\<close>

definition connect :: "int \<Rightarrow> bool \<Rightarrow> bool \<Rightarrow> string \<Rightarrow> int \<Rightarrow> 'd FIX42Protocol \<Rightarrow> fault + bool \<times> 'd FIX42Protocol" where
  "connect sock addr_ok conn_ok hst prt s =
     (if is_connected s then Inr (True, s)
      else let s1 = s\<lparr>host := hst, port := prt, socket_fd := sock\<rparr>
           in if sock < 0 then Inr (False, s1)
              else if \<not> addr_ok then Inr (False, s1\<lparr>socket_fd := - 1\<rparr>)
              else if \<not> conn_ok then Inr (False, s1\<lparr>socket_fd := - 1\<rparr>)
              else if receive_thread s1 then Inl AssertFailed
              else Inr (True, s1\<lparr>is_connected := True, receive_thread := True\<rparr>))"

definition disconnect :: "environ \<Rightarrow> 'd FIX42Protocol \<Rightarrow> 'd FIX42Protocol" where
  "disconnect e s =
     (if \<not> is_connected s then s
      else let s1 = (if is_logged_on s then logout e ''Disconnecting'' s else s);
               s2 = stopHeartbeatTimer s1
           in s2\<lparr>is_connected := False, socket_fd := - 1, receive_thread := False\<rparr>)"

section \<open>Receiving\<close>

definition field_or :: "string \<Rightarrow> int \<Rightarrow> Message \<Rightarrow> string" where
  "field_or d tag msg = (case map_of (msg_fields msg) tag of None \<Rightarrow> d | Some v \<Rightarrow> v)"

definition has_field :: "int \<Rightarrow> Message \<Rightarrow> bool" where
  "has_field tag msg \<longleftrightarrow> map_of (msg_fields msg) tag \<noteq> None"

text \<open>\<open>stoul\<close> is narrowed to \<open>uint32_t\<close>; a failed conversion is ignored.\<close>

definition update_target_seq :: "Message \<Rightarrow> 'd FIX42Protocol \<Rightarrow> 'd FIX42Protocol" where
  "update_target_seq msg s =
     (case map_of (msg_fields msg) MsgSeqNum of
        None \<Rightarrow> s
      | Some v \<Rightarrow>
          (case stoul v of
             Inl _ \<Rightarrow> s
           | Inr n \<Rightarrow> let seq_num = word_of_int n
                      in if seq_num > target_msg_seq_num s then s\<lparr>target_msg_seq_num := seq_num\<rparr> else s))"

definition on_logon :: "'d FIX42Protocol \<Rightarrow> 'd FIX42Protocol" where
  "on_logon s =
     (let s1 = startHeartbeatTimer (s\<lparr>is_logged_on := True\<rparr>)
      in if on_logon_handler s1 then s1\<lparr>calls := calls s1 @ [LogonCall True ''Logon successful'']\<rparr> else s1)"

definition on_logout :: "Message \<Rightarrow> 'd FIX42Protocol \<Rightarrow> 'd FIX42Protocol" where
  "on_logout msg s =
     (let reason = field_or ''Logout requested by counterparty'' Text msg;
          s1 = stopHeartbeatTimer (s\<lparr>is_logged_on := False\<rparr>)
      in if on_logout_handler s1 then s1\<lparr>calls := calls s1 @ [LogoutCall reason]\<rparr> else s1)"

definition on_test_request :: "environ \<Rightarrow> Message \<Rightarrow> 'd FIX42Protocol \<Rightarrow> 'd FIX42Protocol" where
  "on_test_request e msg s =
     (case map_of (msg_fields msg) TestReqID of
        None \<Rightarrow> s
      | Some i \<Rightarrow>
          let s1 = s\<lparr>last_test_request_id := i\<rparr>;
              (heartbeat_msg, s2) = createBaseMessage e HEARTBEAT s1
          in snd (sendMessage e (add_field TestReqID (last_test_request_id s2) heartbeat_msg) s2))"

definition on_execution_report :: "'d doubles \<Rightarrow> Message \<Rightarrow> 'd FIX42Protocol \<Rightarrow> 'd FIX42Protocol" where
  "on_execution_report dbl msg s =
     (if \<not> has_field ClOrdID msg \<or> \<not> has_field ExecTypeTag msg \<or> \<not> has_field ExecID msg then s
      else let order_id = field_or [] ClOrdID msg;
               exec_id = field_or [] ExecID msg;
               exec_type = stringToExecType (field_or [] ExecTypeTag msg);
               price = (if has_field Price msg
                        then case stod dbl (field_or [] Price msg) of None \<Rightarrow> double_zero dbl | Some p \<Rightarrow> p
                        else double_zero dbl);
               quantity = (if has_field CumQty msg
                           then case stoi (field_or [] CumQty msg) of Inl _ \<Rightarrow> 0 | Inr q \<Rightarrow> q
                           else 0);
               reason = field_or [] Text msg
           in if on_execution_report_handler s
              then s\<lparr>calls := calls s @ [ExecutionReportCall order_id exec_type exec_id price quantity reason]\<rparr>
              else s)"

definition on_cancel_reject :: "Message \<Rightarrow> 'd FIX42Protocol \<Rightarrow> 'd FIX42Protocol" where
  "on_cancel_reject msg s =
     (if \<not> has_field OrigClOrdID msg then s
      else if on_cancel_reject_handler s
           then s\<lparr>calls := calls s @ [CancelRejectCall (field_or [] OrigClOrdID msg) (field_or [] Text msg)]\<rparr>
           else s)"

definition processReceivedMessage :: "'d doubles \<Rightarrow> environ \<Rightarrow> Message \<Rightarrow> 'd FIX42Protocol \<Rightarrow> 'd FIX42Protocol" where
  "processReceivedMessage dbl e msg s =
     (if \<not> has_field MsgType msg then s
      else let s1 = update_target_seq msg s
           in case stringToMessageType (field_or [] MsgType msg) of
                Some LOGON \<Rightarrow> on_logon s1
              | Some LOGOUT \<Rightarrow> on_logout msg s1
              | Some TEST_REQUEST \<Rightarrow> on_test_request e msg s1
              | Some EXECUTION_REPORT \<Rightarrow> on_execution_report dbl msg s1
              | Some ORDER_CANCEL_REJECT \<Rightarrow> on_cancel_reject msg s1
              | _ \<Rightarrow> s1)"

text \<open>
  The receive thread.  \<open>receive_messages\<close> is its inner loop over the pending text; one round of
  the outer loop consumes one result of \<open>recv\<close> and says whether the loop goes on.
\<close>

function receive_messages :: "'d doubles \<Rightarrow> environ \<Rightarrow> string \<Rightarrow> 'd FIX42Protocol \<Rightarrow> string \<times> 'd FIX42Protocol" where
  "receive_messages dbl e partial_msg s =
     (case find_char SOH partial_msg of
        None \<Rightarrow> (partial_msg, s)
      | Some msg_end \<Rightarrow>
          let raw_msg = take (Suc msg_end) partial_msg;
              (ok, msg) = deserialize raw_msg
          in receive_messages dbl e (drop (Suc msg_end) partial_msg)
               (if ok \<and> validateMessage s msg then processReceivedMessage dbl e msg s else s))"
  by auto
termination
  by (relation "measure (\<lambda>(_, _, p, _). length p)") (auto dest: find_char_Some)

declare receive_messages.simps [simp del]

datatype recv_result = Data string | WouldBlock | ClosedOrError

fun receiveLoop_round :: "'d doubles \<Rightarrow> environ \<Rightarrow> recv_result \<Rightarrow> string \<times> 'd FIX42Protocol
    \<Rightarrow> bool \<times> string \<times> 'd FIX42Protocol" where
  "receiveLoop_round dbl e WouldBlock (partial_msg, s) = (True, partial_msg, s)"
| "receiveLoop_round dbl e ClosedOrError (partial_msg, s) =
     (False, partial_msg, s\<lparr>is_connected := False, is_logged_on := False\<rparr>)"
| "receiveLoop_round dbl e (Data d) (partial_msg, s) = (True, receive_messages dbl e (partial_msg @ d) s)"

end
