(* ===== verification/Fix42_Wire.thy ===== *)
theory Fix42_Wire
  imports Fix42
begin

text \<open>
  Properties of the wire format of \<open>fix42.cpp\<close>: the checksum is the byte sum modulo 256 whatever
  the message length, reading back a serialized message gives its fields, and the validation of
  the counterparty accepts it as long as the text \<open>10=\<close> starts only the checksum field.
\<close>

section \<open>The checksum\<close>

lemma calculateChecksum_sum: "calculateChecksum msg = pad 3 (digits (byte_sum msg mod 256))"
  by (simp add: calculateChecksum_def Let_def checksum_word)

section \<open>Serialized text as a list of fields\<close>

definition body_fields :: "field_map \<Rightarrow> field_map" where
  "body_fields fs = filter (\<lambda>f. fst f \<notin> {BeginString, BodyLength, CheckSum}) fs"

definition header_fields :: "Message \<Rightarrow> field_map" where
  "header_fields msg = (BeginString, ''FIX.4.2'')
     # (BodyLength, to_string (int (length (fields_text SOH (body_fields (msg_fields msg))))))
     # body_fields (msg_fields msg)"

definition wire_checksum :: "Message \<Rightarrow> string" where
  "wire_checksum msg = calculateChecksum (fields_text SOH (header_fields msg))"

lemma serialize_body_text: "serialize_body fs = fields_text SOH (body_fields fs)"
  by (induction fs) (auto simp: serialize_body_def body_fields_def field_text_def)

lemma serialize_text:
  "serialize msg = fields_text SOH (header_fields msg) @ field_text SOH (CheckSum, wire_checksum msg)"
  by (simp add: serialize_def Let_def serialize_body_text header_fields_def field_text_def wire_checksum_def)

lemma wire_checksum_ok: "field_ok SOH (CheckSum, wire_checksum msg)"
  using pad_digits_chars [of SOH 3] by (auto simp: field_ok_def wire_checksum_def calculateChecksum_sum)

lemma header_fields_ok:
  "\<forall>f \<in> set (msg_fields msg). field_ok SOH f \<Longrightarrow> f \<in> set (header_fields msg) \<Longrightarrow> field_ok SOH f"
  using soh.sep_tag by (auto simp: header_fields_def body_fields_def field_ok_def)

section \<open>Reading it back\<close>

lemma deserialize_field_token:
  assumes "field_ok SOH f"
  shows "deserialize_field (to_string (fst f) @ CHR ''='' # snd f) m = set_field (fst f) (snd f) m"
  using assms by (simp add: deserialize_field_def find_equals field_ok_def stoi_to_string)

lemma deserialize_loop_fields:
  "\<forall>f \<in> set fs. field_ok SOH f \<Longrightarrow>
     deserialize_loop (fields_text SOH fs) m = fold (\<lambda>f. set_field (fst f) (snd f)) fs m"
proof (induction fs arbitrary: m)
  case Nil
  show ?case by (simp add: deserialize_loop.simps)
next
  case (Cons f fs)
  then have f: "field_ok SOH f" by simp
  show ?case
    using Cons soh.find_sep [OF f, of "fields_text SOH fs"] soh.token_of_field [OF f refl, of "fields_text SOH fs"]
      deserialize_field_token [OF f, of m]
    by (subst deserialize_loop.simps) simp
qed

lemma fold_set_field:
  "ordered (<) m \<Longrightarrow> ordered (<) (fold (\<lambda>f. set_field (fst f) (snd f)) fs m)
     \<and> map_of (fold (\<lambda>f. set_field (fst f) (snd f)) fs m) = map_of m ++ map_of (rev fs)"
proof (induction fs arbitrary: m)
  case (Cons f fs)
  have "ordered (<) (set_field (fst f) (snd f) m)"
    using Cons.prems by (simp add: set_field_def ascending.map_put_ordered)
  moreover have "map_of (set_field (fst f) (snd f) m) = (map_of m)(fst f \<mapsto> snd f)"
    using Cons.prems by (auto simp: set_field_def ascending.map_of_map_put)
  ultimately show ?case using Cons.IH by (simp del: fun_upd_apply)
qed simp

lemma map_of_body: "map_of (body_fields fs) t = (if t \<in> {BeginString, BodyLength, CheckSum} then None else map_of fs t)"
  by (induction fs) (auto simp: body_fields_def)

lemma ordered_distinct: "ordered (<) (m :: (int \<times> 'v) list) \<Longrightarrow> distinct (map fst m)"
  by (auto simp: ordered_def strict_sorted_iff)

lemma map_of_rev_body: "ordered (<) fs \<Longrightarrow> map_of (rev (body_fields fs)) = map_of (body_fields fs)"
  using ordered_distinct [of fs] by (simp add: map_of_inject_set body_fields_def distinct_map_filter flip: rev_map)

definition received_fields :: "Message \<Rightarrow> int \<Rightarrow> string option" where
  "received_fields msg = (map_of (msg_fields msg))(BeginString \<mapsto> ''FIX.4.2'',
     BodyLength \<mapsto> to_string (int (length (fields_text SOH (body_fields (msg_fields msg))))),
     CheckSum \<mapsto> wire_checksum msg)"

lemma deserialize_serialize:
  assumes "ordered (<) (msg_fields msg)" and "\<forall>f \<in> set (msg_fields msg). field_ok SOH f"
  shows "\<exists>m. deserialize (serialize msg) = (True, \<lparr>msg_fields = m, raw_data = serialize msg\<rparr>)
    \<and> ordered (<) m \<and> map_of m = received_fields msg"
proof -
  let ?fs = "header_fields msg @ [(CheckSum, wire_checksum msg)]"
  let ?m = "fold (\<lambda>f. set_field (fst f) (snd f)) ?fs []"
  have wire: "serialize msg = fields_text SOH ?fs" by (simp add: serialize_text)
  have "\<forall>f \<in> set ?fs. field_ok SOH f" using header_fields_ok [OF assms(2)] wire_checksum_ok by auto
  from deserialize_loop_fields [OF this] have loop: "deserialize_loop (serialize msg) [] = ?m" by (simp only: wire)
  have m: "ordered (<) ?m" "map_of ?m = map_of (rev ?fs)" using fold_set_field [of "[]" ?fs] by simp_all
  have "map_of (rev ?fs) t = received_fields msg t" for t
    using map_of_body [of "msg_fields msg" t]
    by (auto simp: header_fields_def received_fields_def map_add_def map_of_rev_body [OF assms(1)] split: option.splits)
  then have mo: "map_of ?m = received_fields msg" using m(2) by auto
  then have "map_of ?m CheckSum = Some (wire_checksum msg)" by (simp add: received_fields_def)
  then have "?m \<noteq> []" by force
  then show ?thesis using m(1) mo by (simp add: deserialize_def Let_def loop del: fold_append)
qed

section \<open>The checksum field\<close>

lemma find_checksum:
  assumes "\<forall>f \<in> set (header_fields msg). no_checksum_text f"
  shows "find_str ''10='' (serialize msg) = Some (length (fields_text SOH (header_fields msg)))"
proof -
  let ?h = "fields_text SOH (header_fields msg)"
  obtain h' where "?h = h' @ [SOH]"
    using fields_text_last [of "header_fields msg"] by (auto simp: header_fields_def)
  from find_after_sep [OF _ _ no_checksum_fields [OF assms] \<open>?h = h' @ [SOH]\<close>, of "wire_checksum msg @ [SOH]"]
  show ?thesis by (simp add: serialize_text field_text_def)
qed

section \<open>Properties\<close>

text \<open>
  C4.  What \<open>serialize\<close> writes, \<open>deserialize\<close> reads back: every field of the message, with the
  begin string, the length of the body in bytes and the checksum in place of whatever the
  message had under those three tags.  Tags are \<open>int\<close>s and no value may contain the separator;
  values may contain equals signs.
\<close>

theorem fix_serialize_roundtrip:
  assumes "ordered (<) (msg_fields msg)" and "\<forall>f \<in> set (msg_fields msg). field_ok SOH f"
  shows "let (ok, m) = deserialize (serialize msg);
             body = serialize_body (msg_fields msg)
         in ok \<and> raw_data m = serialize msg
            \<and> map_of (msg_fields m) = (map_of (msg_fields msg))
                (BeginString \<mapsto> ''FIX.4.2'', BodyLength \<mapsto> to_string (int (length body)), CheckSum \<mapsto> wire_checksum msg)"
  using deserialize_serialize [OF assms] by (auto simp: received_fields_def serialize_body_text)

definition sample_message :: Message where
  "sample_message = \<lparr>msg_fields = [(34, ''1''), (35, ''A''), (49, ''CLIENT''), (52, ''20240102-03:04:05.6''),
     (56, ''SERVER''), (58, ''a=b'')], raw_data = []\<rparr>"

lemma sample_message_ok:
  "ordered (<) (msg_fields sample_message)" "\<forall>f \<in> set (msg_fields sample_message). field_ok SOH f"
  by (simp_all add: sample_message_def field_ok_def)

theorem fix_serialize_roundtrip_witness:
  "fst (deserialize (serialize sample_message))
   \<and> map_of (msg_fields (snd (deserialize (serialize sample_message)))) 58 = Some ''a=b''
   \<and> map_of (msg_fields (snd (deserialize (serialize sample_message)))) 9 = Some ''60''"
proof -
  have len: "to_string (int (length (serialize_body (msg_fields sample_message)))) = ''60''" by code_simp
  have "map_of (msg_fields sample_message) 58 = Some ''a=b''" by (simp add: sample_message_def)
  then show ?thesis
    using fix_serialize_roundtrip [OF sample_message_ok] unfolding Let_def len by (auto split: prod.splits)
qed

text \<open>
  C5.  The counterparty accepts what this side sends: a message with the required header fields
  and the two company ids the other way round passes the peer's \<open>validateMessage\<close> after
  transmission, provided that no tag ends in \<open>10\<close> and no value contains \<open>10=\<close>.  The condition is
  needed because the validation looks for the first \<open>10=\<close> anywhere in the text.
\<close>

theorem fix_peer_accepts:
  assumes "ordered (<) (msg_fields msg)" and "\<forall>f \<in> set (msg_fields msg). field_ok SOH f"
    and "\<forall>f \<in> set (msg_fields msg). fst f \<notin> {BeginString, BodyLength, CheckSum} \<longrightarrow> no_checksum_text f"
    and "map_of (msg_fields msg) SenderCompID = Some (target_comp_id peer)"
    and "map_of (msg_fields msg) TargetCompID = Some (sender_comp_id peer)"
    and "\<forall>t \<in> {MsgType, MsgSeqNum, SendingTime}. map_of (msg_fields msg) t \<noteq> None"
  shows "validateMessage peer (snd (deserialize (serialize msg)))"
proof -
  from deserialize_serialize [OF assms(1,2)] obtain m where
    m: "deserialize (serialize msg) = (True, \<lparr>msg_fields = m, raw_data = serialize msg\<rparr>)"
       "map_of m = received_fields msg" by blast
  have "no_checksum_text (BodyLength, to_string i)" for i
  proof -
    have "CHR ''='' \<in> set (to_string i)" if "sublist ''10='' (to_string i)"
      using set_mono_sublist [OF that] by simp
    then show ?thesis using equals_tag by (auto simp: no_checksum_text_def)
  qed
  moreover have "no_checksum_text (BeginString, ''FIX.4.2'')" by (simp add: no_checksum_text_def) code_simp
  ultimately have "\<forall>f \<in> set (header_fields msg). no_checksum_text f"
    using assms(3) by (auto simp: header_fields_def body_fields_def)
  from find_checksum [OF this] have "take (the (find_str ''10='' (serialize msg))) (serialize msg)
      = fields_text SOH (header_fields msg)" "find_str ''10='' (serialize msg) \<noteq> None"
    by (simp_all add: serialize_text)
  then show ?thesis using m assms(4-6)
    by (auto simp: validateMessage_def Let_def received_fields_def wire_checksum_def split: option.splits)
qed

theorem fix_peer_accepts_witness:
  "validateMessage (FIX42Protocol_new ''SERVER'' ''CLIENT'' 30 :: unit FIX42Protocol)
     (snd (deserialize (serialize sample_message)))"
proof (rule fix_peer_accepts [OF sample_message_ok])
  show "\<forall>f \<in> set (msg_fields sample_message). fst f \<notin> {BeginString, BodyLength, CheckSum} \<longrightarrow> no_checksum_text f"
    by code_simp
qed (simp_all add: sample_message_def FIX42Protocol_new_def)

end
