(* ===== verification/Fix42_Session.thy ===== *)
theory Fix42_Session
  imports Fix42_Wire
begin

text \<open>
  The session of \<open>fix42.cpp\<close> as a sequence of events: user calls, rounds of the heartbeat thread
  and rounds of the receive thread, each of them whole (\<open>Fix42_Threads\<close> interleaves the calls that
  send).  The event \<open>Deliver\<close> hands a message straight to
  \<open>processReceivedMessage\<close>; it is there because the receive loop itself never does.
\<close>

section \<open>Events\<close>

datatype 'd fix_event =
    Connect int bool bool string int
  | Disconnect
  | Logon bool
  | Logout string
  | LimitOrder string Side 'd int TimeInForce
  | Cancel string string Side 'd
  | HeartbeatRound
  | Receive recv_result
  | Deliver Message
  | SetHandlers bool bool

type_synonym 'd fix_state = "string \<times> 'd FIX42Protocol"

text \<open>The text pending in the receive thread is the first component of the state.\<close>

fun fix_step :: "'d doubles \<Rightarrow> environ \<Rightarrow> 'd fix_event \<Rightarrow> 'd fix_state \<Rightarrow> fault + 'd fix_state" where
  "fix_step dbl e (Connect sock addr_ok conn_ok h p) (pm, s) =
     sum_bind (connect sock addr_ok conn_ok h p s) (\<lambda>(_, s'). Inr (if is_connected s then pm else [], s'))"
| "fix_step dbl e Disconnect (pm, s) = Inr (pm, disconnect e s)"
| "fix_step dbl e (Logon h) (pm, s) = Inr (pm, logon e h s)"
| "fix_step dbl e (Logout r) (pm, s) = Inr (pm, logout e r s)"
| "fix_step dbl e (LimitOrder sy sd p q t) (pm, s) = Inr (pm, snd (sendLimitOrder dbl e sy sd p q t s))"
| "fix_step dbl e (Cancel i sy sd p) (pm, s) = Inr (pm, cancelOrder dbl e i sy sd p s)"
| "fix_step dbl e HeartbeatRound (pm, s) = Inr (pm, heartbeatLoop_round e s)"
| "fix_step dbl e (Receive r) (pm, s) =
     Inr (if is_connected s then snd (receiveLoop_round dbl e r (pm, s)) else (pm, s))"
| "fix_step dbl e (Deliver m) (pm, s) = Inr (pm, processReceivedMessage dbl e m s)"
| "fix_step dbl e (SetHandlers x c) (pm, s) =
     Inr (pm, setOnCancelRejectHandler c (setOnExecutionReportHandler x s))"

fun fix_run :: "'d doubles \<Rightarrow> (environ \<times> 'd fix_event) list \<Rightarrow> 'd fix_state \<Rightarrow> fault + 'd fix_state" where
  "fix_run dbl [] st = Inr st"
| "fix_run dbl ((e, ev) # evs) st = sum_bind (fix_step dbl e ev st) (fix_run dbl evs)"

section \<open>The receive loop\<close>

lemma deserialize_one_field:
  assumes "find_char SOH p = Some n"
  shows "length (msg_fields (snd (deserialize (take (Suc n) p)))) \<le> 1"
proof -
  note n = find_char_Some [OF assms]
  let ?t = "take n p"
  have t: "take (Suc n) p = ?t @ [SOH]" using n by (simp add: take_Suc_conv_app_nth)
  have "find_char SOH (?t @ [SOH]) = Some (length ?t)" using n by (intro find_char_append) blast
  then have "deserialize_loop (?t @ [SOH]) [] = deserialize_field ?t []"
    using n by (subst deserialize_loop.simps) (simp add: deserialize_loop.simps [of "[]"] min_def)
  moreover have "length (deserialize_field f []) \<le> 1" for f
    by (simp add: deserialize_field_def set_field_def split: option.splits sum.splits)
  ultimately show ?thesis by (simp add: deserialize_def Let_def t)
qed

lemma one_field_invalid: "length (msg_fields m) \<le> 1 \<Longrightarrow> \<not> validateMessage s m"
  by (cases "msg_fields m") (auto simp: validateMessage_def Let_def)

lemma receive_messages_idle: "snd (receive_messages dbl e p s) = s"
proof (induction dbl e p s rule: receive_messages.induct)
  case (1 dbl e p s)
  show ?case
  proof (cases "find_char SOH p")
    case None
    then show ?thesis by (simp add: receive_messages.simps)
  next
    case (Some n)
    obtain ok m where d: "deserialize (take (Suc n) p) = (ok, m)" by fastforce
    then have "\<not> validateMessage s m" using one_field_invalid [OF deserialize_one_field [OF Some]] by simp
    then show ?thesis using 1 [OF Some refl d [symmetric]] Some d by (subst receive_messages.simps) simp
  qed
qed

lemma receive_messages_rest: "SOH \<notin> set (fst (receive_messages dbl e p s))"
proof (induction dbl e p s rule: receive_messages.induct)
  case (1 dbl e p s)
  show ?case
  proof (cases "find_char SOH p")
    case None
    then show ?thesis using find_char_None [of SOH p] by (simp add: receive_messages.simps)
  next
    case (Some n)
    then show ?thesis using 1 by (subst receive_messages.simps) (auto split: prod.splits)
  qed
qed

section \<open>What each operation does to the outgoing side\<close>

lemma createBase_state: "snd (createBaseMessage e t s) = s\<lparr>sender_msg_seq_num := sender_msg_seq_num s + 1\<rparr>"
  by (simp add: createBaseMessage_def Let_def getNextSenderMsgSeqNum_def)

lemma createBase_fields:
  "ordered (<) (msg_fields (fst (createBaseMessage e t s)))"
  "map_of (msg_fields (fst (createBaseMessage e t s))) k =
     [BeginString \<mapsto> ''FIX.4.2'', SenderCompID \<mapsto> sender_comp_id s, TargetCompID \<mapsto> target_comp_id s,
      MsgSeqNum \<mapsto> to_string (uint (sender_msg_seq_num s)), SendingTime \<mapsto> sending_time (system_clock e),
      MsgType \<mapsto> messageTypeToString t] k"
  by (simp_all add: createBaseMessage_def Let_def getNextSenderMsgSeqNum_def set_field_def)

lemma add_field_simps:
  "ordered (<) (msg_fields m) \<Longrightarrow> ordered (<) (msg_fields (add_field t v m))"
  "ordered (<) (msg_fields m) \<Longrightarrow> map_of (msg_fields (add_field t v m)) k = (if k = t then Some v else map_of (msg_fields m) k)"
  by (simp_all add: add_field_def set_field_def ascending.map_put_ordered ascending.map_of_map_put)

lemma sendMessage_state: "snd (sendMessage e m s) = s \<or> snd (sendMessage e m s) = s\<lparr>sent := sent s @ [m]\<rparr>"
  by (simp add: sendMessage_def Let_def)

text \<open>
  One step of the outgoing side: no message, a number used up by a message that did not leave,
  or a message that carries the next number.
\<close>

definition advances :: "MessageType set \<Rightarrow> 'd FIX42Protocol \<Rightarrow> 'd FIX42Protocol \<Rightarrow> bool" where
  "advances ts s s' \<longleftrightarrow>
     (sent s' = sent s \<and> sender_msg_seq_num s' = sender_msg_seq_num s)
     \<or> sender_msg_seq_num s' = sender_msg_seq_num s + 1
        \<and> (sent s' = sent s
           \<or> (\<exists>m. sent s' = sent s @ [m]
                \<and> map_of (msg_fields m) MsgSeqNum = Some (to_string (uint (sender_msg_seq_num s)))
                \<and> (\<exists>t \<in> ts. map_of (msg_fields m) MsgType = Some (messageTypeToString t))))"

lemma advances_refl: "sent s' = sent s \<Longrightarrow> sender_msg_seq_num s' = sender_msg_seq_num s \<Longrightarrow> advances ts s s'"
  by (simp add: advances_def)

text \<open>Sending the base message with further fields that leave the number and the type alone.\<close>

definition base_with :: "environ \<Rightarrow> MessageType \<Rightarrow> 'd FIX42Protocol \<Rightarrow> Message \<Rightarrow> bool" where
  "base_with e t s m \<longleftrightarrow> ordered (<) (msg_fields m)
     \<and> map_of (msg_fields m) MsgSeqNum = Some (to_string (uint (sender_msg_seq_num s)))
     \<and> map_of (msg_fields m) MsgType = Some (messageTypeToString t)"

lemma base_with_base: "createBaseMessage e t s = (m, s1) \<Longrightarrow> base_with e t s m"
  using createBase_fields [of e t s] by (simp add: base_with_def)

lemma base_with_add: "base_with e t s m \<Longrightarrow> k \<noteq> MsgSeqNum \<Longrightarrow> k \<noteq> MsgType \<Longrightarrow> base_with e t s (add_field k v m)"
  by (simp add: base_with_def add_field_simps)

lemma send_advances:
  assumes "createBaseMessage e t s = (m0, s1)" and "base_with e t s m" and "t \<in> ts"
    and "sent s2 = sent s1" and "sender_msg_seq_num s2 = sender_msg_seq_num s1"
  shows "advances ts s (snd (sendMessage e m s2))"
proof -
  have "s1 = s\<lparr>sender_msg_seq_num := sender_msg_seq_num s + 1\<rparr>" using createBase_state [of e t s] assms(1) by simp
  then show ?thesis using sendMessage_state [of e m s2] assms(2-5) by (auto simp: advances_def base_with_def)
qed

lemma logon_advances: "advances {LOGON} s (logon e h s)"
proof (cases "is_connected s")
  case True
  obtain m s2 where c: "createBaseMessage e LOGON (s\<lparr>on_logon_handler := h\<rparr>) = (m, s2)" by fastforce
  from send_advances [OF c base_with_add [OF base_with_add [OF base_with_base [OF c]]], of HeartBtInt ResetSeqNumFlag "{LOGON}" s2]
  show ?thesis using True c by (simp add: logon_def advances_def)
qed (simp add: logon_def advances_refl)

lemma logout_advances: "advances {LOGOUT} s (logout e r s)"
proof (cases "is_connected s \<and> is_logged_on s")
  case True
  obtain m s2 where c: "createBaseMessage e LOGOUT s = (m, s2)" by fastforce
  from send_advances [OF c base_with_base [OF c], of "{LOGOUT}" s2]
    send_advances [OF c base_with_add [OF base_with_base [OF c]], of Text "{LOGOUT}" s2]
  show ?thesis using True c by (simp add: logout_def)
qed (auto simp: logout_def advances_refl)

lemma order_advances: "advances {NEW_ORDER_SINGLE} s (snd (sendLimitOrder dbl e sy sd p q t s))"
proof (cases "is_connected s \<and> is_logged_on s")
  case True
  obtain m s2 where c: "createBaseMessage e NEW_ORDER_SINGLE s = (m, s2)" by fastforce
  note b = base_with_base [OF c]
  show ?thesis using True c by (auto simp: sendLimitOrder_def Let_def case_prod_beta intro!: send_advances [OF c] base_with_add b)
qed (auto simp: sendLimitOrder_def advances_refl)

lemma cancel_advances: "advances {ORDER_CANCEL_REQUEST} s (cancelOrder dbl e i sy sd p s)"
proof (cases "is_connected s \<and> is_logged_on s")
  case True
  obtain m s2 where c: "createBaseMessage e ORDER_CANCEL_REQUEST s = (m, s2)" by fastforce
  note b = base_with_base [OF c]
  show ?thesis using True c by (auto simp: cancelOrder_def Let_def intro!: send_advances [OF c] base_with_add b)
qed (auto simp: cancelOrder_def advances_refl)

lemma heartbeat_advances: "advances {HEARTBEAT} s (sendHeartbeat e s)"
proof (cases "is_connected s \<and> is_logged_on s")
  case True
  obtain m s2 where c: "createBaseMessage e HEARTBEAT s = (m, s2)" by fastforce
  note b = base_with_base [OF c]
  show ?thesis using True c by (auto simp: sendHeartbeat_def Let_def intro!: send_advances [OF c] base_with_add b)
qed (auto simp: sendHeartbeat_def advances_refl)

lemma test_request_advances: "advances {HEARTBEAT} s (on_test_request e m s)"
proof (cases "map_of (msg_fields m) TestReqID")
  case (Some i)
  obtain b s2 where c: "createBaseMessage e HEARTBEAT (s\<lparr>last_test_request_id := i\<rparr>) = (b, s2)" by fastforce
  from send_advances [OF c base_with_add [OF base_with_base [OF c]], of TestReqID "{HEARTBEAT}" s2]
  show ?thesis using Some c by (simp add: on_test_request_def advances_def)
qed (simp add: on_test_request_def advances_refl)

lemma timers_sel [simp]:
  "sent (startHeartbeatTimer s) = sent s" "sender_msg_seq_num (startHeartbeatTimer s) = sender_msg_seq_num s"
  "sent (stopHeartbeatTimer s) = sent s" "sender_msg_seq_num (stopHeartbeatTimer s) = sender_msg_seq_num s"
  "is_logged_on (stopHeartbeatTimer s) = is_logged_on s"
  by (simp_all add: startHeartbeatTimer_def stopHeartbeatTimer_def)

lemma update_target_seq_sel [simp]:
  "sent (update_target_seq m s) = sent s" "sender_msg_seq_num (update_target_seq m s) = sender_msg_seq_num s"
  by (simp_all add: update_target_seq_def Let_def split: option.splits sum.splits)

lemma advances_mono: "advances ts s s' \<Longrightarrow> ts \<subseteq> ts' \<Longrightarrow> advances ts' s s'"
  by (auto simp: advances_def)

lemma process_advances: "advances {HEARTBEAT} s (processReceivedMessage dbl e m s)"
proof -
  have test: "advances {HEARTBEAT} s (on_test_request e m (update_target_seq m s))"
    using test_request_advances [of "update_target_seq m s" e m] by (simp add: advances_def)
  have "advances {HEARTBEAT} s (on_logon (update_target_seq m s))"
    by (rule advances_refl) (simp_all add: on_logon_def Let_def)
  moreover have "advances {HEARTBEAT} s (on_logout m (update_target_seq m s))"
    by (rule advances_refl) (simp_all add: on_logout_def Let_def)
  moreover have "advances {HEARTBEAT} s (on_execution_report dbl m (update_target_seq m s))"
    by (rule advances_refl) (simp_all add: on_execution_report_def Let_def)
  moreover have "advances {HEARTBEAT} s (on_cancel_reject m (update_target_seq m s))"
    by (rule advances_refl) (simp_all add: on_cancel_reject_def Let_def)
  moreover have "advances {HEARTBEAT} s (update_target_seq m s)" "advances {HEARTBEAT} s s"
    by (simp_all add: advances_refl)
  ultimately show ?thesis using test
    by (simp add: processReceivedMessage_def Let_def split: option.split MessageType.split)
qed

lemma disconnect_advances: "advances {LOGOUT} s (disconnect e s)"
  using logout_advances [of s e "''Disconnecting''"] by (simp add: disconnect_def Let_def advances_def)

lemma receive_round_state:
  "snd (receiveLoop_round dbl e r (pm, s)) = (pm', s') \<Longrightarrow> s' = s \<or> s' = s\<lparr>is_connected := False, is_logged_on := False\<rparr>"
  using receive_messages_idle [of dbl e _ s] by (cases r) (auto, metis snd_conv)

lemma connect_state:
  "connect sock a c h p s = Inr (b, s') \<Longrightarrow>
     sent s' = sent s \<and> sender_msg_seq_num s' = sender_msg_seq_num s \<and> is_logged_on s' = is_logged_on s"
  by (auto simp: connect_def Let_def split: if_splits)

lemma fix_step_advances:
  assumes "fix_step dbl e ev (pm, s) = Inr (pm', s')"
  shows "advances UNIV s s'"
proof (cases ev)
  case (Connect sock a c h p)
  then show ?thesis using assms connect_state [of sock a c h p s] by (auto simp: sum_bind_eq_Inr intro: advances_refl)
next
  case (Receive r)
  then show ?thesis using assms receive_round_state [of dbl e r pm s pm' s'] by (auto intro: advances_refl split: if_splits)
next
  case HeartbeatRound
  have "advances UNIV s (sendHeartbeat e s)" using heartbeat_advances by (rule advances_mono) simp
  moreover have "advances UNIV s s" by (simp add: advances_refl)
  ultimately show ?thesis using assms HeartbeatRound by (auto simp: heartbeatLoop_round_def)
next
  case (SetHandlers x c)
  then show ?thesis using assms
    by (auto simp: setOnCancelRejectHandler_def setOnExecutionReportHandler_def intro: advances_refl)
qed (use assms in \<open>auto intro: advances_mono [OF logon_advances] advances_mono [OF logout_advances]
    advances_mono [OF order_advances] advances_mono [OF cancel_advances] advances_mono [OF process_advances]
    advances_mono [OF disconnect_advances]\<close>)

section \<open>Runs\<close>

definition seq_inv :: "'d FIX42Protocol \<Rightarrow> bool" where
  "seq_inv s \<longleftrightarrow> (\<exists>ns. map (\<lambda>m. map_of (msg_fields m) MsgSeqNum) (sent s) = map (\<lambda>n. Some (to_string n)) ns
     \<and> sorted_wrt (<) ns \<and> (\<forall>n \<in> set ns. 1 \<le> n \<and> n < uint (sender_msg_seq_num s)))"

lemma uint_Suc_u32: "uint (w :: u32) + 1 < 4294967296 \<Longrightarrow> uint (w + 1) = uint w + 1"
  by (simp add: uint_word_ariths)

lemma seq_inv_advances:
  assumes "advances ts s s'" and "seq_inv s" and "1 \<le> uint (sender_msg_seq_num s)"
    and "uint (sender_msg_seq_num s) + 1 < 4294967296"
  shows "seq_inv s' \<and> uint (sender_msg_seq_num s') \<in> {uint (sender_msg_seq_num s), uint (sender_msg_seq_num s) + 1}"
proof -
  let ?k = "uint (sender_msg_seq_num s)"
  from assms(2) obtain ns where ns: "map (\<lambda>m. map_of (msg_fields m) MsgSeqNum) (sent s) = map (\<lambda>n. Some (to_string n)) ns"
    "sorted_wrt (<) ns" "\<forall>n \<in> set ns. 1 \<le> n \<and> n < ?k" unfolding seq_inv_def by blast
  have suc: "uint (sender_msg_seq_num s + 1) = ?k + 1" using assms(4) by (rule uint_Suc_u32)
  from assms(1) consider "sent s' = sent s" "sender_msg_seq_num s' = sender_msg_seq_num s"
    | "sent s' = sent s" "sender_msg_seq_num s' = sender_msg_seq_num s + 1"
    | m where "sent s' = sent s @ [m]" "sender_msg_seq_num s' = sender_msg_seq_num s + 1"
        "map_of (msg_fields m) MsgSeqNum = Some (to_string ?k)"
    unfolding advances_def by blast
  then show ?thesis
  proof cases
    case 3
    have "\<forall>n \<in> set (ns @ [?k]). 1 \<le> n \<and> n < ?k + 1" using ns(3) assms(3) by force
    moreover have "sorted_wrt (<) (ns @ [?k])" using ns(2,3) by (simp add: sorted_wrt_append)
    ultimately show ?thesis using ns(1) suc 3 unfolding seq_inv_def by (intro conjI exI [of _ "ns @ [?k]"]) simp_all
  qed (use ns suc in \<open>fastforce simp: seq_inv_def\<close>)+
qed

lemma fix_run_seq:
  assumes "fix_run dbl evs (pm, s) = Inr (pm', s')" and "seq_inv s" and "1 \<le> uint (sender_msg_seq_num s)"
    and "uint (sender_msg_seq_num s) + int (length evs) < 4294967296"
  shows "seq_inv s'"
  using assms
proof (induction evs arbitrary: pm s)
  case (Cons p evs)
  obtain e ev where p: "p = (e, ev)" by fastforce
  from Cons.prems p obtain pm1 s1 where st: "fix_step dbl e ev (pm, s) = Inr (pm1, s1)"
    "fix_run dbl evs (pm1, s1) = Inr (pm', s')" by (auto simp: sum_bind_eq_Inr)
  have "uint (sender_msg_seq_num s) + 1 < 4294967296" using Cons.prems(4) by simp
  from seq_inv_advances [OF fix_step_advances [OF st(1)] Cons.prems(2,3) this] Cons.prems(3,4)
  show ?case by (intro Cons.IH [OF st(2)]) auto
qed simp

lemma quiet_step:
  assumes "fix_step dbl e ev (pm, s) = Inr (pm', s')" and "\<not> is_logged_on s" and "\<forall>m. ev \<noteq> Deliver m"
  shows "\<not> is_logged_on s' \<and> advances {LOGON} s s'"
proof (cases ev)
  case (Connect sock a c h p)
  then show ?thesis using assms connect_state [of sock a c h p s] by (auto simp: sum_bind_eq_Inr intro: advances_refl)
next
  case (Logon h)
  then have "s' = logon e h s" using assms by simp
  moreover have "is_logged_on (logon e h s) = is_logged_on s"
  proof -
    let ?s = "s\<lparr>on_logon_handler := h\<rparr>"
    obtain m s2 where c: "createBaseMessage e LOGON ?s = (m, s2)" by fastforce
    then have "is_logged_on s2 = is_logged_on s" using createBase_state [of e LOGON ?s] by simp
    moreover have "is_logged_on (snd (sendMessage e m' s2)) = is_logged_on s2" for m'
      using sendMessage_state [of e m' s2] by auto
    ultimately show ?thesis using c by (simp add: logon_def)
  qed
  ultimately show ?thesis using logon_advances assms(2) by auto
next
  case (Receive r)
  then show ?thesis using assms receive_round_state [of dbl e r pm s pm' s'] by (auto intro: advances_refl split: if_splits)
next
  case Disconnect
  then show ?thesis using assms by (auto simp: disconnect_def Let_def advances_refl split: if_splits)
qed (use assms in \<open>auto simp: logout_def sendLimitOrder_def cancelOrder_def heartbeatLoop_round_def
    setOnCancelRejectHandler_def setOnExecutionReportHandler_def intro: advances_refl\<close>)

definition logons_only :: "'d FIX42Protocol \<Rightarrow> bool" where
  "logons_only s \<longleftrightarrow> \<not> is_logged_on s \<and> (\<forall>m \<in> set (sent s). map_of (msg_fields m) MsgType = Some ''A'')"

lemma fix_run_quiet:
  assumes "fix_run dbl evs (pm, s) = Inr (pm', s')" and "logons_only s" and "\<forall>m. Deliver m \<notin> snd ` set evs"
  shows "logons_only s'"
  using assms
proof (induction evs arbitrary: pm s)
  case (Cons p evs)
  obtain e ev where p: "p = (e, ev)" by fastforce
  from Cons.prems p obtain pm1 s1 where st: "fix_step dbl e ev (pm, s) = Inr (pm1, s1)"
    "fix_run dbl evs (pm1, s1) = Inr (pm', s')" by (auto simp: sum_bind_eq_Inr)
  have "\<not> is_logged_on s1 \<and> advances {LOGON} s s1"
    using quiet_step [OF st(1)] Cons.prems(2,3) p by (auto simp: logons_only_def)
  then have "logons_only s1" using Cons.prems(2) by (auto simp: logons_only_def advances_def)
  then show ?case using Cons.IH [OF st(2)] Cons.prems(3) by simp
qed simp

section \<open>Properties\<close>

text \<open>
  While no two calls overlap, the messages that left carry strictly increasing sequence numbers
  from 1 on, all below the next number to be used.  \<open>Fix42_Threads\<close> states what is left of this
  when calls of several threads overlap.  The run is shorter than the 32-bit counter.
\<close>

theorem fix_sequence_numbers:
  assumes "fix_run dbl evs ([], FIX42Protocol_new snd_id tgt_id hb) = Inr (pm, s)" and "length evs < 4294967295"
  shows "\<exists>ns. map (\<lambda>m. map_of (msg_fields m) MsgSeqNum) (sent s) = map (\<lambda>n. Some (to_string n)) ns
     \<and> sorted_wrt (<) ns \<and> (\<forall>n \<in> set ns. 1 \<le> n \<and> n < uint (sender_msg_seq_num s))"
proof -
  let ?s = "FIX42Protocol_new snd_id tgt_id hb :: 'a FIX42Protocol"
  have "seq_inv ?s" "uint (sender_msg_seq_num ?s) = 1" by (simp_all add: seq_inv_def FIX42Protocol_new_def)
  then show ?thesis using fix_run_seq [OF assms(1)] assms(2) by (simp add: seq_inv_def)
qed

definition sample_env :: environ where
  "sample_env = \<lparr>system_clock = \<lparr>year = 2024, month = 1, day = 2, hour = 3, minute = 4, second = 5, millis = 6\<rparr>,
     high_resolution_clock = 77, send_result = (\<lambda>raw. int (length raw))\<rparr>"

definition sample_doubles :: "unit doubles" where
  "sample_doubles = \<lparr>double_text = (\<lambda>_. ''0.000000''), stod = (\<lambda>_. Some ()), double_zero = ()\<rparr>"

definition sample_events :: "(environ \<times> unit fix_event) list" where
  "sample_events = [(sample_env, Connect 3 True True ''127.0.0.1'' 5001), (sample_env, Logon True),
     (sample_env, Deliver \<lparr>msg_fields = [(35, ''A'')], raw_data = []\<rparr>),
     (sample_env, LimitOrder ''AAPL'' BUY () 100 DAY)]"

theorem fix_sequence_numbers_witness:
  "\<exists>pm s. fix_run sample_doubles sample_events ([], FIX42Protocol_new ''C'' ''S'' 30) = Inr (pm, s)
     \<and> length (sent s) = 2
     \<and> (\<exists>ns. map (\<lambda>m. map_of (msg_fields m) MsgSeqNum) (sent s) = map (\<lambda>n. Some (to_string n)) ns \<and> sorted_wrt (<) ns)"
proof -
  let ?r = "fix_run sample_doubles sample_events ([], FIX42Protocol_new ''C'' ''S'' 30)"
  have "case ?r of Inl _ \<Rightarrow> False | Inr (pm, s) \<Rightarrow> length (sent s) = 2" by code_simp
  then obtain pm s where r: "?r = Inr (pm, s)" "length (sent s) = 2" by (auto split: sum.splits prod.splits)
  have "length sample_events < 4294967295" by (simp add: sample_events_def)
  from fix_sequence_numbers [OF r(1) this] r show ?thesis by blast
qed

text \<open>
  C7.  The receive loop cuts its input at every separator, so no complete message ever reaches the
  validation: whatever bytes the counterparty sends, in whatever pieces, the session is never
  logged on and the only messages that ever leave are logons.  No order can be sent.
\<close>

theorem fix_client_never_trades:
  assumes "fix_run dbl evs ([], FIX42Protocol_new snd_id tgt_id hb) = Inr (pm, s)"
    and "\<forall>m. Deliver m \<notin> snd ` set evs"
  shows "\<not> is_logged_on s \<and> (\<forall>m \<in> set (sent s). map_of (msg_fields m) MsgType = Some (messageTypeToString LOGON))"
  using fix_run_quiet [OF assms(1) _ assms(2)] by (simp add: logons_only_def FIX42Protocol_new_def)

definition quiet_events :: "(environ \<times> unit fix_event) list" where
  "quiet_events = [(sample_env, Connect 3 True True ''127.0.0.1'' 5001), (sample_env, Logon True),
     (sample_env, Receive (Data (''35=A'' @ [SOH] @ ''10=''))), (sample_env, LimitOrder ''AAPL'' BUY () 100 DAY)]"

theorem fix_client_never_trades_witness:
  "\<exists>pm s. fix_run sample_doubles quiet_events ([], FIX42Protocol_new ''SERVER'' ''CLIENT'' 30) = Inr (pm, s)
     \<and> length (sent s) = 1 \<and> \<not> is_logged_on s"
proof -
  let ?r = "fix_run sample_doubles quiet_events ([], FIX42Protocol_new ''SERVER'' ''CLIENT'' 30)"
  have "case ?r of Inl _ \<Rightarrow> False | Inr (pm, s) \<Rightarrow> length (sent s) = 1" by code_simp
  then obtain pm s where r: "?r = Inr (pm, s)" "length (sent s) = 1" by (auto split: sum.splits prod.splits)
  have "\<forall>m. Deliver m \<notin> snd ` set quiet_events" by (simp add: quiet_events_def)
  from fix_client_never_trades [OF r(1) this] r show ?thesis by blast
qed

text \<open>
  After the counterparty has closed the connection, \<open>disconnect\<close> returns without joining the
  receive thread and a second \<open>connect\<close> that reaches the server aborts the process.
\<close>

theorem fix_reconnect_aborts:
  assumes "0 \<le> sock" and "0 \<le> sock'"
  shows "fix_run dbl [(e1, Connect sock True True h p), (e2, Receive ClosedOrError), (e3, Disconnect),
      (e4, Connect sock' True True h' p')] ([], FIX42Protocol_new snd_id tgt_id hb) = Inl AssertFailed"
  using assms by (simp add: connect_def FIX42Protocol_new_def Let_def disconnect_def)

theorem fix_reconnect_aborts_witness:
  "fix_run sample_doubles [(sample_env, Connect 3 True True ''h'' 1), (sample_env, Receive ClosedOrError),
     (sample_env, Disconnect), (sample_env, Connect 4 True True ''h'' 1)]
     ([], FIX42Protocol_new ''C'' ''S'' 30) = Inl AssertFailed"
  by (rule fix_reconnect_aborts) simp_all

text \<open>
  A test request is answered: a delivered test request with an id, on a connection whose
  \<open>send\<close> takes the whole message, makes one heartbeat leave that carries this id, the company ids
  of the session and the next sequence number.
\<close>

theorem fix_test_request_answered:
  assumes "map_of (msg_fields m) MsgType = Some ''1''" and "map_of (msg_fields m) TestReqID = Some i"
    and "is_connected s" and "\<forall>raw. send_result e raw = int (length raw)"
  shows "\<exists>h. sent (processReceivedMessage dbl e m s) = sent s @ [h]
    \<and> map_of (msg_fields h) TestReqID = Some i
    \<and> map_of (msg_fields h) MsgType = Some (messageTypeToString HEARTBEAT)
    \<and> map_of (msg_fields h) MsgSeqNum = Some (to_string (uint (sender_msg_seq_num s)))
    \<and> map_of (msg_fields h) SenderCompID = Some (sender_comp_id s)
    \<and> map_of (msg_fields h) TargetCompID = Some (target_comp_id s)"
proof -
  let ?s1 = "update_target_seq m s"
  let ?s2 = "?s1\<lparr>last_test_request_id := i\<rparr>"
  obtain b s3 where c: "createBaseMessage e HEARTBEAT ?s2 = (b, s3)" by fastforce
  then have s3: "s3 = ?s2\<lparr>sender_msg_seq_num := sender_msg_seq_num ?s2 + 1\<rparr>"
    using createBase_state [of e HEARTBEAT ?s2] by simp
  have keep: "is_connected ?s1 = is_connected s" "sender_comp_id ?s1 = sender_comp_id s" "target_comp_id ?s1 = target_comp_id s"
    by (simp_all add: update_target_seq_def Let_def split: option.splits sum.splits)
  have p: "processReceivedMessage dbl e m s = on_test_request e m ?s1"
    using assms(1) by (simp add: processReceivedMessage_def has_field_def field_or_def stringToMessageType_def)
  have "sent (on_test_request e m ?s1) = sent s @ [add_field TestReqID i b]"
    using assms(2-4) c keep(1) s3 by (simp add: on_test_request_def sendMessage_def)
  moreover note createBase_fields [of e HEARTBEAT ?s2, unfolded c fst_conv]
  ultimately show ?thesis using keep(2,3) p by (simp add: add_field_simps)
qed

theorem fix_test_request_answered_witness:
  "\<exists>h. sent (processReceivedMessage sample_doubles sample_env \<lparr>msg_fields = [(35, ''1''), (112, ''T1'')], raw_data = []\<rparr>
        ((FIX42Protocol_new ''C'' ''S'' 30)\<lparr>is_connected := True\<rparr>)) = [h]
     \<and> map_of (msg_fields h) TestReqID = Some ''T1'' \<and> map_of (msg_fields h) SenderCompID = Some ''C''"
  using fix_test_request_answered [of "\<lparr>msg_fields = [(35, ''1''), (112, ''T1'')], raw_data = []\<rparr>" "''T1''"
      "(FIX42Protocol_new ''C'' ''S'' 30)\<lparr>is_connected := True\<rparr>" sample_env sample_doubles]
  by (auto simp: FIX42Protocol_new_def sample_env_def)

end
