(* ===== verification/Fix42_Threads.thy ===== *)
theory Fix42_Threads
  imports Fix42_Session "HOL-Library.Multiset"
begin

text \<open>
  The senders of \<open>fix42.cpp\<close> as threads.  User calls, the heartbeat thread and the receive thread
  send through one object, and only \<open>getNextSenderMsgSeqNum\<close> takes the mutex: between the guard of a
  call, the fetch of the number, the test of \<open>is_connected_\<close> in \<open>sendMessage\<close> and the \<open>send\<close> itself
  any other thread may run.  So each call is four steps here, and a run is any interleaving of the
  steps of any number of threads.
\<close>

section \<open>The calls that send\<close>

datatype 'd send_op =
    SendLogon bool
  | SendLogout string
  | SendOrder string Side 'd int TimeInForce
  | SendCancel string string Side 'd
  | SendBeat
  | SendReply string

text \<open>The guard with which each call begins.\<close>

fun op_ready :: "'d send_op \<Rightarrow> 'd FIX42Protocol \<Rightarrow> bool" where
  "op_ready (SendLogon h) s = is_connected s"
| "op_ready (SendReply i) s = True"
| "op_ready _ s = (is_connected s \<and> is_logged_on s)"

text \<open>
  From the guard to the call of \<open>sendMessage\<close>: the message is built on the thread's own stack, so
  that the fetch of the number is its only step that other threads see.
\<close>

fun op_fetch :: "'d doubles \<Rightarrow> environ \<Rightarrow> 'd send_op \<Rightarrow> 'd FIX42Protocol \<Rightarrow> Message \<times> 'd FIX42Protocol" where
  "op_fetch dbl e (SendLogon h) s =
     (let (msg, s1) = createBaseMessage e LOGON (s\<lparr>on_logon_handler := h\<rparr>)
      in (add_field ResetSeqNumFlag ''Y'' (add_field HeartBtInt (to_string (heartbt_int s1)) msg), s1))"
| "op_fetch dbl e (SendLogout reason) s =
     (let (msg, s1) = createBaseMessage e LOGOUT s
      in (if reason \<noteq> [] then add_field Text reason msg else msg, s1))"
| "op_fetch dbl e (SendOrder symbol side price quantity tif) s =
     (let (msg, s1) = createBaseMessage e NEW_ORDER_SINGLE s;
          msg1 = add_field ClOrdID (''ORD'' @ to_string (high_resolution_clock e)) msg;
          msg2 = add_field SideTag (sideToString side) (add_field Symbol symbol msg1);
          msg3 = add_field Price (double_text dbl price) (add_field OrdTypeTag (ordTypeToString LIMIT) msg2)
      in (add_field TimeInForceTag (timeInForceToString tif) (add_field OrderQty (to_string quantity) msg3), s1))"
| "op_fetch dbl e (SendCancel order_id symbol side price) s =
     (let (msg, s1) = createBaseMessage e ORDER_CANCEL_REQUEST s;
          msg1 = add_field ClOrdID (''CAN'' @ to_string (high_resolution_clock e)) (add_field OrigClOrdID order_id msg);
          msg2 = add_field SideTag (sideToString side) (add_field Symbol symbol msg1)
      in (add_field Price (double_text dbl price) msg2, s1))"
| "op_fetch dbl e SendBeat s =
     (let (msg, s1) = createBaseMessage e HEARTBEAT s
      in if last_test_request_id s1 \<noteq> []
         then (add_field TestReqID (last_test_request_id s1) msg, s1\<lparr>last_test_request_id := []\<rparr>)
         else (msg, s1))"
| "op_fetch dbl e (SendReply i) s =
     (let (msg, s1) = createBaseMessage e HEARTBEAT (s\<lparr>last_test_request_id := i\<rparr>)
      in (add_field TestReqID (last_test_request_id s1) msg, s1))"

text \<open>Without interference the pieces are the functions of \<open>Fix42\<close>.\<close>

fun op_whole :: "'d doubles \<Rightarrow> environ \<Rightarrow> 'd send_op \<Rightarrow> 'd FIX42Protocol \<Rightarrow> 'd FIX42Protocol" where
  "op_whole dbl e (SendLogon h) s = logon e h s"
| "op_whole dbl e (SendLogout r) s = logout e r s"
| "op_whole dbl e (SendOrder sy sd p q t) s = snd (sendLimitOrder dbl e sy sd p q t s)"
| "op_whole dbl e (SendCancel i sy sd p) s = cancelOrder dbl e i sy sd p s"
| "op_whole dbl e SendBeat s = sendHeartbeat e s"
| "op_whole dbl e (SendReply i) s = on_test_request e (add_field TestReqID i \<lparr>msg_fields = [], raw_data = []\<rparr>) s"

lemma op_split:
  assumes "op_ready a s"
  shows "op_whole dbl e a s = snd (sendMessage e (fst (op_fetch dbl e a s)) (snd (op_fetch dbl e a s)))"
  using assms
  by (cases a) (auto simp: logon_def logout_def sendLimitOrder_def cancelOrder_def sendHeartbeat_def
      on_test_request_def add_field_def set_field_def Let_def split: prod.splits)

section \<open>Threads\<close>

datatype 'd phase =
    Ready
  | Checked "'d send_op"
  | Holding int Message
  | Sending int Message

text \<open>
  What happens besides: connecting, the end of \<open>disconnect\<close>, a lost connection, a message handed
  to \<open>processReceivedMessage\<close> (the reply to a test request is a call of its own) and new handlers.
\<close>

datatype quiet_op =
    Connects int bool bool string int
  | HangUp
  | LinkLost
  | Process Message
  | Handlers bool bool

fun quiet_apply :: "'d doubles \<Rightarrow> environ \<Rightarrow> quiet_op \<Rightarrow> 'd FIX42Protocol \<Rightarrow> fault + 'd FIX42Protocol" where
  "quiet_apply dbl e (Connects sock a c h p) s = sum_bind (connect sock a c h p s) (\<lambda>(_, s'). Inr s')"
| "quiet_apply dbl e HangUp s =
     Inr ((stopHeartbeatTimer s)\<lparr>is_connected := False, socket_fd := - 1, receive_thread := False\<rparr>)"
| "quiet_apply dbl e LinkLost s = Inr (s\<lparr>is_connected := False, is_logged_on := False\<rparr>)"
| "quiet_apply dbl e (Process m) s =
     Inr (if stringToMessageType (field_or [] MsgType m) = Some TEST_REQUEST then update_target_seq m s
          else processReceivedMessage dbl e m s)"
| "quiet_apply dbl e (Handlers x c) s = Inr (setOnCancelRejectHandler c (setOnExecutionReportHandler x s))"

datatype 'd thread_event = Check "'d send_op" | Fetch | TestLink | Send | Quiet quiet_op

text \<open>
  The log \<open>left\<close> holds, for every message on the wire, the thread that sent it and the number it
  had fetched; \<open>lost\<close> holds the numbers of messages that did not leave.
\<close>

record 'd fix_threads =
  sess :: "'d FIX42Protocol"
  phases :: "'d phase list"
  left :: "(nat \<times> int) list"
  lost :: "int list"

definition enter :: "nat \<Rightarrow> 'd phase \<Rightarrow> 'd fix_threads \<Rightarrow> 'd fix_threads" where
  "enter i p t = t\<lparr>phases := (phases t)[i := p]\<rparr>"

definition thread_check :: "nat \<Rightarrow> 'd send_op \<Rightarrow> 'd fix_threads \<Rightarrow> 'd fix_threads" where
  "thread_check i a t = (if op_ready a (sess t) then enter i (Checked a) t else t)"

definition thread_fetch :: "'d doubles \<Rightarrow> environ \<Rightarrow> nat \<Rightarrow> 'd send_op \<Rightarrow> 'd fix_threads \<Rightarrow> 'd fix_threads" where
  "thread_fetch dbl e i a t =
     (let n = uint (sender_msg_seq_num (sess t)); (m, s) = op_fetch dbl e a (sess t)
      in enter i (Holding n m) (t\<lparr>sess := s\<rparr>))"

definition thread_test :: "nat \<Rightarrow> int \<Rightarrow> Message \<Rightarrow> 'd fix_threads \<Rightarrow> 'd fix_threads" where
  "thread_test i n m t =
     (if is_connected (sess t) then enter i (Sending n m) t else enter i Ready (t\<lparr>lost := lost t @ [n]\<rparr>))"

definition thread_send :: "environ \<Rightarrow> nat \<Rightarrow> int \<Rightarrow> Message \<Rightarrow> 'd fix_threads \<Rightarrow> 'd fix_threads" where
  "thread_send e i n m t =
     (if send_result e (serialize m) \<noteq> int (length (serialize m)) then enter i Ready (t\<lparr>lost := lost t @ [n]\<rparr>)
      else enter i Ready (t\<lparr>sess := (sess t)\<lparr>sent := sent (sess t) @ [m]\<rparr>, left := left t @ [(i, n)]\<rparr>))"

fun thread_step :: "'d doubles \<Rightarrow> environ \<Rightarrow> nat \<Rightarrow> 'd thread_event \<Rightarrow> 'd fix_threads \<Rightarrow> fault + 'd fix_threads" where
  "thread_step dbl e i ev t =
     (if length (phases t) \<le> i then Inr t
      else case (ev, phases t ! i) of
        (Check a, Ready) \<Rightarrow> Inr (thread_check i a t)
      | (Fetch, Checked a) \<Rightarrow> Inr (thread_fetch dbl e i a t)
      | (TestLink, Holding n m) \<Rightarrow> Inr (thread_test i n m t)
      | (Send, Sending n m) \<Rightarrow> Inr (thread_send e i n m t)
      | (Quiet q, Ready) \<Rightarrow> sum_bind (quiet_apply dbl e q (sess t)) (\<lambda>s. Inr (t\<lparr>sess := s\<rparr>))
      | _ \<Rightarrow> Inr t)"

declare thread_step.simps [simp del]

fun thread_run :: "'d doubles \<Rightarrow> (environ \<times> nat \<times> 'd thread_event) list \<Rightarrow> 'd fix_threads \<Rightarrow> fault + 'd fix_threads" where
  "thread_run dbl [] t = Inr t"
| "thread_run dbl ((e, i, ev) # evs) t = sum_bind (thread_step dbl e i ev t) (thread_run dbl evs)"

definition fix_threads_new :: "nat \<Rightarrow> string \<Rightarrow> string \<Rightarrow> int \<Rightarrow> 'd fix_threads" where
  "fix_threads_new k snd_id tgt_id hb =
     \<lparr>sess = FIX42Protocol_new snd_id tgt_id hb, phases = replicate k Ready, left = [], lost = []\<rparr>"

text \<open>A thread that no other interrupts does what the function of \<open>Fix42\<close> does.\<close>

lemma thread_alone:
  assumes "i < length (phases t)" and "phases t ! i = Ready" and "op_ready a (sess t)"
  shows "\<exists>t'. thread_run dbl [(e, i, Check a), (e, i, Fetch), (e, i, TestLink), (e, i, Send)] t = Inr t'
    \<and> sess t' = op_whole dbl e a (sess t) \<and> phases t' ! i = Ready"
  using assms
  by (cases "op_fetch dbl e a (sess t)")
     (simp add: thread_step.simps thread_check_def thread_fetch_def thread_test_def thread_send_def enter_def
       op_split sendMessage_def Let_def)

section \<open>The numbers\<close>

definition msg_num :: "Message \<Rightarrow> string option" where
  "msg_num m = map_of (msg_fields m) MsgSeqNum"

fun phase_nums :: "'d phase \<Rightarrow> int list" where
  "phase_nums (Holding n m) = [n]"
| "phase_nums (Sending n m) = [n]"
| "phase_nums _ = []"

fun phase_ok :: "'d phase \<Rightarrow> bool" where
  "phase_ok (Holding n m) = (msg_num m = Some (to_string n))"
| "phase_ok (Sending n m) = (msg_num m = Some (to_string n))"
| "phase_ok _ = True"

text \<open>The numbers that threads hold at the moment, and the numbers that one thread has sent.\<close>

definition held :: "'d fix_threads \<Rightarrow> int list" where
  "held t = concat (map phase_nums (phases t))"

definition own :: "nat \<Rightarrow> (nat \<times> int) list \<Rightarrow> int list" where
  "own i l = map snd (filter (\<lambda>(j, n). j = i) l)"

lemma own_simps [simp]: "own i [] = []" "own i (l @ [(j, n)]) = (if j = i then own i l @ [n] else own i l)"
  by (simp_all add: own_def)

lemma own_subset: "n \<in> set (own i l) \<Longrightarrow> n \<in> snd ` set l"
  by (auto simp: own_def)

lemma mset_concat_update:
  "i < length xs \<Longrightarrow> mset (concat (map f (xs[i := y]))) + mset (f (xs ! i)) = mset (concat (map f xs)) + mset (f y)"
  by (induction xs arbitrary: i) (auto simp: ac_simps nth_Cons split: nat.splits)

definition next_num :: "'d fix_threads \<Rightarrow> int" where
  "next_num t = uint (sender_msg_seq_num (sess t))"

definition threads_inv :: "'d fix_threads \<Rightarrow> bool" where
  "threads_inv t \<longleftrightarrow>
     map msg_num (sent (sess t)) = map (\<lambda>(i, n). Some (to_string n)) (left t)
     \<and> mset (map snd (left t)) + mset (lost t) + mset (held t) = mset [1..next_num t - 1]
     \<and> (\<forall>i. sorted_wrt (<) (own i (left t)))
     \<and> (\<forall>i < length (phases t). phase_ok (phases t ! i)
          \<and> (\<forall>n \<in> set (phase_nums (phases t ! i)). \<forall>k \<in> set (own i (left t)). k < n))
     \<and> 1 \<le> next_num t"

lemma op_fetch_num:
  assumes "op_fetch dbl e a s = (m, s1)"
  shows "msg_num m = Some (to_string (uint (sender_msg_seq_num s)))"
    and "sender_msg_seq_num s1 = sender_msg_seq_num s + 1" and "sent s1 = sent s"
proof -
  have b: "map_of (msg_fields b) MsgSeqNum = Some (to_string (uint (sender_msg_seq_num u)))
      \<and> ordered (<) (msg_fields b) \<and> u1 = u\<lparr>sender_msg_seq_num := sender_msg_seq_num u + 1\<rparr>"
    if "createBaseMessage e ty u = (b, u1)" for ty u b u1
    using createBase_fields [of e ty u] createBase_state [of e ty u] that by simp
  have "msg_num m = Some (to_string (uint (sender_msg_seq_num s)))
      \<and> sender_msg_seq_num s1 = sender_msg_seq_num s + 1 \<and> sent s1 = sent s"
    using assms by (cases a) (auto simp: msg_num_def add_field_simps dest!: b split: prod.splits if_splits)
  then show "msg_num m = Some (to_string (uint (sender_msg_seq_num s)))"
    "sender_msg_seq_num s1 = sender_msg_seq_num s + 1" "sent s1 = sent s" by blast+
qed

lemma quiet_keeps:
  assumes "quiet_apply dbl e q s = Inr s'"
  shows "sent s' = sent s \<and> sender_msg_seq_num s' = sender_msg_seq_num s"
proof (cases q)
  case (Process m)
  have "sent (processReceivedMessage dbl e m s) = sent s
      \<and> sender_msg_seq_num (processReceivedMessage dbl e m s) = sender_msg_seq_num s"
    if "stringToMessageType (field_or [] MsgType m) \<noteq> Some TEST_REQUEST"
    using that by (auto simp: processReceivedMessage_def on_logon_def on_logout_def on_execution_report_def
        on_cancel_reject_def Let_def split: option.split MessageType.split)
  then show ?thesis using assms Process by (auto split: if_splits)
qed (use assms in \<open>auto simp: sum_bind_eq_Inr setOnCancelRejectHandler_def setOnExecutionReportHandler_def
    dest: connect_state\<close>)

text \<open>
  A step that changes the phase of one thread: the entry of that thread in the account of numbers
  is replaced, those of the others stay.
\<close>

lemma held_enter:
  assumes "i < length (phases t)"
  shows "mset (held (enter i p t)) + mset (phase_nums (phases t ! i)) = mset (held t) + mset (phase_nums p)"
  using mset_concat_update [OF assms, of phase_nums p] by (simp add: held_def enter_def)

lemma held_sess [simp]:
  "held (t\<lparr>sess := s\<rparr>) = held t" "held (t\<lparr>lost := l\<rparr>) = held t" "held (t\<lparr>left := w\<rparr>) = held t"
  by (simp_all add: held_def)

lemma enter_sel [simp]:
  "sess (enter i p t) = sess t" "left (enter i p t) = left t" "lost (enter i p t) = lost t"
  "phases (enter i p t) = (phases t)[i := p]" "next_num (enter i p t) = next_num t"
  by (simp_all add: enter_def next_num_def)

lemma next_num_sel [simp]: "next_num (t\<lparr>lost := l\<rparr>) = next_num t" "next_num (t\<lparr>left := w\<rparr>) = next_num t"
  by (simp_all add: next_num_def)

lemma account_below:
  assumes "threads_inv t"
  shows "n \<in> set (own i (left t)) \<Longrightarrow> n < next_num t" and "n \<in> snd ` set (left t) \<Longrightarrow> 1 \<le> n \<and> n < next_num t"
proof -
  have "set_mset (mset (map snd (left t)) + mset (lost t) + mset (held t)) = {1..next_num t - 1}"
    using assms by (simp add: threads_inv_def)
  then have "n \<in> snd ` set (left t) \<Longrightarrow> n \<in> {1..next_num t - 1}" for n by auto
  then show "n \<in> snd ` set (left t) \<Longrightarrow> 1 \<le> n \<and> n < next_num t" "n \<in> set (own i (left t)) \<Longrightarrow> n < next_num t"
    using own_subset [of n i "left t"] by force+
qed

lemma inv_lose:
  assumes "threads_inv t" and "i < length (phases t)" and "phase_nums (phases t ! i) = [n]"
  shows "threads_inv (enter i Ready (t\<lparr>lost := lost t @ [n]\<rparr>))"
proof -
  let ?t = "t\<lparr>lost := lost t @ [n]\<rparr>"
  have "mset (held t) = add_mset n (mset (held (enter i Ready ?t)))"
    using held_enter [of i ?t Ready] assms(2,3) by simp
  then show ?thesis using assms by (auto simp: threads_inv_def nth_list_update ac_simps)
qed

lemma inv_move:
  assumes "threads_inv t" and "i < length (phases t)" and "phase_nums (phases t ! i) = phase_nums p"
    and "phase_ok p"
  shows "threads_inv (enter i p t)"
  using assms held_enter [of i t p] by (auto simp: threads_inv_def nth_list_update)

lemma inv_fetch:
  assumes inv: "threads_inv t" and i: "i < length (phases t)" "phase_nums (phases t ! i) = []"
    and f: "op_fetch dbl e a (sess t) = (m, s)" and small: "next_num t + 1 < 4294967296"
  shows "threads_inv (thread_fetch dbl e i a t) \<and> next_num (thread_fetch dbl e i a t) = next_num t + 1"
proof -
  let ?n = "next_num t"
  let ?t = "t\<lparr>sess := s\<rparr>"
  note num = op_fetch_num [OF f]
  have nxt: "next_num ?t = ?n + 1" using num(2) small uint_Suc_u32 by (simp add: next_num_def)
  have "1 \<le> ?n" using inv by (simp add: threads_inv_def)
  then have "mset [1..?n] = mset [1..?n - 1] + {#?n#}" using upto_rec2 [of 1 ?n] by simp
  moreover have "mset (held (enter i (Holding ?n m) ?t)) = mset (held t) + {#?n#}"
    using held_enter [of i ?t "Holding ?n m"] i by simp
  ultimately have "threads_inv (enter i (Holding ?n m) ?t)"
    using inv nxt num account_below(1) [OF inv] i(1)
    by (auto simp: threads_inv_def nth_list_update next_num_def)
  then show ?thesis using nxt f by (simp add: thread_fetch_def next_num_def)
qed

lemma inv_send:
  assumes inv: "threads_inv t" and i: "i < length (phases t)" "phases t ! i = Sending n m"
  shows "threads_inv (enter i Ready (t\<lparr>sess := (sess t)\<lparr>sent := sent (sess t) @ [m]\<rparr>, left := left t @ [(i, n)]\<rparr>))"
proof -
  let ?t = "t\<lparr>sess := (sess t)\<lparr>sent := sent (sess t) @ [m]\<rparr>, left := left t @ [(i, n)]\<rparr>"
  have t: "phase_ok (Sending n m :: 'a phase)" "\<forall>k \<in> set (own i (left t)). k < n"
    using inv i unfolding threads_inv_def by force+
  have "mset (held t) = add_mset n (mset (held (enter i Ready ?t)))"
    using held_enter [of i ?t Ready] i by simp
  moreover have "next_num ?t = next_num t" by (simp add: next_num_def)
  moreover have "sorted_wrt (<) (own j (left t @ [(i, n)]))" for j
    using t(2) inv by (auto simp: threads_inv_def sorted_wrt_append)
  ultimately show ?thesis using inv t(1) i by (auto simp: threads_inv_def nth_list_update ac_simps)
qed

lemma thread_step_cases:
  assumes "thread_step dbl e i ev t = Inr t'" and "i < length (phases t)"
  shows "(\<exists>a. phases t ! i = Ready \<and> t' = thread_check i a t)
    \<or> (\<exists>a. phases t ! i = Checked a \<and> t' = thread_fetch dbl e i a t)
    \<or> (\<exists>n m. phases t ! i = Holding n m \<and> t' = thread_test i n m t)
    \<or> (\<exists>n m. phases t ! i = Sending n m \<and> t' = thread_send e i n m t)
    \<or> (\<exists>q s. quiet_apply dbl e q (sess t) = Inr s \<and> t' = t\<lparr>sess := s\<rparr>) \<or> t' = t"
  using assms
  by (cases ev; cases "phases t ! i"; simp add: thread_step.simps sum_bind_eq_Inr) blast+

lemma thread_step_inv:
  assumes st: "thread_step dbl e i ev t = Inr t'" and inv: "threads_inv t" and small: "next_num t + 1 < 4294967296"
  shows "threads_inv t' \<and> next_num t' \<le> next_num t + 1"
proof (cases "length (phases t) \<le> i")
  case False
  then have i: "i < length (phases t)" by simp
  have idle: "threads_inv t \<and> next_num t \<le> next_num t + 1" using inv by simp
  from thread_step_cases [OF st i] consider (chk) a where "t' = thread_check i a t" "phases t ! i = Ready"
    | (fet) a where "phases t ! i = Checked a" "t' = thread_fetch dbl e i a t"
    | (tst) n m where "phases t ! i = Holding n m" "t' = thread_test i n m t"
    | (snd) n m where "phases t ! i = Sending n m" "t' = thread_send e i n m t"
    | (qui) q s where "quiet_apply dbl e q (sess t) = Inr s" "t' = t\<lparr>sess := s\<rparr>"
    | "t' = t"
    by blast
  then show ?thesis
  proof cases
    case chk
    then show ?thesis using inv inv_move [OF inv i, of "Checked a"] by (simp add: thread_check_def)
  next
    case fet
    obtain m s where "op_fetch dbl e a (sess t) = (m, s)" by fastforce
    with inv_fetch [OF inv i _ this small] fet show ?thesis by simp
  next
    case tst
    then have "phase_ok (Sending n m :: 'a phase)" using inv i unfolding threads_inv_def by force
    then show ?thesis
      using tst inv_move [OF inv i, of "Sending n m"] inv_lose [OF inv i, of n] by (simp add: thread_test_def)
  next
    case snd
    then show ?thesis using inv_send [OF inv i] inv_lose [OF inv i, of n]
      by (simp add: thread_send_def next_num_def)
  next
    case qui
    with quiet_keeps [OF qui(1)] inv show ?thesis by (simp add: threads_inv_def next_num_def)
  qed (use idle in simp)
qed (use st inv in \<open>simp add: thread_step.simps\<close>)

lemma thread_run_inv:
  assumes "thread_run dbl evs t = Inr t'" and "threads_inv t" and "next_num t + int (length evs) < 4294967296"
  shows "threads_inv t'"
  using assms
proof (induction evs arbitrary: t)
  case (Cons p evs)
  obtain e i ev where p: "p = (e, i, ev)" by (metis prod_cases3)
  from Cons.prems p obtain t1 where st: "thread_step dbl e i ev t = Inr t1" "thread_run dbl evs t1 = Inr t'"
    by (auto simp: sum_bind_eq_Inr)
  with thread_step_inv [OF st(1) Cons.prems(2)] Cons.prems(3) show ?case by (intro Cons.IH [OF st(2)]) auto
qed simp

section \<open>Property\<close>

text \<open>
  C6.  Whatever the interleaving of the threads that send, every number below the next one was
  handed out exactly once: it left in exactly one message, which carries it, or is held by exactly
  one thread, or was used up by a message that the network refused.  The numbers that one thread
  sends increase; over several threads they need not, because only the fetch of a number is locked
  and not the sending (the witness sends number 2 before number 1).  The run is shorter than the
  32-bit counter.
\<close>

theorem fix_thread_numbers:
  assumes "thread_run dbl evs (fix_threads_new k snd_id tgt_id hb) = Inr t" and "length evs < 4294967295"
  shows "map (\<lambda>m. map_of (msg_fields m) MsgSeqNum) (sent (sess t)) = map (\<lambda>(i, n). Some (to_string n)) (left t)
    \<and> mset (map snd (left t)) + mset (lost t) + mset (held t) = mset [1..uint (sender_msg_seq_num (sess t)) - 1]
    \<and> (\<forall>i. sorted_wrt (<) (own i (left t)))"
proof -
  let ?t = "fix_threads_new k snd_id tgt_id hb :: 'a fix_threads"
  have n: "next_num ?t = 1" by (simp add: next_num_def fix_threads_new_def FIX42Protocol_new_def)
  moreover have "held ?t = []" by (induction k) (simp_all add: held_def fix_threads_new_def)
  ultimately have "threads_inv ?t" by (simp add: threads_inv_def) (simp add: fix_threads_new_def FIX42Protocol_new_def)
  then have "threads_inv t" using thread_run_inv [OF assms(1)] assms(2) n by simp
  then show ?thesis by (simp add: threads_inv_def msg_num_def [abs_def] next_num_def)
qed

text \<open>Two threads log on at the same time and the later number leaves first.\<close>

definition overtaking :: "(environ \<times> nat \<times> unit thread_event) list" where
  "overtaking = map (Pair sample_env)
     [(0, Quiet (Connects 3 True True ''127.0.0.1'' 5001)), (0, Check (SendLogon True)), (0, Fetch),
      (1, Check (SendLogon True)), (1, Fetch), (1, TestLink), (1, Send), (0, TestLink), (0, Send)]"

theorem fix_thread_numbers_witness:
  "\<exists>t. thread_run sample_doubles overtaking (fix_threads_new 2 ''C'' ''S'' 30) = Inr t
     \<and> map (\<lambda>m. map_of (msg_fields m) MsgSeqNum) (sent (sess t)) = [Some (to_string 2), Some (to_string 1)]
     \<and> mset [2, 1] + mset (lost t) + mset (held t) = mset [1..2]"
proof -
  let ?r = "thread_run sample_doubles overtaking (fix_threads_new 2 ''C'' ''S'' 30)"
  have "case ?r of Inl _ \<Rightarrow> False | Inr t \<Rightarrow> left t = [(1, 2), (0, 1)] \<and> sender_msg_seq_num (sess t) = 3" by code_simp
  then obtain t where r: "?r = Inr t" "left t = [(1, 2), (0, 1)]" "sender_msg_seq_num (sess t) = 3"
    by (auto split: sum.splits)
  have "length overtaking < 4294967295" by (simp add: overtaking_def)
  from fix_thread_numbers [OF r(1) this] r show ?thesis by simp
qed

end
