(* ===== verification/Fix_Message.thy ===== *)
theory Fix_Message
  imports Fix_Text
begin

text \<open>
  The message class, its four message kinds and the heartbeat of \<open>ihs/src/fix42_b.cpp\<close>, which
  writes FIX fields with a bar as separator.  A message is a \<open>std::unordered_map\<close>; the order in
  which its entries are visited is not specified, so \<open>serialize\<close> takes the visited sequence as an
  argument.  Texts of \<open>double\<close>s are arguments too.
\<close>

section \<open>Messages\<close>

type_synonym FieldMap = "int \<Rightarrow> string option"

definition setField :: "int \<Rightarrow> string \<Rightarrow> FieldMap \<Rightarrow> FieldMap" where
  "setField tag value m = m(tag \<mapsto> value)"

text \<open>The value of a \<open>char\<close>, which is signed, and the remainder of C++.\<close>

definition char_value :: "char \<Rightarrow> int" where
  "char_value c = (if char_code c < 128 then int (char_code c) else int (char_code c) - 256)"

definition crem :: "int \<Rightarrow> int \<Rightarrow> int" where
  "crem a b = a - b * tdiv a b"

definition body_checksum :: "string \<Rightarrow> int" where
  "body_checksum body = foldl (\<lambda>checksum c. crem (checksum + char_value c) 256) 0 body"

definition FixMessage_serialize :: "(int \<times> string) list \<Rightarrow> string" where
  "FixMessage_serialize visited =
     (let body = concat (map (\<lambda>(tag, value). to_string tag @ ''='' @ value @ ''|'') visited);
          body_length = i32_of (int (length body));
          checksum = body_checksum body
      in ''8=FIX.4.2|9='' @ to_string body_length @ ''|'' @ body @ ''10='' @ pad 3 (to_string checksum) @ ''|'')"

lemma getline_shorter: "getline d s = Some (t, r) \<Longrightarrow> length r < length s"
proof -
  assume "getline d s = Some (t, r)"
  then have "s \<noteq> []" "r = drop 1 (dropWhile (\<lambda>c. c \<noteq> d) s)" by (auto simp: getline_def split: if_splits)
  moreover have "length (dropWhile (\<lambda>c. c \<noteq> d) s) \<le> length s" by (rule length_dropWhile_le)
  ultimately show ?thesis by (cases s) (auto simp del: length_dropWhile_le)
qed

function parse_tokens :: "string \<Rightarrow> FieldMap \<Rightarrow> fault + FieldMap" where
  "parse_tokens iss fields =
     (case getline CHR ''|'' iss of
        None \<Rightarrow> Inr fields
      | Some (token, rest) \<Rightarrow>
          (case find_char CHR ''='' token of
             None \<Rightarrow> parse_tokens rest fields
           | Some pos \<Rightarrow>
               (case stoi (take pos token) of
                  Inl e \<Rightarrow> Inl e
                | Inr tag \<Rightarrow> parse_tokens rest (fields(tag \<mapsto> drop (Suc pos) token)))))"
  by auto
termination
  by (relation "measure (\<lambda>(s, m). length s)") (auto dest: getline_shorter)

declare parse_tokens.simps [simp del]

definition FixMessage_parse :: "string \<Rightarrow> fault + FieldMap" where
  "FixMessage_parse fixMsg = parse_tokens fixMsg (\<lambda>_. None)"

section \<open>The kinds of message\<close>

definition LogonMessage :: "string \<Rightarrow> string \<Rightarrow> FieldMap" where
  "LogonMessage sender target =
     setField 141 ''Y'' (setField 108 ''30'' (setField 98 ''0''
       (setField 56 target (setField 49 sender (setField 35 ''A'' (\<lambda>_. None))))))"

definition LogoutMessage :: FieldMap where
  "LogoutMessage = setField 35 ''5'' (\<lambda>_. None)"

definition LimitOrderMessage :: "string \<Rightarrow> char \<Rightarrow> string \<Rightarrow> int \<Rightarrow> FieldMap" where
  "LimitOrderMessage symbol side price_text quantity =
     setField 21 ''1'' (setField 38 (to_string quantity) (setField 44 price_text (setField 40 ''2''
       (setField 54 [side] (setField 55 symbol (setField 35 ''D'' (\<lambda>_. None)))))))"

definition CancelRequestMessage :: "string \<Rightarrow> string \<Rightarrow> FieldMap" where
  "CancelRequestMessage orderID origClOrdID =
     setField 11 origClOrdID (setField 41 orderID (setField 35 ''F'' (\<lambda>_. None)))"

record HeartbeatSession =
  outSeq :: int
  heartbeatInt :: int
  active :: bool
  wire_log :: "string list"

definition FixSession_new :: "int \<Rightarrow> HeartbeatSession" where
  "FixSession_new heartbeatInterval = \<lparr>outSeq = 1, heartbeatInt = heartbeatInterval, active = True, wire_log = []\<rparr>"

definition session_send :: "string \<Rightarrow> HeartbeatSession \<Rightarrow> HeartbeatSession" where
  "session_send rawFixMsg s = s\<lparr>wire_log := wire_log s @ [rawFixMsg]\<rparr>"

text \<open>\<open>visit\<close> gives the order in which the entries of a map are visited; \<open>_outSeq++\<close> is 32-bit.\<close>

definition session_sendHeartbeat :: "(FieldMap \<Rightarrow> (int \<times> string) list) \<Rightarrow> HeartbeatSession \<Rightarrow> HeartbeatSession" where
  "session_sendHeartbeat visit s =
     (let msg = setField 34 (to_string (outSeq s)) (setField 35 ''0'' (\<lambda>_. None));
          s1 = s\<lparr>outSeq := i32_of (outSeq s + 1)\<rparr>
      in session_send (FixMessage_serialize (visit msg)) s1)"

text \<open>A visiting order lists every entry of the map once.\<close>

definition visits :: "(int \<times> string) list \<Rightarrow> FieldMap \<Rightarrow> bool" where
  "visits l m \<longleftrightarrow> distinct (map fst l) \<and> map_of l = m"

section \<open>Text as fields\<close>

lemma body_fields_text: "concat (map (\<lambda>(tag, value). to_string tag @ ''='' @ value @ ''|'') l) = fields_text CHR ''|'' l"
  by (induction l) (auto simp: field_text_def)

lemma FixMessage_serialize_text:
  "FixMessage_serialize l = fields_text CHR ''|'' ((8, ''FIX.4.2'') #
     (9, to_string (i32_of (int (length (fields_text CHR ''|'' l))))) # l
     @ [(10, pad 3 (to_string (body_checksum (fields_text CHR ''|'' l))))])"
  unfolding FixMessage_serialize_def Let_def body_fields_text by (simp add: field_text_def)

lemma parse_tokens_fields:
  "\<forall>f \<in> set fs. field_ok CHR ''|'' f \<Longrightarrow>
     parse_tokens (fields_text CHR ''|'' fs) m = Inr (m ++ map_of (rev fs))"
proof (induction fs arbitrary: m)
  case Nil
  show ?case by (simp add: parse_tokens.simps getline_def)
next
  case (Cons f fs)
  then have f: "field_ok CHR ''|'' f" by simp
  have "stoi (to_string (fst f)) = Inr (fst f)" using f by (simp add: field_ok_def stoi_to_string)
  then show ?case
    using Cons bar.getline_field [OF f, of "fields_text CHR ''|'' fs"] find_equals [of "fst f" "snd f"]
    by (subst parse_tokens.simps) (simp del: fun_upd_apply)
qed

lemma pad_chars: "c \<in> set (pad w s) \<Longrightarrow> c = CHR ''0'' \<or> c \<in> set s"
  by (auto simp: pad_def)

lemma map_of_visits: "distinct (map fst l) \<Longrightarrow> map_of (rev l) = map_of l"
  by (simp add: map_of_inject_set flip: rev_map)

lemma crem_range: "0 \<le> a \<Longrightarrow> crem a 256 = a mod 256"
  by (simp add: crem_def tdiv_pos minus_mult_div_eq_mod)

lemma body_checksum_ascii:
  assumes "\<forall>c \<in> set s. char_code c < 128" and "0 \<le> a"
  shows "foldl (\<lambda>k c. crem (k + char_value c) 256) (a mod 256) s = (a + int (byte_sum s)) mod 256"
  using assms
proof (induction s arbitrary: a)
  case (Cons c s)
  have "crem (a mod 256 + char_value c) 256 = (a + int (char_code c)) mod 256"
    using Cons.prems by (simp add: char_value_def crem_range mod_add_left_eq)
  then show ?case using Cons.IH [of "a + int (char_code c)"] Cons.prems by (simp add: byte_sum_def add.assoc)
qed (simp add: byte_sum_def)

section \<open>Properties\<close>

text \<open>
  Parsing a serialized message gives back its fields, in whatever order the hash table is
  visited, together with the begin string, the body length and a three-digit checksum, which for
  ASCII text is the byte sum of the body modulo 256.  Values must not contain the bar.
\<close>

theorem FixMessage_roundtrip:
  assumes "visits l m" and "\<forall>f \<in> set l. field_ok CHR ''|'' f \<and> fst f \<notin> {8, 9, 10}"
    and "\<forall>c \<in> set (fields_text CHR ''|'' l). char_code c < 128"
    and "length (fields_text CHR ''|'' l) < 2147483648"
  shows "FixMessage_parse (FixMessage_serialize l) = Inr (m(8 \<mapsto> ''FIX.4.2'',
     9 \<mapsto> to_string (int (length (fields_text CHR ''|'' l))),
     10 \<mapsto> pad 3 (to_string (int (byte_sum (fields_text CHR ''|'' l) mod 256)))))"
proof -
  let ?t = "fields_text CHR ''|'' l"
  let ?cs = "pad 3 (to_string (body_checksum ?t))"
  have cs: "body_checksum ?t = int (byte_sum ?t mod 256)"
    using body_checksum_ascii [OF assms(3), of 0] by (simp add: body_checksum_def zmod_int)
  have "CHR ''|'' \<notin> set ?cs" using bar.sep_tag pad_chars by fastforce
  then have "\<forall>f \<in> set ((8, ''FIX.4.2'') # (9, to_string (i32_of (int (length ?t)))) # l @ [(10, ?cs)]). field_ok CHR ''|'' f"
    using assms(2) bar.sep_tag by (auto simp: field_ok_def)
  from parse_tokens_fields [OF this, of "\<lambda>_. None"]
  have "FixMessage_parse (FixMessage_serialize l)
     = Inr ((\<lambda>_. None) ++ map_of ([(10, ?cs)] @ rev l @ [(9, to_string (i32_of (int (length ?t)))), (8, ''FIX.4.2'')]))"
    by (simp add: FixMessage_parse_def FixMessage_serialize_text)
  moreover have "map_of ([(10, ?cs)] @ rev l @ [(9, v), (8, ''FIX.4.2'')]) = m(8 \<mapsto> ''FIX.4.2'', 9 \<mapsto> v, 10 \<mapsto> ?cs)" for v
  proof -
    have "map_of (rev l) = m" using assms(1) map_of_visits [of l] by (simp add: visits_def)
    moreover have "m 8 = None" "m 9 = None"
      using assms(1,2) by (fastforce simp: visits_def map_of_eq_None_iff)+
    ultimately show ?thesis by (auto simp: map_add_def fun_eq_iff split: option.splits)
  qed
  ultimately show ?thesis using assms(4) by (simp add: cs i32_of_id map_add_def)
qed

theorem FixMessage_roundtrip_witness:
  "FixMessage_parse (FixMessage_serialize [(41, ''ORD123''), (35, ''F''), (11, ''C1'')])
     = Inr ((CancelRequestMessage ''ORD123'' ''C1'')(8 \<mapsto> ''FIX.4.2'', 9 \<mapsto> ''21'', 10 \<mapsto> ''143''))"
proof -
  let ?l = "[(41, ''ORD123''), (35, ''F''), (11, ''C1'')] :: (int \<times> string) list"
  have v: "visits ?l (CancelRequestMessage ''ORD123'' ''C1'')"
    by (auto simp: visits_def CancelRequestMessage_def setField_def fun_eq_iff)
  have ok: "\<forall>f \<in> set ?l. field_ok CHR ''|'' f \<and> fst f \<notin> {8, 9, 10}" by (simp add: field_ok_def)
  have ascii: "\<forall>c \<in> set (fields_text CHR ''|'' ?l). char_code c < 128" by code_simp
  have num: "to_string (int (length (fields_text CHR ''|'' ?l))) = ''21''"
    "pad 3 (to_string (int (byte_sum (fields_text CHR ''|'' ?l) mod 256))) = ''143''" by code_simp+
  have "length (fields_text CHR ''|'' ?l) = 21" by code_simp
  then have "length (fields_text CHR ''|'' ?l) < 2147483648" by simp
  from FixMessage_roundtrip [OF v ok ascii this] show ?thesis unfolding num .
qed

end
