(* ===== verification/Fix_Encoder.thy ===== *)
theory Fix_Encoder
  imports Fix_Text
begin

text \<open>
  The encoder of \<open>ihs/src/encoder.cpp\<close>: fields are appended to a buffer, and \<open>finalize\<close> patches
  the body length and the checksum into place.  The capacity of the buffer has no effect on its
  contents and is left out; the text of a \<open>double\<close> is an argument.
\<close>

section \<open>State and operations\<close>

record FixEncoder =
  enc_buffer :: string
  bodyLengthPos :: nat
  fieldCount :: nat
  hasBodyLength :: bool
  hasChecksum :: bool

definition FixEncoder_new :: FixEncoder where
  "FixEncoder_new = \<lparr>enc_buffer = [], bodyLengthPos = 0, fieldCount = 0, hasBodyLength = False, hasChecksum = False\<rparr>"

definition enc_reset :: "FixEncoder \<Rightarrow> FixEncoder" where
  "enc_reset e = e\<lparr>enc_buffer := [], fieldCount := 0, hasBodyLength := False, hasChecksum := False\<rparr>"

definition addFieldInternal :: "int \<Rightarrow> string \<Rightarrow> FixEncoder \<Rightarrow> FixEncoder" where
  "addFieldInternal tag value e =
     (let tagBuffer = to_string tag @ ''='';
          b1 = enc_buffer e @ tagBuffer;
          b2 = b1 @ value;
          b3 = b2 @ [SOH]
      in e\<lparr>enc_buffer := b3, fieldCount := sz_add (fieldCount e) 1\<rparr>)"

text \<open>The variant for a temporary string: it grows the buffer and copies the value into it.\<close>

definition addFieldInternal_move :: "int \<Rightarrow> string \<Rightarrow> FixEncoder \<Rightarrow> FixEncoder" where
  "addFieldInternal_move tag value e =
     (let tagBuffer = to_string tag @ ''='';
          b1 = enc_buffer e @ tagBuffer;
          valueStart = length b1;
          b2 = b1 @ replicate (length value) (CHR 0x00);
          b3 = overwrite b2 valueStart value;
          b4 = b3 @ [SOH]
      in e\<lparr>enc_buffer := b4, fieldCount := sz_add (fieldCount e) 1\<rparr>)"

definition addField_int :: "int \<Rightarrow> int \<Rightarrow> FixEncoder \<Rightarrow> FixEncoder" where
  "addField_int tag value e = addFieldInternal_move tag (to_string value) e"

definition addField_string :: "int \<Rightarrow> string \<Rightarrow> FixEncoder \<Rightarrow> FixEncoder" where
  "addField_string tag value e = addFieldInternal tag value e"

text \<open>\<open>text\<close> is the output of the format \<open>%.*f\<close>, cut by the 32-byte buffer.\<close>

definition addField_double :: "int \<Rightarrow> string \<Rightarrow> FixEncoder \<Rightarrow> FixEncoder" where
  "addField_double tag txt e = addFieldInternal_move tag (take 31 txt) e"

definition addHeader :: "string \<Rightarrow> string \<Rightarrow> FixEncoder \<Rightarrow> FixEncoder" where
  "addHeader beginString msgType e =
     (let e1 = addFieldInternal 8 beginString (enc_reset e);
          e2 = e1\<lparr>bodyLengthPos := length (enc_buffer e1)\<rparr>;
          e3 = addFieldInternal_move 9 ''00000'' e2;
          e4 = e3\<lparr>hasBodyLength := True\<rparr>
      in addFieldInternal 35 msgType e4)"

text \<open>The scanning loops: the first position from \<open>pos\<close> on that holds \<open>c\<close>, or the end.\<close>

definition scan_to :: "char \<Rightarrow> nat \<Rightarrow> string \<Rightarrow> nat" where
  "scan_to c pos b = pos + length (takeWhile (\<lambda>x. x \<noteq> c) (drop pos b))"

definition replaceFieldValue :: "nat \<Rightarrow> string \<Rightarrow> string \<Rightarrow> fault + string" where
  "replaceFieldValue fieldStart newValue b =
     (let equalPos = scan_to CHR ''='' fieldStart b
      in if equalPos \<ge> length b then Inl (Thrown ''Invalid field format'')
         else let valuePos = equalPos + 1;
                  fieldEnd = scan_to SOH valuePos b
              in if fieldEnd \<ge> length b then Inl (Thrown ''Invalid field format'')
                 else let oldValueLength = fieldEnd - valuePos;
                          newValueLength = length newValue;
                          originalSize = length b;
                          b1 = (if newValueLength > oldValueLength
                                then let delta = newValueLength - oldValueLength
                                     in overwrite (b @ replicate delta (CHR 0x00)) (fieldEnd + delta)
                                          (segment b fieldEnd originalSize)
                                else if newValueLength < oldValueLength
                                then let delta = oldValueLength - newValueLength
                                     in take (originalSize - delta)
                                          (overwrite b (fieldEnd - delta) (segment b fieldEnd originalSize))
                                else b)
                      in Inr (overwrite b1 valuePos newValue))"

definition enc_calculateChecksum :: "nat \<Rightarrow> nat \<Rightarrow> string \<Rightarrow> fault + nat" where
  "enc_calculateChecksum start fin b =
     (if start < fin \<and> length b < fin then Inl OutOfBounds
      else Inr (unat (foldl (\<lambda>s c. s + of_nat (char_code c)) (0 :: u32) (segment b start fin) mod 256)))"

definition finalize :: "FixEncoder \<Rightarrow> fault + FixEncoder" where
  "finalize e =
     (if \<not> hasBodyLength e then Inl (Thrown ''Missing required BodyLength field'')
      else let bodyStart = scan_to SOH 0 (enc_buffer e) + 1;
               checksumPos = length (enc_buffer e);
               bodyLength = sz_sub checksumPos bodyStart;
               lenBuffer = take 15 (digits bodyLength)
           in sum_bind (replaceFieldValue (bodyLengthPos e) lenBuffer (enc_buffer e)) (\<lambda>b1.
              let e1 = addFieldInternal_move 10 ''000'' (e\<lparr>enc_buffer := b1\<rparr>);
                  e2 = e1\<lparr>hasChecksum := True\<rparr>
              in sum_bind (enc_calculateChecksum bodyStart checksumPos (enc_buffer e2)) (\<lambda>checksum.
                 sum_bind (replaceFieldValue checksumPos (pad 3 (digits checksum)) (enc_buffer e2)) (\<lambda>b3.
                 Inr (e2\<lparr>enc_buffer := b3\<rparr>)))))"

text \<open>The copy to an external buffer of \<open>destSize\<close> bytes.\<close>

definition copyTo :: "string \<Rightarrow> FixEncoder \<Rightarrow> fault + string \<times> nat" where
  "copyTo dest e =
     (let msgSize = length (enc_buffer e)
      in if length dest < msgSize then Inl (Thrown ''Destination buffer too small'')
         else Inr (overwrite dest 0 (enc_buffer e), msgSize))"

section \<open>Lemmas\<close>

lemma addField_move_eq: "addFieldInternal_move tag value e = addFieldInternal tag value e"
  by (simp add: addFieldInternal_move_def addFieldInternal_def Let_def overwrite_def)

lemma addField_sel [simp]:
  "enc_buffer (addFieldInternal tag value e) = enc_buffer e @ field_text SOH (tag, value)"
  "bodyLengthPos (addFieldInternal tag value e) = bodyLengthPos e"
  "hasBodyLength (addFieldInternal tag value e) = hasBodyLength e"
  by (simp_all add: addFieldInternal_def Let_def field_text_def)

lemma scan_to_hit: "c \<notin> set (drop pos a) \<Longrightarrow> pos \<le> length a \<Longrightarrow> scan_to c pos (a @ c # b) = length a"
proof -
  assume c: "c \<notin> set (drop pos a)" and p: "pos \<le> length a"
  then have "drop pos (a @ c # b) = drop pos a @ c # b" by simp
  moreover have "takeWhile (\<lambda>x. x \<noteq> c) (drop pos a @ c # b) = drop pos a" using c
    by (induction "drop pos a" arbitrary: pos) (auto simp: takeWhile_append)
  ultimately show ?thesis using p by (simp add: scan_to_def)
qed

lemma scan_to_miss: "c \<notin> set (drop pos b) \<Longrightarrow> length b \<le> scan_to c pos b"
proof -
  assume "c \<notin> set (drop pos b)"
  then have a: "\<forall>x \<in> set (drop pos b). x \<noteq> c" by blast
  have "scan_to c pos b = pos + length (drop pos b)" unfolding scan_to_def takeWhile_all [OF a] ..
  then show ?thesis by simp
qed

text \<open>The two moves of \<open>replaceFieldValue\<close>: a value is replaced by a longer or a shorter one.\<close>

lemma grow_value:
  assumes "length new = length old + d"
  shows "overwrite (overwrite ((p @ old @ q) @ replicate d z) (length p + length old + d) q) (length p) new = p @ new @ q"
proof -
  have "length (take (length p + length old + d) ((p @ old @ q) @ replicate d z)) = length p + length old + d" by simp
  then have "drop (length p + length new) (overwrite ((p @ old @ q) @ replicate d z) (length p + length old + d) q) = q"
    using assms by (simp add: overwrite_def)
  moreover have "take (length p) (overwrite ((p @ old @ q) @ replicate d z) (length p + length old + d) q) = p"
    by (simp add: overwrite_def)
  ultimately show ?thesis by (simp only: overwrite_def [of _ _ new])
qed

lemma shrink_value:
  assumes "length old = length new + d"
  shows "overwrite (take (length (p @ old @ q) - d) (overwrite (p @ old @ q) (length p + length old - d) q)) (length p) new
    = p @ new @ q"
proof -
  have "length p + length old - d = length p + length new" using assms by simp
  moreover have "overwrite (p @ old @ q) (length p + length new) q = p @ take (length new) old @ q @ drop (length new + length q) (old @ q)"
    using assms by (simp add: overwrite_def)
  moreover have "length (p @ old @ q) - d = length p + length new + length q" using assms by simp
  ultimately show ?thesis using assms by (simp add: overwrite_def)
qed

lemma replace_value:
  assumes "CHR ''='' \<notin> set (drop start a)" and "start \<le> length a" and "SOH \<notin> set old"
  shows "replaceFieldValue start new (a @ CHR ''='' # old @ SOH # post) = Inr (a @ CHR ''='' # new @ SOH # post)"
proof -
  define p where "p = a @ ''=''"
  define q where "q = SOH # post"
  have b: "a @ CHR ''='' # x @ SOH # post = p @ x @ q" for x by (simp add: p_def q_def)
  have e: "scan_to CHR ''='' start (p @ old @ q) + 1 = length p" "scan_to CHR ''='' start (p @ old @ q) < length (p @ old @ q)"
    using scan_to_hit [OF assms(1,2), of "old @ q"] by (simp_all add: p_def)
  have f: "scan_to SOH (length p) (p @ old @ q) = length p + length old" "length p + length old < length (p @ old @ q)"
    using scan_to_hit [of SOH "length p" "p @ old" post] assms(3) by (simp_all add: q_def)
  have seg: "segment (p @ old @ q) (length p + length old) (length (p @ old @ q)) = q" by (simp add: segment_def)
  have r: "replaceFieldValue start new (p @ old @ q) = Inr (overwrite
      (if length new > length old
       then overwrite ((p @ old @ q) @ replicate (length new - length old) (CHR 0x00))
              (length p + length old + (length new - length old)) q
       else if length new < length old
       then take (length (p @ old @ q) - (length old - length new))
              (overwrite (p @ old @ q) (length p + length old - (length old - length new)) q)
       else p @ old @ q) (length p) new)"
    unfolding replaceFieldValue_def Let_def e(1) f(1) seg using e(2) f(2) by simp
  consider "length new > length old" | "length new < length old" | "length new = length old" by linarith
  then show ?thesis
  proof cases
    case 1
    then show ?thesis using grow_value [of new old "length new - length old" p q "CHR 0x00"] unfolding b r by simp
  next
    case 2
    then show ?thesis using shrink_value [of old new "length old - length new" p q] unfolding b r by simp
  next
    case 3
    then show ?thesis unfolding b r by (simp add: overwrite_def)
  qed
qed

lemma replace_missing:
  assumes "CHR ''='' \<notin> set (drop start b)"
  shows "replaceFieldValue start new b = Inl (Thrown ''Invalid field format'')"
  using scan_to_miss [OF assms] by (simp add: replaceFieldValue_def)

section \<open>Encoding a whole message\<close>

definition encode :: "string \<Rightarrow> string \<Rightarrow> (int \<times> string) list \<Rightarrow> FixEncoder \<Rightarrow> FixEncoder" where
  "encode beginString msgType fs e =
     fold (\<lambda>f. addField_string (fst f) (snd f)) fs (addHeader beginString msgType e)"

definition placeholder_text :: "string \<Rightarrow> (int \<times> string) list \<Rightarrow> string" where
  "placeholder_text msgType fs = fields_text SOH ((9, ''00000'') # (35, msgType) # fs)"

lemma addHeader_sel:
  "enc_buffer (addHeader b ty e) = fields_text SOH [(8, b), (9, ''00000''), (35, ty)]"
  "bodyLengthPos (addHeader b ty e) = length (field_text SOH (8, b))"
  "hasBodyLength (addHeader b ty e)"
  by (simp_all add: addHeader_def Let_def addField_move_eq enc_reset_def)

lemma encode_sel:
  "enc_buffer (encode b ty fs e) = field_text SOH (8, b) @ placeholder_text ty fs"
  "bodyLengthPos (encode b ty fs e) = length (field_text SOH (8, b))"
  "hasBodyLength (encode b ty fs e)"
proof -
  have "enc_buffer (fold (\<lambda>f. addField_string (fst f) (snd f)) fs e') = enc_buffer e' @ fields_text SOH fs
      \<and> bodyLengthPos (fold (\<lambda>f. addField_string (fst f) (snd f)) fs e') = bodyLengthPos e'
      \<and> hasBodyLength (fold (\<lambda>f. addField_string (fst f) (snd f)) fs e') = hasBodyLength e'" for e'
    by (induction fs arbitrary: e') (simp_all add: addField_string_def)
  then show "enc_buffer (encode b ty fs e) = field_text SOH (8, b) @ placeholder_text ty fs"
    "bodyLengthPos (encode b ty fs e) = length (field_text SOH (8, b))" "hasBodyLength (encode b ty fs e)"
    by (simp_all add: encode_def addHeader_sel placeholder_text_def)
qed

text \<open>The buffer after the length has been patched in and the checksum field appended.\<close>

definition patched :: "string \<Rightarrow> nat \<Rightarrow> string \<Rightarrow> string" where
  "patched pre n r = pre @ field_text SOH (9, digits n) @ r @ field_text SOH (10, ''000'')"

lemma finalize_patched:
  assumes "SOH \<notin> set b" and "n = length (placeholder_text ty fs)" and "n < 100000"
    and "length b < 2147483648"
  shows "finalize (encode b ty fs e) =
    (let pre = field_text SOH (8, b); r = fields_text SOH ((35, ty) # fs); buf = patched pre n r;
         e2 = addFieldInternal 10 ''000'' ((encode b ty fs e)\<lparr>enc_buffer := pre @ field_text SOH (9, digits n) @ r\<rparr>)\<lparr>hasChecksum := True\<rparr>
     in sum_bind (enc_calculateChecksum (length pre) (length pre + n) buf) (\<lambda>checksum.
        sum_bind (replaceFieldValue (length pre + n) (pad 3 (digits checksum)) buf) (\<lambda>b3. Inr (e2\<lparr>enc_buffer := b3\<rparr>))))"
proof -
  let ?pre = "field_text SOH (8, b)" and ?r = "fields_text SOH ((35, ty) # fs)"
  have buf: "enc_buffer (encode b ty fs e) = ?pre @ placeholder_text ty fs" by (rule encode_sel)
  have "scan_to SOH 0 (?pre @ x) + 1 = length ?pre" for x
    using scan_to_hit [of SOH 0 "''8='' @ b" x] assms(1) by (simp add: field_text_def)
  moreover have "sz_sub (length (?pre @ placeholder_text ty fs)) (length ?pre) = n"
    using assms(2-4) by (simp add: sz_sub_le field_text_def)
  moreover have "take 15 (digits n) = digits n" using length_digits [of n 4] assms(3) by simp
  moreover have "replaceFieldValue (length ?pre) (digits n) (?pre @ placeholder_text ty fs)
      = Inr (?pre @ field_text SOH (9, digits n) @ ?r)"
    using replace_value [of "length ?pre" "?pre @ ''9''" "''00000''" "digits n" ?r]
    by (simp add: placeholder_text_def field_text_def)
  ultimately show ?thesis
    using encode_sel(2,3) [of b ty fs e] assms(2)
    by (simp add: finalize_def Let_def buf addField_move_eq patched_def)
qed

lemma length_field_9: "length (field_text SOH (9, digits n)) = 3 + length (digits n)"
  by (simp add: field_text_def)

lemma patched_checksum:
  assumes "n = 8 + length r" and "n < 100000"
  shows "enc_calculateChecksum (length pre) (length pre + n) (patched pre n r)
    = Inr (byte_sum (field_text SOH (9, digits n) @ r @ take (5 - length (digits n)) ''10=000'') mod 256)"
proof -
  define f where "f = field_text SOH (9, digits n)"
  have f: "length f + (5 - length (digits n)) = 8" "length f = 3 + length (digits n)"
    using length_digits [of n 4] assms(2) length_field_9 [of n] by (simp_all add: f_def)
  have buf: "patched pre n r = pre @ f @ r @ ''10=000'' @ [SOH]" by (simp add: patched_def f_def field_text_def)
  have "n = length (f @ r) + (5 - length (digits n))" using f assms(1) by simp
  then have "segment (patched pre n r) (length pre) (length pre + n) = f @ r @ take (5 - length (digits n)) (''10=000'' @ [SOH])"
    unfolding buf segment_def by simp (metis add_diff_cancel_left')
  also have "take (5 - length (digits n)) (''10=000'' @ [SOH]) = take (5 - length (digits n)) ''10=000''"
    by (simp only: take_append) simp
  finally have "segment (patched pre n r) (length pre) (length pre + n) = f @ r @ take (5 - length (digits n)) ''10=000''" .
  moreover have "length pre + n \<le> length (patched pre n r)" unfolding buf using f assms(1) by simp
  ultimately show ?thesis by (simp only: enc_calculateChecksum_def checksum_word f_def) simp
qed

lemma patched_replace:
  assumes "n = 8 + length r" and "n < 100000"
  shows "replaceFieldValue (length pre + n) v (patched pre n r) =
    (if length (digits n) < 3 then Inl (Thrown ''Invalid field format'')
     else Inr (pre @ field_text SOH (9, digits n) @ r @ field_text SOH (10, v)))"
proof -
  define k where "k = length (digits n)"
  define a where "a = pre @ field_text SOH (9, digits n) @ r"
  have k: "k \<le> 5" using length_digits [of n 4] assms(2) by (simp add: k_def)
  have n: "length pre + n = length a + (5 - k)" using assms(1) length_field_9 [of n] k by (simp add: a_def k_def)
  have buf: "patched pre n r = (a @ ''10'') @ CHR ''='' # ''000'' @ SOH # []" by (simp add: patched_def a_def field_text_def)
  show ?thesis
  proof (cases "k < 3")
    case True
    then have "5 - k = Suc (Suc (Suc (2 - k)))" by simp
    then obtain j where "5 - k = Suc (Suc (Suc j))" by blast
    then have "drop (length pre + n) (patched pre n r) = drop j (''000'' @ [SOH])" unfolding buf n by (simp add: numeral_3_eq_3)
    moreover have "CHR ''='' \<notin> set (''000'' @ [SOH])" by simp
    ultimately have "CHR ''='' \<notin> set (drop (length pre + n) (patched pre n r))" by (metis in_set_dropD)
    then show ?thesis using True replace_missing by (simp add: k_def)
  next
    case False
    have le: "length pre + n \<le> length (a @ ''10'')" "drop (length pre + n) (a @ ''10'') = drop (5 - k) ''10''"
      unfolding n using False by simp_all
    have "CHR ''='' \<notin> set ''10''" by simp
    then have "CHR ''='' \<notin> set (drop (length pre + n) (a @ ''10''))" unfolding le(2) by (metis in_set_dropD)
    from replace_value [OF this le(1), of "''000''" v "[]"] show ?thesis
      using False unfolding buf by (simp add: k_def a_def field_text_def)
  qed
qed

lemma finalize_encode:
  assumes "SOH \<notin> set b" and "n = length (placeholder_text ty fs)" and "n < 100000" and "length b < 2147483648"
  shows "let r = finalize (encode b ty fs e)
    in if n < 100 then r = Inl (Thrown ''Invalid field format'')
       else \<exists>e'. r = Inr e' \<and> enc_buffer e' = fields_text SOH ((8, b) # (9, digits n) # (35, ty) # fs @
         [(10, pad 3 (digits (byte_sum (fields_text SOH ((9, digits n) # (35, ty) # fs)
            @ take (5 - length (digits n)) ''10=000'') mod 256)))])"
proof -
  have "length (digits n) < 3 \<longleftrightarrow> n < 100"
  proof (cases "n < 100")
    case True
    then show ?thesis using length_digits [of n 1] by simp
  next
    case False
    then have "digits n = digits (n div 10 div 10) @ [digit_char (n div 10 mod 10)] @ [digit_char (n mod 10)]"
      by (subst digits.simps, subst digits.simps) simp
    moreover have "digits (n div 10 div 10) \<noteq> []" by simp
    ultimately show ?thesis using False by (cases "digits (n div 10 div 10)") simp_all
  qed
  moreover have "n = 8 + length (fields_text SOH ((35, ty) # fs))"
    using assms(2) by (simp add: placeholder_text_def field_text_def)
  moreover note finalize_patched [OF assms, of e]
  ultimately show ?thesis using assms(3)
    by (simp only: Let_def patched_checksum patched_replace sum_bind_simps fields_text_simps)
      (auto simp del: byte_sum_append)
qed

section \<open>Properties\<close>

text \<open>
  What \<open>finalize\<close> makes of a message.  The body length it writes is that of the buffer with
  the five-digit placeholder, counted from the length field itself on.  The checksum covers the
  length field and all fields after it and, where the length has fewer than five digits, as many
  bytes of the checksum tag.  When the length has fewer than three digits the encoder throws.
\<close>

theorem encoder_finalize:
  assumes "SOH \<notin> set b" and "n = length (placeholder_text ty fs)" and "n < 100000" and "length b < 2147483648"
  shows "let r = finalize (encode b ty fs e)
    in if n < 100 then r = Inl (Thrown ''Invalid field format'')
       else \<exists>e'. r = Inr e' \<and> enc_buffer e' = fields_text SOH ((8, b) # (9, digits n) # (35, ty) # fs @
         [(10, pad 3 (digits (byte_sum (fields_text SOH ((9, digits n) # (35, ty) # fs)
            @ take (5 - length (digits n)) ''10=000'') mod 256)))])"
  by (rule finalize_encode [OF assms])

theorem encoder_finalize_witness:
  "let fs = [(58, replicate 90 CHR ''x'')]
   in \<exists>e'. finalize (encode ''FIX.4.4'' ''D'' fs FixEncoder_new) = Inr e'
     \<and> take 17 (enc_buffer e') = ''8=FIX.4.4'' @ [SOH] @ ''9=107'' @ [SOH] @ ''3''"
proof -
  let ?fs = "[(58, replicate 90 CHR ''x'')] :: (int \<times> string) list"
  have n: "length (placeholder_text ''D'' ?fs) = 107" by code_simp
  have d: "digits 107 = ''107''" by code_simp
  from encoder_finalize [of "''FIX.4.4''" 107 "''D''" ?fs FixEncoder_new] n
  show ?thesis by (simp add: Let_def d) (auto simp: field_text_def)
qed

end
