(* ===== verification/Fix_Parser.thy ===== *)
theory Fix_Parser
  imports Fix_Text
begin

text \<open>
  The streaming parser of \<open>ihs/src/parser.cpp\<close> (its first class \<open>FixParser\<close>): received pieces are
  appended to a buffer, complete messages are cut out by their body length, and those with a
  correct checksum are handed to a callback.  Iterators into the buffer are positions; an iterator
  past the end is an access out of bounds.
\<close>

section \<open>Operations\<close>

text \<open>The digits of the body length, added up in \<open>size_t\<close>, from a position up to a separator or the end.\<close>

function parse_length :: "string \<Rightarrow> nat \<Rightarrow> nat \<Rightarrow> fault + nat \<times> nat" where
  "parse_length b it out_len =
     (if it < length b \<and> b ! it \<noteq> SOH
      then if \<not> is_digit (b ! it) then Inl (Thrown ''Invalid BodyLength format'')
           else parse_length b (it + 1) (sz_add (sz_mul out_len 10) (char_code (b ! it) - 48))
      else Inr (it, out_len))"
  by auto
termination
  by (relation "measure (\<lambda>(b, it, _). length b - it)") auto

declare parse_length.simps [simp del]

text \<open>The comparison with the parsed \<open>int\<close> converts it to \<open>size_t\<close>.\<close>

definition validate_checksum :: "string \<Rightarrow> fault + bool" where
  "validate_checksum msg =
     (case find_str ''10='' msg of
        None \<Rightarrow> Inr False
      | Some check_sum_pos \<Rightarrow>
          let calculated_sum = (byte_sum (take check_sum_pos msg) mod sz_mod) mod 256
          in sum_bind (stoi (take 3 (drop (check_sum_pos + 3) msg)))
               (\<lambda>msg_checksum. Inr (int calculated_sum = u64_of msg_checksum)))"

datatype parse_step =
    Wait
  | Consume "string option" string

text \<open>One round of the loop in \<open>process_buffer\<close>: wait for more data, or take a message off.\<close>

definition process_step :: "string \<Rightarrow> fault + parse_step" where
  "process_step b =
     (case find_str ''8=FIX'' b of
        None \<Rightarrow> Inr Wait
      | Some it \<Rightarrow>
          (case find_char CHR ''9'' (drop it b) of
             None \<Rightarrow> Inr Wait
           | Some d \<Rightarrow>
               let body_length_start = it + d
               in if body_length_start + 2 > length b then Inl OutOfBounds
                  else sum_bind (parse_length b (body_length_start + 2) 0) (\<lambda>(num_end, body_length).
                    if num_end = length b then Inr Wait
                    else let header_len = num_end - it;
                             total_msg_len = sz_add (sz_add header_len body_length) 7
                         in if length b - it < total_msg_len then Inr Wait
                            else let msg = segment b it (it + total_msg_len)
                                 in sum_bind (validate_checksum msg) (\<lambda>ok.
                                      Inr (Consume (if ok then Some msg else None) (drop (it + total_msg_len) b))))))"

text \<open>
  The loop itself.  It collects the messages handed to the callback and ends with the remaining
  buffer or with a fault; \<open>None\<close> stands for a loop that never returns.
\<close>

definition hand_over :: "string option \<Rightarrow> string list \<Rightarrow> string list" where
  "hand_over m cbs = (case m of None \<Rightarrow> cbs | Some x \<Rightarrow> cbs @ [x])"

partial_function (option) process_buffer :: "string \<Rightarrow> string list \<Rightarrow> (string list \<times> (fault + string)) option" where
  "process_buffer b cbs =
     (case process_step b of
        Inl e \<Rightarrow> Some (cbs, Inl e)
      | Inr st \<Rightarrow>
          (case st of
             Wait \<Rightarrow> Some (cbs, Inr b)
           | Consume m r \<Rightarrow> process_buffer r (hand_over m cbs)))"

definition on_data :: "string \<Rightarrow> string \<Rightarrow> string list \<Rightarrow> (string list \<times> (fault + string)) option" where
  "on_data d b cbs = process_buffer (b @ d) cbs"

text \<open>A sequence of received pieces; the parser stops at the first fault.\<close>

fun feed :: "string list \<Rightarrow> string \<Rightarrow> string list \<Rightarrow> (string list \<times> (fault + string)) option" where
  "feed [] b cbs = Some (cbs, Inr b)"
| "feed (d # ds) b cbs =
     (case on_data d b cbs of
        None \<Rightarrow> None
      | Some (cbs', Inl e) \<Rightarrow> Some (cbs', Inl e)
      | Some (cbs', Inr b') \<Rightarrow> feed ds b' cbs')"

section \<open>A round does not depend on what follows the message\<close>

lemma find_str_append: "find_str p s = Some n \<Longrightarrow> p \<noteq> [] \<Longrightarrow> find_str p (s @ t) = Some n"
proof (induction s arbitrary: n)
  case (Cons x s)
  show ?case
  proof (cases "prefix p (x # s)")
    case True
    then have "prefix p (x # s @ t)" by (metis append_Cons prefix_prefix)
    then show ?thesis using Cons.prems True by simp
  next
    case False
    then obtain m where m: "find_str p s = Some m" "n = Suc m" using Cons.prems by auto
    then have "length p \<le> length s" using find_str_None [of p s] Cons.prems by (metis option.simps(3) sublist_length_le)
    have "\<not> prefix p (x # s @ t)"
    proof
      assume "prefix p (x # s @ t)"
      then have "take (length p) (x # s @ t) = p" by (metis append_eq_conv_conj prefix_def)
      moreover have "take (length p) ((x # s) @ t) = take (length p) (x # s)" using \<open>length p \<le> length s\<close> by (simp only: take_append) simp
      ultimately have "take (length p) (x # s) = p" by simp
      then show False using False by (metis take_is_prefix)
    qed
    then show ?thesis using Cons m by simp
  qed
qed simp

lemma find_char_appendI: "find_char c s = Some n \<Longrightarrow> find_char c (s @ t) = Some n"
  by (induction s arbitrary: n) (auto split: if_splits)

lemma parse_length_append:
  "parse_length b it out = Inr (n, v) \<Longrightarrow> n < length b \<Longrightarrow> parse_length (b @ t) it out = Inr (n, v)"
proof (induction b it out rule: parse_length.induct)
  case (1 b it out)
  show ?case
  proof (cases "it < length b \<and> b ! it \<noteq> SOH")
    case True
    then have "is_digit (b ! it)" using 1 parse_length.simps [of b it out] by (auto split: if_splits)
    then show ?thesis
      using 1 True parse_length.simps [of b it out] by (subst parse_length.simps) (simp add: nth_append)
  next
    case False
    then have "it = n" "out = v" using 1(2) parse_length.simps [of b it out] by auto
    then show ?thesis using False 1(3) by (subst parse_length.simps) (simp add: nth_append)
  qed
qed

lemma process_step_append:
  assumes "process_step b = Inr (Consume m r)"
  shows "process_step (b @ t) = Inr (Consume m (r @ t))"
proof -
  from assms obtain it where it: "find_str ''8=FIX'' b = Some it"
    by (auto simp: process_step_def split: option.splits)
  from assms it obtain d where d: "find_char CHR ''9'' (drop it b) = Some d"
    by (auto simp: process_step_def split: option.splits)
  note p = assms [unfolded process_step_def it d option.case Let_def]
  then have le: "\<not> it + d + 2 > length b" by (auto split: if_splits)
  with p obtain n v where pl: "parse_length b (it + d + 2) 0 = Inr (n, v)"
    by (auto simp: sum_bind_eq_Inr)
  define tot where "tot = sz_add (sz_add (n - it) v) 7"
  from p le pl have n: "n \<noteq> length b" "\<not> length b - it < tot" by (auto simp: tot_def split: if_splits)
  have itb: "it \<le> length b" using find_char_Some [OF d] by (metis length_drop less_nat_zero_code nat_le_linear diff_is_0_eq)
  have bound: "n \<le> length b" if "it' \<le> length b" "parse_length b it' k = Inr (n, v)" for it' k
    using that by (induction b it' k rule: parse_length.induct) (subst (asm) (2) parse_length.simps, auto split: if_splits)
  have nb: "n < length b" using bound [OF _ pl] le n(1) by linarith
  have seg: "segment (b @ t) it (it + tot) = segment b it (it + tot)" using n(2) itb by (simp add: segment_def)
  from p le pl n obtain ok where ok: "validate_checksum (segment b it (it + tot)) = Inr ok"
      "m = (if ok then Some (segment b it (it + tot)) else None)" "r = drop (it + tot) b"
    by (auto simp: sum_bind_eq_Inr tot_def)
  have "find_char CHR ''9'' (drop it (b @ t)) = Some d" using find_char_appendI [OF d] itb by simp
  then show ?thesis
    unfolding process_step_def find_str_append [OF it, of t, simplified] option.case Let_def
    using le n nb itb ok parse_length_append [OF pl nb, of t]
    by (simp add: seg flip: tot_def)
qed

lemma process_buffer_append:
  assumes "process_buffer b cbs = Some (c, Inr r)"
  shows "process_buffer (b @ t) cbs = process_buffer (r @ t) c \<and> process_step r = Inr Wait"
proof -
  have "\<forall>c r. y = (c, Inr r) \<longrightarrow> process_buffer (b @ t) cbs = process_buffer (r @ t) c \<and> process_step r = Inr Wait"
    if "process_buffer b cbs = Some y" for y
    using that
  proof (rule process_buffer.raw_induct [rotated])
    fix f b cbs y
    assume IH: "\<And>b cbs y. f b cbs = Some y \<Longrightarrow> \<forall>c r. y = (c, Inr r) \<longrightarrow>
        process_buffer (b @ t) cbs = process_buffer (r @ t) c \<and> process_step r = Inr Wait"
      and f: "(case process_step b of Inl e \<Rightarrow> Some (cbs, Inl e)
        | Inr st \<Rightarrow> (case st of Wait \<Rightarrow> Some (cbs, Inr b) | Consume m r \<Rightarrow> f r (hand_over m cbs))) = Some y"
    show "\<forall>c r. y = (c, Inr r) \<longrightarrow> process_buffer (b @ t) cbs = process_buffer (r @ t) c \<and> process_step r = Inr Wait"
    proof (cases "process_step b")
      case (Inr st)
      show ?thesis
      proof (cases st)
        case Wait
        then show ?thesis using f Inr by auto
      next
        case (Consume m r')
        then have "f r' (hand_over m cbs) = Some y" using f Inr by simp
        from IH [OF this] show ?thesis
          using process_step_append [of b m r' t] Inr Consume by (simp add: process_buffer.simps [of "b @ t"])
      qed
    qed (use f in auto)
  qed
  then show ?thesis using assms by blast
qed

lemma feed_concat:
  assumes "feed ds b cbs = Some (c, Inr r)"
  shows "process_buffer (b @ concat ds) cbs = process_buffer r c"
  using assms
proof (induction ds arbitrary: b cbs)
  case (Cons d ds)
  then obtain c1 b1 where d: "process_buffer (b @ d) cbs = Some (c1, Inr b1)" "feed ds b1 c1 = Some (c, Inr r)"
    by (auto simp: on_data_def split: option.splits prod.splits sum.splits)
  from process_buffer_append [OF d(1), of "concat ds"] Cons.IH [OF d(2)] show ?case by simp
qed simp

lemma feed_waits:
  assumes "feed ds b cbs = Some (c, Inr r)" and "process_step b = Inr Wait"
  shows "process_step r = Inr Wait"
  using assms
proof (induction ds arbitrary: b cbs)
  case (Cons d ds)
  then obtain c1 b1 where d: "process_buffer (b @ d) cbs = Some (c1, Inr b1)" "feed ds b1 c1 = Some (c, Inr r)"
    by (auto simp: on_data_def split: option.splits prod.splits sum.splits)
  from process_buffer_append [OF d(1)] Cons.IH [OF d(2)] show ?case by blast
qed simp

section \<open>Well-formed messages\<close>

text \<open>
  A message with begin string \<open>v\<close> and body fields \<open>fs\<close> as the standard wants it: the length counts
  the body and the checksum everything before its own field.
\<close>

definition frame_head :: "string \<Rightarrow> (int \<times> string) list \<Rightarrow> string" where
  "frame_head v fs = fields_text SOH ((8, v) # (9, digits (length (fields_text SOH fs))) # fs)"

definition frame :: "string \<times> (int \<times> string) list \<Rightarrow> string" where
  "frame m = frame_head (fst m) (snd m)
     @ field_text SOH (10, pad 3 (digits (byte_sum (frame_head (fst m) (snd m)) mod 256)))"

definition frame_ok :: "string \<times> (int \<times> string) list \<Rightarrow> bool" where
  "frame_ok m \<longleftrightarrow> (\<exists>w. fst m = ''FIX'' @ w \<and> CHR ''9'' \<notin> set w \<and> SOH \<notin> set w)
     \<and> no_checksum_text (8, fst m) \<and> (\<forall>f \<in> set (snd m). no_checksum_text f)
     \<and> length (frame m) < 2147483648"

definition digit_step :: "nat \<Rightarrow> char \<Rightarrow> nat" where
  "digit_step a c = a * 10 + (char_code c - 48)"

lemma digit_foldl_le: "a \<le> foldl digit_step a ds"
proof (induction ds arbitrary: a)
  case (Cons c ds)
  have "a \<le> digit_step a c" by (simp add: digit_step_def)
  then show ?case using Cons [of "digit_step a c"] by simp
qed simp

lemma digit_foldl_digits: "foldl digit_step 0 (digits n) = n"
proof (induction n rule: digits.induct)
  case (1 n)
  show ?case
  proof (cases "n < 10")
    case True
    then show ?thesis by (subst digits.simps) (simp add: digit_step_def)
  next
    case False
    then have "foldl digit_step 0 (digits (n div 10)) = n div 10" using 1 by blast
    then show ?thesis using False by (subst digits.simps) (simp add: digit_step_def [of "n div 10"])
  qed
qed

lemma parse_length_digits:
  assumes "\<forall>c \<in> set ds. is_digit c" and "foldl digit_step a ds < sz_mod"
  shows "parse_length (p @ ds @ SOH # q) (length p) a = Inr (length p + length ds, foldl digit_step a ds)"
  using assms
proof (induction ds arbitrary: p a)
  case Nil
  show ?case by (simp add: parse_length.simps)
next
  case (Cons c ds)
  have "digit_step a c < sz_mod" using Cons.prems(2) digit_foldl_le [of "digit_step a c" ds] by simp
  then have st: "sz_add (sz_mul a 10) (char_code c - 48) = digit_step a c"
    by (simp add: digit_step_def sz_add_small sz_mul_small)
  have "c \<noteq> SOH" using Cons.prems(1) by auto
  then have "parse_length (p @ (c # ds) @ SOH # q) (length p) a = parse_length (p @ (c # ds) @ SOH # q) (Suc (length p)) (digit_step a c)"
    using Cons.prems(1) st by (subst parse_length.simps) simp
  then show ?case using Cons.IH [of "digit_step a c" "p @ [c]"] Cons.prems by simp
qed

lemma validate_frame:
  assumes "frame_ok m"
  shows "validate_checksum (butlast (frame m)) = Inr True"
proof -
  let ?h = "frame_head (fst m) (snd m)"
  let ?cs = "pad 3 (digits (byte_sum ?h mod 256))"
  have bl: "butlast (frame m) = ?h @ ''10='' @ ?cs" by (simp add: frame_def field_text_def butlast_append)
  have "no_checksum_text (9, digits k)" for k
    using digits_digit [of "CHR ''=''" k] set_mono_sublist [of "''10=''" "digits k"] by (auto simp: no_checksum_text_def)
  then have "\<not> sublist ''10='' ?h"
    unfolding frame_head_def using assms by (intro no_checksum_fields) (auto simp: frame_ok_def)
  moreover obtain h' where "?h = h' @ [SOH]" using fields_text_last unfolding frame_head_def by blast
  ultimately have "find_str ''10='' (?h @ ''10='' @ ?cs) = Some (length ?h)" by (intro find_after_sep) auto
  moreover have "length ?cs = 3" by (rule length_pad3) (simp add: less_trans [OF mod_less_divisor])
  moreover have "stoi ?cs = Inr (int (byte_sum ?h mod 256))" by (rule stoi_pad) (simp add: less_trans [OF mod_less_divisor])
  moreover have "byte_sum ?h mod sz_mod mod 256 = byte_sum ?h mod 256" by (rule mod_mod_cancel) simp
  moreover have "u64_of (int (byte_sum ?h mod 256)) = int (byte_sum ?h mod 256)"
    by (rule u64_of_id) (simp_all add: zmod_int)
  ultimately show ?thesis by (simp add: bl validate_checksum_def)
qed

text \<open>The text of a message: its first field, the tag of the length, the length, and the rest.\<close>

lemma frame_shape:
  assumes ok: "frame_ok m"
  obtains h n rest where "frame m = h @ CHR ''9'' # CHR ''='' # digits n @ SOH # rest @ [SOH]"
    and "length rest = n + 6" and "h = field_text SOH (8, fst m)" and "CHR ''9'' \<notin> set h"
    and "prefix ''8=FIX'' h" and "length h + length (digits n) + n + 10 < 2147483648"
proof -
  obtain v fs where m: "m = (v, fs)" by fastforce
  from ok obtain w where w: "v = ''FIX'' @ w" "CHR ''9'' \<notin> set w" "SOH \<notin> set w" by (auto simp: frame_ok_def m)
  let ?n = "length (fields_text SOH fs)"
  let ?cs = "pad 3 (digits (byte_sum (frame_head v fs) mod 256))"
  let ?h = "''8=FIX'' @ w @ [SOH]"
  let ?r = "fields_text SOH fs @ ''10='' @ ?cs"
  have fr: "frame m = ?h @ CHR ''9'' # CHR ''='' # digits ?n @ SOH # ?r @ [SOH]"
    by (simp add: m frame_def frame_head_def field_text_def w(1))
  have "length ?cs = 3" by (rule length_pad3) (simp add: less_trans [OF mod_less_divisor])
  then have lr: "length ?r = ?n + 6" by simp
  then have "length ?h + length (digits ?n) + ?n + 10 < 2147483648" using ok fr by (simp add: frame_ok_def)
  moreover have "?h = field_text SOH (8, fst m)" by (simp add: m field_text_def w(1))
  moreover have "CHR ''9'' \<notin> set ?h" "prefix ''8=FIX'' ?h" using w(2) by auto
  ultimately show thesis by (intro that [OF fr lr])
qed

text \<open>A whole message is taken off, all but its last byte, as soon as that much has arrived.\<close>

lemma process_step_body:
  assumes ok: "frame_ok m" and pre: "pre = [] \<or> pre = [SOH]"
  shows "process_step (pre @ butlast (frame m) @ x) = Inr (Consume (Some (butlast (frame m))) x)"
proof -
  obtain h n rest where fr: "frame m = h @ CHR ''9'' # CHR ''='' # digits n @ SOH # rest @ [SOH]"
    and lr: "length rest = n + 6" and h: "CHR ''9'' \<notin> set h" "prefix ''8=FIX'' h"
    and small: "length h + length (digits n) + n + 10 < 2147483648"
    using frame_shape [OF ok] by metis
  let ?k = "length (digits n)"
  have bl: "butlast (frame m) = h @ CHR ''9'' # CHR ''='' # digits n @ SOH # rest"
    unfolding fr by (simp add: butlast_append)
  let ?b = "pre @ butlast (frame m) @ x"
  obtain h' where h': "h = ''8=FIX'' @ h'" using h(2) by (auto simp: prefix_def)
  have it: "find_str ''8=FIX'' ?b = Some (length pre)" using pre by (auto simp: bl h')
  have d: "find_char CHR ''9'' (drop (length pre) ?b) = Some (length h)"
    using find_char_append [of "CHR ''9''" h] h(1) by (simp add: bl)
  have b: "?b = (pre @ h @ ''9='') @ digits n @ SOH # (rest @ x)" by (simp add: bl)
  have pl: "parse_length ?b (length pre + length h + 2) 0 = Inr (length pre + length h + 2 + ?k, n)"
    using parse_length_digits [of "digits n" 0 "pre @ h @ ''9=''" "rest @ x"] digits_digit small
    by (simp add: b digit_foldl_digits add.assoc)
  define t where "t = length h + ?k + n + 9"
  have tot: "sz_add (sz_add (length pre + length h + 2 + ?k - length pre) n) 7 = t"
    using small by (simp add: sz_add_small t_def)
  have tl: "length (butlast (frame m)) = t" unfolding bl by (simp add: lr t_def)
  have msg: "segment ?b (length pre) (length pre + t) = butlast (frame m)" using tl by (simp add: segment_def)
  have r: "drop (length pre + t) ?b = x" using tl by simp
  have "length pre + length h + 2 + ?k \<noteq> length ?b" "\<not> length ?b - length pre < t" "\<not> length pre + length h + 2 > length ?b"
    using tl by (simp_all add: t_def)
  then show ?thesis
    unfolding process_step_def it d option.case Let_def pl sum_bind_simps prod.case tot msg r
    by (simp add: validate_frame [OF ok] pl tot msg r)
qed

lemma butlast_frame: "frame_ok m \<Longrightarrow> frame m = butlast (frame m) @ [SOH]"
  by (erule frame_shape) (simp add: butlast_append)

lemma process_step_frame:
  assumes "frame_ok m" and "pre = [] \<or> pre = [SOH]"
  shows "process_step (pre @ frame m @ x) = Inr (Consume (Some (butlast (frame m))) (SOH # x))"
  using process_step_body [OF assms, of "SOH # x"] butlast_frame [OF assms(1)] by (metis append.assoc append_Cons append_Nil)

text \<open>Where a message is still incomplete the parser waits, except right behind the tag of the length.\<close>

lemma parse_length_open:
  assumes "\<forall>c \<in> set ds. is_digit c"
  shows "\<exists>v. parse_length (p @ ds) (length p) a = Inr (length p + length ds, v)"
  using assms
proof (induction ds arbitrary: p a)
  case (Cons c ds)
  have "c \<noteq> SOH" using Cons.prems by auto
  then show ?case
    using Cons.IH [of "p @ [c]" "sz_add (sz_mul a 10) (char_code c - 48)"] Cons.prems
    by (subst parse_length.simps) simp
qed (simp add: parse_length.simps)

lemma process_step_no9: "CHR ''9'' \<notin> set b \<Longrightarrow> process_step b = Inr Wait"
  using find_char_Some [of "CHR ''9''"]
  by (auto simp: process_step_def split: option.split) (metis in_set_dropD nth_mem)

lemma process_step_open:
  assumes ok: "frame_ok m" and pre: "pre = [] \<or> pre = [SOH]" and j: "Suc j < length (frame m)"
  shows "process_step (pre @ take j (frame m))
    = (if j = length (field_text SOH (8, fst m)) + 1 then Inl OutOfBounds else Inr Wait)"
proof -
  obtain h n rest where fr: "frame m = h @ CHR ''9'' # CHR ''='' # digits n @ SOH # rest @ [SOH]"
    and lr: "length rest = n + 6" and hf: "h = field_text SOH (8, fst m)" and h: "CHR ''9'' \<notin> set h" "prefix ''8=FIX'' h"
    and small: "length h + length (digits n) + n + 10 < 2147483648"
    using frame_shape [OF ok] by metis
  let ?k = "length (digits n)"
  obtain h' where h': "h = ''8=FIX'' @ h'" using h(2) by (auto simp: prefix_def)
  have it: "find_str ''8=FIX'' (pre @ h @ y) = Some (length pre)" for y using pre by (auto simp: h')
  have d: "find_char CHR ''9'' (drop (length pre) (pre @ h @ CHR ''9'' # y)) = Some (length h)" for y
    using find_char_append [of "CHR ''9''" h] h(1) by simp
  consider "j \<le> length h" | "j = length h + 1" | i where "j = length h + 2 + i" "i \<le> ?k"
    | i where "j = length h + 2 + ?k + 1 + i" "i < n + 6"
  proof -
    have "j < length h + ?k + n + 9" using j lr by (simp add: fr)
    moreover assume "j \<le> length h \<Longrightarrow> thesis" "j = length h + 1 \<Longrightarrow> thesis"
      "\<And>i. j = length h + 2 + i \<Longrightarrow> i \<le> ?k \<Longrightarrow> thesis" "\<And>i. j = length h + 2 + ?k + 1 + i \<Longrightarrow> i < n + 6 \<Longrightarrow> thesis"
    note this(1,2) this(3) [of "j - length h - 2"] this(4) [of "j - length h - 3 - ?k"]
    ultimately show thesis by linarith
  qed
  then show ?thesis
  proof cases
    case 1
    then have "take j (frame m) = take j h" by (simp add: fr)
    moreover have "CHR ''9'' \<notin> set (pre @ take j h)" using pre h(1) by (auto dest: in_set_takeD)
    ultimately show ?thesis using process_step_no9 1 hf by simp
  next
    case 2
    then have "take j (frame m) = h @ CHR ''9'' # []" by (simp add: fr)
    then show ?thesis using 2 hf it [of "''9''"] d [of "[]"] by (simp add: process_step_def)
  next
    case 3
    then have b: "pre @ take j (frame m) = pre @ h @ CHR ''9'' # CHR ''='' # take i (digits n)" by (simp add: fr)
    have "\<forall>c \<in> set (take i (digits n)). is_digit c" using digits_digit by (meson in_set_takeD)
    from parse_length_open [OF this, of "pre @ h @ ''9=''" 0] 3(2) obtain v where
      "parse_length (pre @ h @ CHR ''9'' # CHR ''='' # take i (digits n)) (length pre + length h + 2) 0
        = Inr (length pre + length h + 2 + i, v)" by (auto simp: add.assoc)
    then show ?thesis using 3 hf it [of "CHR ''9'' # CHR ''='' # take i (digits n)"] d [of "CHR ''='' # take i (digits n)"]
      unfolding b by (simp add: process_step_def)
  next
    case 4
    let ?y = "CHR ''='' # digits n @ SOH # take i rest"
    have "j = length h + (2 + ?k + 1 + i)" using 4 by simp
    then have b: "pre @ take j (frame m) = pre @ h @ CHR ''9'' # ?y" using 4(2) lr by (simp add: fr take_Cons')
    have pl: "parse_length (pre @ h @ CHR ''9'' # ?y) (length pre + length h + 2) 0 = Inr (length pre + length h + 2 + ?k, n)"
      using parse_length_digits [of "digits n" 0 "pre @ h @ ''9=''" "take i rest"] digits_digit small
      by (simp add: digit_foldl_digits add.assoc)
    have "sz_add (sz_add (length pre + length h + 2 + ?k - length pre) n) 7 = length h + ?k + n + 9"
      using small by (simp add: sz_add_small)
    then show ?thesis using 4 hf pl it [of "CHR ''9'' # ?y"] d [of ?y] lr unfolding b by (simp add: process_step_def)
  qed
qed

lemma process_step_empty: "process_step [] = Inr Wait"
  by (simp add: process_step_def)

lemma process_frames:
  assumes "\<forall>m \<in> set ms. frame_ok m" and "pre = [] \<or> pre = [SOH]"
  shows "process_buffer (pre @ concat (map frame ms)) cbs
    = Some (cbs @ map (\<lambda>m. butlast (frame m)) ms, Inr (if ms = [] then pre else [SOH]))"
  using assms
proof (induction ms arbitrary: pre cbs)
  case Nil
  then have "process_step pre = Inr Wait" by (auto simp: process_step_def)
  then show ?case by (simp add: process_buffer.simps)
next
  case (Cons m ms)
  have "process_step (pre @ concat (map frame (m # ms)))
      = Inr (Consume (Some (butlast (frame m))) (SOH # concat (map frame ms)))"
    using process_step_frame [of m pre "concat (map frame ms)"] Cons.prems by simp
  then show ?case
    using Cons.IH [of "[SOH]"] Cons.prems by (subst process_buffer.simps) (simp add: hand_over_def)
qed

section \<open>Pieces\<close>

text \<open>The position right behind the tag of the body length of message \<open>k\<close> of the stream.\<close>

definition tag_cut :: "(string \<times> (int \<times> string) list) list \<Rightarrow> nat \<Rightarrow> nat" where
  "tag_cut ms k = length (concat (map frame (take k ms))) + length (field_text SOH (8, fst (ms ! k))) + 1"

lemma tag_cut_Cons:
  "tag_cut (m # ms) 0 = length (field_text SOH (8, fst m)) + 1"
  "tag_cut (m # ms) (Suc k) = length (frame m) + tag_cut ms k"
  by (simp_all add: tag_cut_def)

lemma tag_in_frame: "frame_ok m \<Longrightarrow> length (field_text SOH (8, fst m)) + 8 < length (frame m)"
  by (erule frame_shape) simp

text \<open>What the parser has made of the first \<open>n\<close> bytes of a stream of messages.\<close>

lemma process_prefix:
  assumes "\<forall>m \<in> set ms. frame_ok m" and "pre = [] \<or> pre = [SOH]" and "n \<le> length (concat (map frame ms))"
  shows "(\<exists>k < length ms. n = tag_cut ms k \<and> process_buffer (pre @ take n (concat (map frame ms))) cbs
              = Some (cbs @ map (\<lambda>m. butlast (frame m)) (take k ms), Inl OutOfBounds))
       \<or> (\<forall>k < length ms. n \<noteq> tag_cut ms k) \<and> (\<exists>c r. process_buffer (pre @ take n (concat (map frame ms))) cbs = Some (c, Inr r))"
  using assms
proof (induction ms arbitrary: pre cbs n)
  case Nil
  then have "process_step pre = Inr Wait" by (auto simp: process_step_def)
  then show ?case by (simp add: process_buffer.simps)
next
  case (Cons m ms)
  let ?S = "concat (map frame (m # ms))"
  have ok: "frame_ok m" "\<forall>m \<in> set ms. frame_ok m" using Cons.prems(1) by simp_all
  note tag = tag_in_frame [OF ok(1)]
  have later: "tag_cut (m # ms) k < length (frame m) \<Longrightarrow> k = 0" for k by (cases k) (simp_all add: tag_cut_Cons)
  consider "Suc n < length (frame m)" | "Suc n = length (frame m)" | n' where "n = length (frame m) + n'"
    using less_linear [of "Suc n" "length (frame m)"] by (metis less_SucE less_imp_add_positive add_0_right)
  then show ?case
  proof cases
    case 1
    then have tk: "take n ?S = take n (frame m)" by simp
    have "process_step (pre @ take n ?S) = (if n = tag_cut (m # ms) 0 then Inl OutOfBounds else Inr Wait)"
      unfolding tk using process_step_open [OF ok(1) Cons.prems(2) 1] by (simp add: tag_cut_Cons)
    moreover have "n \<noteq> tag_cut (m # ms) k" if "n \<noteq> tag_cut (m # ms) 0" for k
      using 1 later [of k] that by (cases k) auto
    ultimately show ?thesis by (auto simp: process_buffer.simps)
  next
    case 2
    then have "n = length (frame m) - 1" by simp
    then have "take n ?S = butlast (frame m)" by (simp add: butlast_conv_take)
    then have "process_step (pre @ take n ?S) = Inr (Consume (Some (butlast (frame m))) [])"
      using process_step_body [OF ok(1) Cons.prems(2), of "[]"] by simp
    then have "\<exists>c r. process_buffer (pre @ take n ?S) cbs = Some (c, Inr r)"
      by (simp add: process_buffer.simps process_step_def [of "[]"])
    moreover have "n \<noteq> tag_cut (m # ms) k" for k
      using 2 later [of k] tag by (cases k) (auto simp: tag_cut_Cons)
    ultimately show ?thesis by blast
  next
    case 3
    let ?x = "take n' (concat (map frame ms))"
    have "take n ?S = frame m @ ?x" using 3 by simp
    then have "process_buffer (pre @ take n ?S) cbs = process_buffer ([SOH] @ ?x) (cbs @ [butlast (frame m)])"
      using process_step_frame [OF ok(1) Cons.prems(2), of ?x] by (simp add: process_buffer.simps hand_over_def)
    moreover have "(\<exists>k < length (m # ms). n = tag_cut (m # ms) k \<and> P (take k (m # ms)))
        \<longleftrightarrow> (\<exists>k < length ms. n' = tag_cut ms k \<and> P (m # take k ms))" for P
    proof -
      have "(\<exists>k < Suc (length ms). Q k) \<longleftrightarrow> Q 0 \<or> (\<exists>k < length ms. Q (Suc k))" for Q
        by (metis Suc_less_eq not0_implies_Suc zero_less_Suc)
      then show ?thesis using 3 tag by (simp add: tag_cut_Cons)
    qed
    note eq = this [of "\<lambda>ks. process_buffer ([SOH] @ ?x) (cbs @ [butlast (frame m)])
              = Some (cbs @ map (\<lambda>m. butlast (frame m)) ks, Inl OutOfBounds)"] this [of "\<lambda>_. True"]
    moreover have "n' \<le> length (concat (map frame ms))" using Cons.prems(3) 3 by simp
    note Cons.IH [OF ok(2) _ this, of "[SOH]" "cbs @ [butlast (frame m)]"]
    ultimately show ?thesis by simp blast
  qed
qed

text \<open>
  A sequence of pieces after \<open>n\<close> bytes of the stream: the parser goes on as if it had received
  everything at once, until a piece ends at one of the positions above.
\<close>

lemma feed_pieces:
  assumes ok: "\<forall>m \<in> set ms. frame_ok m" and S: "take n (concat (map frame ms)) @ concat ds = concat (map frame ms)"
    and now: "\<And>t. process_buffer (b @ t) cbs = process_buffer (take n (concat (map frame ms)) @ t) []"
    and wait: "process_step b = Inr Wait" and n: "n \<le> length (concat (map frame ms))"
  shows "(\<exists>k < length ms. (\<exists>j < length ds. n + length (concat (take (Suc j) ds)) = tag_cut ms k)
              \<and> feed ds b cbs = Some (map (\<lambda>m. butlast (frame m)) (take k ms), Inl OutOfBounds))
       \<or> (\<forall>k < length ms. \<forall>j < length ds. n + length (concat (take (Suc j) ds)) \<noteq> tag_cut ms k)
          \<and> (\<exists>c r. feed ds b cbs = Some (c, Inr r))"
  using assms(2-)
proof (induction ds arbitrary: n b cbs)
  case (Cons d ds)
  let ?S = "concat (map frame ms)" and ?n = "n + length d"
  have S: "take n ?S @ d @ concat ds = ?S" using Cons.prems(1) by simp
  then have n: "?n \<le> length ?S" using Cons.prems(4) by (metis append_assoc length_append length_take le_add1 min.absorb2)
  have tk: "take ?n ?S = take n ?S @ d"
  proof -
    have "take ?n (take n ?S @ d @ concat ds) = take n ?S @ d" using Cons.prems(4) by simp
    then show ?thesis using S by simp
  qed
  have d: "on_data d b cbs = process_buffer (take ?n ?S) []" using Cons.prems(2) [of d] tk by (simp add: on_data_def)
  have cut0: "\<exists>j < length (d # ds). n + length (concat (take (Suc j) (d # ds))) = c" if "?n = c" for c
    using that by (intro exI [of _ 0]) simp
  from process_prefix [OF ok _ n, of "[]" "[]"] consider
      k where "k < length ms" "?n = tag_cut ms k"
        "process_buffer (take ?n ?S) [] = Some (map (\<lambda>m. butlast (frame m)) (take k ms), Inl OutOfBounds)"
    | c r where "\<forall>k < length ms. ?n \<noteq> tag_cut ms k" "process_buffer (take ?n ?S) [] = Some (c, Inr r)"
    by auto
  then show ?case
  proof cases
    case 1
    then show ?thesis using cut0 [of "tag_cut ms k"] d by auto
  next
    case 2
    have now: "process_buffer (r @ t) c = process_buffer (take ?n ?S @ t) []" for t
      using process_buffer_append [OF 2(2), of t] by simp
    have "process_step r = Inr Wait" using process_buffer_append [OF 2(2)] by blast
    note IH = Cons.IH [OF _ now this n]
    have "take ?n ?S @ concat ds = ?S" using S tk by simp
    note IH [OF this]
    moreover have "feed (d # ds) b cbs = feed ds r c" using d 2(2) by simp
    moreover have "(\<exists>j < length (d # ds). n + length (concat (take (Suc j) (d # ds))) = tag_cut ms k)
        \<longleftrightarrow> (\<exists>j < length ds. ?n + length (concat (take (Suc j) ds)) = tag_cut ms k)" if "k < length ms" for k
    proof -
      have "(\<exists>j < Suc (length ds). Q j) \<longleftrightarrow> Q 0 \<or> (\<exists>j < length ds. Q (Suc j))" for Q
        by (metis Suc_less_eq not0_implies_Suc zero_less_Suc)
      then show ?thesis using 2(1) that by (simp add: add.assoc)
    qed
    ultimately show ?thesis by (metis (no_types, lifting))
  qed
qed simp

section \<open>Properties\<close>

text \<open>
  C8.  A stream of well-formed messages cut into pieces in any way: if some piece ends right behind
  the tag 9 of the body length of a message, the parser leaves its buffer there, and the calls it
  made are those of the messages before that one.  In every other case nothing faults and the
  callback gets every message of the stream once and in order, each without its final separator,
  and the buffer holds only the last separator.  In particular a stream received at once is
  delivered.
\<close>

theorem stream_parser_delivers:
  assumes "\<forall>m \<in> set ms. frame_ok m" and "concat ds = concat (map frame ms)" and "ms \<noteq> []"
  shows "if \<exists>k < length ms. \<exists>j \<le> length ds. length (concat (take j ds)) = tag_cut ms k
    then \<exists>k < length ms. (\<exists>j \<le> length ds. length (concat (take j ds)) = tag_cut ms k)
           \<and> feed ds [] [] = Some (map (\<lambda>m. butlast (frame m)) (take k ms), Inl OutOfBounds)
    else feed ds [] [] = Some (map (\<lambda>m. butlast (frame m)) ms, Inr [SOH])"
proof -
  have cuts: "(\<exists>j \<le> length ds. length (concat (take j ds)) = tag_cut ms k)
      \<longleftrightarrow> (\<exists>j < length ds. length (concat (take (Suc j) ds)) = tag_cut ms k)" for k
  proof -
    have "length (concat (take 0 ds)) \<noteq> tag_cut ms k" by (simp add: tag_cut_def)
    then show ?thesis by (metis Suc_le_eq not0_implies_Suc)
  qed
  have whole: "process_buffer (concat ds) [] = Some (map (\<lambda>m. butlast (frame m)) ms, Inr [SOH])"
    using process_frames [OF assms(1), of "[]" "[]"] assms(2,3) by simp
  have done_: "cbs = map (\<lambda>m. butlast (frame m)) ms \<and> b = [SOH]" if "feed ds [] [] = Some (cbs, Inr b)" for cbs b
  proof -
    have "process_buffer b cbs = Some (map (\<lambda>m. butlast (frame m)) ms, Inr [SOH])"
      using feed_concat [OF that] whole by simp
    moreover have "process_buffer b cbs = Some (cbs, Inr b)"
      using feed_waits [OF that] by (simp add: process_buffer.simps process_step_empty)
    ultimately show ?thesis by simp
  qed
  have "(\<exists>k < length ms. (\<exists>j < length ds. length (concat (take (Suc j) ds)) = tag_cut ms k)
              \<and> feed ds [] [] = Some (map (\<lambda>m. butlast (frame m)) (take k ms), Inl OutOfBounds))
       \<or> (\<forall>k < length ms. \<forall>j < length ds. length (concat (take (Suc j) ds)) \<noteq> tag_cut ms k)
          \<and> (\<exists>c r. feed ds [] [] = Some (c, Inr r))"
    using feed_pieces [OF assms(1), of 0 ds "[]" "[]"] assms(2) by (simp add: process_step_empty)
  then show ?thesis unfolding cuts using done_ by auto
qed

definition sample_frame :: "string \<times> (int \<times> string) list" where
  "sample_frame = (''FIX.4.2'', [(35, ''0''), (34, ''7'')])"

lemma sample_frame_ok: "frame_ok sample_frame"
proof -
  have "length (frame sample_frame) = 32" by code_simp
  moreover have "no_checksum_text (8, fst sample_frame) \<and> (\<forall>f \<in> set (snd sample_frame). no_checksum_text f)" by code_simp
  ultimately show ?thesis by (simp add: frame_ok_def) (simp add: sample_frame_def)
qed

text \<open>Two messages received in three pieces, one of which ends inside the second length.\<close>

theorem stream_parser_delivers_witness:
  "feed [take 20 (frame sample_frame), drop 20 (frame sample_frame) @ take 13 (frame sample_frame),
         drop 13 (frame sample_frame)] [] []
     = Some ([butlast (frame sample_frame), butlast (frame sample_frame)], Inr [SOH])"
proof -
  let ?f = "frame sample_frame" and ?ms = "[sample_frame, sample_frame]"
  let ?ds = "[take 20 ?f, drop 20 ?f @ take 13 ?f, drop 13 ?f]"
  have l: "length ?f = 32" by code_simp
  have "length (field_text SOH (8, fst sample_frame)) = 10" by code_simp
  then have t: "tag_cut ?ms 0 = 11" "tag_cut ?ms (Suc 0) = 43" using l by (simp_all add: tag_cut_def)
  have *: "length (concat (take j ?ds)) \<in> {0, 20, 45, 64}" if "j \<le> length ?ds" for j
  proof -
    have "j = 0 \<or> j = Suc 0 \<or> j = Suc (Suc 0) \<or> j = Suc (Suc (Suc 0))" using that by auto
    then show ?thesis using l by auto
  qed
  have cut: "\<not> (\<exists>k < length ?ms. \<exists>j \<le> length ?ds. length (concat (take j ?ds)) = tag_cut ?ms k)"
  proof (intro notI, elim exE conjE)
    fix k j assume k: "k < length ?ms" and "j \<le> length ?ds" "length (concat (take j ?ds)) = tag_cut ?ms k"
    with * [of j] have "tag_cut ?ms k \<in> {0, 20, 45, 64}" by metis
    moreover have "k = 0 \<or> k = Suc 0" using k by auto
    ultimately show False using t by auto
  qed
  have eq: "concat ?ds = concat (map frame ?ms)"
    by (simp only: concat.simps list.map append_Nil2) (metis append.assoc append_take_drop_id)
  have "\<forall>m \<in> set ?ms. frame_ok m" "?ms \<noteq> []" by (simp_all add: sample_frame_ok)
  then show ?thesis using stream_parser_delivers [OF _ eq, unfolded if_not_P [OF cut] list.map] by blast
qed

text \<open>
  Not every division into pieces is safe: when a piece ends right behind the tag of the body
  length, the parser steps two positions on without looking and leaves its buffer.
\<close>

theorem stream_parser_split_fault:
  assumes "frame_ok m"
  shows "feed ((field_text SOH (8, fst m) @ ''9'') # ds) [] [] = Some ([], Inl OutOfBounds)"
proof -
  from assms obtain w where w: "fst m = ''FIX'' @ w" "CHR ''9'' \<notin> set w" by (auto simp: frame_ok_def)
  define h where "h = ''8=FIX'' @ w @ [SOH]"
  have b: "field_text SOH (8, fst m) @ ''9'' = h @ ''9''" by (simp add: field_text_def w(1) h_def)
  have "find_char CHR ''9'' (h @ ''9'') = Some (length h)" using find_char_append [of "CHR ''9''" h "[]"] w(2) by (simp add: h_def)
  moreover have "find_str ''8=FIX'' (h @ ''9'') = Some 0" by (simp add: h_def)
  ultimately have "process_step (h @ ''9'') = Inl OutOfBounds" by (simp add: process_step_def)
  then show ?thesis by (simp add: on_data_def b process_buffer.simps)
qed

theorem stream_parser_split_fault_witness:
  "feed [field_text SOH (8, fst sample_frame) @ ''9'', ''=14''] [] [] = Some ([], Inl OutOfBounds)"
  by (rule stream_parser_split_fault [OF sample_frame_ok])

definition endless_input :: string where
  "endless_input = ''8=FIX.4.2'' @ [SOH] @ ''9=18446744073709551577'' @ [SOH]"

lemma endless_step: "process_step endless_input = Inr (Consume None endless_input)"
proof -
  let ?p = "''8=FIX.4.2'' @ [SOH] @ ''9=''" and ?d = "''18446744073709551577''"
  have b: "endless_input = ?p @ ?d @ SOH # []" by (simp add: endless_input_def)
  have v: "foldl digit_step 0 ?d = 18446744073709551577" by (simp add: digit_step_def char_code_def)
  have "\<forall>c \<in> set ?d. is_digit c" by (simp add: is_digit_def char_code_def)
  moreover have "foldl digit_step 0 ?d < sz_mod" unfolding v by simp
  moreover have l: "length ?p = 12" "length ?d = 20" "(12 :: nat) + 20 = 32" by simp_all
  ultimately have "parse_length endless_input 12 0 = Inr (32, 18446744073709551577)"
    using parse_length_digits [of ?d 0 ?p "[]"] unfolding b v l by blast
  moreover have "find_str ''8=FIX'' endless_input = Some 0" "find_char CHR ''9'' endless_input = Some 10"
    by (simp_all add: endless_input_def)
  moreover have "length endless_input = 33" by (simp add: endless_input_def)
  ultimately show ?thesis by (simp add: process_step_def sz_add_def validate_checksum_def)
qed

text \<open>
  C32.  A declared body length close to \<open>2 ^ 64\<close> makes the total length wrap around to zero: the round
  then takes nothing off the buffer and \<open>on_data\<close> never returns.
\<close>

theorem stream_parser_endless: "on_data endless_input [] [] = None"
proof -
  have "b \<noteq> endless_input" if "process_buffer b cbs = Some y" for b cbs y
    using that
  proof (rule process_buffer.raw_induct [rotated])
    fix f b cbs y
    assume IH: "\<And>b cbs y. f b cbs = Some y \<Longrightarrow> b \<noteq> endless_input"
      and f: "(case process_step b of Inl e \<Rightarrow> Some (cbs, Inl e)
        | Inr st \<Rightarrow> (case st of Wait \<Rightarrow> Some (cbs, Inr b) | Consume m r \<Rightarrow> f r (hand_over m cbs))) = Some y"
    show "b \<noteq> endless_input"
    proof
      assume "b = endless_input"
      then have "f endless_input (hand_over None cbs) = Some y" using f by (simp add: endless_step)
      from IH [OF this] show False by simp
    qed
  qed
  then show ?thesis by (cases "process_buffer endless_input []") (auto simp: on_data_def)
qed

end
