(* ===== verification/Fix_Buffer_Parser.thy ===== *)
theory Fix_Buffer_Parser
  imports Fix_Text
begin

text \<open>
  The whole-buffer parser of \<open>ihs/src/parser.cpp\<close> (its second class \<open>FixParser\<close>, with the class
  \<open>FixMessage\<close>).  A position in the buffer is represented by the part of the buffer that starts
  there.  \<open>parse\<close> catches \<open>std::runtime_error\<close> only; \<open>std::stoi\<close> throws logic errors.
\<close>

section \<open>Messages\<close>

type_synonym field_table = "int \<Rightarrow> string option"

definition msg_addField :: "int \<Rightarrow> string \<Rightarrow> field_table \<Rightarrow> field_table" where
  "msg_addField tag value m = m(tag \<mapsto> value)"

definition msg_getField :: "int \<Rightarrow> field_table \<Rightarrow> string" where
  "msg_getField tag m = (case m tag of Some v \<Rightarrow> v | None \<Rightarrow> [])"

definition msg_hasField :: "int \<Rightarrow> field_table \<Rightarrow> bool" where
  "msg_hasField tag m \<longleftrightarrow> m tag \<noteq> None"

section \<open>Operations\<close>

text \<open>A message is looked for behind the next separator, never at the position itself.\<close>

function findNextMessageStart :: "string \<Rightarrow> string option" where
  "findNextMessageStart s =
     (case find_char SOH s of
        None \<Rightarrow> None
      | Some n \<Rightarrow>
          let t = drop (Suc n) s
          in if length t \<le> 2 then None
             else if t ! 0 = CHR ''8'' \<and> t ! 1 = CHR ''='' then Some t
             else findNextMessageStart t)"
  by auto
termination
  by (relation "measure length") (auto dest: find_char_Some)

declare findNextMessageStart.simps [simp del]

text \<open>\<open>start\<close> is the message from its first byte, \<open>s\<close> the part from the checksum field, \<open>fin\<close> the length of that field.\<close>

definition calculateBodyLength :: "string \<Rightarrow> string \<Rightarrow> nat \<Rightarrow> nat" where
  "calculateBodyLength start s fin =
     (let checksumPos = length start - length s + fin;
          bodyStart = (case find_char SOH start of None \<Rightarrow> length start | Some n \<Rightarrow> n) + 1
      in sz_sub checksumPos bodyStart)"

definition verifyChecksum :: "string \<Rightarrow> string \<Rightarrow> bool" where
  "verifyChecksum start checksumValue = True"

record header_state =
  hasBeginString :: bool
  hasBodyLen :: bool
  hasMsgType :: bool
  declared :: int

definition check_message :: "string \<Rightarrow> string \<Rightarrow> nat \<Rightarrow> string \<Rightarrow> header_state \<Rightarrow> fault + unit" where
  "check_message start s fin value h =
     (if \<not> hasBeginString h \<or> \<not> hasBodyLen h \<or> \<not> hasMsgType h then Inl (Thrown ''Missing required header fields'')
      else if int (calculateBodyLength start s fin) \<noteq> u64_of (declared h) then Inl (Thrown ''Body length mismatch'')
      else if \<not> verifyChecksum start value then Inl (Thrown ''Checksum mismatch'')
      else Inr ())"

text \<open>The field at a position: its tag, its value and the offset of its separator.\<close>

definition next_field :: "string \<Rightarrow> fault + int \<times> string \<times> nat" where
  "next_field s =
     (case find_char SOH s of
        None \<Rightarrow> Inl (Thrown ''Incomplete field'')
      | Some fieldEnd \<Rightarrow>
          (case find_char CHR ''='' (take fieldEnd s) of
             None \<Rightarrow> Inl (Thrown ''Invalid field format'')
           | Some equalPos \<Rightarrow>
               sum_bind (stoi (take equalPos s)) (\<lambda>tag.
               Inr (tag, drop (Suc equalPos) (take fieldEnd s), fieldEnd))))"

lemma next_field_bound: "next_field s = Inr (tag, value, fieldEnd) \<Longrightarrow> fieldEnd < length s"
  using find_char_Some [of SOH s] by (auto simp: next_field_def sum_bind_eq_Inr split: option.splits)

text \<open>The field loop of \<open>parseMessage\<close>; the result is the message and the rest of the buffer.\<close>

function parse_fields :: "string \<Rightarrow> string \<Rightarrow> field_table \<Rightarrow> header_state \<Rightarrow> fault + field_table \<times> string" where
  "parse_fields start s m h =
     (if s = [] then Inl (Thrown ''Message incomplete, missing checksum'')
      else case next_field s of
             Inl e \<Rightarrow> Inl e
           | Inr (tag, value, fieldEnd) \<Rightarrow>
               let m1 = msg_addField tag value m; rest = drop (Suc fieldEnd) s
               in if tag = 8 then parse_fields start rest m1 (h\<lparr>hasBeginString := True\<rparr>)
                  else if tag = 9 then
                    (case stoi value of
                       Inl e \<Rightarrow> Inl e
                     | Inr bl \<Rightarrow> parse_fields start rest m1 (h\<lparr>hasBodyLen := True, declared := bl\<rparr>))
                  else if tag = 35 then parse_fields start rest m1 (h\<lparr>hasMsgType := True\<rparr>)
                  else if tag = 10 then
                    sum_bind (check_message start s fieldEnd value h) (\<lambda>_. Inr (m1, rest))
                  else parse_fields start rest m1 h)"
  by auto
termination
  by (relation "measure (\<lambda>(_, s, _, _). length s)") (auto dest: next_field_bound)

declare parse_fields.simps [simp del]

definition parseMessage :: "string \<Rightarrow> fault + field_table \<times> string" where
  "parseMessage start =
     parse_fields start start (\<lambda>_. None) \<lparr>hasBeginString = False, hasBodyLen = False, hasMsgType = False, declared = 0\<rparr>"

definition runtime_error :: "fault \<Rightarrow> bool" where
  "runtime_error e \<longleftrightarrow> e \<noteq> Thrown ''invalid_argument'' \<and> e \<noteq> Thrown ''out_of_range''"

lemma find_rest_shorter: "find_char c s = Some n \<Longrightarrow> length (drop (Suc n) s) < length s"
  using find_char_Some [of c s n] by (simp del: length_greater_0_conv)

lemma findNext_shorter: "findNextMessageStart s = Some t \<Longrightarrow> length t < length s"
proof (induction s rule: findNextMessageStart.induct)
  case (1 s)
  show ?case
  proof (cases "find_char SOH s")
    case None
    then show ?thesis using 1 by (simp add: findNextMessageStart.simps [of s])
  next
    case (Some n)
    note less = find_rest_shorter [OF Some]
    have "findNextMessageStart s = (if length (drop (Suc n) s) \<le> 2 then None
        else if drop (Suc n) s ! 0 = CHR ''8'' \<and> drop (Suc n) s ! 1 = CHR ''='' then Some (drop (Suc n) s)
        else findNextMessageStart (drop (Suc n) s))"
      using Some by (subst findNextMessageStart.simps) (simp add: Let_def)
    then consider "t = drop (Suc n) s" | "findNextMessageStart (drop (Suc n) s) = Some t" "\<not> length (drop (Suc n) s) \<le> 2"
        "\<not> (drop (Suc n) s ! 0 = CHR ''8'' \<and> drop (Suc n) s ! 1 = CHR ''='')"
      using 1(2) by (metis option.distinct(1) option.inject)
    then show ?thesis using less 1(1) [OF Some refl] by cases (simp, fastforce)
  qed
qed

lemma parse_fields_shorter: "parse_fields start s m h = Inr (m', r) \<Longrightarrow> length r < length s"
proof (induction start s m h rule: parse_fields.induct)
  case (1 start s m h)
  note eq = 1(5) [unfolded parse_fields.simps [of start s m h]]
  then obtain tag v n where f: "s \<noteq> []" "next_field s = Inr (tag, v, n)" by (auto split: if_splits sum.splits)
  have less: "length (drop (Suc n) s) < length s" using next_field_bound [OF f(2)] f(1) by simp
  note IH = 1(1-4) [OF f refl refl refl refl]
  consider "tag = 8" | "tag = 9" | "tag = 35" | "tag = 10" | "tag \<notin> {8, 9, 35, 10}" by auto
  then show ?case
    using eq f less IH by cases (auto simp: Let_def sum_bind_eq_Inr split: sum.splits)
qed

text \<open>
  The loop of \<open>parse\<close>: after a message it goes on behind it, after a runtime error one byte
  further; any other exception leaves the function.
\<close>

function parse_buffer :: "string \<Rightarrow> fault + field_table list" where
  "parse_buffer s =
     (if s = [] then Inr []
      else case findNextMessageStart s of
             None \<Rightarrow> Inr []
           | Some t \<Rightarrow>
               (case parseMessage t of
                  Inr (m, rest) \<Rightarrow> sum_bind (parse_buffer rest) (\<lambda>ms. Inr (m # ms))
                | Inl e \<Rightarrow> if runtime_error e then parse_buffer (drop 1 t) else Inl e))"
  by auto
termination
proof (relation "measure length")
  fix s t p m rest
  assume "findNextMessageStart s = Some t" "parseMessage t = Inr p" "(m, rest) = p"
  then show "(rest, s) \<in> measure length"
    using findNext_shorter [of s t] parse_fields_shorter [of t t _ _ m rest] by (fastforce simp: parseMessage_def)
next
  fix s t e
  assume "findNextMessageStart s = Some t"
  then show "(drop 1 t, s) \<in> measure length" using findNext_shorter [of s t] by simp
qed simp

declare parse_buffer.simps [simp del]

section \<open>Running the parser over fields\<close>

lemma next_field_text:
  assumes "field_ok SOH f"
  shows "next_field (field_text SOH f @ x) = Inr (fst f, snd f, length (to_string (fst f)) + 1 + length (snd f))"
proof -
  let ?t = "to_string (fst f) @ ''='' @ snd f"
  have n: "find_char SOH (field_text SOH f @ x) = Some (length ?t)" by (rule soh.find_sep [OF assms])
  have t: "take (length ?t) (field_text SOH f @ x) = ?t" by (rule soh.token_of_field(1) [OF assms refl])
  have e: "find_char CHR ''='' ?t = Some (length (to_string (fst f)))" using find_equals by simp
  have "take (length (to_string (fst f))) (field_text SOH f @ x) = to_string (fst f)" by (simp add: field_text_def)
  moreover have "stoi (to_string (fst f)) = Inr (fst f)" using assms by (simp add: field_ok_def stoi_to_string)
  ultimately show ?thesis unfolding next_field_def n option.case t e by simp
qed

lemma field_text_length: "length (field_text sep f) = Suc (length (to_string (fst f)) + 1 + length (snd f))"
  by (simp add: field_text_def)

lemma parse_fields_field:
  assumes "field_ok SOH f" and "fst f \<notin> {8, 9, 10}"
  shows "parse_fields start (field_text SOH f @ x) m h
    = parse_fields start x (m(fst f \<mapsto> snd f)) (h\<lparr>hasMsgType := hasMsgType h \<or> fst f = 35\<rparr>)"
proof -
  have "drop (Suc (length (to_string (fst f)) + 1 + length (snd f))) (field_text SOH f @ x) = x"
    using field_text_length [of SOH f] by simp
  moreover have "field_text SOH f @ x \<noteq> []" by (simp add: field_text_def)
  moreover have "h\<lparr>hasMsgType := hasMsgType h\<rparr> = h" by simp
  ultimately show ?thesis
    using assms next_field_text [OF assms(1), of x]
    by (subst parse_fields.simps) (auto simp: Let_def msg_addField_def simp del: drop_append drop_Suc)
qed

lemma parse_fields_body:
  assumes "\<forall>f \<in> set fs. field_ok SOH f \<and> fst f \<notin> {8, 9, 10}"
  shows "parse_fields start (fields_text SOH fs @ x) m h
    = parse_fields start x (m ++ map_of (rev fs)) (h\<lparr>hasMsgType := hasMsgType h \<or> 35 \<in> fst ` set fs\<rparr>)"
  using assms
proof (induction fs arbitrary: m h)
  case (Cons f fs)
  then show ?case using parse_fields_field [of f start "fields_text SOH fs @ x" m h]
    by (simp del: fun_upd_apply add: disj_assoc eq_commute [of 35])
qed simp

lemma parse_fields_begin:
  assumes "field_ok SOH (8, v)"
  shows "parse_fields start (field_text SOH (8, v) @ x) m h = parse_fields start x (m(8 \<mapsto> v)) (h\<lparr>hasBeginString := True\<rparr>)"
  using next_field_text [OF assms, of x] field_text_length [of SOH "(8, v)"]
  by (subst parse_fields.simps) (auto simp: Let_def msg_addField_def field_text_def)

section \<open>Messages as this parser wants them\<close>

text \<open>
  A message is a begin string, the text of the declared length, the body fields and a checksum
  text.  The length is what \<open>calculateBodyLength\<close> computes: from the length field up to the last
  separator.
\<close>

type_synonym parts = "string \<times> string \<times> (int \<times> string) list \<times> string"

fun part_fields :: "parts \<Rightarrow> (int \<times> string) list" where
  "part_fields (v, l, fs, cs) = (9, l) # fs @ [(10, cs)]"

fun part_text :: "parts \<Rightarrow> string" where
  "part_text (v, l, fs, cs) = field_text SOH (8, v) @ fields_text SOH (part_fields (v, l, fs, cs))"

fun part_table :: "parts \<Rightarrow> field_table" where
  "part_table (v, l, fs, cs) = ((\<lambda>_. None)(8 \<mapsto> v, 9 \<mapsto> l) ++ map_of (rev fs))(10 \<mapsto> cs)"

text \<open>The fields are fields, and the length text is a number: the right one, or a wrong one.\<close>

fun part_fields_ok :: "parts \<Rightarrow> bool" where
  "part_fields_ok (v, l, fs, cs) \<longleftrightarrow> field_ok SOH (8, v) \<and> field_ok SOH (9, l) \<and> field_ok SOH (10, cs)
     \<and> (\<forall>f \<in> set fs. field_ok SOH f \<and> fst f \<notin> {8, 9, 10}) \<and> 35 \<in> fst ` set fs
     \<and> length (part_text (v, l, fs, cs)) < sz_mod"

definition declares :: "parts \<Rightarrow> nat \<Rightarrow> bool" where
  "declares p n \<longleftrightarrow> stoi (fst (snd p)) = Inr (int n) \<and> n < 2147483648"

definition part_ok :: "parts \<Rightarrow> bool" where
  "part_ok p \<longleftrightarrow> part_fields_ok p \<and> declares p (length (fields_text SOH (part_fields p)) - 1)"

lemma digits_field_ok: "field_ok SOH (9, digits n)"
  using digits_digit [of SOH n] by (auto simp: field_ok_def)

lemma digits_nat: "to_string (int n) = digits n"
  by (simp add: to_string_def)

text \<open>
  A begin string, a length field, body fields and a checksum: everything is read, and then the declared length
  decides.
\<close>

lemma parseMessage_fields:
  assumes fok: "part_fields_ok (v, l, fs, cs)" and decl: "declares (v, l, fs, cs) n"
  shows "parseMessage (part_text (v, l, fs, cs) @ x)
    = (if Suc n = length (fields_text SOH (part_fields (v, l, fs, cs))) then Inr (part_table (v, l, fs, cs), x)
       else Inl (Thrown ''Body length mismatch''))"
proof -
  let ?fields = "fields_text SOH ((9, l) # fs @ [(10, cs)])" and ?fcs = "field_text SOH (10, cs)"
  let ?start = "field_text SOH (8, v) @ field_text SOH (9, l) @ fields_text SOH fs @ ?fcs @ x"
  let ?init = "\<lparr>hasBeginString = False, hasBodyLen = False, hasMsgType = False, declared = 0\<rparr>"
  let ?h = "\<lparr>hasBeginString = True, hasBodyLen = True, hasMsgType = True, declared = int n\<rparr>"
  have ok8: "field_ok SOH (8, v)" and ok9: "field_ok SOH (9, l)" and ok10: "field_ok SOH (10, cs)"
    and body: "\<forall>f \<in> set fs. field_ok SOH f \<and> fst f \<notin> {8, 9, 10}" "35 \<in> fst ` set fs"
    and small: "length (field_text SOH (8, v) @ ?fields) < sz_mod" using fok by simp_all
  have st: "stoi l = Inr (int n)" and n: "n < 2147483648" using decl by (simp_all add: declares_def)
  have start: "part_text (v, l, fs, cs) @ x = ?start" by simp
  note f8 = parse_fields_begin [OF ok8]
  have f9: "parse_fields s (field_text SOH (9, l) @ y) m h
      = parse_fields s y (m(9 \<mapsto> l)) (h\<lparr>hasBodyLen := True, declared := int n\<rparr>)" for s y m h
    using next_field_text [OF ok9, of y] st
    by (subst parse_fields.simps) (auto simp: Let_def msg_addField_def field_text_def)
  have calc: "Suc (calculateBodyLength ?start (?fcs @ x) (length (to_string 10) + 1 + length cs)) = length ?fields"
  proof -
    have "find_char SOH ?start = Some (length (''8='' @ v))" using soh.find_sep [OF ok8] by simp
    moreover have "length ?start - length (?fcs @ x) + (length (to_string 10) + 1 + length cs)
        = length (field_text SOH (8, v)) + (length ?fields - 1)" "length ?fields \<noteq> 0"
      using field_text_length [of SOH "(10, cs)"] by simp_all
    ultimately show ?thesis using small by (simp add: calculateBodyLength_def sz_sub_le field_text_length)
  qed
  have u: "u64_of (int n) = int n" using n by (simp add: u64_of_id)
  have chk: "check_message ?start (?fcs @ x) (length (to_string 10) + 1 + length cs) cs ?h
      = (if Suc n = length ?fields then Inr () else Inl (Thrown ''Body length mismatch''))"
    unfolding check_message_def calc [symmetric] u by (simp add: verifyChecksum_def u)
  have f10: "parse_fields ?start (?fcs @ x) m ?h
      = (if Suc n = length ?fields then Inr (m(10 \<mapsto> cs), x) else Inl (Thrown ''Body length mismatch''))" for m
    using next_field_text [OF ok10, of x] chk
    by (subst parse_fields.simps) (simp add: msg_addField_def field_text_def)
  have "parse_fields ?start ?start (\<lambda>_. None) ?init
      = parse_fields ?start (?fcs @ x) ((\<lambda>_. None)(8 \<mapsto> v, 9 \<mapsto> l) ++ map_of (rev fs)) ?h"
    unfolding f8 f9 using parse_fields_body [of fs] body by simp
  then show ?thesis unfolding start parseMessage_def f10 by simp
qed

lemma part_fields_length: "0 < length (fields_text SOH (part_fields p))"
  by (cases p) (simp add: field_text_length)

lemma parseMessage_part:
  assumes "part_ok p"
  shows "parseMessage (part_text p @ x) = Inr (part_table p, x)"
  using assms parseMessage_fields [of "fst p" "fst (snd p)" "fst (snd (snd p))" "snd (snd (snd p))"
      "length (fields_text SOH (part_fields p)) - 1" x] part_fields_length [of p]
  unfolding part_ok_def prod.collapse by auto

section \<open>Which messages are found\<close>

lemma tag_8_text:
  assumes "to_string t @ CHR ''='' # r = x" and "x ! 0 = CHR ''8''" and "x ! 1 = CHR ''=''"
  shows "t = 8"
proof -
  obtain c cs where c: "to_string t = c # cs" using digits_not_Nil by (cases "to_string t") (auto simp: to_string_def split: if_splits)
  have "cs = []"
  proof (cases cs)
    case (Cons d ds)
    then have "d = CHR ''=''" using assms c by auto
    then show ?thesis using equals_tag [of t] c Cons by simp
  qed
  then have "to_string t = to_string 8" using assms(1,2) c by auto
  then show ?thesis using parse_int_to_string by (metis option.inject)
qed

definition after_message :: "string \<Rightarrow> string option" where
  "after_message x = (if length x \<le> 2 then None
     else if x ! 0 = CHR ''8'' \<and> x ! 1 = CHR ''='' then Some x else findNextMessageStart x)"

lemma findNext_field:
  assumes "field_ok SOH f"
  shows "findNextMessageStart (field_text SOH f @ x) = after_message x"
proof -
  have "find_char SOH (field_text SOH f @ x) = Some (length (to_string (fst f) @ ''='' @ snd f))" by (rule soh.find_sep [OF assms])
  then show ?thesis using soh.token_of_field(2) [OF assms refl, of x]
    by (subst findNextMessageStart.simps) (simp add: after_message_def Let_def)
qed

lemma findNext_fields:
  assumes "field_ok SOH f" and "\<forall>g \<in> set fs. field_ok SOH g \<and> fst g \<noteq> 8"
  shows "findNextMessageStart (field_text SOH f @ fields_text SOH fs @ x) = after_message x"
  using assms
proof (induction fs arbitrary: f)
  case Nil
  then show ?case by (simp add: findNext_field)
next
  case (Cons g fs)
  let ?y = "field_text SOH g @ fields_text SOH fs @ x"
  have "2 < length ?y"
  proof -
    have "to_string (fst g) \<noteq> []" using digits_not_Nil by (simp add: to_string_def)
    then have "0 < length (to_string (fst g))" by blast
    then show ?thesis by (simp add: field_text_length)
  qed
  moreover have "\<not> (?y ! 0 = CHR ''8'' \<and> ?y ! 1 = CHR ''='')"
    using tag_8_text [of "fst g" "snd g @ SOH # fields_text SOH fs @ x" ?y] Cons.prems(2) by (auto simp: field_text_def)
  ultimately have "after_message ?y = findNextMessageStart ?y" by (auto simp: after_message_def)
  then show ?case using findNext_field [OF Cons.prems(1), of ?y] Cons.IH [of g] Cons.prems(2) by simp
qed

lemma part_no_begin: "part_fields_ok p \<Longrightarrow> \<forall>g \<in> set (part_fields p). field_ok SOH g \<and> fst g \<noteq> 8"
  by (cases p) auto

lemma findNext_part:
  assumes "part_fields_ok p"
  shows "findNextMessageStart (part_text p @ x) = after_message x"
  using findNext_fields [OF _ part_no_begin [OF assms], of "(8, fst p)" x] assms by (cases p) simp

lemma after_message_part: "after_message (part_text p @ x) = Some (part_text p @ x)"
  by (cases p) (simp add: after_message_def field_text_def)

section \<open>Messages it rejects\<close>

text \<open>Like \<open>part_ok\<close>, but with a declared length that is not the one the parser computes.\<close>

definition part_mismatch :: "parts \<Rightarrow> bool" where
  "part_mismatch p \<longleftrightarrow> part_fields_ok p \<and> (\<exists>n. declares p n \<and> Suc n \<noteq> length (fields_text SOH (part_fields p)))"

lemma after_message_fields:
  assumes "\<forall>g \<in> set fs. field_ok SOH g \<and> fst g \<noteq> 8"
  shows "after_message (fields_text SOH fs @ x) = after_message x"
proof -
  have "field_ok SOH (8, [])" by (simp add: field_ok_def)
  from findNext_field [OF this, of "fields_text SOH fs @ x"] findNext_fields [OF this assms, of x] show ?thesis by simp
qed

lemma findNext_sep: "SOH \<notin> set t \<Longrightarrow> findNextMessageStart (t @ SOH # x) = after_message x"
  using find_char_append [of SOH t x] by (subst findNextMessageStart.simps) (simp add: after_message_def Let_def)

lemma mismatch_rejected:
  assumes "part_mismatch p"
  shows "parseMessage (part_text p @ x) = Inl (Thrown ''Body length mismatch'')"
    and "findNextMessageStart (drop 1 (part_text p @ x)) = after_message x"
    and "findNextMessageStart (part_text p @ x) = after_message x"
proof -
  obtain v l fs cs where p: "p = (v, l, fs, cs)" by (cases p)
  show "parseMessage (part_text p @ x) = Inl (Thrown ''Body length mismatch'')"
    using assms parseMessage_fields [of v l fs cs _ x] unfolding p part_mismatch_def by metis
  have ok: "part_fields_ok p" using assms by (simp add: part_mismatch_def)
  have "SOH \<notin> set (CHR ''='' # v)" using ok by (simp add: p field_ok_def)
  from findNext_sep [OF this] after_message_fields [OF part_no_begin [OF ok], of x]
  show "findNextMessageStart (drop 1 (part_text p @ x)) = after_message x" by (simp add: p field_text_def)
  show "findNextMessageStart (part_text p @ x) = after_message x" by (rule findNext_part [OF ok])
qed

lemma mismatch_stream:
  assumes "\<forall>p \<in> set ps. part_mismatch p"
  shows "parse_buffer (concat (map part_text ps)) = Inr []"
proof -
  have skip: "parse_buffer s = Inr []" if "findNextMessageStart s = after_message (concat (map part_text ps))"
    and "\<forall>p \<in> set ps. part_mismatch p" for s ps
    using that
  proof (induction ps arbitrary: s)
    case Nil
    then show ?case by (subst parse_buffer.simps) (simp add: after_message_def)
  next
    case (Cons p ps)
    let ?t = "part_text p @ concat (map part_text ps)"
    have "findNextMessageStart s = Some ?t" using Cons.prems after_message_part [of p] by simp
    moreover have "parseMessage ?t = Inl (Thrown ''Body length mismatch'')"
      "findNextMessageStart (drop 1 ?t) = after_message (concat (map part_text ps))"
      using Cons.prems mismatch_rejected [of p] by simp_all
    moreover have "parse_buffer (drop 1 ?t) = Inr []" using calculation(3) Cons.prems(2) by (intro Cons.IH) simp_all
    ultimately show ?case by (subst parse_buffer.simps) (simp add: runtime_error_def)
  qed
  show ?thesis
  proof (cases ps)
    case Nil
    then show ?thesis by (simp add: parse_buffer.simps)
  next
    case (Cons p r)
    then show ?thesis using skip [of "concat (map part_text ps)" r] mismatch_rejected(3) [of p] assms by simp
  qed
qed

fun every_second :: "'a list \<Rightarrow> 'a list" where
  "every_second [] = []"
| "every_second [a] = []"
| "every_second (a # b # xs) = b # every_second xs"

section \<open>Properties\<close>

text \<open>
  The parser finds every second message only: it starts by skipping to the first separator,
  which lies inside the first message, and after each message it has parsed it skips into the
  next one again.  The messages it does find are parsed completely and correctly.
\<close>

theorem buffer_parser_alternates:
  assumes "\<forall>p \<in> set ps. part_ok p"
  shows "parse_buffer (concat (map part_text ps)) = Inr (map part_table (every_second ps))"
  using assms
proof (induction ps rule: every_second.induct)
  case 1
  show ?case by (simp add: parse_buffer.simps)
next
  case (2 a)
  then have "findNextMessageStart (part_text a) = None" using findNext_part [of a "[]"] by (simp add: after_message_def part_ok_def)
  then show ?case by (simp add: parse_buffer.simps)
next
  case (3 a b ps)
  let ?r = "concat (map part_text ps)"
  have "findNextMessageStart (part_text a @ part_text b @ ?r) = Some (part_text b @ ?r)"
    using findNext_part [of a] after_message_part 3 by (simp add: part_ok_def)
  moreover have "part_text a @ part_text b @ ?r \<noteq> []" by (cases a) (simp add: field_text_def)
  moreover have "parseMessage (part_text b @ ?r) = Inr (part_table b, ?r)" using parseMessage_part 3 by simp
  ultimately show ?case using 3 by (simp add: parse_buffer.simps [of "part_text a @ part_text b @ ?r"])
qed

definition sample_parts :: parts where
  "sample_parts = (''FIX.4.4'', ''16'', [(35, ''D'')], ''123'')"

lemma sample_parts_ok: "part_ok sample_parts"
proof -
  have "length (to_string 35) = 2" "stoi ''16'' = Inr 16" by code_simp+
  then show ?thesis by (simp add: sample_parts_def part_ok_def declares_def field_ok_def field_text_length)
qed

theorem buffer_parser_alternates_witness:
  "parse_buffer (concat (map part_text [sample_parts, sample_parts, sample_parts])) = Inr [part_table sample_parts]"
proof -
  have "\<forall>p \<in> set [sample_parts, sample_parts, sample_parts]. part_ok p" by (simp add: sample_parts_ok)
  from buffer_parser_alternates [OF this] show ?thesis by simp
qed

text \<open>
  A tag that is not a number is not a runtime error: the exception of \<open>std::stoi\<close> is not
  caught and leaves \<open>parse\<close>, so that one bad field behind a begin string loses the whole buffer.
\<close>

theorem buffer_parser_bad_tag:
  assumes "field_ok SOH (8, v)" and "parse_int tag = None" and "SOH \<notin> set tag" and "CHR ''='' \<notin> set tag" and "part_ok p"
  shows "parse_buffer (part_text p @ field_text SOH (8, v) @ tag @ ''='' @ [SOH] @ x) = Inl (Thrown ''invalid_argument'')"
proof -
  let ?t = "field_text SOH (8, v) @ tag @ ''='' @ [SOH] @ x"
  have "findNextMessageStart (part_text p @ ?t) = Some ?t"
    using findNext_part [of p ?t] assms(5) by (simp add: after_message_def field_text_def part_ok_def)
  moreover have "parseMessage ?t = Inl (Thrown ''invalid_argument'')"
  proof -
    have "find_char SOH (tag @ CHR ''='' # SOH # x) = Some (Suc (length tag))"
      using find_char_append [of SOH "tag @ ''=''" x] assms(3) by simp
    moreover have "find_char CHR ''='' (tag @ ''='') = Some (length tag)" using find_char_append [OF assms(4), of "[]"] by simp
    moreover have "stoi tag = Inl (Thrown ''invalid_argument'')" using assms(2) by (simp add: stoi_def)
    ultimately have nf: "next_field (tag @ CHR ''='' # SOH # x) = Inl (Thrown ''invalid_argument'')"
      by (simp add: next_field_def)
    then have "parse_fields ?t (tag @ CHR ''='' # SOH # x) m h = Inl (Thrown ''invalid_argument'')" for m h
      by (subst parse_fields.simps) simp
    then show ?thesis
      using parse_fields_begin [OF assms(1), of ?t "tag @ CHR ''='' # SOH # x"] by (simp add: parseMessage_def)
  qed
  moreover have "part_text p @ ?t \<noteq> []" by (cases p) (simp add: field_text_def)
  ultimately show ?thesis by (subst parse_buffer.simps) (simp add: runtime_error_def)
qed

theorem buffer_parser_bad_tag_witness:
  "parse_buffer (part_text sample_parts @ field_text SOH (8, ''FIX.4.4'') @ ''abc'' @ ''='' @ [SOH] @ [])
     = Inl (Thrown ''invalid_argument'')"
proof (rule buffer_parser_bad_tag)
  show "part_ok sample_parts" by (rule sample_parts_ok)
  show "parse_int ''abc'' = None" by code_simp
qed (simp_all add: field_ok_def)

text \<open>
  The program at the end of parser.cpp: its message, with SOH for the bar.  It has no separator before
  its begin string, so the program finds no message and prints nothing.
\<close>

definition main_buffer :: string where
  "main_buffer =
     (let fixMsg = ''8=FIX.4.4|9=108|35=D|49=CLIENT|56=BROKER|34=123|52=20230726-12:34:56|55=IBM|54=1|60=20230726-12:34:56|11=ORDER123|38=100|40=2|44=150.50|10=123|''
      in map (\<lambda>c. if c = CHR ''|'' then SOH else c) fixMsg)"

definition parser_main :: "fault + field_table list" where
  "parser_main = parse_buffer main_buffer"

theorem parser_main_finds_nothing: "parser_main = Inr []"
proof -
  have "findNextMessageStart main_buffer = None" "main_buffer \<noteq> []" by code_simp+
  then show ?thesis unfolding parser_main_def by (subst parse_buffer.simps) simp
qed

end
