(* ===== verification/Fix_Session.thy ===== *)
theory Fix_Session
  imports Fix_Text
begin

text \<open>
  The FIX session of \<open>ihs/src/fix42_a.cpp\<close> with its example subclass \<open>TradingSession\<close>: the session
  state, the wire format with its patched body length, the receive thread that fills a queue and
  the processing thread that empties it.  Results of system calls and the clock are inputs; the
  text of a price is an input too.  The steps of the three threads are an inductive relation.
\<close>

section \<open>State\<close>

datatype SessionState = DISCONNECTED | LOGGING_IN | LOGGED_IN | LOGGING_OUT

record OrderInfo =
  info_symbol :: string
  info_side :: char
  info_quantity :: int
  info_price :: string

datatype session_event =
    OnExecutionReport "int \<Rightarrow> string option"
  | OnOrderCancelReject "int \<Rightarrow> string option"
  | OnReject "int \<Rightarrow> string option"
  | OnHeartbeat
  | OnLogout string

record FixSession =
  senderCompID :: string
  targetCompID :: string
  password :: string
  heartbeatInterval :: int
  session_state :: SessionState
  msgSeqNum :: int
  sockfd :: int
  running :: bool
  recvThread :: bool
  processThread :: bool
  messageQueue :: "string list"
  incompleteMessage :: string
  pendingOrders :: "(string \<times> OrderInfo) list"
  raised :: "session_event list"
  on_wire :: "(string \<times> string) list"

type_synonym wire_fields = "(int \<times> string) list"

definition FixSession_init :: "string \<Rightarrow> string \<Rightarrow> string \<Rightarrow> int \<Rightarrow> FixSession" where
  "FixSession_init sender target pw hb =
     \<lparr>senderCompID = sender, targetCompID = target, password = pw, heartbeatInterval = hb,
      session_state = DISCONNECTED, msgSeqNum = 1, sockfd = - 1, running = False,
      recvThread = False, processThread = False, messageQueue = [], incompleteMessage = [],
      pendingOrders = [], raised = [], on_wire = []\<rparr>"

definition put :: "int \<Rightarrow> string \<Rightarrow> wire_fields \<Rightarrow> wire_fields" where
  "put tag value m = map_put (<) tag value m"

section \<open>Sending\<close>

text \<open>
  The message before the checksum: the body length is patched over its placeholder.  A body length
  of more than six digits asks for a string of negative length.
\<close>

definition header_text :: "FixSession \<Rightarrow> string \<Rightarrow> string \<Rightarrow> wire_fields \<Rightarrow> string" where
  "header_text s timestamp msgType fs =
     to_string 8 @ ''='' @ ''FIX.4.2'' @ [SOH]
     @ to_string 9 @ ''=000000'' @ [SOH]
     @ to_string 34 @ ''='' @ to_string (msgSeqNum s) @ [SOH]
     @ to_string 49 @ ''='' @ senderCompID s @ [SOH]
     @ to_string 56 @ ''='' @ targetCompID s @ [SOH]
     @ to_string 52 @ ''='' @ timestamp @ [SOH]
     @ to_string 35 @ ''='' @ msgType @ [SOH]
     @ concat (map (\<lambda>(tag, value). to_string tag @ ''='' @ value @ [SOH]) fs)"

definition patch_length :: "string \<Rightarrow> fault + string" where
  "patch_length fullMsg =
     (let bodyLength = i32_of (int (length fullMsg) - int (length (to_string 9)) - 3);
          bodyLengthStr = to_string bodyLength
      in case find_str ''000000'' fullMsg of
           None \<Rightarrow> Inr fullMsg
         | Some pos \<Rightarrow>
             if length bodyLengthStr > 6 then Inl (Thrown ''length_error'')
             else Inr (take pos fullMsg @ replicate (6 - length bodyLengthStr) CHR ''0'' @ bodyLengthStr
                       @ drop (pos + 6) fullMsg))"

definition add_checksum :: "string \<Rightarrow> string" where
  "add_checksum fullMsg =
     (let sum = foldl (\<lambda>s c. s + of_nat (char_code c)) (0 :: u8) fullMsg
      in fullMsg @ to_string 10 @ ''='' @ pad 3 (digits (unat sum)) @ [SOH])"

record net =
  timestamp :: string
  send_count :: "string \<Rightarrow> int"

definition session_sendMessage :: "net \<Rightarrow> string \<Rightarrow> wire_fields \<Rightarrow> FixSession \<Rightarrow> fault + bool \<times> FixSession" where
  "session_sendMessage net msgType fs s =
     (if sockfd s < 0 then Inr (False, s)
      else sum_bind (patch_length (header_text s (timestamp net) msgType fs)) (\<lambda>patched.
           let fullMsg = add_checksum patched; n = send_count net fullMsg
           in if n < 0 then Inr (False, s)
              else if n \<noteq> int (length fullMsg) then Inr (False, s)
              else Inr (True, s\<lparr>msgSeqNum := i32_of (msgSeqNum s + 1), on_wire := on_wire s @ [(msgType, fullMsg)]\<rparr>)))"

definition sendLogon :: "net \<Rightarrow> FixSession \<Rightarrow> fault + bool \<times> FixSession" where
  "sendLogon net s = session_sendMessage net ''A''
     (put 554 (password s) (put 108 (to_string (heartbeatInterval s)) (put 98 ''0'' []))) s"

definition sendLogout :: "net \<Rightarrow> string \<Rightarrow> FixSession \<Rightarrow> fault + bool \<times> FixSession" where
  "sendLogout net txt s = session_sendMessage net ''5'' (if txt \<noteq> [] then put 58 txt [] else []) s"

definition session_heartbeat :: "net \<Rightarrow> string \<Rightarrow> FixSession \<Rightarrow> fault + bool \<times> FixSession" where
  "session_heartbeat net testReqID s = session_sendMessage net ''0'' (if testReqID \<noteq> [] then put 112 testReqID [] else []) s"

definition sendNewOrderSingle :: "net \<Rightarrow> string \<Rightarrow> string \<Rightarrow> char \<Rightarrow> int \<Rightarrow> string \<Rightarrow> char
    \<Rightarrow> FixSession \<Rightarrow> fault + bool \<times> FixSession" where
  "sendNewOrderSingle net clOrdID symbol side quantity price timeInForce s =
     (if session_state s \<noteq> LOGGED_IN then Inr (False, s)
      else let fs = put 59 [timeInForce] (put 44 price (put 40 ''2'' (put 38 (to_string quantity)
                      (put 54 [side] (put 55 symbol (put 21 ''1'' (put 11 clOrdID [])))))));
               info = \<lparr>info_symbol = symbol, info_side = side, info_quantity = quantity, info_price = price\<rparr>;
               s1 = s\<lparr>pendingOrders := (clOrdID, info) # filter (\<lambda>(i, _). i \<noteq> clOrdID) (pendingOrders s)\<rparr>
           in session_sendMessage net ''D'' fs s1)"

definition sendOrderCancelRequest :: "net \<Rightarrow> string \<Rightarrow> string \<Rightarrow> string \<Rightarrow> char
    \<Rightarrow> FixSession \<Rightarrow> fault + bool \<times> FixSession" where
  "sendOrderCancelRequest net origClOrdID clOrdID symbol side s =
     (if session_state s \<noteq> LOGGED_IN then Inr (False, s)
      else session_sendMessage net ''F''
             (put 54 [side] (put 55 symbol (put 11 clOrdID (put 41 origClOrdID [])))) s)"

section \<open>Connecting\<close>

datatype connect_result = NoSocket | BadAddress int | Refused int | TimedOut int | Connected int

definition startMessageProcessing :: "FixSession \<Rightarrow> fault + FixSession" where
  "startMessageProcessing s =
     (if recvThread s \<or> processThread s then Inl AssertFailed
      else Inr (s\<lparr>running := True, recvThread := True, processThread := True, incompleteMessage := []\<rparr>))"

definition session_connect :: "net \<Rightarrow> connect_result \<Rightarrow> FixSession \<Rightarrow> fault + bool \<times> FixSession" where
  "session_connect net r s =
     (if session_state s \<noteq> DISCONNECTED then Inr (False, s)
      else case r of
             NoSocket \<Rightarrow> Inr (False, s\<lparr>sockfd := - 1\<rparr>)
           | BadAddress _ \<Rightarrow> Inr (False, s\<lparr>sockfd := - 1\<rparr>)
           | Refused _ \<Rightarrow> Inr (False, s\<lparr>sockfd := - 1\<rparr>)
           | TimedOut _ \<Rightarrow> Inr (False, s\<lparr>sockfd := - 1\<rparr>)
           | Connected fd \<Rightarrow>
               sum_bind (startMessageProcessing (s\<lparr>sockfd := fd, session_state := LOGGING_IN\<rparr>)) (sendLogon net))"

text \<open>
  \<open>disconnect\<close> joins both threads; from the processing thread itself the join throws, after the
  rest has been done.
\<close>

definition session_close :: "net \<Rightarrow> FixSession \<Rightarrow> fault + FixSession" where
  "session_close net s =
     sum_bind
       (if sockfd s \<ge> 0
        then sum_bind (if session_state s = LOGGED_IN then sendLogout net ''User requested logout'' s else Inr (True, s))
               (\<lambda>(_, s1). Inr (s1\<lparr>sockfd := - 1\<rparr>))
        else Inr s)
       (\<lambda>s2. Inr (s2\<lparr>session_state := DISCONNECTED, running := False, recvThread := False\<rparr>))"

definition session_disconnect :: "net \<Rightarrow> FixSession \<Rightarrow> fault + FixSession" where
  "session_disconnect net s = sum_bind (session_close net s) (\<lambda>s1. Inr (s1\<lparr>processThread := False\<rparr>))"

section \<open>Receiving\<close>

function split_input :: "string \<Rightarrow> string list \<times> string" where
  "split_input s =
     (case find_char SOH s of
        None \<Rightarrow> ([], s)
      | Some n \<Rightarrow> let (ms, rest) = split_input (drop (Suc n) s) in (take n s # ms, rest))"
  by auto
termination
  by (relation "measure length") (auto dest: find_char_Some)

declare split_input.simps [simp del]

definition receive_data :: "string \<Rightarrow> FixSession \<Rightarrow> FixSession" where
  "receive_data d s =
     (let (ms, rest) = split_input (incompleteMessage s @ d)
      in s\<lparr>messageQueue := messageQueue s @ ms, incompleteMessage := rest\<rparr>)"

lemma getline_rest: "getline d s = Some (t, r) \<Longrightarrow> length r < length s"
proof -
  assume g: "getline d s = Some (t, r)"
  then have "s \<noteq> []" "length r = length (dropWhile (\<lambda>c. c \<noteq> d) s) - 1" by (auto simp: getline_def split: if_splits)
  moreover have "length (dropWhile (\<lambda>c. c \<noteq> d) s) \<le> length s" by (rule length_dropWhile_le)
  moreover have "0 < length s" using \<open>s \<noteq> []\<close> by simp
  ultimately show ?thesis by linarith
qed

function parse_pairs :: "string \<Rightarrow> (int \<Rightarrow> string option) \<Rightarrow> fault + (int \<Rightarrow> string option)" where
  "parse_pairs ss m =
     (case getline CHR ''='' ss of
        None \<Rightarrow> Inr m
      | Some (field, r1) \<Rightarrow>
          (case stoi field of
             Inl _ \<Rightarrow> Inl (Thrown (''Invalid tag: '' @ field))
           | Inr tag \<Rightarrow>
               (case getline SOH r1 of
                  None \<Rightarrow> Inl (Thrown (''Missing value for tag: '' @ field))
                | Some (v, r2) \<Rightarrow> parse_pairs r2 (m(tag \<mapsto> v)))))"
  by auto
termination
proof (relation "measure (\<lambda>(s, m). length s)")
  fix ss :: string and m :: "int \<Rightarrow> string option" and p field r1 tag q v r2
  assume "getline CHR ''='' ss = Some p" "(field, r1) = p" "getline SOH r1 = Some q" "(v, r2) = q"
  then have "length r1 < length ss" "length r2 < length r1" using getline_rest by (metis, metis)
  then show "((r2, m(tag \<mapsto> v)), ss, m) \<in> measure (\<lambda>(s, m). length s)" by simp
qed simp

declare parse_pairs.simps [simp del]

definition parseFixMessage :: "string \<Rightarrow> fault + (int \<Rightarrow> string option)" where
  "parseFixMessage message =
     sum_bind (parse_pairs message (\<lambda>_. None)) (\<lambda>fm.
       if fm 8 \<noteq> Some ''FIX.4.2'' then Inl (Thrown ''Invalid FIX version'')
       else if fm 35 = None then Inl (Thrown ''Missing MsgType'')
       else Inr fm)"

text \<open>The heartbeat interval of the answer is only compared for a warning; a bad number throws.\<close>

definition handleLogonResponse :: "(int \<Rightarrow> string option) \<Rightarrow> FixSession \<Rightarrow> FixSession" where
  "handleLogonResponse fm s =
     (if session_state s = LOGGING_IN
      then case fm 108 of
             None \<Rightarrow> s\<lparr>session_state := LOGGED_IN\<rparr>
           | Some v \<Rightarrow> (case stoi v of Inl _ \<Rightarrow> s | Inr _ \<Rightarrow> s\<lparr>session_state := LOGGED_IN\<rparr>)
      else s)"

definition raise :: "session_event \<Rightarrow> FixSession \<Rightarrow> FixSession" where
  "raise e s = s\<lparr>raised := raised s @ [e]\<rparr>"

text \<open>
  \<open>onLogout\<close> of \<open>TradingSession\<close> disconnects from inside the processing thread: its own join throws,
  so the state is not set to \<open>LOGGING_OUT\<close> afterwards.
\<close>

definition handleMessage :: "net \<Rightarrow> (int \<Rightarrow> string option) \<Rightarrow> FixSession \<Rightarrow> FixSession" where
  "handleMessage net fm s =
     (let msgType = the (fm 35)
      in if msgType = ''A'' then handleLogonResponse fm s
         else if msgType = ''0'' then raise OnHeartbeat s
         else if msgType = ''5'' then
           (let s1 = raise (OnLogout (case fm 58 of None \<Rightarrow> [] | Some t \<Rightarrow> t)) s
            in case session_close net s1 of Inl _ \<Rightarrow> s1 | Inr s2 \<Rightarrow> s2)
         else if msgType = ''8'' then raise (OnExecutionReport fm) s
         else if msgType = ''9'' then raise (OnOrderCancelReject fm) s
         else if msgType = ''3'' then raise (OnReject fm) s
         else s)"

text \<open>One message of the processing thread; every exception is caught there.\<close>

definition process_one :: "net \<Rightarrow> FixSession \<Rightarrow> FixSession" where
  "process_one net s =
     (case messageQueue s of
        [] \<Rightarrow> s
      | m # q \<Rightarrow>
          let s1 = s\<lparr>messageQueue := q\<rparr>
          in case parseFixMessage m of Inl _ \<Rightarrow> s1 | Inr fm \<Rightarrow> handleMessage net fm s1)"

section \<open>The text of a message\<close>

definition all_fields :: "FixSession \<Rightarrow> string \<Rightarrow> string \<Rightarrow> string \<Rightarrow> wire_fields \<Rightarrow> wire_fields" where
  "all_fields s lentext ts msgType fs =
     [(8, ''FIX.4.2''), (9, lentext), (34, to_string (msgSeqNum s)), (49, senderCompID s), (56, targetCompID s),
      (52, ts), (35, msgType)] @ fs"

lemma header_text_fields: "header_text s ts ty fs = fields_text SOH (all_fields s ''000000'' ts ty fs)"
proof -
  have "concat (map (\<lambda>(tag, v). to_string tag @ ''='' @ v @ [SOH]) fs) = fields_text SOH fs"
    by (induction fs) (auto simp: field_text_def)
  then show ?thesis by (simp add: header_text_def all_fields_def field_text_def)
qed

lemma length_all_fields: "length l = length l' \<Longrightarrow>
    length (fields_text SOH (all_fields s l ts ty fs)) = length (fields_text SOH (all_fields s l' ts ty fs))"
  by (simp add: all_fields_def field_text_def)

lemma patch_length_fields:
  assumes "length (header_text s ts ty fs) < 1000000"
  shows "patch_length (header_text s ts ty fs)
    = Inr (fields_text SOH (all_fields s (pad 6 (digits (length (header_text s ts ty fs) - 4))) ts ty fs))"
proof -
  let ?h = "header_text s ts ty fs"
  define n where "n = length ?h - 4"
  define r where "r = fields_text SOH (drop 2 (all_fields s [] ts ty fs))"
  have wire: "fields_text SOH (all_fields s l ts ty fs) = ''8=FIX.4.2'' @ [SOH] @ ''9='' @ l @ SOH # r" for l
    by (simp add: all_fields_def field_text_def r_def)
  have h: "?h = ''8=FIX.4.2'' @ [SOH] @ ''9='' @ ''000000'' @ SOH # r" unfolding header_text_fields wire ..
  then have len: "4 \<le> length ?h" by simp
  have "i32_of (int (length ?h) - int (length (to_string 9)) - 3) = int n"
    using assms len by (simp add: n_def i32_of_id of_nat_diff)
  moreover have "find_str ''000000'' ?h = Some 12" unfolding h by simp
  moreover have k: "length (digits n) \<le> 6" using length_digits [of n 5] assms by (simp add: n_def)
  ultimately show ?thesis
    unfolding patch_length_def Let_def wire by (simp add: to_string_def pad_def flip: n_def) (simp add: h)
qed

lemma byte_checksum: "unat (foldl (\<lambda>s c. s + of_nat (char_code c)) (0 :: u8) msg) = byte_sum msg mod 256"
proof -
  have "foldl (\<lambda>s c. s + of_nat (char_code c)) (w :: u8) msg = w + of_nat (byte_sum msg)" for w
    by (induction msg arbitrary: w) (simp_all add: byte_sum_def algebra_simps)
  then show ?thesis by (simp add: unat_of_nat)
qed

lemma parse_pairs_fields:
  assumes "\<forall>f \<in> set fs. field_ok SOH f"
  shows "parse_pairs (fields_text SOH fs) m = Inr (m ++ map_of (rev fs))"
  using assms
proof (induction fs arbitrary: m)
  case Nil
  show ?case by (simp add: parse_pairs.simps getline_def)
next
  case (Cons f fs)
  then have ok: "field_ok SOH f" by simp
  have "getline CHR ''='' (to_string (fst f) @ CHR ''='' # snd f @ SOH # fields_text SOH fs)
      = Some (to_string (fst f), snd f @ SOH # fields_text SOH fs)" by (rule getline_cut [OF equals_tag])
  moreover have "getline SOH (snd f @ SOH # fields_text SOH fs) = Some (snd f, fields_text SOH fs)"
    using ok by (intro getline_cut) (simp add: field_ok_def)
  moreover have "stoi (to_string (fst f)) = Inr (fst f)" using ok by (simp add: field_ok_def stoi_to_string)
  ultimately show ?case using Cons
    by (subst parse_pairs.simps) (simp add: field_text_def del: fun_upd_apply)
qed

definition header_tags :: "int set" where
  "header_tags = {8, 9, 34, 49, 56, 52, 35, 10}"

section \<open>What the receive thread delivers\<close>

lemma split_input_parts: "split_input s = (ms, rest) \<Longrightarrow> (\<forall>m \<in> set ms. SOH \<notin> set m) \<and> SOH \<notin> set rest"
proof (induction s arbitrary: ms rule: split_input.induct)
  case (1 s)
  show ?case
  proof (cases "find_char SOH s")
    case None
    then show ?thesis using 1(2) find_char_None [of SOH s] by (simp add: split_input.simps)
  next
    case (Some n)
    obtain ms' r' where r: "split_input (drop (Suc n) s) = (ms', r')" by fastforce
    then have "ms = take n s # ms'" "rest = r'" using 1(2) Some by (simp_all add: split_input.simps [of s])
    then show ?thesis using 1(1) [OF Some] r find_char_Some [OF Some] by auto
  qed
qed

lemma getline_whole: "d \<notin> set r \<Longrightarrow> getline d r = None \<or> getline d r = Some (r, [])"
proof -
  assume "d \<notin> set r"
  then have all: "\<forall>c \<in> set r. c \<noteq> d" by blast
  have "dropWhile (\<lambda>c. c \<noteq> d) r = []" using all by (induction r) auto
  then have "drop 1 (dropWhile (\<lambda>c. c \<noteq> d) r) = []" by (simp only: drop_Nil)
  then show ?thesis by (simp only: getline_def takeWhile_all [OF all]) simp
qed

lemma getline_set: "getline d s = Some (t, r) \<Longrightarrow> set r \<subseteq> set s"
  using set_dropWhileD [of _ "\<lambda>c. c \<noteq> d" s] by (auto simp: getline_def dest: in_set_dropD split: if_splits)

lemma parse_pairs_single:
  assumes "SOH \<notin> set m" and "parse_pairs m (\<lambda>_. None) = Inr fm"
  shows "fm = (\<lambda>_. None) \<or> (\<exists>t v. fm = [t \<mapsto> v])"
proof (cases "getline CHR ''='' m")
  case None
  then show ?thesis using assms(2) by (simp add: parse_pairs.simps)
next
  case (Some p)
  obtain a r where p: "p = (a, r)" by fastforce
  have nil: "parse_pairs [] f = Inr f" for f by (simp add: parse_pairs.simps getline_def)
  have "SOH \<notin> set r" using getline_set [of _ m a r] Some p assms(1) by auto
  from getline_whole [OF this] show ?thesis
    using assms(2) Some p by (subst (asm) parse_pairs.simps) (auto simp: nil split: sum.splits, blast)
qed

lemma parse_single: "SOH \<notin> set m \<Longrightarrow> \<exists>e. parseFixMessage m = Inl e"
proof (cases "parse_pairs m (\<lambda>_. None)")
  case (Inr fm)
  assume "SOH \<notin> set m"
  from parse_pairs_single [OF this Inr] show ?thesis by (auto simp: parseFixMessage_def Inr split: if_splits)
qed (simp add: parseFixMessage_def)

section \<open>Steps of the threads\<close>

inductive session_step :: "FixSession \<Rightarrow> FixSession \<Rightarrow> bool" where
  UserConnect: "session_connect net r s = Inr (b, s') \<Longrightarrow> session_step s s'"
| UserDisconnect: "session_disconnect net s = Inr s' \<Longrightarrow> session_step s s'"
| UserOrder: "sendNewOrderSingle net i sy sd q p t s = Inr (b, s') \<Longrightarrow> session_step s s'"
| UserCancel: "sendOrderCancelRequest net o1 i sy sd s = Inr (b, s') \<Longrightarrow> session_step s s'"
| ReceiveData: "running s \<Longrightarrow> session_step s (receive_data d s)"
| ProcessOne: "running s \<Longrightarrow> session_step s (process_one net s)"

definition quiet_inv :: "FixSession \<Rightarrow> bool" where
  "quiet_inv s \<longleftrightarrow> session_state s \<in> {DISCONNECTED, LOGGING_IN}
     \<and> (session_state s = DISCONNECTED \<longrightarrow> \<not> recvThread s \<and> \<not> processThread s)
     \<and> (\<forall>m \<in> set (messageQueue s). SOH \<notin> set m) \<and> raised s = []
     \<and> (\<forall>w \<in> set (on_wire s). fst w = ''A'')"

lemma sendMessage_effect:
  "session_sendMessage net ty fs s = Inr (b, s') \<Longrightarrow>
     s' = s \<or> (\<exists>w. s' = s\<lparr>msgSeqNum := i32_of (msgSeqNum s + 1), on_wire := on_wire s @ [(ty, w)]\<rparr>)"
  by (auto simp: session_sendMessage_def sum_bind_eq_Inr Let_def split: if_splits)

lemma connect_quiet:
  assumes "quiet_inv s" and "session_connect net r s = Inr (b, s')"
  shows "quiet_inv s'"
proof (cases "session_state s = DISCONNECTED \<and> (\<exists>fd. r = Connected fd)")
  case True
  then obtain fd where r: "r = Connected fd" by blast
  define s1 where "s1 = s\<lparr>sockfd := fd, session_state := LOGGING_IN, running := True, recvThread := True,
      processThread := True, incompleteMessage := []\<rparr>"
  have "sendLogon net s1 = Inr (b, s')"
    using assms True r by (simp add: session_connect_def startMessageProcessing_def quiet_inv_def s1_def)
  moreover have "quiet_inv s1" using assms(1) by (simp add: quiet_inv_def s1_def)
  ultimately have send: "sendLogon net s1 = Inr (b, s')" and inv: "quiet_inv s1" by simp_all
  from send consider "s' = s1" | w where "s' = s1\<lparr>msgSeqNum := i32_of (msgSeqNum s1 + 1), on_wire := on_wire s1 @ [(''A'', w)]\<rparr>"
    unfolding sendLogon_def by (blast dest: sendMessage_effect)
  then show ?thesis using inv by cases (auto simp: quiet_inv_def)
next
  case False
  then show ?thesis using assms
    by (cases r) (auto simp: session_connect_def quiet_inv_def split: if_splits)
qed

lemma disconnect_quiet:
  assumes "quiet_inv s" and "session_disconnect net s = Inr s'"
  shows "quiet_inv s'"
  using assms by (auto simp: session_disconnect_def session_close_def sum_bind_eq_Inr quiet_inv_def split: if_splits)

lemma process_one_quiet: "quiet_inv s \<Longrightarrow> quiet_inv (process_one net s)"
proof (cases "messageQueue s")
  case (Cons m q)
  assume q: "quiet_inv s"
  then have "SOH \<notin> set m" using Cons by (simp add: quiet_inv_def)
  from parse_single [OF this] obtain e where "parseFixMessage m = Inl e" by blast
  then show ?thesis using q Cons by (simp add: process_one_def quiet_inv_def)
qed (simp add: process_one_def)

lemma receive_quiet: "quiet_inv s \<Longrightarrow> quiet_inv (receive_data d s)"
  using split_input_parts [of "incompleteMessage s @ d"]
  by (auto simp: receive_data_def quiet_inv_def split: prod.splits)

lemma step_quiet: "session_step s s' \<Longrightarrow> quiet_inv s \<Longrightarrow> quiet_inv s'"
proof (induction rule: session_step.induct)
  case (UserConnect net r s b s')
  then show ?case using connect_quiet by blast
next
  case (UserDisconnect net s s')
  then show ?case using disconnect_quiet by blast
next
  case (UserOrder net i sy sd q p t s b s')
  then show ?case by (auto simp: sendNewOrderSingle_def quiet_inv_def split: if_splits)
next
  case (UserCancel net o1 i sy sd s b s')
  then show ?case by (auto simp: sendOrderCancelRequest_def quiet_inv_def split: if_splits)
qed (simp_all add: receive_quiet process_one_quiet)

lemma init_quiet: "quiet_inv (FixSession_init sender target pw hb)"
  by (simp add: quiet_inv_def FixSession_init_def)

section \<open>Properties\<close>

text \<open>
  C40.  The receive thread queues single fields, and no single field is a message for
  \<open>parseFixMessage\<close>: in every reachable state of the session, whatever the server sends, no
  callback has been called, the session has never been logged in, and only logons have left.
\<close>

theorem fix_session_never_logs_in:
  assumes "session_step\<^sup>*\<^sup>* (FixSession_init sender target pw hb) s"
  shows "session_state s \<noteq> LOGGED_IN \<and> raised s = [] \<and> (\<forall>w \<in> set (on_wire s). fst w = ''A'')"
proof -
  have "quiet_inv s"
    using assms by (induction rule: rtranclp_induct) (auto intro: init_quiet step_quiet)
  then show ?thesis by (auto simp: quiet_inv_def)
qed

definition sample_net :: net where
  "sample_net = \<lparr>timestamp = ''20240102-03:04:05'', send_count = (\<lambda>m. int (length m))\<rparr>"

theorem fix_session_never_logs_in_witness:
  "\<exists>s. session_step\<^sup>*\<^sup>* (FixSession_init ''C'' ''S'' ''pw'' 30) s \<and> length (on_wire s) = 1
     \<and> messageQueue s = [''35=A''] \<and> session_state s \<noteq> LOGGED_IN"
proof -
  let ?s0 = "FixSession_init ''C'' ''S'' ''pw'' 30"
  have c: "case session_connect sample_net (Connected 3) ?s0 of
      Inl _ \<Rightarrow> False | Inr (b, s) \<Rightarrow> running s \<and> length (on_wire s) = 1 \<and> messageQueue s = [] \<and> incompleteMessage s = []" by code_simp
  then obtain b s1 where s1: "session_connect sample_net (Connected 3) ?s0 = Inr (b, s1)"
    "running s1" "length (on_wire s1) = 1" "messageQueue s1 = []" "incompleteMessage s1 = []"
    by (auto split: sum.splits prod.splits)
  let ?s2 = "receive_data (''35=A'' @ [SOH]) s1"
  have "split_input (''35=A'' @ [SOH]) = ([''35=A''], [])" by code_simp
  then have s2: "messageQueue ?s2 = [''35=A'']" "on_wire ?s2 = on_wire s1" using s1 by (simp_all add: receive_data_def)
  have "session_step\<^sup>*\<^sup>* ?s0 ?s2"
    using session_step.UserConnect [OF s1(1)] session_step.ReceiveData [OF s1(2)] by (meson converse_rtranclp_into_rtranclp rtranclp.rtrancl_refl)
  from this fix_session_never_logs_in [OF this] s2 s1(3) show ?thesis by auto
qed

text \<open>
  A complete message of this session, parsed in one piece, gives back its fields: the header,
  the fields of the body and the checksum over everything before it.  The body length it carries
  is the length of all of that text less four bytes, zero-padded to six digits.
\<close>

theorem fix_session_roundtrip:
  assumes "\<forall>f \<in> set fs. field_ok SOH f \<and> fst f \<notin> header_tags" and "distinct (map fst fs)"
    and "SOH \<notin> set (senderCompID s @ targetCompID s @ ts @ ty)" and "length (header_text s ts ty fs) < 1000000"
  shows "\<exists>p. patch_length (header_text s ts ty fs) = Inr p \<and> length p = length (header_text s ts ty fs)
    \<and> parseFixMessage (add_checksum p) = Inr ((map_of fs)(8 \<mapsto> ''FIX.4.2'', 9 \<mapsto> pad 6 (digits (length p - 4)),
        34 \<mapsto> to_string (msgSeqNum s), 49 \<mapsto> senderCompID s, 56 \<mapsto> targetCompID s, 52 \<mapsto> ts, 35 \<mapsto> ty,
        10 \<mapsto> pad 3 (digits (byte_sum p mod 256))))"
proof -
  let ?l = "pad 6 (digits (length (header_text s ts ty fs) - 4))"
  let ?a = "all_fields s ?l ts ty fs"
  let ?p = "fields_text SOH ?a"
  let ?cs = "pad 3 (digits (byte_sum ?p mod 256))"
  have p: "patch_length (header_text s ts ty fs) = Inr ?p" by (rule patch_length_fields [OF assms(4)])
  have "length (digits (length (header_text s ts ty fs) - 4)) \<le> 6"
    using length_digits [of "length (header_text s ts ty fs) - 4" 5] assms(4) by simp
  then have len: "length ?p = length (header_text s ts ty fs)"
    unfolding header_text_fields by (intro length_all_fields) (simp add: length_pad)
  have "SOH \<notin> set ?l" "SOH \<notin> set ?cs" using pad_digits_chars [of SOH] by auto
  then have ok: "\<forall>f \<in> set (?a @ [(10, ?cs)]). field_ok SOH f"
    using assms(1,3) soh.sep_tag by (auto simp: all_fields_def field_ok_def)
  have "add_checksum ?p = fields_text SOH (?a @ [(10, ?cs)])"
    by (simp add: add_checksum_def byte_checksum field_text_def)
  then have pp: "parse_pairs (add_checksum ?p) (\<lambda>_. None) = Inr ((\<lambda>_. None) ++ map_of (rev (?a @ [(10, ?cs)])))"
    using parse_pairs_fields [OF ok] by simp
  have "map_of (rev fs) = map_of fs" using assms(2) by (simp add: map_of_inject_set flip: rev_map)
  moreover have "map_of fs t = None" if "t \<in> header_tags" for t using assms(1) that by (force simp: map_of_eq_None_iff)
  then have "map_of fs 8 = None" "map_of fs 9 = None" "map_of fs 34 = None" "map_of fs 49 = None" "map_of fs 56 = None"
    "map_of fs 52 = None" "map_of fs 35 = None" by (simp_all add: header_tags_def)
  ultimately have "(\<lambda>_. None) ++ map_of (rev (?a @ [(10, ?cs)])) = (map_of fs)(8 \<mapsto> ''FIX.4.2'', 9 \<mapsto> ?l,
        34 \<mapsto> to_string (msgSeqNum s), 49 \<mapsto> senderCompID s, 56 \<mapsto> targetCompID s, 52 \<mapsto> ts, 35 \<mapsto> ty, 10 \<mapsto> ?cs)"
    by (auto simp: all_fields_def map_add_def fun_eq_iff split: option.splits)
  then show ?thesis using p pp len by (intro exI [of _ ?p]) (simp add: parseFixMessage_def)
qed

theorem fix_session_roundtrip_witness:
  "\<exists>p. patch_length (header_text (FixSession_init ''C'' ''S'' ''pw'' 30) ''t'' ''D'' [(55, ''AAPL'')]) = Inr p
     \<and> (\<exists>fm. parseFixMessage (add_checksum p) = Inr fm \<and> fm 55 = Some ''AAPL'' \<and> fm 35 = Some ''D'')"
proof -
  let ?s = "FixSession_init ''C'' ''S'' ''pw'' 30" and ?fs = "[(55, ''AAPL'')] :: wire_fields"
  have "\<forall>f \<in> set ?fs. field_ok SOH f \<and> fst f \<notin> header_tags" by (simp add: field_ok_def header_tags_def)
  moreover have "SOH \<notin> set (senderCompID ?s @ targetCompID ?s @ ''t'' @ ''D'')" by (simp add: FixSession_init_def)
  moreover have "length (header_text ?s ''t'' ''D'' ?fs) < 100" by code_simp
  then have "length (header_text ?s ''t'' ''D'' ?fs) < 1000000" by linarith
  ultimately show ?thesis using fix_session_roundtrip [of ?fs ?s "''t''" "''D''"] by auto
qed

end
