(* ===== verification/Fix_Interop.thy ===== *)
theory Fix_Interop
  imports Fix42_Wire Fix_Encoder Fix_Parser Fix_Buffer_Parser Fix_Session
begin

text \<open>
  The FIX components of ihs/src put together: what \<open>serialize\<close> of fix42.cpp and \<open>FixEncoder\<close> of encoder.cpp
  write, read by the two parsers of parser.cpp and by \<open>deserialize\<close> and \<open>validateMessage\<close> of fix42.cpp.
\<close>

section \<open>The client's messages\<close>

definition client_ok :: "Message \<Rightarrow> bool" where
  "client_ok msg \<longleftrightarrow> ordered (<) (msg_fields msg) \<and> (\<forall>f \<in> set (msg_fields msg). field_ok SOH f)
     \<and> (\<forall>f \<in> set (msg_fields msg). fst f \<notin> {BeginString, BodyLength, CheckSum} \<longrightarrow> no_checksum_text f)
     \<and> map_of (msg_fields msg) MsgType \<noteq> None \<and> length (serialize msg) < 2147483648"

definition client_parts :: "Message \<Rightarrow> string \<times> (int \<times> string) list" where
  "client_parts msg = (''FIX.4.2'', body_fields (msg_fields msg))"

lemma serialize_frame: "serialize msg = frame (client_parts msg)"
  by (simp add: serialize_text header_fields_def wire_checksum_def calculateChecksum_sum client_parts_def
      frame_def frame_head_def to_string_def)

lemma client_frame_ok:
  assumes "client_ok msg"
  shows "frame_ok (client_parts msg)"
proof -
  have v: "no_checksum_text (8, ''FIX.4.2'')" by (simp add: no_checksum_text_def) code_simp
  have w: "''FIX.4.2'' = ''FIX'' @ ''.4.2'' \<and> CHR ''9'' \<notin> set ''.4.2'' \<and> SOH \<notin> set ''.4.2''" by simp
  have "\<forall>f \<in> set (body_fields (msg_fields msg)). no_checksum_text f"
    using assms unfolding client_ok_def body_fields_def by auto
  moreover have "length (frame (client_parts msg)) < 2147483648"
    using assms unfolding client_ok_def serialize_frame by blast
  ultimately show ?thesis using v w unfolding frame_ok_def client_parts_def fst_conv snd_conv by blast
qed

text \<open>The last field of a text is read only when its separator is there.\<close>

lemma deserialize_loop_tail:
  assumes "\<forall>f \<in> set fs. field_ok SOH f" and "SOH \<notin> set t"
  shows "deserialize_loop (fields_text SOH fs @ t) m = fold (\<lambda>f. set_field (fst f) (snd f)) fs m"
  using assms(1)
proof (induction fs arbitrary: m)
  case Nil
  have "find_char SOH t = None" using assms(2) by (induction t) auto
  then show ?case by (simp add: deserialize_loop.simps)
next
  case (Cons f fs)
  then have f: "field_ok SOH f" by simp
  show ?case
    using Cons soh.find_sep [OF f, of "fields_text SOH fs @ t"] soh.token_of_field [OF f refl, of "fields_text SOH fs @ t"]
      deserialize_field_token [OF f, of m]
    by (subst deserialize_loop.simps) simp
qed

text \<open>What the session layer makes of a message whose last separator is missing.\<close>

lemma deserialize_cut:
  assumes "client_ok msg"
  shows "\<exists>m. deserialize (butlast (serialize msg)) = (True, \<lparr>msg_fields = m, raw_data = butlast (serialize msg)\<rparr>)
    \<and> map_of m CheckSum = None
    \<and> (\<forall>t. t \<notin> {BeginString, BodyLength, CheckSum} \<longrightarrow> map_of m t = map_of (msg_fields msg) t)"
proof -
  let ?h = "header_fields msg" and ?t = "''10='' @ wire_checksum msg"
  let ?m = "fold (\<lambda>f. set_field (fst f) (snd f)) ?h []"
  have ord: "ordered (<) (msg_fields msg)" and ok: "\<forall>f \<in> set (msg_fields msg). field_ok SOH f"
    using assms by (simp_all add: client_ok_def)
  have "butlast (serialize msg) = fields_text SOH ?h @ ?t"
    by (simp add: serialize_text field_text_def butlast_append)
  moreover have "SOH \<notin> set ?t" using wire_checksum_ok [of msg] by (simp add: field_ok_def)
  ultimately have loop: "deserialize_loop (butlast (serialize msg)) [] = ?m"
    using deserialize_loop_tail [of ?h ?t "[]"] header_fields_ok [OF ok] by simp
  have m: "map_of ?m = map_of (rev ?h)" using fold_set_field [of "[]" ?h] by simp
  have rev: "map_of (rev ?h) t = (if t = BeginString then Some ''FIX.4.2'' else if t = BodyLength
      then Some (to_string (int (length (fields_text SOH (body_fields (msg_fields msg))))))
      else if t = CheckSum then None else map_of (msg_fields msg) t)" for t
    using map_of_body [of "msg_fields msg" t]
    by (auto simp: header_fields_def map_add_def map_of_rev_body [OF ord] split: option.splits)
  have "?m \<noteq> []" using rev [of BeginString] unfolding m [symmetric] by auto
  then show ?thesis using m rev by (simp add: deserialize_def Let_def loop del: fold_append)
qed

section \<open>The whole-buffer parser\<close>

definition client_part :: "Message \<Rightarrow> parts" where
  "client_part msg = (''FIX.4.2'', digits (length (fields_text SOH (body_fields (msg_fields msg)))),
     body_fields (msg_fields msg), wire_checksum msg)"

lemma client_part_text: "part_text (client_part msg) = serialize msg"
  by (simp add: client_part_def serialize_text header_fields_def to_string_def)

lemma declares_digits: "n < 2147483648 \<Longrightarrow> declares (v, digits n, fs, cs) n"
  using stoi_to_string [of "int n"] by (simp add: declares_def digits_nat)

lemma client_mismatch:
  assumes "client_ok msg"
  shows "part_mismatch (client_part msg)"
proof -
  let ?b = "body_fields (msg_fields msg)"
  let ?n = "length (fields_text SOH ?b)"
  have len: "length (serialize msg) < 2147483648" using assms by (simp add: client_ok_def)
  have parts: "length (serialize msg) = length (field_text SOH (8, ''FIX.4.2''))
      + length (fields_text SOH (part_fields (client_part msg)))"
    unfolding client_part_text [symmetric] client_part_def by simp
  have more: "length (fields_text SOH (part_fields (client_part msg))) > Suc ?n"
    by (simp add: client_part_def field_text_length)
  then have "?n < 2147483648" using len parts by linarith
  then have "declares (client_part msg) ?n" unfolding client_part_def by (rule declares_digits)
  moreover have "field_ok SOH (8, ''FIX.4.2'')" by (simp add: field_ok_def)
  moreover have "\<forall>f \<in> set ?b. field_ok SOH f \<and> fst f \<notin> {8, 9, 10}"
    using assms by (auto simp: client_ok_def body_fields_def)
  moreover have "35 \<in> fst ` set ?b"
  proof -
    have "map_of ?b 35 \<noteq> None" using assms map_of_body [of "msg_fields msg" 35] by (simp add: client_ok_def)
    then show ?thesis by (simp add: map_of_eq_None_iff)
  qed
  moreover have "length (part_text (client_part msg)) < sz_mod" using len unfolding client_part_text by simp
  ultimately show ?thesis using wire_checksum_ok [of msg] digits_field_ok more
    unfolding part_mismatch_def client_part_def by auto
qed

section \<open>The encoder's messages\<close>

definition encoder_checksum :: "string \<Rightarrow> (int \<times> string) list \<Rightarrow> nat \<Rightarrow> string" where
  "encoder_checksum ty fs n = pad 3 (digits (byte_sum (fields_text SOH ((9, digits n) # (35, ty) # fs)
     @ take (5 - length (digits n)) ''10=000'') mod 256))"

definition encoder_part :: "string \<Rightarrow> string \<Rightarrow> (int \<times> string) list \<Rightarrow> parts" where
  "encoder_part b ty fs =
     (let n = length (placeholder_text ty fs) in (b, digits n, (35, ty) # fs, encoder_checksum ty fs n))"

definition encoder_ok :: "string \<Rightarrow> string \<Rightarrow> (int \<times> string) list \<Rightarrow> bool" where
  "encoder_ok b ty fs \<longleftrightarrow> SOH \<notin> set b \<and> length b < 2147483648 \<and> SOH \<notin> set ty
     \<and> (\<forall>f \<in> set fs. field_ok SOH f \<and> fst f \<notin> {8, 9, 10})
     \<and> 100 \<le> length (placeholder_text ty fs) \<and> length (placeholder_text ty fs) < 100000"

lemma encoder_output:
  assumes "encoder_ok b ty fs"
  shows "\<exists>e'. finalize (encode b ty fs e) = Inr e' \<and> enc_buffer e' = part_text (encoder_part b ty fs)"
proof -
  have ok: "SOH \<notin> set b" "length (placeholder_text ty fs) < 100000" "length b < 2147483648"
    "\<not> length (placeholder_text ty fs) < 100" using assms by (simp_all add: encoder_ok_def)
  show ?thesis
    using finalize_encode [OF ok(1) refl ok(2,3), of e] ok(4)
    by (auto simp: encoder_part_def encoder_checksum_def Let_def)
qed

lemma encoder_checksum_ok: "field_ok SOH (10, encoder_checksum ty fs n)"
  using pad_digits_chars [of SOH 3] by (auto simp: field_ok_def encoder_checksum_def)

lemma encoder_lengths:
  "length (placeholder_text ty fs) = 8 + length (fields_text SOH ((35, ty) # fs))"
  "length (encoder_checksum ty fs n) = 3"
proof -
  show "length (placeholder_text ty fs) = 8 + length (fields_text SOH ((35, ty) # fs))"
    by (simp add: placeholder_text_def field_text_def)
  show "length (encoder_checksum ty fs n) = 3"
    unfolding encoder_checksum_def by (rule length_pad3) (simp add: less_trans [OF mod_less_divisor])
qed

lemma encoder_mismatch:
  assumes "encoder_ok b ty fs"
  shows "part_mismatch (encoder_part b ty fs)"
proof -
  define n where "n = length (placeholder_text ty fs)"
  have n: "n < 100000" "n = 8 + length (fields_text SOH ((35, ty) # fs))"
    using assms encoder_lengths(1) by (simp_all add: encoder_ok_def n_def)
  have d: "length (digits n) \<le> 5" using length_digits [of n 4] n(1) by simp
  have "length (fields_text SOH ((9, digits n) # ((35, ty) # fs) @ [(10, encoder_checksum ty fs n)]))
      = length (digits n) + n + 2"
    using n(2) encoder_lengths(2) by (simp add: field_text_length)
  moreover have "digits n \<noteq> []" by simp
  ultimately have "length (fields_text SOH (part_fields (encoder_part b ty fs))) = length (digits n) + n + 2"
    "Suc n \<noteq> length (digits n) + n + 2" unfolding encoder_part_def Let_def n_def [symmetric] by simp_all
  moreover have "declares (encoder_part b ty fs) n"
    unfolding encoder_part_def Let_def n_def [symmetric] using n(1) by (intro declares_digits) simp
  moreover have "part_fields_ok (encoder_part b ty fs)"
    using assms n d encoder_checksum_ok [of ty fs n] digits_field_ok [of n] encoder_lengths(2) [of ty fs n]
    unfolding encoder_part_def Let_def n_def [symmetric] by (simp add: encoder_ok_def field_ok_def field_text_length)
  ultimately show ?thesis unfolding part_mismatch_def by metis
qed

section \<open>The session's messages\<close>

text \<open>
  A message of \<open>FixSession\<close>: the session, the time stamp, the type and the further fields.  Its length text has
  six digits and counts what \<open>calculateBodyLength\<close> counts.
\<close>

type_synonym session_msg = "FixSession \<times> string \<times> string \<times> wire_fields"

fun session_wire :: "session_msg \<Rightarrow> string" where
  "session_wire (s, ts, ty, fs) =
     (case patch_length (header_text s ts ty fs) of Inl _ \<Rightarrow> [] | Inr p \<Rightarrow> add_checksum p)"

fun session_msg_ok :: "session_msg \<Rightarrow> bool" where
  "session_msg_ok (s, ts, ty, fs) \<longleftrightarrow> (\<forall>f \<in> set fs. field_ok SOH f \<and> fst f \<notin> {8, 9, 10})
     \<and> SOH \<notin> set (senderCompID s @ targetCompID s @ ts @ ty) \<and> length (header_text s ts ty fs) < 1000000"

fun session_part :: "session_msg \<Rightarrow> parts" where
  "session_part (s, ts, ty, fs) =
     (let l = pad 6 (digits (length (header_text s ts ty fs) - 4)); a = all_fields s l ts ty fs
      in (''FIX.4.2'', l, drop 2 a, pad 3 (digits (byte_sum (fields_text SOH a) mod 256))))"

text \<open>This is the text that a successful \<open>sendMessage\<close> puts on the wire.\<close>

lemma session_wire_sent:
  assumes "session_sendMessage net ty fs s = Inr (True, s')"
  shows "on_wire s' = on_wire s @ [(ty, session_wire (s, timestamp net, ty, fs))]"
  using assms by (auto simp: session_sendMessage_def sum_bind_eq_Inr Let_def split: if_splits)

lemma session_part_ok:
  assumes "session_msg_ok m"
  shows "part_ok (session_part m)" and "part_text (session_part m) = session_wire m"
    and "parseFixMessage (session_wire m) = Inr (part_table (session_part m))"
proof -
  obtain s ts ty fs where m: "m = (s, ts, ty, fs)" by (cases m)
  define n where "n = length (header_text s ts ty fs) - 4"
  define l where "l = pad 6 (digits n)"
  define a where "a = all_fields s l ts ty fs"
  define cs where "cs = pad 3 (digits (byte_sum (fields_text SOH a) mod 256))"
  have h: "length (header_text s ts ty fs) < 1000000" using assms by (simp add: m)
  have n: "n < 1000000" using h by (simp add: n_def)
  have "length l = 6" using length_digits [of n 5] n by (simp add: l_def length_pad)
  then have la: "length (fields_text SOH a) = length (header_text s ts ty fs)"
    unfolding header_text_fields a_def by (intro length_all_fields) simp
  have lcs: "length cs = 3" unfolding cs_def by (rule length_pad3) (simp add: less_trans [OF mod_less_divisor])
  have a: "a = (8, ''FIX.4.2'') # (9, l) # drop 2 a" by (simp add: a_def all_fields_def)
  have part: "session_part m = (''FIX.4.2'', l, drop 2 a, cs)" by (simp add: m Let_def a_def l_def n_def cs_def)
  have fields: "(8, ''FIX.4.2'') # part_fields (session_part m) = a @ [(10, cs)]" unfolding part by (subst (2) a) simp
  have wtext: "part_text (session_part m) = fields_text SOH (a @ [(10, cs)])"
    unfolding fields [symmetric] by (simp add: part)
  have wire: "session_wire m = fields_text SOH (a @ [(10, cs)])"
    using patch_length_fields [OF h] by (simp add: m add_checksum_def byte_checksum field_text_def a_def l_def n_def cs_def)
  have "SOH \<notin> set l" "SOH \<notin> set cs" using pad_digits_chars [of SOH] by (auto simp: l_def cs_def)
  then have ok: "\<forall>f \<in> set (a @ [(10, cs)]). field_ok SOH f"
    using assms soh.sep_tag by (auto simp: m a_def all_fields_def field_ok_def)
  have tot: "length (fields_text SOH (part_fields (session_part m))) = Suc n" "length (part_text (session_part m)) < sz_mod"
  proof -
    have "length (part_text (session_part m)) = length (fields_text SOH a) + 7" using lcs by (simp add: wtext field_text_length)
    moreover have "length (part_text (session_part m)) = 10 + length (fields_text SOH (part_fields (session_part m)))"
      unfolding part by (simp add: field_text_length)
    moreover have "10 \<le> length (fields_text SOH a)" by (subst a) (simp add: field_text_length)
    ultimately show "length (fields_text SOH (part_fields (session_part m))) = Suc n"
      "length (part_text (session_part m)) < sz_mod" using la h by (simp_all add: n_def)
  qed
  show "part_text (session_part m) = session_wire m" by (simp add: wtext wire)
  have "part_fields_ok (session_part m)"
    using ok tot(2) assms unfolding part by (simp add: a_def all_fields_def m)
  moreover have "declares (session_part m) n"
    unfolding part using stoi_pad [of n 6] n by (simp add: declares_def l_def)
  ultimately show "part_ok (session_part m)" using tot(1) by (simp add: part_ok_def)
  have "parse_pairs (session_wire m) (\<lambda>_. None) = Inr (map_of (rev (a @ [(10, cs)])))"
    unfolding wire using parse_pairs_fields [OF ok] by simp
  moreover have "map_of (rev (a @ [(10, cs)])) = part_table (session_part m)"
    unfolding part by (subst a) (auto simp: map_add_def fun_eq_iff split: option.split)
  moreover have "part_table (session_part m) 8 = Some ''FIX.4.2'' \<and> part_table (session_part m) 35 \<noteq> None"
  proof -
    have none: "map_of (rev fs) 8 = None" using assms by (force simp: m map_of_eq_None_iff)
    show ?thesis unfolding part by (auto simp: none a_def all_fields_def map_add_def split: option.split)
  qed
  ultimately show "parseFixMessage (session_wire m) = Inr (part_table (session_part m))" by (simp add: parseFixMessage_def)
qed

declare session_wire.simps [simp del] session_part.simps [simp del]

section \<open>The streaming parser on the encoder's messages\<close>

lemma stream_parser_encoder:
  assumes ok: "encoder_ok b ty fs" and b: "b = ''FIX'' @ w" "CHR ''9'' \<notin> set w"
    and x: "length x < 2147483648"
  defines "m \<equiv> part_text (encoder_part b ty fs)"
  shows "process_step (m @ x) = (if length x < 7 then Inr Wait
    else sum_bind (validate_checksum (m @ take 7 x)) (\<lambda>ok. Inr (Consume (if ok then Some (m @ take 7 x) else None) (drop 7 x))))"
proof -
  define n where "n = length (placeholder_text ty fs)"
  define k where "k = length (digits n)"
  define h where "h = ''8=FIX'' @ w @ [SOH]"
  define r where "r = fields_text SOH ((35, ty) # fs @ [(10, encoder_checksum ty fs n)])"
  have n: "n < 100000" "n = 8 + length (fields_text SOH ((35, ty) # fs))"
    using ok encoder_lengths(1) by (simp_all add: encoder_ok_def n_def)
  have k: "k \<le> 5" using length_digits [of n 4] n(1) by (simp add: k_def)
  have w: "SOH \<notin> set w" "length w < 2147483648" using ok b(1) by (simp_all add: encoder_ok_def)
  have m: "m = h @ CHR ''9'' # CHR ''='' # digits n @ SOH # r"
    unfolding m_def encoder_part_def Let_def n_def [symmetric] by (simp add: b(1) h_def r_def field_text_def)
  have "length r = n - 8 + 7" using n(2) encoder_lengths(2) [of ty fs n] by (simp add: r_def field_text_length)
  then have len: "length m = length h + k + n + 2" using n(2) by (simp add: m k_def)
  have it: "find_str ''8=FIX'' (m @ x) = Some 0" by (simp add: m h_def)
  have d: "find_char CHR ''9'' (drop 0 (m @ x)) = Some (length h)"
    using find_char_append [of "CHR ''9''" h] b(2) by (simp add: m h_def)
  have "foldl digit_step 0 (digits n) = n" by (rule digit_foldl_digits)
  then have pl: "parse_length (m @ x) (length h + 2) 0 = Inr (length h + 2 + k, n)"
    using parse_length_digits [of "digits n" 0 "h @ ''9=''" "r @ x"] digits_digit n(1)
    by (simp add: m k_def add.assoc)
  define t where "t = length m + 7"
  have small: "length h + 2 + k + n + 7 < sz_mod" using w k n(1) by (simp add: h_def)
  have tot: "sz_add (sz_add (length h + 2 + k - 0) n) 7 = t"
    using small len by (simp add: sz_add_small t_def)
  have seg: "segment (m @ x) 0 t = m @ take 7 x" "drop t (m @ x) = drop 7 x"
    by (simp_all add: segment_def t_def)
  have "length h + 2 + k \<noteq> length (m @ x)" "length h + 2 \<le> length (m @ x)" using len n(2) by simp_all
  moreover have "length (m @ x) - 0 < t \<longleftrightarrow> length x < 7" by (auto simp: t_def)
  ultimately show ?thesis
    unfolding process_step_def it d option.case Let_def add_0 pl sum_bind_simps prod.case tot seg
    by simp
qed

section \<open>Samples\<close>

lemma sample_client_ok: "client_ok sample_message"
proof -
  have "length (serialize sample_message) = 82" by code_simp
  then have "length (serialize sample_message) < 2147483648" by simp
  moreover have "map_of (msg_fields sample_message) MsgType \<noteq> None" by (simp add: sample_message_def)
  moreover have "\<forall>f \<in> set (msg_fields sample_message). no_checksum_text f" by code_simp
  ultimately show ?thesis using sample_message_ok unfolding client_ok_def by blast
qed

definition long_order :: "(int \<times> string) list" where
  "long_order = [(58, replicate 90 CHR ''x'')]"

lemma long_order_ok: "encoder_ok ''FIX.4.4'' ''D'' long_order"
proof -
  have "length (placeholder_text ''D'' long_order) = 107" by code_simp
  then show ?thesis by (simp add: encoder_ok_def) (simp add: long_order_def field_ok_def)
qed

section \<open>Properties\<close>

text \<open>
  C13. The client's messages through the streaming parser into the session layer: a stream of messages of
  \<open>serialize\<close> comes out of \<open>on_data\<close> message by message, each without its last separator, and every field but
  the checksum survives \<open>deserialize\<close>; without the checksum \<open>validateMessage\<close> rejects every one of them.
\<close>

theorem client_over_stream_parser:
  assumes "\<forall>msg \<in> set ms. client_ok msg" and "ms \<noteq> []"
  shows "on_data (concat (map serialize ms)) [] [] = Some (map (\<lambda>msg. butlast (serialize msg)) ms, Inr [SOH])
    \<and> (\<forall>msg \<in> set ms. \<forall>peer :: 'd FIX42Protocol. let (ok, m) = deserialize (butlast (serialize msg)) in
         ok \<and> (\<forall>t. t \<notin> {BeginString, BodyLength, CheckSum} \<longrightarrow> map_of (msg_fields m) t = map_of (msg_fields msg) t)
         \<and> \<not> validateMessage peer m)"
proof (intro conjI ballI allI)
  have "\<forall>m \<in> set (map client_parts ms). frame_ok m" using assms(1) client_frame_ok by auto
  note run = process_frames [OF this, of "[]" "[]"]
  have eq: "frame (client_parts msg) = serialize msg" for msg by (rule serialize_frame [symmetric])
  show "on_data (concat (map serialize ms)) [] [] = Some (map (\<lambda>msg. butlast (serialize msg)) ms, Inr [SOH])"
    using run assms(2) by (simp add: on_data_def comp_def eq)
next
  fix msg and peer :: "'d FIX42Protocol"
  assume "msg \<in> set ms"
  then obtain m where m: "deserialize (butlast (serialize msg)) = (True, \<lparr>msg_fields = m, raw_data = butlast (serialize msg)\<rparr>)"
    "map_of m CheckSum = None" "\<forall>t. t \<notin> {BeginString, BodyLength, CheckSum} \<longrightarrow> map_of m t = map_of (msg_fields msg) t"
    using assms(1) deserialize_cut by blast
  have "\<not> validateMessage peer \<lparr>msg_fields = m, raw_data = butlast (serialize msg)\<rparr>"
    using m(2) by (simp add: validateMessage_def Let_def)
  with m(1,3) show "let (ok, m) = deserialize (butlast (serialize msg)) in
      ok \<and> (\<forall>t. t \<notin> {BeginString, BodyLength, CheckSum} \<longrightarrow> map_of (msg_fields m) t = map_of (msg_fields msg) t)
      \<and> \<not> validateMessage peer m" by simp
qed

theorem client_over_stream_parser_witness:
  "on_data (concat (map serialize [sample_message, sample_message])) [] []
     = Some ([butlast (serialize sample_message), butlast (serialize sample_message)], Inr [SOH])
   \<and> \<not> validateMessage (FIX42Protocol_new ''SERVER'' ''CLIENT'' 30 :: unit FIX42Protocol)
       (snd (deserialize (butlast (serialize sample_message))))"
proof -
  have "\<forall>msg \<in> set [sample_message, sample_message]. client_ok msg" using sample_client_ok by simp
  from client_over_stream_parser [OF this, where ?'d = unit] show ?thesis
    by (cases "deserialize (butlast (serialize sample_message))") (simp add: Let_def)
qed

text \<open>
  C14. The whole-buffer parser on what the other components write.  On any sequence of messages of \<open>serialize\<close>
  (fix42.cpp) and of \<open>FixEncoder\<close> (encoder.cpp) it reports a wrong body length for each message it finds and returns
  none.  The messages of \<open>FixSession\<close> (fix42_a.cpp) carry the length it computes: of a sequence of those it returns
  every second one, with the fields that \<open>parseFixMessage\<close> reads in it.
\<close>

theorem buffer_parser_on_ours:
  assumes "\<forall>t \<in> set ts. (\<exists>msg. client_ok msg \<and> t = serialize msg)
    \<or> (\<exists>b ty fs e e'. encoder_ok b ty fs \<and> finalize (encode b ty fs e) = Inr e' \<and> t = enc_buffer e')"
    and "\<forall>m \<in> set ms. session_msg_ok m"
  shows "parse_buffer (concat ts) = Inr []
    \<and> (\<exists>tabs. parse_buffer (concat (map session_wire ms)) = Inr tabs
         \<and> map (\<lambda>m. parseFixMessage (session_wire m)) (every_second ms) = map Inr tabs)"
proof
  have "\<exists>p. part_mismatch p \<and> part_text p = t" if "t \<in> set ts" for t
    using bspec [OF assms(1) that]
  proof (elim disjE exE conjE)
    fix msg
    assume "client_ok msg" "t = serialize msg"
    then show ?thesis using client_mismatch client_part_text by metis
  next
    fix b ty fs e e'
    assume "encoder_ok b ty fs" "finalize (encode b ty fs e) = Inr e'" "t = enc_buffer e'"
    then show ?thesis using encoder_mismatch encoder_output [of b ty fs e] by (intro exI [of _ "encoder_part b ty fs"]) auto
  qed
  then obtain f where f: "\<forall>t \<in> set ts. part_mismatch (f t) \<and> part_text (f t) = t" by metis
  then have "map part_text (map f ts) = ts" by (simp add: map_idI)
  moreover have "\<forall>p \<in> set (map f ts). part_mismatch p" using f by simp
  ultimately show "parse_buffer (concat ts) = Inr []" using mismatch_stream by metis
next
  have "\<forall>p \<in> set (map session_part ms). part_ok p" using assms(2) session_part_ok(1) by auto
  moreover have "map part_text (map session_part ms) = map session_wire ms" using assms(2) session_part_ok(2) by auto
  ultimately have "parse_buffer (concat (map session_wire ms)) = Inr (map part_table (every_second (map session_part ms)))"
    using buffer_parser_alternates [of "map session_part ms"] by metis
  moreover have "set (every_second ms) \<subseteq> set ms" "every_second (map session_part ms) = map session_part (every_second ms)"
    by (induction ms rule: every_second.induct) auto
  moreover from this(1) have "\<forall>m \<in> set (every_second ms). parseFixMessage (session_wire m) = Inr (part_table (session_part m))"
    using assms(2) session_part_ok(3) by blast
  ultimately show "\<exists>tabs. parse_buffer (concat (map session_wire ms)) = Inr tabs
      \<and> map (\<lambda>m. parseFixMessage (session_wire m)) (every_second ms) = map Inr tabs"
    by (intro exI [of _ "map (\<lambda>m. part_table (session_part m)) (every_second ms)"]) (simp add: comp_def)
qed

text \<open>A logon of the session sent twice: the second is found.\<close>

definition sample_logon :: session_msg where
  "sample_logon = (FixSession_init ''C'' ''S'' ''pw'' 30, ''t'', ''A'', [(98, ''0''), (108, ''30'')])"

theorem buffer_parser_on_ours_witness:
  "\<exists>t tab. (\<exists>e'. finalize (encode ''FIX.4.4'' ''D'' long_order FixEncoder_new) = Inr e' \<and> t = enc_buffer e')
     \<and> parse_buffer (concat [serialize sample_message, t, serialize sample_message]) = Inr []
     \<and> parse_buffer (session_wire sample_logon @ session_wire sample_logon) = Inr [tab]
     \<and> parseFixMessage (session_wire sample_logon) = Inr tab"
proof -
  obtain e' where e: "finalize (encode ''FIX.4.4'' ''D'' long_order FixEncoder_new) = Inr e'"
    using encoder_output [OF long_order_ok] by blast
  have "\<forall>t \<in> set [serialize sample_message, enc_buffer e', serialize sample_message].
      (\<exists>msg. client_ok msg \<and> t = serialize msg)
      \<or> (\<exists>b ty fs e e'. encoder_ok b ty fs \<and> finalize (encode b ty fs e) = Inr e' \<and> t = enc_buffer e')"
    using e long_order_ok sample_client_ok by (metis empty_iff empty_set set_ConsD)
  moreover have "length (header_text (FixSession_init ''C'' ''S'' ''pw'' 30) ''t'' ''A'' [(98, ''0''), (108, ''30'')]) < 100"
    by code_simp
  then have "length (header_text (FixSession_init ''C'' ''S'' ''pw'' 30) ''t'' ''A'' [(98, ''0''), (108, ''30'')]) < 1000000"
    by linarith
  then have "session_msg_ok sample_logon"
    by (simp add: sample_logon_def field_ok_def) (simp add: FixSession_init_def)
  then have "\<forall>m \<in> set [sample_logon, sample_logon]. session_msg_ok m" by simp
  ultimately show ?thesis
    using buffer_parser_on_ours [of "[serialize sample_message, enc_buffer e', serialize sample_message]"
        "[sample_logon, sample_logon]"] e by (auto simp: map_eq_Cons_conv)
qed

text \<open>
  The streaming parser takes seven bytes too many off the stream for each of the encoder's messages: it waits
  until seven bytes of the next message have come, and then removes them, so that the next message loses its
  begin string.
\<close>

theorem stream_parser_overtakes:
  assumes "encoder_ok b ty fs" and "b = ''FIX'' @ w" and "CHR ''9'' \<notin> set w" and "length x < 2147483648"
    and "finalize (encode b ty fs e) = Inr e'"
  shows "process_step (enc_buffer e' @ x) = (if length x < 7 then Inr Wait
    else sum_bind (validate_checksum (enc_buffer e' @ take 7 x))
      (\<lambda>ok. Inr (Consume (if ok then Some (enc_buffer e' @ take 7 x) else None) (drop 7 x))))"
proof -
  have "enc_buffer e' = part_text (encoder_part b ty fs)" using encoder_output [OF assms(1), of e] assms(5) by auto
  then show ?thesis by (simp only: stream_parser_encoder [OF assms(1-4)])
qed

theorem stream_parser_overtakes_witness:
  "\<exists>e'. finalize (encode ''FIX.4.4'' ''D'' long_order FixEncoder_new) = Inr e'
     \<and> process_step (enc_buffer e' @ ''8=FIX'') = Inr Wait"
proof -
  obtain e' where e: "finalize (encode ''FIX.4.4'' ''D'' long_order FixEncoder_new) = Inr e'"
    using encoder_output [OF long_order_ok] by blast
  have "process_step (enc_buffer e' @ ''8=FIX'') = Inr Wait"
    using stream_parser_overtakes [OF long_order_ok, of "''.4.4''" "''8=FIX''", OF _ _ _ e] by simp
  with e show ?thesis by blast
qed

end
