(* ===== verification/Reactor_Life.thy ===== *)
theory Reactor_Life
  imports Prelude
begin

text \<open>
  The life of a \<open>SubReactor\<close>'s thread (muduo/src/SubReactor.cpp with the loop of muduo/include/Reactor.hpp):
  the owner calls \<open>start\<close>, \<open>stop\<close> and \<open>join\<close>, as \<open>MainReactor::run\<close> and its destructor do; the thread sets
  \<open>isRunning_\<close>, waits, handles events and tests \<open>isRunning_\<close>; other threads write the pipe when they queue
  work.  The steps interleave in any order.
\<close>

section \<open>State\<close>

datatype life_pc = NotCreated | Created | EpollWaiting | Handling bool | TestRunning | Returned

text \<open>What the owner still has to do: the two statements of \<open>stop\<close> are steps of their own.\<close>

datatype owner_op = StartOp | ClearRunningOp | WritePipeOp | JoinOp

abbreviation stop_ops :: "owner_op list" where
  "stop_ops \<equiv> [ClearRunningOp, WritePipeOp]"

text \<open>
  The pipe is registered edge-triggered: \<open>pipe_edge\<close> is set by a write and taken by the wait that reports it.
\<close>

record life =
  isRunning :: bool
  pipe_bytes :: nat
  pipe_edge :: bool
  life_pc :: life_pc
  owner :: "owner_op list"

definition life_new :: "owner_op list \<Rightarrow> life" where
  "life_new ops = \<lparr>isRunning = False, pipe_bytes = 0, pipe_edge = False, life_pc = NotCreated, owner = ops\<rparr>"

section \<open>Steps\<close>

abbreviation pipe_capacity :: nat where "pipe_capacity \<equiv> 65536"

text \<open>A non-blocking write of one byte; on a full pipe it fails, which is only logged.\<close>

definition write_pipe_byte :: "life \<Rightarrow> life" where
  "write_pipe_byte s = (if pipe_bytes s < pipe_capacity then s\<lparr>pipe_bytes := pipe_bytes s + 1, pipe_edge := True\<rparr> else s)"

text \<open>The read of at most 1024 bytes in \<open>handlePipe\<close>.\<close>

definition drain_pipe :: "life \<Rightarrow> life" where
  "drain_pipe s = s\<lparr>pipe_bytes := pipe_bytes s - 1024\<rparr>"

text \<open>
  The thread.  \<open>others\<close> tells whether \<open>epoll_wait\<close> has another descriptor to report or is interrupted; otherwise
  it returns only for the pipe.
\<close>

definition life_thread_step :: "bool \<Rightarrow> life \<Rightarrow> life" where
  "life_thread_step others s =
     (case life_pc s of
        NotCreated \<Rightarrow> s
      | Created \<Rightarrow> s\<lparr>isRunning := True, life_pc := EpollWaiting\<rparr>
      | EpollWaiting \<Rightarrow>
          if pipe_edge s \<or> others then s\<lparr>pipe_edge := False, life_pc := Handling (pipe_edge s)\<rparr> else s
      | Handling p \<Rightarrow> (if p then drain_pipe s else s)\<lparr>life_pc := TestRunning\<rparr>
      | TestRunning \<Rightarrow> s\<lparr>life_pc := if \<not> isRunning s then Returned else EpollWaiting\<rparr>
      | Returned \<Rightarrow> s)"

text \<open>
  The owner.  \<open>join\<close> waits for the thread to return; without a thread to join it only logs.
\<close>

definition owner_step :: "life \<Rightarrow> life" where
  "owner_step s =
     (case owner s of
        [] \<Rightarrow> s
      | StartOp # r \<Rightarrow> s\<lparr>life_pc := Created, owner := r\<rparr>
      | ClearRunningOp # r \<Rightarrow> s\<lparr>isRunning := False, owner := r\<rparr>
      | WritePipeOp # r \<Rightarrow> (write_pipe_byte s)\<lparr>owner := r\<rparr>
      | JoinOp # r \<Rightarrow> if life_pc s = NotCreated \<or> life_pc s = Returned then s\<lparr>owner := r\<rparr> else s)"

datatype life_turn = ThreadTurn bool | OwnerTurn | WriterTurn

fun life_act :: "life_turn \<Rightarrow> life \<Rightarrow> life" where
  "life_act (ThreadTurn others) s = life_thread_step others s"
| "life_act OwnerTurn s = owner_step s"
| "life_act WriterTurn s = write_pipe_byte s"

text \<open>The owner of a reactor that is started once and stopped, as \<open>MainReactor\<close> does with each of its reactors.\<close>

definition life_program :: "owner_op list" where
  "life_program = StartOp # stop_ops @ [JoinOp]"

section \<open>Invariant\<close>

definition at_program :: "owner_op list \<Rightarrow> life_pc \<Rightarrow> bool \<Rightarrow> bool" where
  "at_program ops pc running \<longleftrightarrow>
     (ops = life_program \<and> pc = NotCreated)
     \<or> (ops = stop_ops @ [JoinOp] \<and> pc \<noteq> NotCreated \<and> pc \<noteq> Returned \<and> (pc \<noteq> Created \<longrightarrow> running))
     \<or> (ops \<in> {[WritePipeOp, JoinOp], [JoinOp]} \<and> pc \<noteq> NotCreated \<and> (pc = Returned \<longrightarrow> \<not> running))
     \<or> (ops = [] \<and> pc = Returned)"

text \<open>
  A full pipe has not been reported or not been read yet; and once the byte of \<open>stop\<close> is written, a thread that
  is to return is not asleep.
\<close>

definition pipe_full_ok :: "nat \<Rightarrow> bool \<Rightarrow> life_pc \<Rightarrow> bool" where
  "pipe_full_ok n edge pc \<longleftrightarrow> n \<le> pipe_capacity \<and> (n = pipe_capacity \<longrightarrow> edge \<or> pc = Handling True)"

definition stop_seen :: "owner_op list \<Rightarrow> bool \<Rightarrow> bool \<Rightarrow> life_pc \<Rightarrow> bool" where
  "stop_seen ops running edge pc \<longleftrightarrow> (ops = [JoinOp] \<and> \<not> running \<and> pc = EpollWaiting \<longrightarrow> edge)"

definition life_inv :: "life \<Rightarrow> bool" where
  "life_inv s \<longleftrightarrow> at_program (owner s) (life_pc s) (isRunning s)
     \<and> pipe_full_ok (pipe_bytes s) (pipe_edge s) (life_pc s)
     \<and> stop_seen (owner s) (isRunning s) (pipe_edge s) (life_pc s)"

lemmas life_inv_defs = life_inv_def at_program_def pipe_full_ok_def stop_seen_def life_program_def

lemma write_pipe_sel [simp]:
  "isRunning (write_pipe_byte s) = isRunning s" "life_pc (write_pipe_byte s) = life_pc s"
  "owner (write_pipe_byte s) = owner s"
  by (simp_all add: write_pipe_byte_def)

lemma life_inv_thread: "life_inv s \<Longrightarrow> life_inv (life_thread_step others s)"
  by (cases "life_pc s") (auto simp: life_inv_defs life_thread_step_def drain_pipe_def)

lemma life_inv_write: "life_inv s \<Longrightarrow> life_inv (write_pipe_byte s)"
  by (auto simp: life_inv_defs write_pipe_byte_def)

lemma life_inv_owner:
  assumes "life_inv s"
  shows "life_inv (owner_step s)"
proof -
  have at: "at_program (owner s) (life_pc s) (isRunning s)" using assms by (simp add: life_inv_def)
  then consider "owner s = life_program" | "owner s = stop_ops @ [JoinOp]" | "owner s = [WritePipeOp, JoinOp]"
    | "owner s = [JoinOp]" | "owner s = []" unfolding at_program_def by blast
  then show ?thesis
  proof cases
    case 3
    then show ?thesis using assms by (cases "life_pc s"; cases "pipe_bytes s < pipe_capacity")
      (auto simp: owner_step_def write_pipe_byte_def life_inv_defs)
  next
    case 4
    then show ?thesis using assms by (cases "life_pc s") (simp_all add: owner_step_def life_inv_defs)
  qed (use assms in \<open>auto simp: owner_step_def life_inv_defs\<close>)
qed

lemma life_inv_act: "life_inv s \<Longrightarrow> life_inv (life_act t s)"
  by (cases t) (simp_all add: life_inv_thread life_inv_write life_inv_owner)

lemma life_inv_reachable: "life_inv (fold life_act ts (life_new life_program))"
proof -
  have "life_inv (fold life_act ts s)" if "life_inv s" for s
    using that by (induction ts arbitrary: s) (simp_all add: life_inv_act)
  moreover have "life_inv (life_new life_program)" by (simp add: life_inv_defs life_new_def)
  ultimately show ?thesis by blast
qed

section \<open>Stopping in time and too early\<close>

text \<open>The thread has set \<open>isRunning_\<close>; after \<open>stop\<close> has cleared it, nothing sets it again.\<close>

definition started :: "life \<Rightarrow> bool" where
  "started s \<longleftrightarrow> life_inv s \<and> life_pc s \<noteq> NotCreated \<and> life_pc s \<noteq> Created
     \<and> owner s \<in> {stop_ops @ [JoinOp], [WritePipeOp, JoinOp], [JoinOp], []}
     \<and> (owner s \<noteq> stop_ops @ [JoinOp] \<longrightarrow> \<not> isRunning s)"

lemma started_act:
  assumes "started s"
  shows "started (life_act t s)"
proof -
  have inv: "life_inv (life_act t s)" using assms life_inv_act by (simp add: started_def)
  show ?thesis
  proof (cases t)
    case (ThreadTurn others)
    then show ?thesis using assms inv
      by (cases "life_pc s") (auto simp: started_def life_thread_step_def drain_pipe_def)
  next
    case OwnerTurn
    then show ?thesis using assms inv
      by (auto simp: started_def owner_step_def split: if_splits)
  next
    case WriterTurn
    then show ?thesis using assms inv by (simp add: started_def)
  qed
qed

lemma started_run: "started s \<Longrightarrow> started (fold life_act us s)"
  by (induction us arbitrary: s) (simp_all add: started_act)

lemma three_steps_return:
  assumes "started s" "owner s = [JoinOp]"
  shows "life_pc (fold life_act (replicate 3 (ThreadTurn False)) s) = Returned
    \<and> owner (fold life_act (replicate 3 (ThreadTurn False)) s) = [JoinOp]"
  using assms
  by (cases "life_pc s") (auto simp: eval_nat_numeral started_def life_inv_def stop_seen_def life_thread_step_def drain_pipe_def)

text \<open>The thread comes to set \<open>isRunning_\<close>, or has set it, after \<open>stop\<close> cleared it.\<close>

definition unstoppable :: "life \<Rightarrow> bool" where
  "unstoppable s \<longleftrightarrow> owner s = [JoinOp] \<and> life_pc s \<noteq> NotCreated \<and> life_pc s \<noteq> Returned \<and> (life_pc s = Created \<or> isRunning s)"

lemma unstoppable_act: "unstoppable s \<Longrightarrow> unstoppable (life_act t s)"
  by (cases t; cases "life_pc s")
    (auto simp: unstoppable_def life_thread_step_def owner_step_def drain_pipe_def split: if_splits)

lemma unstoppable_run: "unstoppable s \<Longrightarrow> unstoppable (fold life_act us s)"
  by (induction us arbitrary: s) (simp_all add: unstoppable_act)

section \<open>Properties\<close>

text \<open>
  C24. Stopping a reactor whose thread runs: when the thread has set \<open>isRunning_\<close> before \<open>stop\<close> begins, then in
  every interleaving with other writers of the pipe, once \<open>stop\<close> has returned at most three steps of the thread
  end it and \<open>join\<close> returns; the byte in the pipe is never lost, also when the pipe is full.
\<close>

theorem reactor_stop_joins:
  assumes s: "s = fold life_act ts (life_new life_program)" "owner s = stop_ops @ [JoinOp]" "life_pc s \<noteq> Created"
    and t: "t = fold life_act us s" "owner t = [JoinOp]"
  shows "owner (fold life_act (replicate 3 (ThreadTurn False) @ [OwnerTurn]) t) = []"
proof -
  have "life_inv s" using s(1) life_inv_reachable by simp
  moreover from this have "life_pc s \<noteq> NotCreated" using s(2) by (auto simp: life_inv_defs)
  ultimately have "started s" using s(2,3) by (simp add: started_def)
  then have "started t" using t(1) started_run by simp
  from three_steps_return [OF this t(2)] show ?thesis by (simp add: owner_step_def)
qed

theorem reactor_stop_joins_witness:
  "owner (fold life_act (replicate 3 (ThreadTurn False) @ [OwnerTurn])
     (fold life_act [WriterTurn, ThreadTurn False, OwnerTurn, ThreadTurn True, OwnerTurn]
        (fold life_act [OwnerTurn, ThreadTurn False] (life_new life_program)))) = []"
  by (rule reactor_stop_joins [OF refl _ _ refl])
    (simp_all add: life_new_def life_program_def owner_step_def life_thread_step_def write_pipe_byte_def drain_pipe_def)

text \<open>
  Stopping too early: when \<open>stop\<close> clears \<open>isRunning_\<close> before the new thread has set it, the thread sets it
  afterwards, loops for ever, and \<open>join\<close> never returns.
\<close>

theorem reactor_stop_too_early:
  assumes "s = fold life_act ts (life_new life_program)" "owner s = [WritePipeOp, JoinOp]" "life_pc s = Created"
    and "t = fold life_act us s" "owner t \<noteq> [WritePipeOp, JoinOp]"
  shows "owner t = [JoinOp] \<and> life_pc t \<noteq> Returned"
proof -
  have "unstoppable (fold life_act us s) \<or> (owner (fold life_act us s) = [WritePipeOp, JoinOp]
      \<and> life_pc (fold life_act us s) \<notin> {NotCreated, Returned}
      \<and> (life_pc (fold life_act us s) = Created \<or> isRunning (fold life_act us s)))"
  proof (induction us rule: rev_induct)
    case Nil
    show ?case using assms(2,3) by simp
  next
    case (snoc u us)
    let ?s = "fold life_act us s"
    show ?case
    proof (cases "unstoppable ?s")
      case True
      then show ?thesis using unstoppable_act by simp
    next
      case False
      then show ?thesis using snoc
        by (cases u; cases "life_pc ?s")
          (auto simp: unstoppable_def life_thread_step_def owner_step_def drain_pipe_def split: if_splits)
    qed
  qed
  then show ?thesis using assms(4,5) by (auto simp: unstoppable_def)
qed

theorem reactor_stop_too_early_witness:
  "owner (fold life_act ([OwnerTurn, ThreadTurn True, ThreadTurn True, ThreadTurn True, ThreadTurn True, OwnerTurn])
     (fold life_act [OwnerTurn, OwnerTurn] (life_new life_program))) = [JoinOp]"
proof -
  let ?s = "fold life_act [OwnerTurn, OwnerTurn] (life_new life_program)"
  let ?t = "fold life_act ([OwnerTurn, ThreadTurn True, ThreadTurn True, ThreadTurn True, ThreadTurn True, OwnerTurn]) ?s"
  have s: "owner ?s = [WritePipeOp, JoinOp]" "life_pc ?s = Created"
    by (simp_all add: life_new_def life_program_def owner_step_def)
  have "owner ?t \<noteq> [WritePipeOp, JoinOp]"
    by (simp add: life_new_def life_program_def owner_step_def life_thread_step_def write_pipe_byte_def drain_pipe_def)
  from reactor_stop_too_early [OF refl s refl this] show ?thesis by blast
qed

end
