(* ===== verification/Example_Clients.thy ===== *)
theory Example_Clients
  imports Echo_Server
begin

text \<open>
  The clients of the two servers: muduo/echo_client.cpp, together with the server of muduo/echo_server.cpp, and
  \<open>client_run\<close> of muduo/example/main.cpp, together with the server of the same file.  The contents of arrays
  that are not initialised are arguments.
\<close>

section \<open>The echo client\<close>

text \<open>
  The results of \<open>connect\<close> and \<open>send\<close> are not tested.  \<open>connected\<close> says whether the socket is connected when \<open>send\<close>
  runs: on one that is not, after a refused \<open>connect\<close> or after the peer's reset, \<open>send\<close> raises \<open>SIGPIPE\<close>, which
  ends the process before it reports anything.  On a connected socket \<open>net\<close> gives what \<open>recv\<close> returns: its bytes,
  or \<open>None\<close> when it fails, whose -1 is passed to \<open>decoder\<close> as a \<open>size_t\<close>.  \<open>Reported\<close> holds the bytes sent and
  what the decoder stores.
\<close>

datatype client_end = Killed | Reported bytes decoded

definition echo_client :: "bytes \<Rightarrow> bytes \<Rightarrow> bool \<Rightarrow> (bytes \<Rightarrow> bytes option) \<Rightarrow> fault + client_end" where
  "echo_client buffer0 decode0 connected net =
     sum_bind (encoder 1 [0x42, 0x42, 0x42] (Some buffer0) (length buffer0)) (\<lambda>(s, buffer).
       let sent = take s (the buffer);
           (bytes_read, buf) =
             (case net sent of None \<Rightarrow> (sz_mod - 1, the buffer)
              | Some d \<Rightarrow> (length (take 1024 d), overwrite (the buffer) 0 (take 1024 d)))
       in if \<not> connected then Inr Killed
          else sum_bind (decoder_sized bytes_read buf decode0) (\<lambda>dec. Inr (Reported sent dec)))"

text \<open>The network that carries a message whole to a thread of the server and the answer whole back.\<close>

definition through_server :: "echo_junk \<Rightarrow> bytes \<Rightarrow> bytes \<Rightarrow> bytes option" where
  "through_server junk buffer d =
     (case handle_round junk (Some d) buffer of Inr (Sent r b) \<Rightarrow> Some r | _ \<Rightarrow> Some [])"

section \<open>The client of the example\<close>

definition le64 :: "u64 \<Rightarrow> bytes" where
  "le64 t = map (\<lambda>i. ucast (drop_bit (i * 8) t)) [0..<8]"

definition example_encode_array :: "u8 \<Rightarrow> bytes \<Rightarrow> u32 \<Rightarrow> bytes \<Rightarrow> nat \<Rightarrow> fault + nat \<times> bytes option" where
  "example_encode_array type arr data_len out out_size =
     (if out_size < message_size data_len then Inr (0, Some out)
      else if length arr < unat data_len then Inl OutOfBounds
      else example_encoder type (take (unat data_len) arr) (Some out) out_size)"

text \<open>
  One round of \<open>client_run\<close> up to \<open>write\<close>: the character \<open>ch\<close> and the number \<open>num\<close> are read from the input, \<open>t\<close>
  from the clock, and \<open>junk\<close> is what the two new arrays hold; the result is what is written.
\<close>

definition client_round :: "u64 \<Rightarrow> u8 \<Rightarrow> int \<Rightarrow> (nat \<Rightarrow> u8) \<Rightarrow> fault + bytes" where
  "client_round t ch num junk =
     (let size = nat (100 + num); fresh = map junk [0..<size]
      in if 100 + num < 0 then Inl (Thrown ''bad_array_new_length'')
         else if size < 8 then Inl OutOfBounds
         else
           let buf = overwrite (overwrite fresh 0 (le64 t)) 8 (replicate (nat num) ch)
           in sum_bind (example_encode_array 2 buf (word_of_int (8 + num)) fresh (size + 5)) (\<lambda>(n, out).
                Inr (take n (the out))))"

section \<open>Lemmas\<close>

lemma length_le64 [simp]: "length (le64 t) = 8"
  by (simp add: le64_def)

lemma scramble_append: "scramble i (xs @ ys) = scramble i xs @ scramble (i + length xs) ys"
  by (induction xs arbitrary: i) simp_all

lemma scramble_map: "scramble i (map f [j..<k]) = map (\<lambda>n. f n + offset_byte (i + n - j)) [j..<k]"
proof (induction "k - j" arbitrary: i j)
  case (Suc d)
  then have "[j..<k] = j # [Suc j..<k]" "d = k - Suc j" by (simp_all add: upt_conv_Cons)
  then show ?case using Suc(1) [of "Suc j" "Suc i"] by (simp add: upt_conv_Cons)
qed simp

lemma scramble_timestamp: "scramble 0 (le64 t) = encodeTimeStamp t"
  by (simp add: le64_def encodeTimeStamp_def scramble_map)

lemma message_size_int: "message_size (word_of_int k) = unat (word_of_int (5 + k) :: u32)"
  by (simp add: message_size_def)

lemma unat_small_int: "0 \<le> k \<Longrightarrow> k < 4294967296 \<Longrightarrow> unat (word_of_int k :: u32) = nat k"
  by (simp add: unsigned_of_int take_bit_int_eq_self)

lemma unat_negative_int:
  assumes "- 4294967296 \<le> k" "k < 0"
  shows "unat (word_of_int k :: u32) = nat (4294967296 + k)"
proof -
  have "(word_of_int k :: u32) = word_of_int (4294967296 + k)" by simp
  also have "unat \<dots> = nat (4294967296 + k)" using assms by (intro unat_small_int) simp_all
  finally show ?thesis .
qed

text \<open>What one round writes.\<close>

lemma client_round_message:
  assumes "0 \<le> num" "num < 1073741824"
  shows "client_round t ch num junk
    = Inr (message 2 (word_of_nat (13 + nat num)) (scramble 0 (le64 t @ replicate (nat num) ch)))"
proof -
  define data where "data = le64 t @ replicate (nat num) ch"
  define fresh where "fresh = map junk [0..<nat (100 + num)]"
  define body where "body = scramble 0 data"
  have len: "length data = 8 + nat num" "length fresh = 100 + nat num" "length body = 8 + nat num"
    using assms(1) by (simp_all add: data_def fresh_def body_def)
  define buf where "buf = overwrite (overwrite fresh 0 (le64 t)) 8 (replicate (nat num) ch)"
  have buf: "take (8 + nat num) buf = data" "8 + nat num \<le> length buf"
    using len(2) by (simp_all add: buf_def overwrite_def data_def)
  have w: "(word_of_int (8 + num) :: u32) = word_of_nat (length data)" using assms(1) len(1) by simp
  have u: "unat (word_of_nat (length data) :: u32) = length data" "message_size (word_of_nat (length data)) = 5 + length data"
    using assms len(1) unat_small_int [of "8 + num"] message_size_small [of "length data"] by (simp_all add: w [symmetric] nat_add_distrib)
  have "example_encode_array 2 buf (word_of_int (8 + num)) fresh (nat (100 + num) + 5)
      = Inr (5 + length data, Some (message 2 (word_of_nat (5 + length data)) (body @ drop (5 + length data) fresh)))"
    using example_encoder_fits [of data fresh "nat (100 + num) + 5" 2] assms buf u len
    unfolding w by (simp add: example_encode_array_def body_def nat_add_distrib)
  then have "client_round t ch num junk = Inr (message 2 (word_of_nat (5 + length body)) body)"
    using assms(1) len unfolding client_round_def Let_def fresh_def [symmetric] buf_def [symmetric]
    by (simp add: message_append nat_add_distrib)
  then show ?thesis by (simp add: len(3) body_def data_def)
qed

section \<open>Properties\<close>

text \<open>
  C29. The echo client and the echo server together: when the network carries the message and the answer whole,
  the client reports the type and the length it has sent and holds its three bytes.  It reports and holds exactly
  the same when no answer comes and \<open>recv\<close> fails on the connection, for example because the server has reset it: the
  client then decodes its own message.  Without a connection the client does not get there: \<open>send\<close> kills it.
\<close>

theorem echo_client_reset_as_answer:
  assumes "length buffer0 = 1024" "length decode0 = 1024"
    and server: "length buffer = 4096" "length (junk_decode junk) = 4096" "length (junk_out junk) = 4096"
  shows "echo_client buffer0 decode0 True (through_server junk buffer)
      = Inr (Reported (message 1 3 [0x8C, 0x93, 0x8C]) (Decoded 1 3 (overwrite decode0 0 [0x42, 0x42, 0x42])))
    \<and> echo_client buffer0 decode0 True (\<lambda>_. None) = echo_client buffer0 decode0 True (through_server junk buffer)
    \<and> echo_client buffer0 decode0 False net = Inr Killed"
proof -
  define data where "data = [0x42, 0x42, 0x42 :: u8]"
  define m where "m = message 1 (word_of_nat (length data)) (scramble 0 data)"
  define buf where "buf = message 1 (word_of_nat (length data)) (scramble 0 data @ drop 8 buffer0)"
  have len: "length data = 3" "length m = 8" by (simp_all add: data_def m_def)
  have m: "m = message 1 3 [0x8C, 0x93, 0x8C]" by (simp add: m_def data_def offset_byte_def)
  have buf: "buf = m @ drop 8 buffer0" by (simp add: buf_def m_def message_append)
  have enc: "encoder 1 data (Some buffer0) (length buffer0) = Inr (8, Some buf)"
    using encoder_message [of data buffer0 1] assms(1) by (simp add: buf_def len)
  have dec: "decoder_sized n buf decode0 = Inr (Decoded 1 (word_of_nat (length data)) (overwrite decode0 0 data))"
    if "8 \<le> n" for n
    using decoder_sized_fits [of data decode0 n 1 "drop 8 buffer0"] assms(2) that by (simp add: buf_def len)
  have "handle_round junk (Some m) buffer = Inr (Sent m (m @ drop (length m) buffer))"
    by (rule echo_whole_message [of data buffer junk m 1]) (use server in \<open>simp_all add: len m_def\<close>)
  then have net: "through_server junk buffer m = Some m" by (simp add: through_server_def)
  have "take 8 buf = m" "overwrite buf 0 m = buf" by (simp_all add: buf len overwrite_def)
  then have "echo_client buffer0 decode0 True (through_server junk buffer)
      = Inr (Reported m (Decoded 1 (word_of_nat (length data)) (overwrite decode0 0 data)))"
    "echo_client buffer0 decode0 True (\<lambda>_. None)
      = Inr (Reported m (Decoded 1 (word_of_nat (length data)) (overwrite decode0 0 data)))"
    "echo_client buffer0 decode0 False net = Inr Killed"
    using enc dec [of 8] dec [of "sz_mod - 1"] net len unfolding echo_client_def data_def [symmetric]
    by (simp_all split: prod.split)
  then show ?thesis by (simp add: m data_def)
qed

theorem echo_client_reset_as_answer_witness:
  "echo_client (replicate 1024 0) (replicate 1024 0) True (\<lambda>_. None)
     = Inr (Reported (message 1 3 [0x8C, 0x93, 0x8C]) (Decoded 1 3 (overwrite (replicate 1024 0) 0 [0x42, 0x42, 0x42])))"
proof -
  define j where "j = \<lparr>junk_decode = replicate 4096 9, junk_out = replicate 4096 9, junk_type = 0, junk_len = 0\<rparr>"
  have "length (replicate 4096 (0 :: u8)) = 4096" "length (junk_decode j) = 4096" "length (junk_out j) = 4096"
    "length (replicate 1024 (0 :: u8)) = 1024"
    unfolding j_def by (simp_all only: echo_junk.simps length_replicate)
  from echo_client_reset_as_answer [OF this(4,4,1,2,3)] show ?thesis by metis
qed

text \<open>
  C30. A round of the example's client is answered with its payload.  For \<open>num\<close> characters \<open>ch\<close> the client writes one
  message; a server with nothing pending, which receives it in whatever blocks, answers it, once the last block has
  come, with a header that has the time of the answer, and with the body of the message, which is the client's time
  stamp and the characters, scrambled; nothing stays behind.  Or it runs out of memory.  The time stamp that the
  server decodes from the body is the one that the client read from its clock.
\<close>

theorem client_round_served:
  assumes "0 \<le> num" "num < 1073741824" "client_round t ch num junk = Inr (concat ds)"
    and "cube_inv b" "sb_data b = []" "body = scramble 0 (le64 t @ replicate (nat num) ch)"
  shows "(cube_feed fresh clock k ds b = Some (Inl BadAlloc)
      \<or> (\<exists>b'. cube_feed fresh clock k ds b
          = Some (Inr ([encodeHeaderWithTimeStamp (clock k) (word_of_nat (8 + nat num)), body], b')) \<and> sb_data b' = []))
    \<and> decodeTimeStamp body = Inr t"
proof -
  have len: "length body = 8 + nat num" by (simp add: assms(6))
  have m: "concat ds = message 2 (word_of_nat (5 + length body)) body"
    using client_round_message [OF assms(1,2), of t ch junk] assms(3,6) by simp
  have "next_frame (concat ds) = Frame body []"
    using next_frame_message [of body "[]"] assms(2) len by (simp add: m)
  then have p: "parse_frames (sb_data b @ concat ds) = ([body], [])"
    using assms(5) by (simp add: parse_frames.simps next_frame_def [of "[]"])
  have "length d \<le> length (concat ds)" if "d \<in> set ds" for d
    using that by (induction ds) auto
  then have small: "\<forall>d \<in> set ds. length d \<le> max_obj" using assms(2) len by (fastforce simp: m)
  have "decodeTimeStamp body = Inr t"
    using decode_encode_timestamp [of t] len
    by (simp add: decodeTimeStamp_def assms(6) scramble_append scramble_timestamp encodeTimeStamp_def)
  then show ?thesis
    using feed_refines [OF assms(4) small p, of fresh clock k] assms(5) len by (auto simp: next_frame_def)
qed

theorem client_round_served_witness:
  "\<exists>r. client_round 77 65 1 (\<lambda>_. 0) = Inr ([2, 14] @ drop 2 (message 2 14 (encodeTimeStamp 77 @ [0x8B])))
     \<and> cube_feed (\<lambda>_. 0) (\<lambda>_. 0) 0 [[2, 14], drop 2 (message 2 14 (encodeTimeStamp 77 @ [0x8B]))] empty_buffer = Some r
     \<and> (r = Inl BadAlloc \<or> (\<exists>b'. r = Inr ([encodeHeaderWithTimeStamp 0 9, encodeTimeStamp 77 @ [0x8B]], b')))"
proof -
  have body: "scramble 0 (le64 77 @ replicate (nat 1) 65) = encodeTimeStamp 77 @ [0x8B]"
    by (simp add: scramble_append scramble_timestamp offset_byte_def)
  have "length (encodeTimeStamp 77) = 8" by (simp add: encodeTimeStamp_def)
  then have m: "client_round 77 65 1 (\<lambda>_. 0) = Inr (concat [[2, 14], drop 2 (message 2 14 (encodeTimeStamp 77 @ [0x8B]))])"
    using client_round_message [of 1 77 65 "\<lambda>_. 0"] body by (simp add: message_def le32_def)
  from client_round_served [OF _ _ m _ _ body [symmetric], of empty_buffer "\<lambda>_. 0" "\<lambda>_. 0" 0] show ?thesis using m
    by (auto simp: cube_inv_def empty_buffer_def sb_inv_def sb_data_def)
qed

text \<open>
  A negative number of characters is not refused: below -13 nothing is written and the client waits for an
  answer to a message it has not sent, and from -13 to -9 the length of the message wraps around and the
  encoder reads behind its array.
\<close>

theorem client_round_negative:
  assumes "- 92 \<le> num" "num < - 8"
  shows "client_round t ch num junk = (if num < - 13 then Inr [] else Inl OutOfBounds)"
proof -
  define fresh where "fresh = map junk [0..<nat (100 + num)]"
  define buf where "buf = overwrite (overwrite fresh 0 (le64 t)) 8 (replicate (nat num) ch)"
  have size: "length fresh = nat (100 + num)" "8 \<le> nat (100 + num)" using assms(1) by (simp_all add: fresh_def)
  then have buf: "length buf < 100" using assms by (simp add: buf_def overwrite_def)
  have u: "unat (word_of_int (8 + num) :: u32) = nat (4294967296 + (8 + num))"
    using assms by (intro unat_negative_int) simp_all
  show ?thesis
  proof (cases "num < - 13")
    case True
    then have "message_size (word_of_int (8 + num)) = nat (4294967296 + (13 + num))"
      unfolding message_size_int using assms unat_negative_int [of "13 + num"] by simp
    then have "nat (100 + num) + 5 < message_size (word_of_int (8 + num))" using assms by simp
    then have "example_encode_array 2 buf (word_of_int (8 + num)) fresh (nat (100 + num) + 5) = Inr (0, Some fresh)"
      by (simp add: example_encode_array_def)
    then show ?thesis using True assms size
      unfolding client_round_def Let_def fresh_def [symmetric] buf_def [symmetric] by simp
  next
    case False
    then have "message_size (word_of_int (8 + num)) = nat (13 + num)"
      unfolding message_size_int using assms unat_small_int [of "13 + num"] by simp
    moreover have "\<not> nat (100 + num) + 5 < nat (13 + num)" "length buf < nat (4294967296 + (8 + num))" using buf assms by linarith+
    ultimately have "example_encode_array 2 buf (word_of_int (8 + num)) fresh (nat (100 + num) + 5) = Inl OutOfBounds"
      unfolding example_encode_array_def u by simp
    then show ?thesis using False assms size
      unfolding client_round_def Let_def fresh_def [symmetric] buf_def [symmetric] by simp
  qed
qed

theorem client_round_negative_witness:
  "client_round 5 65 (- 20) (\<lambda>_. 0) = Inr [] \<and> client_round 5 65 (- 9) (\<lambda>_. 0) = Inl OutOfBounds"
  using client_round_negative [of "- 20" 5 65 "\<lambda>_. 0"] client_round_negative [of "- 9" 5 65 "\<lambda>_. 0"] by simp

end
