(* ===== verification/Latency_Client.thy ===== *)
theory Latency_Client
  imports Prelude
begin

text \<open>
  The latency client of muduo/example/client.cpp: the send and receive loop over the results of the system calls,
  and the statistics.  A latency is a double that holds a number of microseconds; its addition and the average
  are arguments.
\<close>

section \<open>Measuring\<close>

text \<open>One packet: the results of \<open>send\<close> and \<open>recv\<close>, and the measured latency.\<close>

type_synonym 'l packet_round = "int \<times> int \<times> 'l"

fun measure_loop :: "int \<Rightarrow> 'l packet_round list \<Rightarrow> 'l list \<Rightarrow> 'l list" where
  "measure_loop packet_size [] latencies = latencies"
| "measure_loop packet_size ((sent, received, latency_us) # rounds) latencies =
     (if sent \<noteq> packet_size then latencies
      else if received \<noteq> packet_size then latencies
      else measure_loop packet_size rounds (latencies @ [latency_us]))"

text \<open>
  \<open>LatencyClient::run\<close> with the results of \<open>socket\<close>, \<open>inet_pton\<close> and \<open>connect\<close>; of the rounds as many are made
  as the packet count says.  A vector of negative size is refused.
\<close>

definition latency_run ::
    "int \<Rightarrow> int \<Rightarrow> int \<Rightarrow> int \<Rightarrow> int \<Rightarrow> 'l packet_round list \<Rightarrow> fault + bool \<times> 'l list" where
  "latency_run sock pton conn packet_size packet_count rounds =
     (if sock < 0 then Inr (False, [])
      else if pton \<le> 0 then Inr (False, [])
      else if conn < 0 then Inr (False, [])
      else if packet_size < 0 then Inl (Thrown ''length_error'')
      else Inr (True, measure_loop packet_size (take (nat packet_count) rounds) []))"

section \<open>Statistics\<close>

record 'l statistics =
  min_val :: 'l
  max_val :: 'l
  avg_val :: 'l
  p50 :: 'l
  p99 :: 'l

text \<open>The loop over the sorted latencies, with the total and the two extreme values.\<close>

fun scan_latencies :: "('l \<Rightarrow> 'l \<Rightarrow> 'l) \<Rightarrow> 'l list \<Rightarrow> 'l \<times> 'l \<times> 'l \<Rightarrow> 'l \<times> 'l \<times> ('l :: linorder)" where
  "scan_latencies add [] acc = acc"
| "scan_latencies add (lat # lats) (tot, min_v, max_v) =
     scan_latencies add lats (add tot lat, if lat < min_v then lat else min_v, if lat > max_v then lat else max_v)"

text \<open>
  \<open>print_statistics\<close>: \<open>None\<close> without data.  The index of the median, the size times 0.5, is exact; \<open>at99\<close> is the
  size times 0.99 as a double, cut to an integer.
\<close>

definition print_statistics ::
    "('l \<Rightarrow> 'l \<Rightarrow> 'l) \<Rightarrow> 'l \<Rightarrow> ('l \<Rightarrow> nat \<Rightarrow> 'l) \<Rightarrow> (nat \<Rightarrow> nat) \<Rightarrow> 'l list \<Rightarrow> fault + ('l :: linorder) statistics option" where
  "print_statistics add zero avg at99 latencies =
     (if latencies = [] then Inr None
      else
        let xs = sort latencies; n = length xs;
            (tot, min_v, max_v) = scan_latencies add xs (zero, xs ! 0, xs ! 0)
        in if n div 2 \<ge> n \<or> at99 n \<ge> n then Inl OutOfBounds
           else Inr (Some \<lparr>min_val = min_v, max_val = max_v, avg_val = avg tot n, p50 = xs ! (n div 2), p99 = xs ! at99 n\<rparr>))"

section \<open>Lemmas\<close>

lemma scan_latencies_eq:
  "scan_latencies add xs (t, lo, hi) = (foldl add t xs, foldl min lo xs, foldl max hi xs)"
  by (induction xs arbitrary: t lo hi) (auto simp: min_def max_def)

lemma foldl_min_sorted: "\<forall>x \<in> set xs. lo \<le> x \<Longrightarrow> foldl min lo xs = lo"
  by (induction xs) (auto simp: min_def)

lemma foldl_max_sorted: "sorted xs \<Longrightarrow> xs \<noteq> [] \<Longrightarrow> \<forall>x \<in> set xs. hi \<le> x \<Longrightarrow> foldl max hi xs = last xs"
proof (induction xs arbitrary: hi)
  case (Cons x xs)
  then show ?case by (cases xs) (auto simp: max_def)
qed simp

lemma sorted_ends:
  assumes "sorted xs" "x \<in> set xs"
  shows "xs ! 0 \<le> x" "x \<le> last xs"
proof -
  obtain i where i: "i < length xs" "x = xs ! i" using assms(2) by (auto simp: in_set_conv_nth)
  moreover from this have "last xs = xs ! (length xs - 1)" by (intro last_conv_nth) auto
  ultimately show "xs ! 0 \<le> x" "x \<le> last xs" using sorted_nth_mono [OF assms(1)] by auto
qed

lemma measure_loop_count: "length (measure_loop sz rs xs) \<le> length xs + length rs"
proof (induction sz rs xs rule: measure_loop.induct)
  case (2 sz s r l rs xs)
  then show ?case by (auto intro: order_trans)
qed simp

lemma count_le_nth:
  assumes "sorted xs" "i < length xs"
  shows "i < length (filter (\<lambda>x. x \<le> xs ! i) xs)" "length xs \<le> i + length (filter (\<lambda>x. xs ! i \<le> x) xs)"
proof -
  have "\<forall>x \<in> set (take (Suc i) xs). x \<le> xs ! i"
  proof
    fix x
    assume "x \<in> set (take (Suc i) xs)"
    then obtain j where "j < Suc i" "j < length xs" "x = xs ! j" by (auto simp: in_set_conv_nth)
    then show "x \<le> xs ! i" using assms by (simp add: sorted_iff_nth_mono)
  qed
  then have "filter (\<lambda>x. x \<le> xs ! i) (take (Suc i) xs) = take (Suc i) xs" by simp
  moreover have "filter P xs = filter P (take (Suc i) xs) @ filter P (drop (Suc i) xs)" for P
    by (metis append_take_drop_id filter_append)
  ultimately show "i < length (filter (\<lambda>x. x \<le> xs ! i) xs)" using assms(2) by simp
  have "\<forall>x \<in> set (drop i xs). xs ! i \<le> x"
  proof
    fix x
    assume "x \<in> set (drop i xs)"
    then obtain j where "j < length xs - i" "x = xs ! (i + j)" using assms(2) by (auto simp: in_set_conv_nth)
    then show "xs ! i \<le> x" using assms by (simp add: sorted_iff_nth_mono)
  qed
  then have "filter (\<lambda>x. xs ! i \<le> x) (drop i xs) = drop i xs" by simp
  moreover have "filter P xs = filter P (take i xs) @ filter P (drop i xs)" for P
    by (metis append_take_drop_id filter_append)
  ultimately show "length xs \<le> i + length (filter (\<lambda>x. xs ! i \<le> x) xs)" by simp
qed

lemma filter_sort_length: "length (filter P (sort xs)) = length (filter P xs)"
  by (simp add: filter_sort)

section \<open>Properties\<close>

text \<open>
  The statistics of any measured latencies: the indices of the percentiles are in bounds, the extreme values
  are the least and the greatest latency, at least half of the latencies are no greater than the median and at
  least half no less, and more than \<open>at99 n\<close> of them are no greater than the 99th percentile.
\<close>

theorem latency_percentiles:
  fixes latencies :: "'l :: linorder list"
  assumes "latencies \<noteq> []" and "\<forall>n. 0 < n \<longrightarrow> at99 n < n"
  shows "\<exists>st. print_statistics add zero avg at99 latencies = Inr (Some st)
    \<and> min_val st = Min (set latencies) \<and> max_val st = Max (set latencies)
    \<and> length latencies div 2 < length (filter (\<lambda>x. x \<le> p50 st) latencies)
    \<and> length latencies \<le> 2 * length (filter (\<lambda>x. p50 st \<le> x) latencies)
    \<and> at99 (length latencies) < length (filter (\<lambda>x. x \<le> p99 st) latencies)"
proof -
  let ?xs = "sort latencies" and ?n = "length latencies"
  have n: "0 < ?n" "?n div 2 < ?n" "at99 ?n < ?n" using assms by simp_all
  have "?xs \<noteq> []"
  proof
    assume "?xs = []"
    then have "length ?xs = 0" by simp
    then show False using assms(1) by simp
  qed
  then have xs: "sorted ?xs" "?xs \<noteq> []" "set ?xs = set latencies" "length ?xs = ?n" by simp_all
  have lo: "\<forall>x \<in> set ?xs. ?xs ! 0 \<le> x" using sorted_ends(1) [OF xs(1)] by blast
  have "foldl min (?xs ! 0) ?xs = Min (set latencies)"
    using foldl_min_sorted [OF lo] lo n xs nth_mem [of 0 ?xs] by (intro antisym) (auto intro: Min.boundedI)
  moreover have "foldl max (?xs ! 0) ?xs = Max (set latencies)"
  proof -
    have "\<forall>x \<in> set ?xs. x \<le> last ?xs" using sorted_ends(2) [OF xs(1)] by blast
    then have "last ?xs = Max (set latencies)"
      using xs(2,3) last_in_set [OF xs(2)] by (intro antisym) (auto intro: Max.boundedI)
    then show ?thesis using foldl_max_sorted [OF xs(1,2) lo] by simp
  qed
  moreover have "?n div 2 < length (filter (\<lambda>x. x \<le> ?xs ! (?n div 2)) latencies)"
    "?n \<le> ?n div 2 + length (filter (\<lambda>x. ?xs ! (?n div 2) \<le> x) latencies)"
    "at99 ?n < length (filter (\<lambda>x. x \<le> ?xs ! at99 ?n) latencies)"
    using count_le_nth [OF xs(1), of "?n div 2"] count_le_nth(1) [OF xs(1), of "at99 ?n"] n
    by (simp_all add: filter_sort_length)
  moreover from this(2) have "?n \<le> 2 * length (filter (\<lambda>x. ?xs ! (?n div 2) \<le> x) latencies)" by linarith
  moreover have "\<not> ?n \<le> ?n div 2" using n by simp
  ultimately show ?thesis
    using assms(1) n by (simp add: print_statistics_def Let_def scan_latencies_eq)
qed

theorem latency_percentiles_witness:
  "\<exists>st. print_statistics (+) 0 (\<lambda>t n. t div int n) (\<lambda>n. 99 * n div 100) [5, 1, 9 :: int] = Inr (Some st)
     \<and> min_val st = 1 \<and> max_val st = 9"
proof -
  have "\<forall>n. 0 < n \<longrightarrow> 99 * n div 100 < (n :: nat)" by auto
  from latency_percentiles [OF _ this, of "[5, 1, 9 :: int]" "(+)" 0 "\<lambda>t n. t div int n"] show ?thesis by auto
qed

text \<open>
  A run that fails half-way is reported as a success: the result is true whatever \<open>send\<close> and \<open>recv\<close> return,
  and the statistics are those of the packets before the failure.
\<close>

theorem latency_run_hides_failure:
  assumes "\<forall>r \<in> set good. fst r = psize \<and> fst (snd r) = psize" and "fst bad \<noteq> psize \<or> fst (snd bad) \<noteq> psize"
    and "0 \<le> sock" "0 < pton" "0 \<le> conn" "0 \<le> psize" "length good < nat count"
  shows "latency_run sock pton conn psize count (good @ bad # rest) = Inr (True, map (snd \<circ> snd) good)"
proof -
  have "measure_loop psize (good @ bad # r) xs = xs @ map (snd \<circ> snd) good" for xs r
    using assms(1,2) by (induction good arbitrary: xs) (auto split: prod.splits, (cases bad; auto)+)
  moreover have "take (nat count) (good @ bad # rest) = good @ bad # take (nat count - Suc (length good)) rest"
    using assms(7) by (simp add: take_Cons')
  ultimately show ?thesis using assms(3-6) by (simp add: latency_run_def)
qed

theorem latency_run_hides_failure_witness:
  "latency_run 3 1 0 100 5 [(100, 100, 7), (100, 100, 9), (100, - 1, 0), (100, 100, 1)] = Inr (True, [7, 9 :: int])"
  using latency_run_hides_failure [of "[(100, 100, 7), (100, 100, 9)]" 100 "(100, - 1, 0)" 3 1 0 5 "[(100, 100, 1)]"] by simp

end
