(* ===== verification/Cube_Server.thy ===== *)
theory Cube_Server
  imports Sub_Reactor Cube_Codec
begin

text \<open>
  \<open>CubeServer\<close> of muduo/example/main.cpp as the application of the \<open>SubReactor\<close>s of a \<open>MainReactor\<close>: its three callbacks,
  run by the event handlers of \<open>Sub_Reactor\<close>.  One server object serves all connections of all reactors (\<open>TcpApi\<close>
  starts two): \<open>buffer_\<close> and \<open>timerId_\<close> are shared, while every reactor numbers its timers from 0.  A run is any
  interleaving of the callbacks of the reactors, each callback whole.  Nothing in the program keeps two callbacks from
  overlapping; \<open>cube_buffer_race\<close> shows what an overlap of two messages does.
\<close>

section \<open>The server\<close>

text \<open>
  The object, with what it has done so far: the number of callbacks, the timers it has registered at each
  reactor, and the blocks it has passed to \<open>send\<close>, with the reactor and the connection of each.
\<close>

record CubeServer =
  cs_buffer :: SimpleBuffer
  cs_timerId :: int
  cs_events :: nat
  cs_registered :: "nat \<Rightarrow> nat"
  cs_sends :: "((nat \<times> nat) \<times> bytes) list"

definition CubeServer_new :: "SimpleBuffer \<Rightarrow> int \<Rightarrow> CubeServer" where
  "CubeServer_new b junk = \<lparr>cs_buffer = b, cs_timerId = junk, cs_events = 0, cs_registered = (\<lambda>_. 0), cs_sends = []\<rparr>"

text \<open>
  The callbacks on reactor \<open>j\<close>: the calls that each makes on its connection, and the new state.  The clock
  readings of the \<open>n\<close>-th callback are \<open>readings n\<close>, the time stamp of the \<open>k\<close>-th answer is \<open>clock k\<close>.  The
  pointer to the connection is null after an entry was removed.
\<close>

definition cube_onAccepted :: "int \<times> int \<Rightarrow> nat \<Rightarrow> nat option \<Rightarrow> CubeServer \<Rightarrow> fault + api_call list \<times> CubeServer" where
  "cube_onAccepted time j conn st =
     (case conn of None \<Rightarrow> Inl OutOfBounds
      | Some a \<Rightarrow> Inr ([ApiRegisterTimer (fst time) (snd time) 10000 (Some a) True],
          st\<lparr>cs_timerId := int (cs_registered st j), cs_registered := (cs_registered st)(j := Suc (cs_registered st j))\<rparr>))"

definition cube_onDisconnected :: "int \<times> int \<Rightarrow> nat option \<Rightarrow> CubeServer \<Rightarrow> fault + api_call list \<times> CubeServer" where
  "cube_onDisconnected time conn st =
     (case conn of None \<Rightarrow> Inl OutOfBounds
      | Some a \<Rightarrow> Inr ([ApiCancelTimer (snd time) (cs_timerId st)], st))"

definition cube_message ::
    "(nat \<Rightarrow> u8) \<Rightarrow> (nat \<Rightarrow> u64) \<Rightarrow> nat \<Rightarrow> nat option \<Rightarrow> bytes \<Rightarrow> CubeServer \<Rightarrow> fault + api_call list \<times> CubeServer" where
  "cube_message fresh clock j conn data st =
     sum_bind (the (cube_onMessage fresh clock (length (cs_sends st) div 2) data (cs_buffer st))) (\<lambda>(blocks, b).
       case conn of
         None \<Rightarrow> if blocks = [] then Inr ([], st\<lparr>cs_buffer := b\<rparr>) else Inl OutOfBounds
       | Some a \<Rightarrow> Inr (map (ApiSend a) blocks, st\<lparr>cs_buffer := b, cs_sends := cs_sends st @ map (Pair (j, a)) blocks\<rparr>))"

text \<open>A timer's callback only logs.\<close>

definition cube_callback ::
    "(nat \<Rightarrow> u8) \<Rightarrow> (nat \<Rightarrow> u64) \<Rightarrow> (nat \<Rightarrow> int \<times> int) \<Rightarrow> nat \<Rightarrow> spi_event \<Rightarrow> CubeServer \<Rightarrow> fault + api_call list \<times> CubeServer" where
  "cube_callback fresh clock readings j ev st =
     (let time = readings (cs_events st); st = st\<lparr>cs_events := Suc (cs_events st)\<rparr>
      in case ev of
           OnAccepted conn \<Rightarrow> cube_onAccepted time j conn st
         | OnMessage conn data \<Rightarrow> cube_message fresh clock j conn data st
         | OnDisconnected conn reason \<Rightarrow> cube_onDisconnected time conn st
         | TimerCallback a \<Rightarrow> Inr ([], st))"

text \<open>
  The callbacks of all reactors in the order in which they run, each with its reactor, and the state of the
  server after them.
\<close>

type_synonym joint_log = "(nat \<times> spi_event) list"

definition at_reactor :: "nat \<Rightarrow> joint_log \<Rightarrow> spi_event list" where
  "at_reactor j H = map snd (filter (\<lambda>p. fst p = j) H)"

definition cube_state ::
    "(nat \<Rightarrow> u8) \<Rightarrow> (nat \<Rightarrow> u64) \<Rightarrow> (nat \<Rightarrow> int \<times> int) \<Rightarrow> CubeServer \<Rightarrow> joint_log \<Rightarrow> fault + CubeServer" where
  "cube_state fresh clock readings st0 H =
     fold_m (\<lambda>(j, ev) st. sum_bind (cube_callback fresh clock readings j ev st) (\<lambda>(calls, st). Inr st)) H st0"

text \<open>
  The server as the application of reactor \<open>j\<close>, when the callbacks of all reactors run in the order \<open>G\<close>: what the
  callback does that is next at this reactor depends on all callbacks before it.  A callback that faults ends
  the program, so an application is considered up to there.
\<close>

fun up_to :: "nat \<Rightarrow> nat \<Rightarrow> joint_log \<Rightarrow> joint_log" where
  "up_to j 0 G = []"
| "up_to j (Suc k) [] = []"
| "up_to j (Suc k) (p # G) = p # up_to j (if fst p = j then k else Suc k) G"

definition cube_app ::
    "(nat \<Rightarrow> u8) \<Rightarrow> (nat \<Rightarrow> u64) \<Rightarrow> (nat \<Rightarrow> int \<times> int) \<Rightarrow> CubeServer \<Rightarrow> joint_log \<Rightarrow> nat \<Rightarrow> application" where
  "cube_app fresh clock readings st0 G j log =
     (let H = up_to j (length log) G
      in if log = [] \<or> at_reactor j H \<noteq> log then []
         else case sum_bind (cube_state fresh clock readings st0 (butlast H)) (cube_callback fresh clock readings j (last log)) of
                Inl e \<Rightarrow> []
              | Inr (calls, st) \<Rightarrow> calls)"

lemma at_reactor_simps [simp]:
  "at_reactor j [] = []" "at_reactor j (p # H) = (if fst p = j then snd p # at_reactor j H else at_reactor j H)"
  "at_reactor j (H @ T) = at_reactor j H @ at_reactor j T"
  by (simp_all add: at_reactor_def)

lemma up_to_event: "up_to j (length (at_reactor j H) + 1) (H @ (j, ev) # T) = H @ [(j, ev)]"
  by (induction H) auto

text \<open>The last callback of one reactor, and what the others ran after it.\<close>

lemma last_at_reactor:
  assumes "at_reactor j H = log @ [ev]"
  obtains H0 R where "H = H0 @ (j, ev) # R" "at_reactor j H0 = log" "at_reactor j R = []"
proof -
  have "\<exists>H0 R. H = H0 @ (j, ev) # R \<and> at_reactor j H0 = log \<and> at_reactor j R = []" using assms
  proof (induction H rule: rev_induct)
    case (snoc p H)
    show ?case
    proof (cases "fst p = j")
      case True
      then have "p = (j, ev)" "at_reactor j H = log" using snoc.prems by (cases p; simp)+
      then show ?thesis by (intro exI [of _ H] exI [of _ "[]"]) simp
    next
      case False
      then obtain H0 R where "H = H0 @ (j, ev) # R" "at_reactor j H0 = log" "at_reactor j R = []" using snoc by auto
      then show ?thesis using False by (intro exI [of _ H0] exI [of _ "R @ [p]"]) simp
    qed
  qed simp
  then show thesis using that by blast
qed

lemma cube_state_Nil [simp]: "cube_state fresh clock readings st0 [] = Inr st0"
  by (simp add: cube_state_def)

lemma cube_state_append:
  "cube_state fresh clock readings st0 (H @ T) = sum_bind (cube_state fresh clock readings st0 H) (\<lambda>st. cube_state fresh clock readings st T)"
  by (cases "cube_state fresh clock readings st0 H") (auto simp: cube_state_def fold_m_append)

lemma cube_state_Cons:
  "cube_state fresh clock readings st0 ((j, ev) # H) =
     sum_bind (cube_callback fresh clock readings j ev st0) (\<lambda>(calls, st). cube_state fresh clock readings st H)"
  by (cases "cube_callback fresh clock readings j ev st0") (auto simp: cube_state_def)

lemma cube_app_calls:
  assumes "G = H @ (j, ev) # T" "at_reactor j H = log" "cube_state fresh clock readings st0 H = Inr st"
    "cube_callback fresh clock readings j ev st = Inr (calls, st')"
  shows "cube_app fresh clock readings st0 G j (log @ [ev]) = calls"
  using assms up_to_event [of j H ev T] by (simp add: cube_app_def Let_def)

section \<open>Invariants that depend on the callbacks\<close>

text \<open>
  Like \<open>reactor_invariant\<close>, for a property that one application keeps from callback to callback, not from call
  to call: \<open>live\<close> says which pointers the reactor hands out.
\<close>

locale callback_invariant =
  fixes P :: "SubReactor \<Rightarrow> bool" and live :: "nat option \<Rightarrow> SubReactor \<Rightarrow> bool" and fresh :: "nat \<Rightarrow> u8" and spi :: application
  assumes message: "P s \<Longrightarrow> live p s \<Longrightarrow> length d \<le> 8192 \<Longrightarrow> notify fresh spi (OnMessage p d) s = Inr s' \<Longrightarrow> P s'"
    and disconnect: "P s \<Longrightarrow> live p s \<Longrightarrow> notify fresh spi (OnDisconnected p r) s = Inr s' \<Longrightarrow> P s'"
    and create: "P s \<Longrightarrow> createConnection fresh spi fd s = Inr s' \<Longrightarrow> P s'"
    and timer: "P s \<Longrightarrow> timer_notify fresh spi cb s = Inr s' \<Longrightarrow> P s'"
    and expired: "P s \<Longrightarrow> P (s\<lparr>sub_timers := snd (take_expired now now_u (sub_timers s))\<rparr>)"
    and flush: "P s \<Longrightarrow> sendBufferedData ws a s = Inr s' \<Longrightarrow> P s'"
    and null: "P s \<Longrightarrow> P (snd (map_lookup fd s)) \<and> live (fst (map_lookup fd s)) (snd (map_lookup fd s))"
    and mapped: "P s \<Longrightarrow> connectionMap s fd = Some p \<Longrightarrow> live p s"
    and remove: "P s \<Longrightarrow> P (snd (removeConnection fdw s))"
    and queues: "P s \<Longrightarrow> P (s\<lparr>newConnections := q\<rparr>)" "P s \<Longrightarrow> P (s\<lparr>sendQueue := q\<rparr>)"
      "P s \<Longrightarrow> P (s\<lparr>pipe_bytes := n\<rparr>)" "P s \<Longrightarrow> P (s\<lparr>pipe_event := e\<rparr>)"
begin

lemma handle_write: "handleWrite ws fd s = Inr s' \<Longrightarrow> P s \<Longrightarrow> P s'"
  by (auto simp: handleWrite_def split: option.splits intro: flush)

lemma drain: "drain_send_queue fds wss s = Inr s' \<Longrightarrow> P s \<Longrightarrow> P s'"
  by (induction fds arbitrary: wss s) (auto simp: sum_bind_eq_Inr intro: handle_write)

lemma read_blocks:
  "read_loop fresh spi fd ds n s = Inr (m, s') \<Longrightarrow> \<forall>d \<in> set ds. length d \<le> 8192 \<Longrightarrow> P s \<Longrightarrow> P s'"
proof (induction ds arbitrary: n s)
  case (Cons d ds)
  show ?case
  proof (cases "d = []")
    case False
    then obtain p s1 where p: "connectionMap s fd = Some p" "notify fresh spi (OnMessage p d) s = Inr s1"
      and r: "read_loop fresh spi fd ds (n + length d) s1 = Inr (m, s')"
      using Cons.prems(1) by (auto simp: sum_bind_eq_Inr split: option.splits)
    have "P s1" using Cons.prems(2,3) message [OF _ mapped [OF _ p(1)] _ p(2)] by simp
    then show ?thesis using Cons.IH [OF r] Cons.prems(2) by simp
  qed (use Cons.prems in simp)
qed simp

lemma disconnected:
  assumes "sr_disconnect fresh spi r fdw s = Inr (fdw', s')" "P s"
  shows "P s'"
proof -
  obtain p s1 where m: "map_lookup (fdw_fd fdw) s = (p, s1)" by fastforce
  with assms null [of s "fdw_fd fdw"] obtain s2 where "P s2" "removeConnection fdw s2 = (fdw', s')"
    by (auto simp: sr_disconnect_def sum_bind_eq_Inr dest: disconnect)
  then show ?thesis using remove [of s2 fdw] by simp
qed

lemma handle_read:
  "handleRead fresh spi ds fdw s = Inr (fdw', s') \<Longrightarrow> \<forall>d \<in> set ds. length d \<le> 8192 \<Longrightarrow> P s \<Longrightarrow> P s'"
  by (auto simp: handleRead_def sum_bind_eq_Inr split: if_splits dest: read_blocks disconnected)

lemma handle_socket:
  "handleSocket fresh spi res fdw s = Inr (fdw', s') \<Longrightarrow> \<forall>d \<in> set (res_reads res). length d \<le> 8192 \<Longrightarrow> P s \<Longrightarrow> P s'"
  by (auto simp: handleSocket_def sum_bind_eq_Inr split: if_splits dest: handle_read handle_write disconnected)

lemma handle_timers: "handleTimers fresh spi n now now_u s = Inr s' \<Longrightarrow> P s \<Longrightarrow> P s'"
proof -
  assume h: "handleTimers fresh spi n now now_u s = Inr s'" and p: "P s"
  obtain e ts where t: "take_expired now now_u (sub_timers s) = (e, ts)" by fastforce
  have "P (s\<lparr>sub_timers := ts\<rparr>)" using expired [OF p, of now now_u] t by simp
  then show ?thesis using h p t
    by (auto simp: handleTimers_def split: if_splits elim!: fold_m_preserves [rotated] intro: timer)
qed

lemma handle_pipe: "handlePipe fresh spi wss s = Inr s' \<Longrightarrow> P s \<Longrightarrow> P s'"
proof -
  assume h: "handlePipe fresh spi wss s = Inr s'" and p: "P s"
  then obtain s1 where s1: "fold_m (createConnection fresh spi) (rev (newConnections s))
      (s\<lparr>pipe_bytes := pipe_bytes s - 1024, newConnections := []\<rparr>) = Inr s1"
    and d: "drain_send_queue (rev (sendQueue s1)) wss (s1\<lparr>sendQueue := []\<rparr>) = Inr s'"
    by (auto simp: handlePipe_def processNewConnections_def processSendQueue_def sum_bind_eq_Inr)
  have "P s1" by (rule fold_m_preserves [OF _ s1]) (use p in \<open>auto intro: create queues\<close>)
  then show ?thesis using drain [OF d] queues(2) by blast
qed

lemma handle_event:
  "sub_handleEvent fresh spi res kind fdw s = Inr s' \<Longrightarrow> \<forall>d \<in> set (res_reads res). length d \<le> 8192 \<Longrightarrow> P s \<Longrightarrow> P s'"
  by (cases kind) (auto simp: sub_handleEvent_def sum_bind_eq_Inr split: prod.splits
      intro: handle_pipe handle_timers handle_socket)

end

section \<open>The server on the reactors\<close>

text \<open>
  What the event loop and the accepting thread do to a reactor whose application is the server; no other thread
  calls its connections.  \<open>read\<close> returns at most the 8192 bytes it is given room for.
\<close>

inductive cube_reach :: "(nat \<Rightarrow> u8) \<Rightarrow> application \<Rightarrow> SubReactor \<Rightarrow> bool" for fresh spi where
  start: "cube_reach fresh spi SubReactor_new"
| accept: "cube_reach fresh spi s \<Longrightarrow> cube_reach fresh spi (enqueueNewConnection fd s)"
| pipe: "cube_reach fresh spi s \<Longrightarrow> pipe_event s \<Longrightarrow> \<forall>d \<in> set (res_reads res). length d \<le> 8192 \<Longrightarrow>
    sub_handleEvent fresh spi res PipeFd fdw (s\<lparr>pipe_event := False\<rparr>) = Inr s' \<Longrightarrow> cube_reach fresh spi s'"
| event: "cube_reach fresh spi s \<Longrightarrow> kind \<noteq> PipeFd \<Longrightarrow> \<forall>d \<in> set (res_reads res). length d \<le> 8192 \<Longrightarrow>
    sub_handleEvent fresh spi res kind fdw s = Inr s' \<Longrightarrow> cube_reach fresh spi s'"

text \<open>The bytes that the server has passed to \<open>send\<close> on one connection of a reactor, and those received on all.\<close>

definition answers :: "nat \<Rightarrow> nat \<Rightarrow> CubeServer \<Rightarrow> bytes" where
  "answers j a st = concat (map snd (filter (\<lambda>p. fst p = (j, a)) (cs_sends st)))"

fun received :: "spi_event list \<Rightarrow> bytes" where
  "received [] = []"
| "received (OnMessage conn d # log) = d @ received log"
| "received (_ # log) = received log"

lemma received_append: "received (xs @ ys) = received xs @ received ys"
  by (induction xs rule: received.induct) simp_all

text \<open>What reactor \<open>j\<close> has to do with the state of the server.\<close>

definition served :: "nat \<Rightarrow> CubeServer \<Rightarrow> SubReactor \<Rightarrow> bool" where
  "served j st s \<longleftrightarrow> (\<forall>a c. heap s a = Some c \<longrightarrow> \<not> tryClose c \<and> sent c = answers j a st)
     \<and> (\<forall>p \<in> set (cs_sends st). fst (fst p) = j \<longrightarrow> heap s (snd (fst p)) \<noteq> None)
     \<and> next_timer_id (sub_timers s) = int (cs_registered st j) \<and> timers_inv (sub_timers s)"

definition parsed :: "(nat \<Rightarrow> u64) \<Rightarrow> CubeServer \<Rightarrow> spi_event list \<Rightarrow> bool" where
  "parsed clock st log \<longleftrightarrow> cube_inv (cs_buffer st) \<and> next_frame (sb_data (cs_buffer st)) = NoFrame
     \<and> (\<exists>bodies. parse_frames (received log) = (bodies, sb_data (cs_buffer st)) \<and> map snd (cs_sends st) = replies clock 0 bodies)"

lemmas served_defs = served_def answers_def

text \<open>Callbacks of other reactors leave this part of the state alone.\<close>

definition view :: "nat \<Rightarrow> CubeServer \<Rightarrow> nat \<times> ((nat \<times> nat) \<times> bytes) list" where
  "view j st = (cs_registered st j, filter (\<lambda>p. fst (fst p) = j) (cs_sends st))"

lemma served_view:
  assumes "view j st' = view j st"
  shows "served j st' s = served j st s"
proof -
  have f: "filter (\<lambda>p. fst p = (j, a)) xs = filter (\<lambda>p. snd (fst p) = a) (filter (\<lambda>p. fst (fst p) = j) xs)"
    for a and xs :: "((nat \<times> nat) \<times> bytes) list"
    by (induction xs) (auto simp: prod_eq_iff)
  have b: "(\<forall>p \<in> set xs. fst (fst p) = j \<longrightarrow> Q p) \<longleftrightarrow> (\<forall>p \<in> set (filter (\<lambda>p. fst (fst p) = j) xs). Q p)"
    for xs :: "((nat \<times> nat) \<times> bytes) list" and Q by auto
  show ?thesis using assms unfolding served_def answers_def f b view_def by simp
qed

lemma view_others:
  "cube_state fresh clock readings st H = Inr st' \<Longrightarrow> at_reactor j H = [] \<Longrightarrow> view j st' = view j st"
proof (induction H arbitrary: st)
  case (Cons p H)
  obtain i ev where p: "p = (i, ev)" by fastforce
  with Cons.prems have i: "i \<noteq> j" "at_reactor j H = []" by (auto split: if_splits)
  from Cons.prems(1) p obtain calls st1 where c: "cube_callback fresh clock readings i ev st = Inr (calls, st1)"
    "cube_state fresh clock readings st1 H = Inr st'" by (auto simp: cube_state_Cons sum_bind_eq_Inr)
  have "view j st1 = view j st" using c(1) i(1)
    by (auto simp: cube_callback_def cube_onAccepted_def cube_onDisconnected_def cube_message_def view_def Let_def
        sum_bind_eq_Inr filter_empty_conv split: spi_event.splits option.splits if_splits)
  with Cons.IH [OF c(2) i(2)] show ?case by simp
qed simp

text \<open>Sending a list of blocks on one connection.\<close>

lemma send_all:
  "fold_m (do_call fresh) (map (ApiSend a) blocks) s = Inr s' \<Longrightarrow> heap s a = Some c \<Longrightarrow> \<not> tryClose c \<Longrightarrow>
     \<exists>c'. heap s' = (heap s)(a \<mapsto> c') \<and> \<not> tryClose c' \<and> sent c' = sent c @ concat blocks
       \<and> sub_timers s' = sub_timers s"
proof (induction blocks arbitrary: s c)
  case Nil
  then show ?case by (intro exI [of _ c]) (auto simp: fun_upd_idem)
next
  case (Cons d blocks)
  then obtain s1 where s1: "conn_send fresh a d s = Inr s1" "fold_m (do_call fresh) (map (ApiSend a) blocks) s1 = Inr s'"
    by (auto simp: sum_bind_eq_Inr)
  then obtain b where "s1 = enqueueSend (fdw_fd (fdWrapper c)) (put_conn a (c\<lparr>sendBuffer := b, sent := sent c @ d\<rparr>) s)"
    using Cons.prems(2,3) by (auto simp: conn_send_def sum_bind_eq_Inr)
  then have h: "heap s1 = (heap s)(a \<mapsto> c\<lparr>sendBuffer := b, sent := sent c @ d\<rparr>)" "sub_timers s1 = sub_timers s"
    by (simp_all add: enqueueSend_def put_conn_def write_pipe_def)
  have "\<exists>c'. heap s' = (heap s1)(a \<mapsto> c') \<and> \<not> tryClose c' \<and> sent c' = sent (c\<lparr>sendBuffer := b, sent := sent c @ d\<rparr>) @ concat blocks
      \<and> sub_timers s' = sub_timers s1"
    by (rule Cons.IH [OF s1(2)]) (use h(1) Cons.prems(3) in simp_all)
  then obtain c' where "heap s' = (heap s1)(a \<mapsto> c')" "\<not> tryClose c'" "sent c' = sent c @ d @ concat blocks"
      "sub_timers s' = sub_timers s" using h(2) by auto
  then show ?case using h(1) by (intro exI [of _ c']) simp
qed

lemma frame_lengths: "parse_frames d = (bodies, r) \<Longrightarrow> x \<in> set bodies \<Longrightarrow> length x \<le> length d"
proof (induction d arbitrary: bodies rule: parse_frames.induct)
  case (1 d)
  show ?case
  proof (cases "next_frame d")
    case (Frame body rest)
    then obtain bs where bs: "parse_frames rest = (bs, r)" "bodies = body # bs"
      using 1(2) by (auto simp: parse_frames.simps [of d] split: prod.splits)
    have "length body \<le> length d" using Frame
      by (auto simp: next_frame_def segment_def split: if_splits prod.splits)
    then show ?thesis using 1(1) [OF Frame bs(1)] bs(2) 1(3) next_frame_shorter [OF Frame] by fastforce
  qed (use 1 in \<open>simp_all add: parse_frames.simps [of d]\<close>)
qed

lemma replies_lengths:
  "x \<in> set (replies clock k bodies) \<Longrightarrow> \<forall>y \<in> set bodies. length y \<le> n \<Longrightarrow> 13 \<le> n \<Longrightarrow> length x \<le> n"
  by (induction bodies arbitrary: k) (auto simp: encodeHeaderWithTimeStamp_def encodeTimeStamp_def)


lemma big_objects: "length (d :: bytes) \<le> 8192 \<Longrightarrow> length d \<le> max_obj"
  by simp

lemma parse_rest: "parse_frames d = (bodies, r) \<Longrightarrow> next_frame r \<noteq> Frame body rest"
proof (induction d arbitrary: bodies rule: parse_frames.induct)
  case (1 d)
  show ?case
  proof (cases "next_frame d")
    case (Frame b t)
    then obtain bs where "parse_frames t = (bs, r)" using 1(2) by (auto simp: parse_frames.simps [of d] split: prod.splits)
    with 1(1) [OF Frame] show ?thesis by blast
  qed (use 1 in \<open>auto simp: parse_frames.simps [of d]\<close>)
qed

text \<open>One message callback: the buffer is parsed to the end and the answers are passed to \<open>send\<close>.\<close>

lemma message_law:
  assumes st: "parsed clock st log" and d: "length d \<le> max_obj"
    and cb: "cube_callback fresh clock readings j (OnMessage p d) st = Inr (calls, st')"
  obtains blocks where "parsed clock st' (log @ [OnMessage p d])" "p = None \<Longrightarrow> blocks = []"
    "calls = (case p of None \<Rightarrow> [] | Some a \<Rightarrow> map (ApiSend a) blocks)"
    "cs_sends st' = cs_sends st @ (case p of None \<Rightarrow> [] | Some a \<Rightarrow> map (Pair (j, a)) blocks)"
    "cs_registered st' = cs_registered st" "\<forall>x \<in> set blocks. length x \<le> max_obj"
proof -
  let ?k = "length (cs_sends st) div 2"
  obtain bodies where inv: "cube_inv (cs_buffer st)" and no: "next_frame (sb_data (cs_buffer st)) = NoFrame"
    and ps: "parse_frames (received log) = (bodies, sb_data (cs_buffer st))" and sn: "map snd (cs_sends st) = replies clock 0 bodies"
    using st by (auto simp: parsed_def)
  have k: "?k = length bodies" using arg_cong [OF sn, of length] by (simp add: length_replies)
  from cb obtain blocks b where on: "the (cube_onMessage fresh clock ?k d (cs_buffer st)) = Inr (blocks, b)"
    by (auto simp: cube_callback_def Let_def cube_message_def sum_bind_eq_Inr)
  from sb_write_cube [OF inv d, of fresh] show ?thesis
  proof (elim disjE exE conjE)
    fix b1
    assume b1: "sb_write fresh d (cs_buffer st) = Inr b1" "cube_inv b1" "sb_data b1 = sb_data (cs_buffer st) @ d"
    obtain bs r where pf: "parse_frames (sb_data b1) = (bs, r)" by fastforce
    have "next_frame r \<noteq> ShortFrame"
      using loop_refines [OF b1(2) pf, of clock ?k "[]"] on b1(1) by (auto simp: cube_onMessage_def)
    with loop_refines [OF b1(2) pf, of clock ?k "[]"] on b1(1) k
    have r: "blocks = replies clock (length bodies) bs" "cube_inv b" "sb_data b = r"
      by (auto simp: cube_onMessage_def)
    have nf: "next_frame r = NoFrame" using parse_rest [OF pf] \<open>next_frame r \<noteq> ShortFrame\<close> by (cases "next_frame r") auto
    have "parse_frames (received (log @ [OnMessage p d])) = (bodies @ bs, r)"
      using parse_frames_append [OF ps, of d] pf b1(3) by (simp add: received_append)
    moreover have "\<forall>x \<in> set blocks. length x \<le> max_obj"
    proof -
      have "length (sb_data b1) \<le> max_obj" using b1(2) sb_sizes(2) [of b1] by (auto simp: cube_inv_def sb_inv_def)
      then have "\<forall>y \<in> set bs. length y \<le> max_obj" using frame_lengths [OF pf] by (meson order_trans)
      then show ?thesis using replies_lengths [of _ clock "length bodies" bs max_obj] r(1) by auto
    qed
    ultimately show ?thesis using cb on r nf sn k
      by (intro that [of blocks])
         (auto simp: cube_callback_def Let_def cube_message_def parsed_def replies_append comp_def split: option.splits if_splits)
  next
    assume "sb_write fresh d (cs_buffer st) = Inl BadAlloc"
    with on show ?thesis by (simp add: cube_onMessage_def)
  qed
qed


text \<open>The server alone: after any sequence of callbacks it has answered what it has received.\<close>

definition fresh_server :: "CubeServer \<Rightarrow> bool" where
  "fresh_server st0 \<longleftrightarrow> cube_inv (cs_buffer st0) \<and> sb_data (cs_buffer st0) = [] \<and> cs_sends st0 = []
     \<and> cs_registered st0 = (\<lambda>_. 0)"

definition short_log :: "joint_log \<Rightarrow> bool" where
  "short_log H \<longleftrightarrow> (\<forall>j p d. (j, OnMessage p d) \<in> set H \<longrightarrow> length d \<le> 8192)"

lemma parsed_run:
  assumes "cube_state fresh clock readings st0 G = Inr st" "fresh_server st0" "short_log G"
  shows "parsed clock st (map snd G)"
  using assms(1,3)
proof (induction G arbitrary: st rule: rev_induct)
  case Nil
  have "parse_frames [] = ([], [])" "next_frame [] = NoFrame"
    by (simp_all add: parse_frames.simps [of "[]"] next_frame_def)
  then show ?case using assms(2) Nil by (auto simp: parsed_def fresh_server_def)
next
  case (snoc p G)
  obtain j ev where p: "p = (j, ev)" by fastforce
  from snoc.prems(1) p obtain st1 calls where st1: "cube_state fresh clock readings st0 G = Inr st1"
    "cube_callback fresh clock readings j ev st1 = Inr (calls, st)"
    by (auto simp: cube_state_append cube_state_Cons sum_bind_eq_Inr)
  have inv: "parsed clock st1 (map snd G)" using snoc.IH [OF st1(1)] snoc.prems(2) by (auto simp: short_log_def)
  show ?case
  proof (cases ev)
    case (OnMessage c d)
    have "length d \<le> 8192" using snoc.prems(2) p OnMessage by (auto simp: short_log_def)
    then have "length d \<le> max_obj" by (rule big_objects)
    from message_law [OF inv this st1(2) [unfolded OnMessage]] show ?thesis using p OnMessage by auto
  qed (use inv st1(2) p in \<open>auto simp: cube_callback_def cube_onAccepted_def cube_onDisconnected_def parsed_def
      received_append Let_def split: option.splits\<close>)
qed

section \<open>The invariant of the service\<close>

text \<open>
  Reactor \<open>j\<close> in a run with the callbacks \<open>G\<close>: whenever the callbacks up to some point include all that this
  reactor has run, the reactor agrees with the state of the server at that point.
\<close>

definition point ::
    "(nat \<Rightarrow> u8) \<Rightarrow> (nat \<Rightarrow> u64) \<Rightarrow> (nat \<Rightarrow> int \<times> int) \<Rightarrow> CubeServer \<Rightarrow> joint_log \<Rightarrow> nat \<Rightarrow> SubReactor \<Rightarrow> joint_log \<Rightarrow> CubeServer \<Rightarrow> bool" where
  "point fresh clock readings st0 G j s H st \<longleftrightarrow> (\<exists>T. G = H @ T) \<and> at_reactor j H = spi_log s
     \<and> cube_state fresh clock readings st0 H = Inr st \<and> short_log H \<and> fresh_server st0"

definition serving ::
    "(nat \<Rightarrow> u8) \<Rightarrow> (nat \<Rightarrow> u64) \<Rightarrow> (nat \<Rightarrow> int \<times> int) \<Rightarrow> CubeServer \<Rightarrow> joint_log \<Rightarrow> nat \<Rightarrow> SubReactor \<Rightarrow> bool" where
  "serving fresh clock readings st0 G j s \<longleftrightarrow>
     (\<forall>H st. point fresh clock readings st0 G j s H st \<longrightarrow> sr_inv s \<and> served j st s)
     \<and> (\<forall>p d. OnMessage p d \<in> set (spi_log s) \<longrightarrow> length d \<le> 8192)"

definition live_ptr ::
    "(nat \<Rightarrow> u8) \<Rightarrow> (nat \<Rightarrow> u64) \<Rightarrow> (nat \<Rightarrow> int \<times> int) \<Rightarrow> CubeServer \<Rightarrow> joint_log \<Rightarrow> nat \<Rightarrow> nat option \<Rightarrow> SubReactor \<Rightarrow> bool" where
  "live_ptr fresh clock readings st0 G j p s \<longleftrightarrow>
     (\<forall>H st a. point fresh clock readings st0 G j s H st \<longrightarrow> p = Some a \<longrightarrow> heap s a \<noteq> None)"

lemma servingI:
  assumes "\<And>H st. point fresh clock readings st0 G j s H st \<Longrightarrow> sr_inv s \<and> served j st s"
    and "\<And>p d. OnMessage p d \<in> set (spi_log s) \<Longrightarrow> length d \<le> 8192"
  shows "serving fresh clock readings st0 G j s"
  using assms unfolding serving_def by blast

lemma servingD:
  assumes "serving fresh clock readings st0 G j s" "point fresh clock readings st0 G j s H st"
  shows "sr_inv s" "served j st s"
  using assms unfolding serving_def by blast+

lemma serving_short: "serving fresh clock readings st0 G j s \<Longrightarrow> OnMessage p d \<in> set (spi_log s) \<Longrightarrow> length d \<le> 8192"
  unfolding serving_def by blast

lemma point_log: "spi_log s' = spi_log s \<Longrightarrow> point fresh clock readings st0 G j s' H st = point fresh clock readings st0 G j s H st"
  by (simp add: point_def)

text \<open>An operation of the reactor that leaves the log, the timer numbers and what was sent.\<close>

lemma serving_frame:
  assumes "serving fresh clock readings st0 G j s" "spi_log s' = spi_log s" "sr_inv s \<Longrightarrow> sr_inv s'"
    and "next_timer_id (sub_timers s') = next_timer_id (sub_timers s)" "timers_inv (sub_timers s) \<Longrightarrow> timers_inv (sub_timers s')"
    and "\<And>a. map_option (\<lambda>c. (tryClose c, sent c)) (heap s' a) = map_option (\<lambda>c. (tryClose c, sent c)) (heap s a)"
  shows "serving fresh clock readings st0 G j s'"
proof (rule servingI)
  fix H st
  assume "point fresh clock readings st0 G j s' H st"
  then have "point fresh clock readings st0 G j s H st" using point_log assms(2) by blast
  note old = servingD [OF assms(1) this]
  have same: "\<exists>k. heap s a = Some k \<and> tryClose k = tryClose c \<and> sent k = sent c" if "heap s' a = Some c" for a c
    using assms(6) [of a] that by (cases "heap s a") simp_all
  have none: "heap s' a = None \<longleftrightarrow> heap s a = None" for a
    using assms(6) [of a] by (cases "heap s a"; cases "heap s' a") simp_all
  have "served j st s'" unfolding served_def
  proof (intro conjI allI impI ballI)
    fix a c
    assume "heap s' a = Some c"
    from same [OF this] old(2) show "\<not> tryClose c" "sent c = answers j a st" by (auto simp: served_def)
  next
    fix p
    assume "p \<in> set (cs_sends st)" "fst (fst p) = j"
    then show "heap s' (snd (fst p)) \<noteq> None" using old(2) none by (simp add: served_def)
  next
    show "next_timer_id (sub_timers s') = int (cs_registered st j)" "timers_inv (sub_timers s')"
      using old(2) assms(4,5) by (simp_all add: served_def)
  qed
  then show "sr_inv s' \<and> served j st s'" using old(1) assms(3) by simp
qed (use serving_short [OF assms(1)] assms(2) in auto)

text \<open>One callback of the server with the calls it makes.\<close>

lemma serving_callback:
  assumes "serving fresh clock readings st0 G j s" "spi_log s' = spi_log s @ [ev]"
    and short: "\<And>p d. ev = OnMessage p d \<Longrightarrow> length d \<le> 8192"
    and run: "\<And>H st calls st'. point fresh clock readings st0 G j s H st \<Longrightarrow>
      cube_callback fresh clock readings j ev st = Inr (calls, st') \<Longrightarrow>
      cube_app fresh clock readings st0 G j (spi_log s @ [ev]) = calls \<Longrightarrow> sr_inv s \<Longrightarrow> served j st s \<Longrightarrow>
      sr_inv s' \<and> served j st' s'"
  shows "serving fresh clock readings st0 G j s'"
proof (rule servingI)
  fix H st''
  assume "point fresh clock readings st0 G j s' H st''"
  then obtain T where H: "G = H @ T" "at_reactor j H = spi_log s'" "cube_state fresh clock readings st0 H = Inr st''"
    and ok: "short_log H" "fresh_server st0" by (auto simp: point_def)
  then obtain H0 R where H0: "H = H0 @ (j, ev) # R" "at_reactor j H0 = spi_log s" "at_reactor j R = []"
    using last_at_reactor [of j H "spi_log s" ev] assms(2) by metis
  from H(3) H0(1) obtain st calls st' where st: "cube_state fresh clock readings st0 H0 = Inr st"
    "cube_callback fresh clock readings j ev st = Inr (calls, st')" "cube_state fresh clock readings st' R = Inr st''"
    by (auto simp: cube_state_append cube_state_Cons sum_bind_eq_Inr)
  have G: "G = H0 @ (j, ev) # R @ T" using H(1) H0(1) by simp
  have p: "point fresh clock readings st0 G j s H0 st"
    using G H0 st(1) ok by (auto simp: point_def short_log_def)
  have "sr_inv s' \<and> served j st' s'"
    by (rule run [OF p st(2) cube_app_calls [OF G H0(2) st(1,2)] servingD [OF assms(1) p]])
  then show "sr_inv s' \<and> served j st'' s'" using served_view [OF view_others [OF st(3) H0(3)]] by simp
qed (use serving_short [OF assms(1)] assms(2) short in auto)

lemma answers_append: "cs_sends st' = cs_sends st @ map (Pair (j, a)) blocks \<Longrightarrow>
    answers j b st' = answers j b st @ (if b = a then concat blocks else [])"
  by (simp add: answers_def filter_map comp_def)

lemma point_parsed: "point fresh clock readings st0 G j s H st \<Longrightarrow> parsed clock st (map snd H)"
  unfolding point_def by (blast intro: parsed_run)

text \<open>A message on a connection that is there.\<close>

lemma serve_message:
  assumes "serving fresh clock readings st0 G j s" "live_ptr fresh clock readings st0 G j p s" "length d \<le> 8192"
    and n: "notify fresh (cube_app fresh clock readings st0 G j) (OnMessage p d) s = Inr s'"
  shows "serving fresh clock readings st0 G j s'"
proof (rule serving_callback [OF assms(1)])
  show "spi_log s' = spi_log s @ [OnMessage p d]" using notify_facts [OF n] by simp
  fix H st calls st'
  assume pt: "point fresh clock readings st0 G j s H st"
    and c: "cube_callback fresh clock readings j (OnMessage p d) st = Inr (calls, st')"
    "cube_app fresh clock readings st0 G j (spi_log s @ [OnMessage p d]) = calls"
    and inv: "sr_inv s" "served j st s"
  let ?s = "s\<lparr>spi_log := spi_log s @ [OnMessage p d]\<rparr>"
  have run: "fold_m (do_call fresh) calls ?s = Inr s'" using n c(2) by (simp add: notify_def Let_def)
  obtain blocks where b: "p = None \<Longrightarrow> blocks = []" "calls = (case p of None \<Rightarrow> [] | Some a \<Rightarrow> map (ApiSend a) blocks)"
    "cs_sends st' = cs_sends st @ (case p of None \<Rightarrow> [] | Some a \<Rightarrow> map (Pair (j, a)) blocks)"
    "cs_registered st' = cs_registered st" "\<forall>x \<in> set blocks. length x \<le> max_obj"
    using message_law [OF point_parsed [OF pt] _ c(1)] assms(3) by (metis big_objects)
  show "sr_inv s' \<and> served j st' s'"
  proof (cases p)
    case None
    then have "s' = ?s" using run b(2) by simp
    then show ?thesis using inv b(3,4) None by (auto simp: served_defs)
  next
    case (Some a)
    then obtain k where k: "heap s a = Some k" using assms(2) pt by (auto simp: live_ptr_def)
    have calls: "calls = map (ApiSend a) blocks" "cs_sends st' = cs_sends st @ map (Pair (j, a)) blocks" using b(2,3) Some by simp_all
    have "sr_inv s'" by (rule fold_m_preserves [OF _ run]) (use calls b(5) inv(1) in \<open>auto intro: do_call_inv\<close>)
    moreover obtain c' where c': "heap s' = (heap s)(a \<mapsto> c')" "\<not> tryClose c'" "sent c' = sent k @ concat blocks"
      "sub_timers s' = sub_timers s"
      using send_all [of fresh a blocks ?s s' k] run calls k inv(2) by (auto simp: served_def)
    have "served j st' s'" unfolding served_def
    proof (intro conjI allI impI ballI)
      fix x c
      assume x: "heap s' x = Some c"
      then show "\<not> tryClose c" using c'(1,2) inv(2) by (auto simp: served_def split: if_splits)
      show "sent c = answers j x st'" using x c' k inv(2) answers_append [OF calls(2)]
        by (auto simp: served_def split: if_splits)
    next
      fix q
      assume "q \<in> set (cs_sends st')" and j: "fst (fst q) = j"
      then have "q \<in> set (cs_sends st) \<or> q \<in> Pair (j, a) ` set blocks" using calls(2) by simp
      then have "q \<in> set (cs_sends st) \<or> snd (fst q) = a" by auto
      then show "heap s' (snd (fst q)) \<noteq> None" using c'(1) inv(2) j by (auto simp: served_def)
    next
      show "next_timer_id (sub_timers s') = int (cs_registered st' j)" "timers_inv (sub_timers s')"
        using inv(2) b(4) c'(4) by (simp_all add: served_def)
    qed
    ultimately show ?thesis by blast
  qed
qed (use assms(3) in simp)

lemma cancelTimer_ids [simp]: "next_timer_id (snd (cancelTimer now_u i t)) = next_timer_id t"
  by (simp add: cancelTimer_def Let_def tmr)

lemma serve_disconnect:
  assumes "serving fresh clock readings st0 G j s"
    and n: "notify fresh (cube_app fresh clock readings st0 G j) (OnDisconnected p r) s = Inr s'"
  shows "serving fresh clock readings st0 G j s'"
proof (rule serving_callback [OF assms(1)])
  show "spi_log s' = spi_log s @ [OnDisconnected p r]" using notify_facts [OF n] by simp
  fix H st calls st'
  assume c: "cube_callback fresh clock readings j (OnDisconnected p r) st = Inr (calls, st')"
    "cube_app fresh clock readings st0 G j (spi_log s @ [OnDisconnected p r]) = calls"
    and inv: "sr_inv s" "served j st s"
  from c(1) obtain now_u i where "calls = [ApiCancelTimer now_u i]" "st' = st\<lparr>cs_events := Suc (cs_events st)\<rparr>"
    by (auto simp: cube_callback_def Let_def cube_onDisconnected_def split: option.splits)
  with n c(2) show "sr_inv s' \<and> served j st' s'"
    using inv cancelTimer_inv [of "sub_timers s" now_u i]
    by (auto simp: notify_def Let_def served_defs cancelTimer_ids)
qed simp

lemma registerTimer_ids: "0 < i \<Longrightarrow> next_timer_id (snd (registerTimer now now_u i (Some cb) r t)) = next_timer_id t + 1"
  by (simp add: registerTimer_def Let_def tmr)

lemma serve_create:
  assumes "serving fresh clock readings st0 G j s"
    and c: "createConnection fresh (cube_app fresh clock readings st0 G j) fd s = Inr s'"
  shows "serving fresh clock readings st0 G j s'"
proof (rule serving_callback [OF assms(1)])
  show "spi_log s' = spi_log s @ [OnAccepted (Some (next_addr s))]" using createConnection_facts [OF c] by simp
  fix H st calls st'
  assume cb: "cube_callback fresh clock readings j (OnAccepted (Some (next_addr s))) st = Inr (calls, st')"
    and app: "cube_app fresh clock readings st0 G j (spi_log s @ [OnAccepted (Some (next_addr s))]) = calls"
    and inv: "sr_inv s" "served j st s"
  have n: "next_addr (addEpollFd (newFdWrapper fd) s) = next_addr s" by (simp add: addEpollFd_def)
  obtain b where b: "SimpleBuffer_new fresh 4096 = Inr b"
    and nt: "notify fresh (cube_app fresh clock readings st0 G j) (OnAccepted (Some (next_addr s)))
      (addConnection b fd (addEpollFd (newFdWrapper fd) s)) = Inr s'"
    using c by (auto simp: createConnection_def Let_def sum_bind_eq_Inr n)
  let ?s = "addConnection b fd (addEpollFd (newFdWrapper fd) s)"
  obtain now now_u where calls: "calls = [ApiRegisterTimer now now_u 10000 (Some (next_addr s)) True]"
    and st': "cs_sends st' = cs_sends st" "cs_registered st' j = Suc (cs_registered st j)"
    using cb by (auto simp: cube_callback_def Let_def cube_onAccepted_def)
  have tm: "sub_timers ?s = sub_timers s"
    by (simp add: addConnection_def addEpollFd_def put_conn_def operateFd_def Let_def)
  have lg: "spi_log ?s = spi_log s" by (simp add: addConnection_frame)
  from nt have s': "s' = ?s\<lparr>spi_log := spi_log s @ [OnAccepted (Some (next_addr s))],
      sub_timers := snd (registerTimer now now_u 10000 (Some (next_addr s)) True (sub_timers s))\<rparr>"
    using app calls by (simp add: notify_def Let_def lg tm)
  have "heap s' = (heap s)(next_addr s \<mapsto> \<lparr>tryClose = False, closed = False, fdWrapper = newFdWrapper fd,
      sendBuffer = b, sent = [], wire = []\<rparr>)"
    unfolding s' by (simp add: addConnection_def addEpollFd_def put_conn_def)
  then obtain k where hp: "heap s' = (heap s)(next_addr s \<mapsto> k)" "\<not> tryClose k" "sent k = []" by auto
  have fresh_addr: "heap s (next_addr s) = None" using inv(1) by (simp add: sr_inv_def)
  then have "answers j (next_addr s) st = []" using inv(2) by (fastforce simp: served_defs filter_empty_conv)
  then have "served j st' s'"
    using hp inv(2) st' registerTimer_inv [of "sub_timers s" now now_u 10000 "Some (next_addr s)" True] unfolding s'
    by (auto simp: served_defs registerTimer_ids split: if_splits)
  moreover have "sr_inv s'" using addConnection_inv [OF b inv(1), of fd] unfolding s' by simp
  ultimately show "sr_inv s' \<and> served j st' s'" by blast
qed simp

lemma serve_timer:
  assumes "serving fresh clock readings st0 G j s"
    and n: "timer_notify fresh (cube_app fresh clock readings st0 G j) cb s = Inr s'"
  shows "serving fresh clock readings st0 G j s'"
proof -
  let ?s = "s\<lparr>spi_log := spi_log s @ [TimerCallback cb]\<rparr>"
  have no_calls: "cube_app fresh clock readings st0 G j (spi_log s @ [TimerCallback cb]) = []"
    by (auto simp: cube_app_def sum_bind_def cube_callback_def Let_def split: sum.splits)
  then have s': "s' = ?s" using n by (simp add: timer_notify_def Let_def)
  show ?thesis
  proof (rule serving_callback [OF assms(1)])
    show "spi_log s' = spi_log s @ [TimerCallback cb]" using s' by simp
    fix H st calls st'
    assume "cube_callback fresh clock readings j (TimerCallback cb) st = Inr (calls, st')" "sr_inv s" "served j st s"
    then show "sr_inv s' \<and> served j st' s'" unfolding s' by (auto simp: cube_callback_def Let_def served_defs)
  qed simp
qed

lemma write_loop_sent: "write_loop ws c = Inr c' \<Longrightarrow> sent c' = sent c \<and> tryClose c' = tryClose c"
  by (induction ws c rule: write_loop.induct) (auto simp: Let_def sum_bind_eq_Inr split: if_splits)

lemma take_expired_ids: "next_timer_id (snd (take_expired now now_u t)) = next_timer_id t"
  by (simp add: take_expired_def Let_def tmr split: prod.split)

lemma take_expired_inv: "timers_inv t \<Longrightarrow> timers_inv (snd (take_expired now now_u t))"
  using take_expired_facts(2) [of t now now_u] by (metis prod.collapse)

text \<open>The connection map holds pointers to connections that are there, in every state the server agrees with.\<close>

lemma serving_lookup:
  assumes s: "serving fresh clock readings st0 G j s"
  shows "serving fresh clock readings st0 G j (snd (map_lookup fd s))
    \<and> live_ptr fresh clock readings st0 G j (fst (map_lookup fd s)) (snd (map_lookup fd s))"
proof
  show "serving fresh clock readings st0 G j (snd (map_lookup fd s))" using s
    by (rule serving_frame) (auto simp: map_lookup_def sr_inv_def split: option.splits)
  have l: "spi_log (snd (map_lookup fd s)) = spi_log s" "heap (snd (map_lookup fd s)) = heap s"
    by (auto simp: map_lookup_def split: option.splits)
  show "live_ptr fresh clock readings st0 G j (fst (map_lookup fd s)) (snd (map_lookup fd s))"
    using servingD(1) [OF s] by (auto simp: live_ptr_def point_log [OF l(1)] l(2) map_lookup_def sr_inv_def split: option.splits)
qed

interpretation cube: callback_invariant "serving fresh clock readings st0 G j" "live_ptr fresh clock readings st0 G j" fresh
  "cube_app fresh clock readings st0 G j" for fresh clock readings st0 G j
proof
  fix s s' ws a
  assume s: "serving fresh clock readings st0 G j s" and f: "sendBufferedData ws a s = Inr s'"
  then have "map_option (\<lambda>c. (tryClose c, sent c)) (heap s' x) = map_option (\<lambda>c. (tryClose c, sent c)) (heap s x)" for x
    by (auto simp: sendBufferedData_def sum_bind_eq_Inr put_conn_def split: option.splits if_splits dest: write_loop_sent)
  moreover have "sub_timers s' = sub_timers s" using f
    by (auto simp: sendBufferedData_def sum_bind_eq_Inr put_conn_def split: option.splits if_splits)
  ultimately show "serving fresh clock readings st0 G j s'"
    using sendBufferedData_frame [OF f] sendBufferedData_inv [OF f] s by (auto intro: serving_frame)
next
  fix s fd
  assume "serving fresh clock readings st0 G j s"
  then show "serving fresh clock readings st0 G j (snd (map_lookup fd s))
      \<and> live_ptr fresh clock readings st0 G j (fst (map_lookup fd s)) (snd (map_lookup fd s))" by (rule serving_lookup)
next
  fix s fd p
  assume "serving fresh clock readings st0 G j s" "connectionMap s fd = Some p"
  then show "live_ptr fresh clock readings st0 G j p s"
    using servingD(1) [of fresh clock readings st0 G j s] by (auto simp: live_ptr_def sr_inv_def)
next
  fix s fdw
  assume s: "serving fresh clock readings st0 G j s"
  obtain f s' where r: "removeConnection fdw s = (f, s')" by fastforce
  have "sub_timers s' = sub_timers s" using r
    by (auto simp: removeConnection_def deleteEpollFd_def operateFd_def Let_def split: if_splits)
  with removeConnection_facts [OF r] r s show "serving fresh clock readings st0 G j (snd (removeConnection fdw s))"
    by (auto intro: serving_frame)
next
  fix s now now_u
  assume "serving fresh clock readings st0 G j s"
  then show "serving fresh clock readings st0 G j (s\<lparr>sub_timers := snd (take_expired now now_u (sub_timers s))\<rparr>)"
    by (rule serving_frame) (auto simp: take_expired_ids intro: take_expired_inv)
qed (auto intro: serve_message serve_disconnect serve_create serve_timer elim: serving_frame)

lemma cube_reach_serving:
  assumes "cube_reach fresh (cube_app fresh clock readings st0 G j) s"
  shows "serving fresh clock readings st0 G j s"
  using assms
proof (induction rule: cube_reach.induct)
  case start
  show ?case
  proof (rule servingI)
    fix H st
    assume "point fresh clock readings st0 G j SubReactor_new H st"
    then have H: "at_reactor j H = []" "cube_state fresh clock readings st0 H = Inr st" "fresh_server st0"
      by (auto simp: point_def SubReactor_new_def)
    have "served j st0 SubReactor_new" using H(3)
      by (simp add: served_defs SubReactor_new_def fresh_server_def SubTimers_new_def timers_inv_def)
    then show "sr_inv SubReactor_new \<and> served j st SubReactor_new"
      using served_view [OF view_others [OF H(2,1)]] by (simp add: SubReactor_new_def sr_inv_def)
  qed (simp add: SubReactor_new_def)
next
  case (accept s fd)
  show ?case by (rule serving_frame [OF accept.IH]) (simp_all add: enqueueNewConnection_def write_pipe_def sr_inv_def)
next
  case (pipe s res fdw s')
  then show ?case using cube.handle_event [OF pipe.hyps(4,3)] cube.queues(4) by blast
next
  case (event s kind res fdw s')
  then show ?case using cube.handle_event [OF event.hyps(4,3)] by blast
qed

section \<open>The whole service\<close>

text \<open>
  \<open>n\<close> reactors that share the server, after the callbacks \<open>H\<close> of a run whose callbacks are \<open>G\<close>: each reactor is in a
  state that its own events lead to, and it has run its part of \<open>H\<close>.
\<close>

definition cube_service ::
    "(nat \<Rightarrow> u8) \<Rightarrow> (nat \<Rightarrow> u64) \<Rightarrow> (nat \<Rightarrow> int \<times> int) \<Rightarrow> CubeServer \<Rightarrow> nat \<Rightarrow> joint_log \<Rightarrow> joint_log \<Rightarrow> (nat \<Rightarrow> SubReactor) \<Rightarrow> bool" where
  "cube_service fresh clock readings st0 n G H S \<longleftrightarrow> (\<exists>T. G = H @ T) \<and> (\<forall>p \<in> set H. fst p < n)
     \<and> (\<forall>j < n. cube_reach fresh (cube_app fresh clock readings st0 G j) (S j) \<and> spi_log (S j) = at_reactor j H)"

lemma fresh_server_new: "cube_inv b \<Longrightarrow> sb_data b = [] \<Longrightarrow> fresh_server (CubeServer_new b junk)"
  by (simp add: fresh_server_def CubeServer_new_def)

lemma service_point:
  assumes S: "cube_service fresh clock readings st0 n G H S" and st: "cube_state fresh clock readings st0 H = Inr st"
    and st0: "fresh_server st0"
  shows "short_log H" and "j < n \<Longrightarrow> sr_inv (S j) \<and> served j st (S j)"
proof -
  have serv: "serving fresh clock readings st0 G j (S j)" if "j < n" for j
    using S that cube_reach_serving unfolding cube_service_def by blast
  have ev: "ev \<in> set (spi_log (S j))" if "(j, ev) \<in> set H" "j < n" for j ev
    using S that by (force simp: cube_service_def at_reactor_def)
  show short: "short_log H" unfolding short_log_def
  proof (intro allI impI)
    fix j p d
    assume m: "(j, OnMessage p d) \<in> set H"
    then have "j < n" using S by (force simp: cube_service_def)
    then show "length d \<le> 8192" using serving_short [OF serv] ev [OF m] by blast
  qed
  show "sr_inv (S j) \<and> served j st (S j)" if "j < n"
  proof -
    have "point fresh clock readings st0 G j (S j) H st"
      using S st st0 short that unfolding point_def cube_service_def by simp
    from servingD [OF serv [OF that] this] show ?thesis by blast
  qed
qed

section \<open>Properties\<close>

text \<open>
  C9. The server on any number of reactors, from the sockets to the sockets, for every interleaving of whole
  callbacks: in every order of events, for every cutting of the streams into reads, and with any number of
  connections on each reactor, the answers that the server passes to \<open>send\<close> are those of a parser that reads the
  bytes of all connections of all reactors as one stream, in the order of the callbacks; and on every connection
  the bytes that the kernel took followed by those in the send buffer are exactly the answers given on it.  That
  callbacks do not overlap is an assumption of this model that the program, which runs two reactors, does not
  enforce.
\<close>

theorem cube_service_exact:
  assumes "cube_service fresh clock readings (CubeServer_new b junk) n G H S" "cube_inv b" "sb_data b = []"
    and "cube_state fresh clock readings (CubeServer_new b junk) H = Inr st"
    and "parse_frames (received (map snd H)) = (bodies, r)"
  shows "map snd (cs_sends st) = replies clock 0 bodies \<and> sb_data (cs_buffer st) = r
    \<and> (\<forall>j < n. \<forall>a c. heap (S j) a = Some c \<longrightarrow>
         wire c @ sb_data (sendBuffer c) = concat (map snd (filter (\<lambda>p. fst p = (j, a)) (cs_sends st))))"
proof -
  note st0 = fresh_server_new [OF assms(2,3)]
  note inv = service_point [OF assms(1,4) st0]
  have "parsed clock st (map snd H)" by (rule parsed_run [OF assms(4) st0 inv(1)])
  then show ?thesis using assms(5) inv(2) sr_inv_heap
    by (fastforce simp: parsed_def served_defs conn_ok_def)
qed

text \<open>
  Two reactors with a client each, accepted on descriptor 7; the client of reactor 1 sends one message.
\<close>

definition demo_log :: joint_log where
  "demo_log = [(0, OnAccepted (Some 0)), (1, OnAccepted (Some 0)), (1, OnMessage (Some 0) [2, 7, 0, 0, 0, 65, 66])]"

abbreviation demo_app :: "nat \<Rightarrow> application" where
  "demo_app \<equiv> cube_app (\<lambda>_. 0) (\<lambda>_. 0) (\<lambda>_. (0, 0)) (CubeServer_new empty_buffer 0) demo_log"

definition demo_accepted :: SubReactor where
  "demo_accepted = seven_state\<lparr>sub_timers := snd (registerTimer 0 0 10000 (Some 0) True SubTimers_new)\<rparr>"

abbreviation no_results :: sys_results where
  "no_results \<equiv> \<lparr>res_reads = [], res_writes = [], res_flush = [], res_timer = (0, 0, 0)\<rparr>"

text \<open>Accepting one connection, for every application that answers with the registration of a timer.\<close>

lemma demo_accepted_reach:
  assumes "app [OnAccepted (Some 0)] = [ApiRegisterTimer 0 0 10000 (Some 0) True]"
  shows "cube_reach (\<lambda>_. 0) app demo_accepted"
proof (rule cube_reach.pipe)
  show "cube_reach (\<lambda>_. 0) app (enqueueNewConnection 7 SubReactor_new)" by (intro cube_reach.intros)
  show "pipe_event (enqueueNewConnection 7 SubReactor_new)"
    by (simp add: enqueueNewConnection_def write_pipe_def SubReactor_new_def)
  show "\<forall>d \<in> set (res_reads no_results). length d \<le> 8192" by simp
  show "sub_handleEvent (\<lambda>_. 0) app no_results PipeFd \<lparr>fdw_fd = 3, fdw_events = EPOLLIN\<rparr>
     ((enqueueNewConnection 7 SubReactor_new)\<lparr>pipe_event := False\<rparr>) = Inr demo_accepted"
    using assms
    by (simp add: sub_handleEvent_def handlePipe_def processNewConnections_def
        enqueueNewConnection_def write_pipe_def SubReactor_new_def createConnection_def addEpollFd_def
        operateFd_def SimpleBuffer_new_def new_chars_def addConnection_def put_conn_def notify_def
        sum_bind_def demo_accepted_def
        processSendQueue_def seven_state_def seven_conn_def newFdWrapper_def Let_def
        del: upt_conv_Nil map_replicate_const)
qed

lemma demo_first_calls:
  "j < 2 \<Longrightarrow> demo_app j [OnAccepted (Some 0)] = [ApiRegisterTimer 0 0 10000 (Some 0) True]"
  by (auto simp: less_2_cases_iff demo_log_def cube_app_def cube_state_def cube_callback_def cube_onAccepted_def
      sum_bind_def CubeServer_new_def Let_def)

lemma demo_buffer: "cube_inv empty_buffer" "sb_data empty_buffer = []"
  by (simp_all add: cube_inv_def empty_buffer_def sb_inv_def sb_data_def)

lemma demo_parse: "parse_frames [2, 7, 0, 0, 0, 65, 66] = ([[65, 66]], [])"
proof -
  have m: "message 2 (word_of_nat (5 + length [65, 66])) [65, 66] = [2, 7, 0, 0, 0, 65, 66]"
    by (simp add: message_def le32_def)
  have "next_frame [2, 7, 0, 0, 0, 65, 66] = Frame [65, 66] []"
    using next_frame_message [of "[65, 66]" "[]"] unfolding m by simp
  then show ?thesis by (simp add: parse_frames.simps next_frame_def [of "[]"])
qed


abbreviation demo_message :: bytes where
  "demo_message \<equiv> [2, 7, 0, 0, 0, 65, 66]"

abbreviation demo_blocks :: "bytes list" where
  "demo_blocks \<equiv> replies (\<lambda>_. 0) 0 [[65, 66]]"

lemma demo_on: "\<exists>b. the (cube_onMessage (\<lambda>_. 0) (\<lambda>_. 0) 0 demo_message empty_buffer) = Inr (demo_blocks, b)"
proof -
  have "\<exists>b1. sb_write (\<lambda>_. 0) demo_message empty_buffer = Inr b1"
    by (simp add: empty_buffer_def sb_write_def ensureCapacity_def sz_sub_def Let_def)
  then obtain b1 where w: "sb_write (\<lambda>_. 0) demo_message empty_buffer = Inr b1" by blast
  then have b1: "cube_inv b1" "sb_data b1 = demo_message"
    using sb_write_cube [OF demo_buffer(1), of demo_message "\<lambda>_. 0"] demo_buffer(2) by auto
  from loop_refines [OF b1(1), of "[[65, 66]]" "[]" "\<lambda>_. 0" 0 "[]"] show ?thesis
    using b1(2) demo_parse w by (auto simp: cube_onMessage_def next_frame_def)
qed

lemma demo_calls:
  "\<exists>st. cube_state (\<lambda>_. 0) (\<lambda>_. 0) (\<lambda>_. (0, 0)) (CubeServer_new empty_buffer 0) demo_log = Inr st
    \<and> cs_sends st = map (Pair (1, 0)) demo_blocks"
  "demo_app 1 [OnAccepted (Some 0), OnMessage (Some 0) demo_message] = map (ApiSend 0) demo_blocks"
  using demo_on
  by (auto simp: cube_state_def cube_app_def sum_bind_def cube_callback_def cube_onAccepted_def cube_message_def
      CubeServer_new_def demo_log_def Let_def eval_nat_numeral)

lemma demo_served:
  "\<exists>s c. cube_reach (\<lambda>_. 0) (demo_app 1) s \<and> heap s 0 = Some c
     \<and> spi_log s = [OnAccepted (Some 0), OnMessage (Some 0) demo_message]"
proof -
  let ?h = "encodeHeaderWithTimeStamp 0 2"
  have h: "length ?h = 13" by (simp add: encodeHeaderWithTimeStamp_def encodeTimeStamp_def)
  have "\<exists>s. notify (\<lambda>_. 0) (demo_app 1) (OnMessage (Some 0) demo_message) demo_accepted = Inr s \<and> heap s 0 \<noteq> None
      \<and> spi_log s = [OnAccepted (Some 0), OnMessage (Some 0) demo_message]"
    using demo_calls(2) h
    by (simp add: notify_def demo_accepted_def seven_state_def seven_conn_def conn_send_def sb_write_def
        ensureCapacity_def sz_sub_def sz_add_def sum_bind_def enqueueSend_def put_conn_def overwrite_def Let_def)
  then obtain s where s: "notify (\<lambda>_. 0) (demo_app 1) (OnMessage (Some 0) demo_message) demo_accepted = Inr s" "heap s 0 \<noteq> None"
      "spi_log s = [OnAccepted (Some 0), OnMessage (Some 0) demo_message]" by blast
  then have "sub_handleEvent (\<lambda>_. 0) (demo_app 1) (no_results\<lparr>res_reads := [demo_message]\<rparr>) SocketFd
      \<lparr>fdw_fd = 7, fdw_events = EPOLLIN\<rparr> demo_accepted = Inr s"
    by (simp add: sub_handleEvent_def handleSocket_def handleRead_def demo_accepted_def seven_state_def)
  from cube_reach.event [OF demo_accepted_reach [of "demo_app 1"] _ _ this] demo_first_calls [of 1] s(2,3)
  show ?thesis by auto
qed

theorem cube_service_exact_witness:
  "\<exists>S c. cube_service (\<lambda>_. 0) (\<lambda>_. 0) (\<lambda>_. (0, 0)) (CubeServer_new empty_buffer 0) 2 demo_log demo_log S
     \<and> heap (S 1) 0 = Some c \<and> wire c @ sb_data (sendBuffer c) = encodeHeaderWithTimeStamp 0 2 @ [65, 66]"
proof -
  obtain s c where s: "cube_reach (\<lambda>_. 0) (demo_app 1) s" "heap s 0 = Some c"
    "spi_log s = [OnAccepted (Some 0), OnMessage (Some 0) demo_message]" using demo_served by blast
  define S where "S = (\<lambda>j :: nat. if j = 0 then demo_accepted else s)"
  have "cube_reach (\<lambda>_. 0) (demo_app 0) demo_accepted" using demo_first_calls [of 0] by (intro demo_accepted_reach) simp
  moreover have "spi_log demo_accepted = [OnAccepted (Some 0)]" by (simp add: demo_accepted_def seven_state_def)
  ultimately have serv: "cube_service (\<lambda>_. 0) (\<lambda>_. 0) (\<lambda>_. (0, 0)) (CubeServer_new empty_buffer 0) 2 demo_log demo_log S"
    using s by (auto simp: cube_service_def S_def less_2_cases_iff) (auto simp: demo_log_def)
  obtain st where st: "cube_state (\<lambda>_. 0) (\<lambda>_. 0) (\<lambda>_. (0, 0)) (CubeServer_new empty_buffer 0) demo_log = Inr st"
    "cs_sends st = map (Pair (1, 0)) demo_blocks" using demo_calls(1) by blast
  have "parse_frames (received (map snd demo_log)) = ([[65, 66]], [])" using demo_parse by (simp add: demo_log_def)
  from cube_service_exact [OF serv demo_buffer st(1) this] s(2)
  have "wire c @ sb_data (sendBuffer c) = concat (map snd (filter (\<lambda>p. fst p = (1, 0)) (cs_sends st)))"
    by (auto simp: S_def)
  then show ?thesis using serv s(2) st(2) by (intro exI [of _ S] exI [of _ c]) (simp add: S_def)
qed

text \<open>
  The server cannot tell its clients apart: when one client's bytes end inside a message and another client's
  bytes, on the same or another reactor, complete it, the whole answer goes to the second client and the first
  gets none.
\<close>

theorem cube_answers_wrong_client:
  assumes "cube_inv b" "sb_data b = []" "length p \<le> 8192" "length q \<le> 8192" "(i, a) \<noteq> (j, c)"
    and "parse_frames p = ([], p)" "parse_frames (p @ q) = ([body], [])"
    and "cube_state fresh clock readings (CubeServer_new b junk)
      [(i, OnAccepted (Some a)), (j, OnAccepted (Some c)), (i, OnMessage (Some a) p), (j, OnMessage (Some c) q)] = Inr st"
  shows "concat (map snd (filter (\<lambda>x. fst x = (i, a)) (cs_sends st))) = []
    \<and> concat (map snd (filter (\<lambda>x. fst x = (j, c)) (cs_sends st)))
        = encodeHeaderWithTimeStamp (clock 0) (word_of_nat (length body)) @ body"
proof -
  let ?log = "[(i, OnAccepted (Some a)), (j, OnAccepted (Some c))]" and ?st0 = "CubeServer_new b junk"
  let ?state = "cube_state fresh clock readings ?st0"
  note fr = fresh_server_new [OF assms(1,2)]
  have "?state ((?log @ [(i, OnMessage (Some a) p)]) @ [(j, OnMessage (Some c) q)]) = Inr st" using assms(8) by simp
  then obtain st1 st2 calls1 calls2 where s: "?state ?log = Inr st1"
    "cube_callback fresh clock readings i (OnMessage (Some a) p) st1 = Inr (calls1, st2)"
    "cube_callback fresh clock readings j (OnMessage (Some c) q) st2 = Inr (calls2, st)"
    by (auto simp: cube_state_append cube_state_Cons sum_bind_eq_Inr simp del: append.simps)
  have st1: "cs_sends st1 = []" using s(1)
    by (auto simp: cube_state_def sum_bind_def cube_callback_def cube_onAccepted_def CubeServer_new_def Let_def)
  have "parsed clock st1 (map snd ?log)" by (rule parsed_run [OF s(1) fr]) (simp add: short_log_def)
  from message_law [OF this big_objects [OF assms(3)] s(2)] obtain bs1 where
    p1: "parsed clock st2 (map snd ?log @ [OnMessage (Some a) p])" "cs_sends st2 = map (Pair (i, a)) bs1" using st1 by auto
  then have none: "cs_sends st2 = []" using assms(6) by (auto simp: parsed_def)
  from message_law [OF p1(1) big_objects [OF assms(4)] s(3)] obtain bs2 where
    "parsed clock st ((map snd ?log @ [OnMessage (Some a) p]) @ [OnMessage (Some c) q])" "cs_sends st = map (Pair (j, c)) bs2"
    using none by auto
  then show ?thesis using assms(5,7) by (auto simp: parsed_def comp_def)
qed

definition half_buffer :: SimpleBuffer where
  "half_buffer = empty_buffer\<lparr>sb_buffer := [2, 7, 0] @ replicate 13 0, writePos := 3\<rparr>"

lemma half_received: "cube_onMessage (\<lambda>_. 0) (\<lambda>_. 0) 0 [2, 7, 0] empty_buffer = Some (Inr ([], half_buffer))"
proof -
  have "sb_write (\<lambda>_. 0) [2, 7, 0] empty_buffer = Inr half_buffer"
    by (simp add: empty_buffer_def half_buffer_def sb_write_def ensureCapacity_def sz_sub_def sz_add_def overwrite_def Let_def)
  moreover have "onMessage_round t half_buffer = Inr None" for t
    by (simp add: onMessage_round_def coder_decode_def half_buffer_def empty_buffer_def sb_size_def sz_sub_def)
  ultimately show ?thesis by (simp add: cube_onMessage_def onMessage_loop.simps)
qed

lemma other_half: "\<exists>b. the (cube_onMessage (\<lambda>_. 0) (\<lambda>_. 0) 0 [0, 0, 65, 66] half_buffer) = Inr (demo_blocks, b)"
proof -
  have hb: "cube_inv half_buffer" "sb_data half_buffer = [2, 7, 0]"
    by (simp_all add: half_buffer_def empty_buffer_def cube_inv_def sb_inv_def sb_data_def segment_def)
  have "\<exists>b1. sb_write (\<lambda>_. 0) [0, 0, 65, 66] half_buffer = Inr b1"
    by (simp add: half_buffer_def empty_buffer_def sb_write_def ensureCapacity_def sz_sub_def Let_def)
  then obtain b1 where w: "sb_write (\<lambda>_. 0) [0, 0, 65, 66] half_buffer = Inr b1" by blast
  then have b1: "cube_inv b1" "sb_data b1 = demo_message"
    using sb_write_cube [OF hb(1), of "[0, 0, 65, 66]" "\<lambda>_. 0"] hb(2) by auto
  from loop_refines [OF b1(1), of "[[65, 66]]" "[]" "\<lambda>_. 0" 0 "[]"] show ?thesis
    using b1(2) demo_parse w by (auto simp: cube_onMessage_def next_frame_def)
qed

theorem cube_answers_wrong_client_witness:
  "\<exists>st. cube_state (\<lambda>_. 0) (\<lambda>_. 0) (\<lambda>_. (0, 0)) (CubeServer_new empty_buffer 0)
      [(0, OnAccepted (Some 0)), (1, OnAccepted (Some 0)), (0, OnMessage (Some 0) [2, 7, 0]), (1, OnMessage (Some 0) [0, 0, 65, 66])] = Inr st
     \<and> concat (map snd (filter (\<lambda>x. fst x = (0, 0)) (cs_sends st))) = []
     \<and> concat (map snd (filter (\<lambda>x. fst x = (1, 0)) (cs_sends st))) = encodeHeaderWithTimeStamp 0 2 @ [65, 66]"
proof -
  have "\<exists>st. cube_state (\<lambda>_. 0) (\<lambda>_. 0) (\<lambda>_. (0, 0)) (CubeServer_new empty_buffer 0)
      [(0, OnAccepted (Some 0)), (1, OnAccepted (Some 0)), (0, OnMessage (Some 0) [2, 7, 0]), (1, OnMessage (Some 0) [0, 0, 65, 66])] = Inr st"
    using half_received other_half
    by (auto simp: cube_state_def sum_bind_def cube_callback_def cube_onAccepted_def cube_message_def CubeServer_new_def Let_def)
  moreover have "parse_frames [2, 7, 0] = ([], [2, 7, 0])" by (simp add: parse_frames.simps next_frame_def)
  ultimately show ?thesis
    using cube_answers_wrong_client [OF demo_buffer, of "[2, 7, 0]" "[0, 0, 65, 66]" 0 0 1 0 "[65, 66]"] demo_parse by fastforce
qed

lemma cancel_filter: "timers_inv t \<Longrightarrow> timers (snd (cancelTimer now_u i t)) = filter (\<lambda>x. timer_id x \<noteq> i) (timers t)"
proof (cases "i \<in> timer_id ` set (timers t)")
  case False
  then have "filter (\<lambda>x. timer_id x \<noteq> i) (timers t) = timers t" by (intro filter_True) auto
  with False show ?thesis by (simp add: cancelTimer_def)
qed (simp add: cancelTimer_def Let_def timers_inv_def timers_erase_eq)

text \<open>The accepted connections of a reactor, and the number that the last accepted connection's timer got at its own reactor.\<close>

fun is_accept :: "spi_event \<Rightarrow> bool" where
  "is_accept (OnAccepted conn) = True"
| "is_accept _ = False"

definition accepted_at :: "nat \<Rightarrow> joint_log \<Rightarrow> nat" where
  "accepted_at j H = length (filter is_accept (at_reactor j H))"

definition last_timer :: "joint_log \<Rightarrow> int" where
  "last_timer H = int (accepted_at (fst (last (filter (\<lambda>p. is_accept (snd p)) H))) H) - 1"

lemma state_timers:
  assumes "cube_state fresh clock readings (CubeServer_new b junk) H = Inr st"
  shows "cs_registered st j = accepted_at j H"
    and "filter (\<lambda>p. is_accept (snd p)) H \<noteq> [] \<Longrightarrow> cs_timerId st = last_timer H"
proof -
  have "(\<forall>j. cs_registered st j = accepted_at j H)
      \<and> (filter (\<lambda>p. is_accept (snd p)) H \<noteq> [] \<longrightarrow> cs_timerId st = last_timer H)"
    using assms
  proof (induction H arbitrary: st rule: rev_induct)
    case Nil
    then show ?case by (auto simp: CubeServer_new_def accepted_at_def)
  next
    case (snoc p H)
    obtain i ev where p: "p = (i, ev)" by fastforce
    from snoc.prems p obtain st1 calls where st1: "cube_state fresh clock readings (CubeServer_new b junk) H = Inr st1"
      "cube_callback fresh clock readings i ev st1 = Inr (calls, st)"
      by (auto simp: cube_state_append cube_state_Cons sum_bind_eq_Inr)
    note IH = snoc.IH [OF st1(1)]
    show ?case
    proof (cases "is_accept ev")
      case True
      then obtain conn where "ev = OnAccepted conn" by (cases ev) simp_all
      then show ?thesis using IH st1(2) p
        by (auto simp: cube_callback_def cube_onAccepted_def accepted_at_def last_timer_def Let_def split: option.splits)
    next
      case False
      then have "cs_registered st = cs_registered st1" "cs_timerId st = cs_timerId st1" using st1(2)
        by (cases ev; auto simp: cube_callback_def cube_onDisconnected_def cube_message_def Let_def sum_bind_eq_Inr
            split: option.splits if_splits)+
      then show ?thesis using IH False p by (simp add: accepted_at_def last_timer_def)
    qed
  qed
  then show "cs_registered st j = accepted_at j H"
    "filter (\<lambda>p. is_accept (snd p)) H \<noteq> [] \<Longrightarrow> cs_timerId st = last_timer H" by blast+
qed

text \<open>
  C10. Heartbeat timers are lost track of.  Every reactor numbers its timers by the connections it has accepted,
  from 0, but \<open>timerId_\<close> holds one number for all reactors: that of the timer of the connection accepted last, at
  whichever reactor.  A disconnect on reactor \<open>j\<close> cancels, at reactor \<open>j\<close>, the timer that happens to have this
  number, and every other timer of the reactor stays, that of the closed connection included unless its own number
  is this one.
\<close>

theorem cube_timers_leak:
  assumes "cube_service fresh clock readings (CubeServer_new b junk) n G H S" "cube_inv b" "sb_data b = []"
    and "cube_state fresh clock readings (CubeServer_new b junk) H = Inr st"
    and "G = H @ (j, OnDisconnected (Some a) r) # T" "j < n" "filter (\<lambda>p. is_accept (snd p)) H \<noteq> []"
    and "notify fresh (cube_app fresh clock readings (CubeServer_new b junk) G j) (OnDisconnected (Some a) r) (S j) = Inr s'"
  shows "next_timer_id (sub_timers (S j)) = int (accepted_at j H)
    \<and> timers (sub_timers s') = filter (\<lambda>t. timer_id t \<noteq> last_timer H) (timers (sub_timers (S j)))"
proof -
  let ?st0 = "CubeServer_new b junk" and ?ev = "OnDisconnected (Some a) r"
  note inv = service_point(2) [OF assms(1,4) fresh_server_new [OF assms(2,3)] assms(6)]
  have log: "at_reactor j H = spi_log (S j)" using assms(1,6) by (simp add: cube_service_def)
  have id: "cs_timerId st = last_timer H" by (rule state_timers(2) [OF assms(4,7)])
  obtain now_u st' where "cube_callback fresh clock readings j ?ev st = Inr ([ApiCancelTimer now_u (last_timer H)], st')"
    by (simp add: cube_callback_def Let_def cube_onDisconnected_def id)
  from cube_app_calls [OF assms(5) log assms(4) this]
  have "s' = (S j)\<lparr>spi_log := spi_log (S j) @ [?ev], sub_timers := snd (cancelTimer now_u (last_timer H) (sub_timers (S j)))\<rparr>"
    using assms(8) by (simp add: notify_def Let_def)
  then show ?thesis using inv cancel_filter state_timers(1) [OF assms(4)] by (auto simp: served_def)
qed

text \<open>
  Three clients: two on reactor 0, with the timers 0 and 1, and then one on reactor 1, with the timer 0.  When the
  second of reactor 0 disconnects, the timer of the first is cancelled and its own stays.
\<close>

definition three_accepts :: joint_log where
  "three_accepts = [(0, OnAccepted (Some 0)), (0, OnAccepted (Some 1)), (1, OnAccepted (Some 0))]"

definition three_log :: joint_log where
  "three_log = three_accepts @ [(0, OnDisconnected (Some 1) 1)]"

definition three_readings :: "nat \<Rightarrow> int \<times> int" where
  "three_readings n = (if n = 1 then (1, 1) else (0, 0))"

abbreviation three_app :: "nat \<Rightarrow> application" where
  "three_app \<equiv> cube_app (\<lambda>_. 0) (\<lambda>_. 0) three_readings (CubeServer_new empty_buffer 0) three_log"

lemmas three_eval = three_log_def three_accepts_def cube_app_def cube_state_def cube_callback_def cube_onAccepted_def
  cube_onDisconnected_def sum_bind_def CubeServer_new_def three_readings_def Let_def

lemma three_accepted:
  "three_app 0 [OnAccepted (Some 0)] = [ApiRegisterTimer 0 0 10000 (Some 0) True]"
  "three_app 0 [OnAccepted (Some 0), OnAccepted (Some 1)] = [ApiRegisterTimer 1 1 10000 (Some 1) True]"
  "three_app 1 [OnAccepted (Some 0)] = [ApiRegisterTimer 0 0 10000 (Some 0) True]"
  "\<exists>st. cube_state (\<lambda>_. 0) (\<lambda>_. 0) three_readings (CubeServer_new empty_buffer 0) three_accepts = Inr st"
  by (simp_all add: three_eval)

lemma three_disconnected:
  "three_app 0 [OnAccepted (Some 0), OnAccepted (Some 1), OnDisconnected (Some 1) 1] = [ApiCancelTimer 0 0]"
  by (simp add: three_eval numeral_3_eq_3)

lemma pair_timers: "map timer_id (timers (snd (registerTimer 1 1 10000 (Some c) True
    (snd (registerTimer 0 0 10000 (Some d) True SubTimers_new))))) = [0, 1]"
  by (simp add: registerTimer_def SubTimers_new_def insert_is_begin_def updateNextTimer_def timerfd_settime_def disableTimer_def Let_def)

lemma pair_accepted:
  assumes "app [OnAccepted (Some 0)] = [ApiRegisterTimer 0 0 10000 (Some 0) True]"
    and "app [OnAccepted (Some 0), OnAccepted (Some 1)] = [ApiRegisterTimer 1 1 10000 (Some 1) True]"
  shows "\<exists>s. cube_reach (\<lambda>_. 0) app s \<and> spi_log s = [OnAccepted (Some 0), OnAccepted (Some 1)]
    \<and> map timer_id (timers (sub_timers s)) = [0, 1]"
proof -
  let ?q = "enqueueNewConnection 8 (enqueueNewConnection 7 SubReactor_new)"
  have "\<exists>s. sub_handleEvent (\<lambda>_. 0) app no_results PipeFd \<lparr>fdw_fd = 3, fdw_events = EPOLLIN\<rparr>
      (?q\<lparr>pipe_event := False\<rparr>) = Inr s
    \<and> spi_log s = [OnAccepted (Some 0), OnAccepted (Some 1)] \<and> map timer_id (timers (sub_timers s)) = [0, 1]"
    by (simp add: assms [unfolded One_nat_def] sub_handleEvent_def handlePipe_def processNewConnections_def
        enqueueNewConnection_def write_pipe_def SubReactor_new_def createConnection_def addEpollFd_def
        operateFd_def SimpleBuffer_new_def new_chars_def addConnection_def put_conn_def notify_def
        sum_bind_def pair_timers
        processSendQueue_def newFdWrapper_def Let_def
        del: upt_conv_Nil map_replicate_const)
  then obtain s where s: "sub_handleEvent (\<lambda>_. 0) app no_results PipeFd \<lparr>fdw_fd = 3, fdw_events = EPOLLIN\<rparr>
      (?q\<lparr>pipe_event := False\<rparr>) = Inr s"
    "spi_log s = [OnAccepted (Some 0), OnAccepted (Some 1)]" "map timer_id (timers (sub_timers s)) = [0, 1]"
    by (rule exE) (elim conjE, rule that)
  have r: "cube_reach (\<lambda>_. 0) app s"
  proof (rule cube_reach.pipe [OF _ _ _ s(1)])
    show "cube_reach (\<lambda>_. 0) app ?q" by (intro cube_reach.intros)
  qed (simp_all add: enqueueNewConnection_def write_pipe_def SubReactor_new_def)
  show ?thesis by (intro exI [of _ s] conjI r s(2,3))
qed


theorem cube_timers_leak_witness:
  "\<exists>S s'. cube_service (\<lambda>_. 0) (\<lambda>_. 0) three_readings (CubeServer_new empty_buffer 0) 2 three_log three_accepts S
     \<and> map timer_id (timers (sub_timers (S 0))) = [0, 1]
     \<and> notify (\<lambda>_. 0) (three_app 0) (OnDisconnected (Some 1) 1) (S 0) = Inr s'
     \<and> map timer_id (timers (sub_timers s')) = [1]"
proof -
  obtain s where s: "cube_reach (\<lambda>_. 0) (three_app 0) s" "spi_log s = [OnAccepted (Some 0), OnAccepted (Some 1)]"
    "map timer_id (timers (sub_timers s)) = [0, 1]" 
    by (rule exE [OF pair_accepted [OF three_accepted(1) three_accepted(2)]]) (elim conjE, rule that)
  define S where "S = (\<lambda>j :: nat. if j = 0 then s else demo_accepted)"
  have d: "cube_reach (\<lambda>_. 0) (three_app 1) demo_accepted" by (rule demo_accepted_reach [where app = "three_app 1", OF three_accepted(3)])
  have "spi_log demo_accepted = [OnAccepted (Some 0)]" by (simp add: demo_accepted_def seven_state_def)
  then have serv: "cube_service (\<lambda>_. 0) (\<lambda>_. 0) three_readings (CubeServer_new empty_buffer 0) 2 three_log three_accepts S"
    using s d by (auto simp: cube_service_def S_def less_2_cases_iff three_log_def) (auto simp: three_accepts_def)
  obtain st where st: "cube_state (\<lambda>_. 0) (\<lambda>_. 0) three_readings (CubeServer_new empty_buffer 0) three_accepts = Inr st"
    using three_accepted(4) by blast
  have last: "last_timer three_accepts = 0" by (simp add: last_timer_def accepted_at_def three_accepts_def)
  obtain s' where n: "notify (\<lambda>_. 0) (three_app 0) (OnDisconnected (Some 1) 1) (S 0) = Inr s'"
    using s(2) three_disconnected by (simp add: notify_def S_def Let_def)
  have "timers (sub_timers s') = filter (\<lambda>t. timer_id t \<noteq> 0) (timers (sub_timers (S 0)))"
    using cube_timers_leak [OF serv demo_buffer st _ _ _ n, of "[]"] last by (simp add: three_log_def three_accepts_def)
  then have "map timer_id (timers (sub_timers s')) = filter (\<lambda>i. i \<noteq> 0) (map timer_id (timers (sub_timers (S 0))))"
    by (simp add: filter_map comp_def)
  then have "map timer_id (timers (sub_timers s')) = [1]" using s(3) by (simp add: S_def)
  moreover have "map timer_id (timers (sub_timers (S 0))) = [0, 1]" using s(3) by (simp add: S_def)
  ultimately show ?thesis by (intro exI [of _ S] exI [of _ s'] conjI serv n)
qed

section \<open>Callbacks that overlap\<close>

text \<open>
  \<open>SimpleBuffer::write\<close> where the room suffices, in its two accesses: the copy to the write position, and the step
  of the write position.
\<close>

definition write_copy :: "bytes \<Rightarrow> SimpleBuffer \<Rightarrow> SimpleBuffer" where
  "write_copy d b = b\<lparr>sb_buffer := overwrite (sb_buffer b) (writePos b) d\<rparr>"

definition write_advance :: "bytes \<Rightarrow> SimpleBuffer \<Rightarrow> SimpleBuffer" where
  "write_advance d b = b\<lparr>writePos := sz_add (writePos b) (length d)\<rparr>"

lemma sb_write_split:
  assumes "sb_inv b" "length d \<le> bufferSize b - writePos b"
  shows "sb_write fresh d b = Inr (write_advance d (write_copy d b))"
  using assms by (auto simp: sb_write_def ensureCapacity_def write_copy_def write_advance_def sb_inv_def sz_sub_le Let_def)

lemma overwrite_twice: "length p = length q \<Longrightarrow> k + length q \<le> length d \<Longrightarrow> overwrite (overwrite d k p) k q = overwrite d k q"
  by (simp add: overwrite_def)

lemma segment_overwrite_after:
  assumes "k + length q \<le> length d"
  shows "segment (overwrite d k q) (k + length q) m = segment d (k + length q) m"
proof -
  have "drop (k + length q) (overwrite d k q) = drop (k + length q) d" using assms by (simp add: overwrite_def)
  then show ?thesis by (simp add: segment_def drop_take)
qed

lemma segment_overwrite:
  assumes "i \<le> k" "k + length q \<le> m" "m \<le> length d"
  shows "segment (overwrite d k q) i m = segment d i k @ q @ segment d (k + length q) m"
  using assms segment_split [of i "k + length q" m "overwrite d k q"]
  by (simp add: segment_overwrite_after segment_overwrite_append)

text \<open>
  Two reactors write at the same time: when both copy before either steps on, the buffer grows by both lengths,
  but of two blocks of one length the first is lost, and what the array held before stands behind the second.
\<close>

theorem cube_buffer_race:
  assumes "sb_inv b" "length p = length q" "length p + length q \<le> bufferSize b - writePos b"
  shows "sb_data (write_advance q (write_advance p (write_copy q (write_copy p b))))
    = sb_data b @ q @ segment (sb_buffer b) (writePos b + length q) (writePos b + length q + length q)"
proof -
  let ?w = "writePos b" and ?n = "length q"
  have b: "readPos b \<le> ?w" "?w + ?n + ?n \<le> length (sb_buffer b)" "length (sb_buffer b) \<le> max_obj"
    using assms by (auto simp: sb_inv_def)
  then have "sz_add (sz_add ?w ?n) ?n = ?w + ?n + ?n" by (simp add: sz_add_small)
  then have "sb_data (write_advance q (write_advance p (write_copy q (write_copy p b))))
      = segment (overwrite (overwrite (sb_buffer b) ?w p) ?w q) (readPos b) (?w + ?n + ?n)"
    using assms(2) by (simp add: sb_data_def write_copy_def write_advance_def)
  also have "\<dots> = segment (sb_buffer b) (readPos b) ?w @ q @ segment (sb_buffer b) (?w + ?n) (?w + ?n + ?n)"
    using b assms(2) by (simp add: overwrite_twice segment_overwrite)
  finally show ?thesis by (simp add: sb_data_def)
qed

theorem cube_buffer_race_witness:
  "sb_data (write_advance [5, 6] (write_advance [3, 4] (write_copy [5, 6] (write_copy [3, 4] empty_buffer)))) = [5, 6, 0, 0]"
  using cube_buffer_race [of empty_buffer "[3, 4]" "[5, 6]"]
  by (simp add: empty_buffer_def sb_inv_def sb_data_def segment_def)

end
