(* ===== verification/Ring_Tests.thy ===== *)
theory Ring_Tests
  imports Ring_Queues Mpsc_Ring
begin

text \<open>
  The two test programs at the end of ihs/include/kk.hpp, as clients of the queues: \<open>test_SPSC\<close> over the
  interface of \<open>Queue_Interface\<close>, with \<open>push_busywait\<close> and \<open>pop_busywait\<close>, and \<open>test_MPSC\<close> over the access-by-access
  model of \<open>Mpsc_Ring\<close>.  The sums are \<open>int\<close> in the code, whose overflow has no meaning; here they are integers.
\<close>

section \<open>One producer\<close>

record 'q sum_test =
  test_queue :: 'q
  prod_i :: nat
  producer_sum :: int
  cons_i :: nat
  consumer_sum :: int

definition sum_test_new :: "'q \<Rightarrow> 'q sum_test" where
  "sum_test_new q = \<lparr>test_queue = q, prod_i = 0, producer_sum = 0, cons_i = 0, consumer_sum = 0\<rparr>"

text \<open>
  One attempt of \<open>push_busywait\<close> and, when it succeeds, the rest of the round; the same for the consumer.
\<close>

definition producer_turn :: "(int \<Rightarrow> 'q \<Rightarrow> bool \<times> 'q) \<Rightarrow> nat \<Rightarrow> 'q sum_test \<Rightarrow> 'q sum_test" where
  "producer_turn push test_count s =
     (if prod_i s < test_count then
        case push (int (prod_i s)) (test_queue s) of
          (True, q) \<Rightarrow> s\<lparr>test_queue := q, producer_sum := producer_sum s + int (prod_i s), prod_i := prod_i s + 1\<rparr>
        | (False, q) \<Rightarrow> s\<lparr>test_queue := q\<rparr>
      else s)"

definition consumer_turn :: "('q \<Rightarrow> int option \<times> 'q) \<Rightarrow> nat \<Rightarrow> 'q sum_test \<Rightarrow> 'q sum_test" where
  "consumer_turn pop test_count s =
     (if cons_i s < test_count then
        case pop (test_queue s) of
          (Some val, q) \<Rightarrow> s\<lparr>test_queue := q, consumer_sum := consumer_sum s + val, cons_i := cons_i s + 1\<rparr>
        | (None, q) \<Rightarrow> s\<lparr>test_queue := q\<rparr>
      else s)"

text \<open>A schedule says which thread makes the next attempt; both can be joined when they have made their rounds.\<close>

definition test_turn ::
    "(int \<Rightarrow> 'q \<Rightarrow> bool \<times> 'q) \<Rightarrow> ('q \<Rightarrow> int option \<times> 'q) \<Rightarrow> nat \<Rightarrow> bool \<Rightarrow> 'q sum_test \<Rightarrow> 'q sum_test" where
  "test_turn push pop n producer s = (if producer then producer_turn push n s else consumer_turn pop n s)"

definition test_joined :: "nat \<Rightarrow> 'q sum_test \<Rightarrow> bool" where
  "test_joined n s \<longleftrightarrow> prod_i s = n \<and> cons_i s = n"

text \<open>The test over any queue that keeps the contract.\<close>

locale int_queue = bounded_queue inv contents room push pop
  for inv :: "'q \<Rightarrow> bool" and contents :: "'q \<Rightarrow> int list" and room :: "'q \<Rightarrow> nat"
    and push :: "int \<Rightarrow> 'q \<Rightarrow> bool \<times> 'q" and pop :: "'q \<Rightarrow> int option \<times> 'q"
begin

definition test_inv :: "nat \<Rightarrow> nat \<Rightarrow> 'q sum_test \<Rightarrow> bool" where
  "test_inv n r s \<longleftrightarrow> inv (test_queue s) \<and> room (test_queue s) = r \<and> prod_i s \<le> n \<and> cons_i s \<le> n
     \<and> cons_i s \<le> prod_i s \<and> contents (test_queue s) = map int [cons_i s..<prod_i s]
     \<and> producer_sum s = (\<Sum>i<prod_i s. int i) \<and> consumer_sum s = (\<Sum>i<cons_i s. int i)"

lemma producer_inv:
  assumes "test_inv n r s"
  shows "test_inv n r (producer_turn push n s)"
    and "prod_i s < n \<Longrightarrow> prod_i s < cons_i s + r \<Longrightarrow> prod_i (producer_turn push n s) = Suc (prod_i s)"
proof -
  obtain ok q where p: "push (int (prod_i s)) (test_queue s) = (ok, q)" by fastforce
  note l = push_law [OF _ p]
  show "test_inv n r (producer_turn push n s)" using assms l p
    by (auto simp: test_inv_def producer_turn_def split: bool.splits)
  show "prod_i s < n \<Longrightarrow> prod_i s < cons_i s + r \<Longrightarrow> prod_i (producer_turn push n s) = Suc (prod_i s)"
    using assms l p by (auto simp: test_inv_def producer_turn_def split: bool.splits)
qed

lemma consumer_inv:
  assumes "test_inv n r s"
  shows "test_inv n r (consumer_turn pop n s)"
    and "cons_i s < prod_i s \<Longrightarrow> cons_i (consumer_turn pop n s) = Suc (cons_i s)"
proof -
  obtain x q where p: "pop (test_queue s) = (x, q)" by fastforce
  have l: "inv q \<and> room q = r \<and> (case contents (test_queue s) of [] \<Rightarrow> x = None \<and> contents q = []
      | y # ys \<Rightarrow> x = Some y \<and> contents q = ys)"
    using pop_law [OF _ p] assms by (auto simp: test_inv_def)
  have "test_inv n r (consumer_turn pop n s) \<and> (cons_i s < prod_i s \<longrightarrow> cons_i (consumer_turn pop n s) = Suc (cons_i s))"
  proof (cases "cons_i s < prod_i s")
    case True
    then have "contents (test_queue s) = int (cons_i s) # map int [Suc (cons_i s)..<prod_i s]"
      using assms by (simp add: test_inv_def upt_conv_Cons)
    with l have "x = Some (int (cons_i s))" "contents q = map int [Suc (cons_i s)..<prod_i s]" by simp_all
    then show ?thesis using l True assms p by (auto simp: test_inv_def consumer_turn_def)
  next
    case False
    then show ?thesis using l assms p by (auto simp: test_inv_def consumer_turn_def)
  qed
  then show "test_inv n r (consumer_turn pop n s)"
    "cons_i s < prod_i s \<Longrightarrow> cons_i (consumer_turn pop n s) = Suc (cons_i s)" by blast+
qed

lemma test_run_inv:
  "test_inv n r s \<Longrightarrow> test_inv n r (fold (test_turn push pop n) ts s)"
  by (induction ts arbitrary: s) (simp_all add: test_turn_def producer_inv consumer_inv)

lemma test_start: "inv q \<Longrightarrow> contents q = [] \<Longrightarrow> test_inv n (room q) (sum_test_new q)"
  by (simp add: test_inv_def sum_test_new_def)

lemma test_sums:
  assumes "inv q" "contents q = []" "s = fold (test_turn push pop n) ts (sum_test_new q)"
  shows "producer_sum s = (\<Sum>i<prod_i s. int i)" "consumer_sum s = (\<Sum>i<cons_i s. int i)"
    "cons_i s \<le> prod_i s" "prod_i s \<le> n"
  using test_run_inv [OF test_start [OF assms(1,2)], of n ts] assms(3) by (auto simp: test_inv_def)

lemma test_progress:
  assumes "inv q" "contents q = []" "0 < room q" "s = fold (test_turn push pop n) ts (sum_test_new q)" "\<not> test_joined n s"
  shows "\<exists>t. prod_i (test_turn push pop n t s) + cons_i (test_turn push pop n t s) = Suc (prod_i s + cons_i s)"
proof -
  have inv: "test_inv n (room q) s" using test_run_inv [OF test_start [OF assms(1,2)]] assms(4) by simp
  show ?thesis
  proof (cases "cons_i s < prod_i s")
    case True
    then have "cons_i (test_turn push pop n False s) = Suc (cons_i s)" by (simp add: test_turn_def consumer_inv [OF inv])
    moreover have "prod_i (test_turn push pop n False s) = prod_i s"
      by (auto simp: test_turn_def consumer_turn_def split: prod.split option.split)
    ultimately show ?thesis by (intro exI [of _ False]) simp
  next
    case False
    then have "prod_i s < n" "prod_i s < cons_i s + room q" using inv assms(3,5) by (auto simp: test_inv_def test_joined_def)
    from producer_inv(2) [OF inv this] have "prod_i (test_turn push pop n True s) = Suc (prod_i s)" by (simp add: test_turn_def)
    moreover have "cons_i (test_turn push pop n True s) = cons_i s"
      by (auto simp: test_turn_def producer_turn_def split: prod.split bool.split)
    ultimately show ?thesis by (intro exI [of _ True]) simp
  qed
qed

end

interpretation ringbuffer_int: int_queue count_inv count_contents count_room SPSCRingBuffer_push SPSCRingBuffer_pop
  by unfold_locales

lemma sum_below: "2 * (\<Sum>i<n. int i) = int n * (int n - 1)"
  by (induction n) (simp_all add: algebra_simps)

section \<open>Several producers\<close>





















section \<open>Properties\<close>

text \<open>
  \<open>test_SPSC\<close>: for every schedule of the two threads, as long as both have not made their rounds some thread's next
  attempt succeeds; the sums are always those of the first numbers, so the final assertion holds.  From the 65537th
  round on the sum is larger than the greatest \<open>int\<close> of 32 bits.
\<close>

theorem spsc_test_passes:
  assumes "count_inv q" "count_contents q = []" "0 < length (mbuffer q)"
    and s: "s = fold (test_turn SPSCRingBuffer_push SPSCRingBuffer_pop n) ts (sum_test_new q)"
  shows "(test_joined n s \<longrightarrow> producer_sum s = consumer_sum s)
    \<and> (\<not> test_joined n s \<longrightarrow> (\<exists>t. prod_i (test_turn SPSCRingBuffer_push SPSCRingBuffer_pop n t s)
          + cons_i (test_turn SPSCRingBuffer_push SPSCRingBuffer_pop n t s) = Suc (prod_i s + cons_i s)))
    \<and> (65537 \<le> prod_i s \<longrightarrow> 2147483647 < producer_sum s)"
proof -
  note sums = ringbuffer_int.test_sums [OF assms(1,2) s]
  have "2147483647 < (\<Sum>i<prod_i s. int i)" if "65537 \<le> prod_i s"
  proof -
    have "int 65537 * (int 65537 - 1) \<le> int (prod_i s) * (int (prod_i s) - 1)"
      using that by (intro mult_mono) simp_all
    then show ?thesis using sum_below [of "prod_i s"] by simp
  qed
  moreover have "0 < count_room q" using assms(3) by (simp add: count_room_def)
  note prog = ringbuffer_int.test_progress [OF assms(1,2) this s]
  ultimately show ?thesis using sums(1,2) by (auto simp: test_joined_def)
qed

theorem spsc_test_passes_witness:
  "let q = \<lparr>mbuffer = [0, 0], mhead = 0, mtail = 0\<rparr>;
       s = fold (test_turn SPSCRingBuffer_push SPSCRingBuffer_pop 3) [True, True, True, False, True, False, False] (sum_test_new q)
   in test_joined 3 s \<and> producer_sum s = 3 \<and> consumer_sum s = 3"
proof -
  let ?q = "\<lparr>mbuffer = [0, 0], mhead = 0, mtail = 0\<rparr> :: int mring"
  let ?s = "fold (test_turn SPSCRingBuffer_push SPSCRingBuffer_pop 3) [True, True, True, False, True, False, False] (sum_test_new ?q)"
  have "count_inv ?q" "count_contents ?q = []" by (simp_all add: count_inv_def pow2_cap_2 count_contents_def)
  from spsc_test_passes [OF this _ refl, of 3 "[True, True, True, False, True, False, False]"]
  have "test_joined 3 ?s \<longrightarrow> producer_sum ?s = consumer_sum ?s" by simp
  moreover have "prod_i ?s = 3 \<and> cons_i ?s = 3 \<and> producer_sum ?s = 3" by code_simp
  ultimately show ?thesis by (simp add: Let_def test_joined_def)
qed



end
