(* ===== verification/Trade_Pool.thy ===== *)
theory Trade_Pool
  imports Trading_System "HOL-Library.Multiset"
begin

text \<open>
  \<open>ThreadPool\<close> of ihs/src/trade.cpp: workers that take tasks from a \<open>ConcurrentQueue\<close>, \<open>enqueue\<close>, and the destructor.
  Each operation of the queue takes effect under its mutex and is one step; how \<open>pop\<close> waits is in
  \<open>Trading_System\<close>.
\<close>

section \<open>State and steps\<close>

text \<open>What a task does when it is called.\<close>

datatype task_end = Ends | ThrowsStd | ThrowsOther

datatype 't trade_worker_pc = TestsRunning | InPop | RunsTask 't | WorkerExited

datatype pool_owner = PoolUsed | StopCalled | WorkersJoined

text \<open>\<open>pool_accepted\<close>, \<open>pool_started\<close> and \<open>pool_finished\<close> are history; \<open>pool_crashed\<close> is \<open>std::terminate\<close>.\<close>

record 't TradePool =
  task_queue :: "'t ConcurrentQueue"
  pool_workers :: "nat \<Rightarrow> 't trade_worker_pc"
  pool_owner :: pool_owner
  pool_crashed :: bool
  pool_accepted :: "'t list"
  pool_started :: "'t list"
  pool_finished :: "'t list"

definition TradePool_new :: "'t TradePool" where
  "TradePool_new = \<lparr>task_queue = ConcurrentQueue_new, pool_workers = (\<lambda>_. TestsRunning), pool_owner = PoolUsed,
     pool_crashed = False, pool_accepted = [], pool_started = [], pool_finished = []\<rparr>"

definition trade_enqueue :: "'t \<Rightarrow> 't TradePool \<Rightarrow> 't TradePool" where
  "trade_enqueue task s =
     s\<lparr>task_queue := cq_push task (task_queue s),
       pool_accepted := (if cq_running (task_queue s) then pool_accepted s @ [task] else pool_accepted s)\<rparr>"

text \<open>One step of worker \<open>i\<close>: the loop test, the call of \<open>pop\<close>, the task.\<close>

definition trade_worker :: "('t \<Rightarrow> task_end) \<Rightarrow> nat \<Rightarrow> 't TradePool \<Rightarrow> 't TradePool" where
  "trade_worker outcome i s =
     (case pool_workers s i of
        TestsRunning \<Rightarrow> s\<lparr>pool_workers := (pool_workers s)(i := if cq_running (task_queue s) then InPop else WorkerExited)\<rparr>
      | InPop \<Rightarrow>
          (case cq_pop (-1) (task_queue s) of
             Waits \<Rightarrow> s
           | Fails \<Rightarrow> s\<lparr>pool_workers := (pool_workers s)(i := TestsRunning)\<rparr>
           | Item task q \<Rightarrow> s\<lparr>task_queue := q, pool_workers := (pool_workers s)(i := RunsTask task), pool_started := pool_started s @ [task]\<rparr>)
      | RunsTask task \<Rightarrow>
          (case outcome task of
             ThrowsOther \<Rightarrow> s\<lparr>pool_crashed := True\<rparr>
           | _ \<Rightarrow> s\<lparr>pool_workers := (pool_workers s)(i := TestsRunning), pool_finished := pool_finished s @ [task]\<rparr>)
      | WorkerExited \<Rightarrow> s)"

text \<open>The destructor: \<open>stop\<close>, and \<open>join\<close> of every worker, which waits until they have left their loops.\<close>

definition destroy_step :: "nat \<Rightarrow> 't TradePool \<Rightarrow> 't TradePool" where
  "destroy_step num_threads s =
     (case pool_owner s of
        PoolUsed \<Rightarrow> s\<lparr>task_queue := cq_stop (task_queue s), pool_owner := StopCalled\<rparr>
      | StopCalled \<Rightarrow> if \<forall>i<num_threads. pool_workers s i = WorkerExited then s\<lparr>pool_owner := WorkersJoined\<rparr> else s
      | WorkersJoined \<Rightarrow> s)"

inductive trade_step :: "('t \<Rightarrow> task_end) \<Rightarrow> nat \<Rightarrow> 't TradePool \<Rightarrow> 't TradePool \<Rightarrow> bool" for outcome num_threads where
  enqueue: "\<not> pool_crashed s \<Longrightarrow> trade_step outcome num_threads s (trade_enqueue task s)"
| worker: "\<not> pool_crashed s \<Longrightarrow> i < num_threads \<Longrightarrow> trade_step outcome num_threads s (trade_worker outcome i s)"
| destroy: "\<not> pool_crashed s \<Longrightarrow> trade_step outcome num_threads s (destroy_step num_threads s)"

abbreviation trade_steps :: "('t \<Rightarrow> task_end) \<Rightarrow> nat \<Rightarrow> 't TradePool \<Rightarrow> 't TradePool \<Rightarrow> bool" where
  "trade_steps outcome num_threads \<equiv> (trade_step outcome num_threads)\<^sup>*\<^sup>*"

section \<open>Invariant\<close>

fun task_of :: "'t trade_worker_pc \<Rightarrow> 't multiset" where
  "task_of (RunsTask t) = {#t#}"
| "task_of _ = {#}"

definition running_tasks :: "nat \<Rightarrow> 't TradePool \<Rightarrow> 't multiset" where
  "running_tasks n s = (\<Sum>i<n. task_of (pool_workers s i))"

lemma running_upd:
  assumes "i < n" "pool_workers s' = (pool_workers s)(i := p)"
  shows "running_tasks n s' + task_of (pool_workers s i) = running_tasks n s + task_of p"
proof -
  have fin: "finite {..<n}" "i \<in> {..<n}" using assms(1) by simp_all
  have "(\<Sum>j\<in>{..<n} - {i}. task_of (pool_workers s' j)) = (\<Sum>j\<in>{..<n} - {i}. task_of (pool_workers s j))"
    using assms(2) by (intro sum.cong) auto
  then show ?thesis using assms(2) by (simp add: running_tasks_def sum.remove [OF fin])
qed

definition trade_inv :: "nat \<Rightarrow> 't TradePool \<Rightarrow> bool" where
  "trade_inv n s \<longleftrightarrow> pool_accepted s = pool_started s @ cq_queue (task_queue s)
     \<and> mset (pool_started s) = mset (pool_finished s) + running_tasks n s
     \<and> (pool_owner s = PoolUsed \<longleftrightarrow> cq_running (task_queue s))
     \<and> (pool_owner s = WorkersJoined \<longrightarrow> (\<forall>i<n. pool_workers s i = WorkerExited))"

lemma trade_inv_worker:
  assumes inv: "trade_inv n s" and i: "i < n"
  shows "trade_inv n (trade_worker outcome i s)"
proof (cases "pool_workers s i")
  case TestsRunning
  then have "pool_owner s \<noteq> WorkersJoined" using inv i by (auto simp: trade_inv_def)
  then show ?thesis using inv TestsRunning running_upd [OF i, of "trade_worker outcome i s" s]
    by (auto simp: trade_inv_def trade_worker_def)
next
  case InPop
  then have w: "pool_owner s \<noteq> WorkersJoined" using inv i by (auto simp: trade_inv_def)
  show ?thesis
  proof (cases "cq_pop (-1) (task_queue s)")
    case Waits
    then show ?thesis using inv InPop by (simp add: trade_worker_def)
  next
    case Fails
    then show ?thesis using inv InPop w running_upd [OF i, of "trade_worker outcome i s" s TestsRunning]
      by (auto simp: trade_inv_def trade_worker_def)
  next
    case (Item t q)
    then have q: "cq_queue (task_queue s) = t # cq_queue q" "cq_running q = cq_running (task_queue s)"
      by (auto simp: cq_pop_def split: if_splits)
    have "running_tasks n (trade_worker outcome i s) = running_tasks n s + {#t#}"
      using running_upd [OF i, of "trade_worker outcome i s" s "RunsTask t"] InPop Item by (simp add: trade_worker_def)
    then show ?thesis using inv InPop Item w q by (auto simp: trade_inv_def trade_worker_def)
  qed
next
  case (RunsTask t)
  then have w: "pool_owner s \<noteq> WorkersJoined" using inv i by (auto simp: trade_inv_def)
  show ?thesis
  proof (cases "outcome t = ThrowsOther")
    case True
    then show ?thesis using inv RunsTask by (simp add: trade_worker_def trade_inv_def running_tasks_def)
  next
    case False
    then have e: "trade_worker outcome i s = s\<lparr>pool_workers := (pool_workers s)(i := TestsRunning), pool_finished := pool_finished s @ [t]\<rparr>"
      using RunsTask by (cases "outcome t") (simp_all add: trade_worker_def)
    then have "running_tasks n (trade_worker outcome i s) + {#t#} = running_tasks n s"
      using running_upd [OF i, of "trade_worker outcome i s" s TestsRunning] RunsTask by simp
    then show ?thesis using inv w by (auto simp: trade_inv_def e)
  qed
next
  case WorkerExited
  then show ?thesis using inv by (simp add: trade_worker_def)
qed

lemma trade_inv_step: "trade_step outcome n s s' \<Longrightarrow> trade_inv n s \<Longrightarrow> trade_inv n s'"
proof (induction rule: trade_step.induct)
  case (enqueue s task)
  then show ?case by (auto simp: trade_inv_def trade_enqueue_def cq_push_def running_tasks_def)
next
  case (worker s i)
  then show ?case by (simp add: trade_inv_worker)
next
  case (destroy s)
  then show ?case by (auto simp: trade_inv_def destroy_step_def cq_stop_def running_tasks_def split: pool_owner.split)
qed

lemma trade_inv_steps: "trade_steps outcome n s s' \<Longrightarrow> trade_inv n s \<Longrightarrow> trade_inv n s'"
  by (induction rule: rtranclp_induct) (auto intro: trade_inv_step)

lemma trade_inv_new: "trade_inv n TradePool_new"
  by (simp add: trade_inv_def TradePool_new_def ConcurrentQueue_new_def running_tasks_def)

text \<open>Once the queue is stopped, it stays as it is.\<close>

lemma stopped_step:
  "trade_step outcome n s s' \<Longrightarrow> \<not> cq_running (task_queue s) \<Longrightarrow>
     task_queue s' = task_queue s \<and> pool_started s' = pool_started s \<and> pool_accepted s' = pool_accepted s"
proof (induction rule: trade_step.induct)
  case (worker s i)
  then show ?case
    by (auto simp: trade_worker_def cq_pop_def split: trade_worker_pc.split task_end.split)
qed (auto simp: trade_enqueue_def cq_push_def destroy_step_def cq_stop_def split: pool_owner.split)

lemma stopped_steps:
  "trade_steps outcome n s s' \<Longrightarrow> \<not> cq_running (task_queue s) \<Longrightarrow>
     task_queue s' = task_queue s \<and> pool_started s' = pool_started s \<and> pool_accepted s' = pool_accepted s"
  by (induction rule: rtranclp_induct) (auto dest: stopped_step)

section \<open>Properties\<close>

text \<open>
  In every interleaving, the tasks started are the first ones that \<open>enqueue\<close> accepted, in order and each once,
  and each of them is finished or being run by exactly one worker; once the destructor has joined the workers all
  that were started are finished.
\<close>

theorem trade_pool_exact:
  assumes "trade_steps outcome n TradePool_new s"
  shows "pool_accepted s = pool_started s @ cq_queue (task_queue s)
    \<and> mset (pool_started s) = mset (pool_finished s) + (\<Sum>i<n. task_of (pool_workers s i))
    \<and> (pool_owner s = WorkersJoined \<longrightarrow> mset (pool_finished s) = mset (pool_started s))"
proof -
  have inv: "trade_inv n s" by (rule trade_inv_steps [OF assms trade_inv_new])
  have "running_tasks n s = {#}" if "pool_owner s = WorkersJoined"
    using inv that by (simp add: trade_inv_def running_tasks_def)
  then show ?thesis using inv by (auto simp: trade_inv_def running_tasks_def)
qed

text \<open>
  Stopping drops work: tasks that are queued when the destructor begins are never started, whatever the
  workers do, although the destructor waits for the workers to finish.
\<close>

theorem trade_pool_drops:
  assumes "trade_steps outcome n TradePool_new s" "pool_owner s \<noteq> PoolUsed" "trade_steps outcome n s t"
  shows "cq_queue (task_queue t) = cq_queue (task_queue s) \<and> pool_started t = pool_started s"
  using trade_inv_steps [OF assms(1) trade_inv_new] stopped_steps [OF assms(3)] assms(2) by (simp add: trade_inv_def)

text \<open>Two tasks for one worker; the destructor begins while the first one runs.\<close>

definition two_tasks :: "nat TradePool" where
  "two_tasks = trade_worker (\<lambda>_. Ends) 0 (trade_worker (\<lambda>_. Ends) 0 (trade_enqueue 8 (trade_enqueue 7 TradePool_new)))"

definition two_tasks_stopped :: "nat TradePool" where
  "two_tasks_stopped = destroy_step 1 two_tasks"

definition two_tasks_joined :: "nat TradePool" where
  "two_tasks_joined = destroy_step 1 (trade_worker (\<lambda>_. Ends) 0 (trade_worker (\<lambda>_. Ends) 0 two_tasks_stopped))"

lemmas two_tasks_defs = two_tasks_def two_tasks_stopped_def two_tasks_joined_def trade_enqueue_def trade_worker_def
  destroy_step_def TradePool_new_def ConcurrentQueue_new_def cq_push_def cq_pop_def cq_stop_def

lemma two_tasks_steps:
  "trade_steps (\<lambda>_. Ends) 1 TradePool_new two_tasks_stopped" "trade_steps (\<lambda>_. Ends) 1 two_tasks_stopped two_tasks_joined"
proof -
  have one: "\<not> pool_crashed s \<Longrightarrow> trade_steps (\<lambda>_. Ends) 1 r s \<Longrightarrow> trade_steps (\<lambda>_. Ends) 1 r (trade_enqueue x s)"
    "\<not> pool_crashed s \<Longrightarrow> trade_steps (\<lambda>_. Ends) 1 r s \<Longrightarrow> trade_steps (\<lambda>_. Ends) 1 r (trade_worker (\<lambda>_. Ends) 0 s)"
    "\<not> pool_crashed s \<Longrightarrow> trade_steps (\<lambda>_. Ends) 1 r s \<Longrightarrow> trade_steps (\<lambda>_. Ends) 1 r (destroy_step 1 s)" for r s :: "nat TradePool" and x
    by (auto intro: rtranclp.rtrancl_into_rtrancl trade_step.intros)
  show "trade_steps (\<lambda>_. Ends) 1 TradePool_new two_tasks_stopped"
    unfolding two_tasks_stopped_def two_tasks_def by (intro one rtranclp.rtrancl_refl) (simp_all add: two_tasks_defs)
  show "trade_steps (\<lambda>_. Ends) 1 two_tasks_stopped two_tasks_joined"
    unfolding two_tasks_joined_def by (intro one rtranclp.rtrancl_refl) (simp_all add: two_tasks_defs)
qed

theorem trade_pool_exact_witness:
  "pool_owner two_tasks_joined = WorkersJoined \<and> pool_accepted two_tasks_joined = [7, 8] \<and> mset (pool_finished two_tasks_joined) = {#7#}"
proof -
  have "trade_steps (\<lambda>_. Ends) 1 TradePool_new two_tasks_joined" using two_tasks_steps by (rule rtranclp_trans)
  note exact = trade_pool_exact [OF this]
  have f: "pool_owner two_tasks_joined = WorkersJoined" "pool_accepted two_tasks_joined = [7, 8]" "pool_started two_tasks_joined = [7]"
    by (simp_all add: two_tasks_defs)
  from exact f(1) have "mset (pool_finished two_tasks_joined) = mset (pool_started two_tasks_joined)" by blast
  with f show ?thesis by simp
qed

theorem trade_pool_drops_witness:
  "cq_queue (task_queue two_tasks_joined) = [8] \<and> pool_started two_tasks_joined = [7]"
proof -
  have "pool_owner two_tasks_stopped \<noteq> PoolUsed" "cq_queue (task_queue two_tasks_stopped) = [8]" "pool_started two_tasks_stopped = [7]"
    by (simp_all add: two_tasks_defs)
  from trade_pool_drops [OF two_tasks_steps(1) this(1) two_tasks_steps(2)] this(2,3) show ?thesis by (metis (no_types))
qed

end
