(* ===== verification/Spec2Isabelle.thy ===== *)
theory Spec2Isabelle
  imports Ring_Queues Matching Tcp_Server Main_Reactor Server_Parts Spin_Handover Mpsc_Ring Mpsc_Queues Market_Feed Packet_Pool Thread_Pools Pipeline Loop_Wakeup
    Echo_Server Trading_Life Fix42_Threads Fix_Message Fix_Encoder
    Fix_Parser Fix_Buffer_Parser Fix_Session Fix_Interop Reactor_Life Example_Clients Latency_Client Cube_Server Ring_Tests Trade_Pool
begin

text \<open>
  Verification of the repository: a call-auction order book (src/obr), two reactor-style TCP
  libraries (src/muduo/server.hpp, and src/muduo/src with src/muduo/include), and the FIX 4.2
  clients, parsers and lock-free queues of a trading client (src/ihs).  The definitions follow the
  C++ code function by function and keep its names; a definition that a function consists of is
  named after the part it stands for.

  \<^bold>\<open>Conventions.\<close>  \<open>Prelude\<close> holds the shared types.  A routine that can leave abnormally returns
  \<open>fault + 'a\<close>: a failed assertion or abort, an access outside an object (also a null or dangling
  pointer), a refused allocation, or an exception.  \<open>size_t\<close> is a natural number with its
  arithmetic modulo \<open>2 ^ 64\<close> written out where the code computes sizes, and a word where the code
  counts or masks.  Results of system calls, clock readings, the order in which a hash map is
  visited, and application callbacks are arguments of the definitions; theorems quantify over them.
  Signed overflow has no meaning in C++, so signed quantities for which the code has no check are
  integers.

  \<^bold>\<open>Order book (obr/src/full_order.cpp).\<close>  \<open>Ordered_Map\<close> models \<open>std::map\<close> with its iterators,
  \<open>Order_Book\<close> the book and \<open>insertOrder\<close>, \<open>Auction\<close> the price search of \<open>flushStatus\<close>, and
  \<open>Matching\<close> the trade count together with price-time-priority matching as the abstract
  specification.  Proved: \<open>insertOrder\<close> keeps the book well formed; on a crossed book the reported
  price is admissible with the largest executable volume and then the smallest imbalance; the
  reported trade count is that of the matching.

  \<^bold>\<open>Byte buffers.\<close>  \<open>Byte_Stream\<close> is the contract of a growing buffer as a locale; \<open>Byte_Buffers\<close>
  has \<open>Buffer\<close> of server.hpp and \<open>SimpleBuffer\<close> of muduo/include and interprets the locale for
  both.  What is read is what was written, and the only fault is a refused allocation.

  \<^bold>\<open>First TCP library (muduo/server.hpp).\<close>  \<open>Timer_Wheel\<close> (the one-minute wheel), \<open>Reactor\<close>
  (\<open>Channel\<close>, \<open>Epoller\<close>, the task queue, \<open>LoopThreadPool\<close>), \<open>Connection\<close> (\<open>Connection\<close> and
  \<open>Socket\<close>), \<open>Tcp_Server\<close> (\<open>Acceptor\<close>, \<open>TcpServer\<close>), \<open>Server_Parts\<close> (\<open>Any\<close> on an explicit heap,
  \<open>Loopthread\<close>, the creation of sockets), \<open>Loop_Wakeup\<close> (\<open>EventLoop::Run\<close>, the task queue and the eventfd
  instruction by instruction with any number of threads).  Proved: timers fire at their slot, refresh
  and cancel; the epoll table agrees with the kernel; the output of a connection is exact; tasks are executed
  once each in order and no wake-up is lost; \<open>Any\<close> has value semantics; the loop is handed over only
  when it exists; and the defects found: a connection released twice in one dispatch, a server option that is
  set too late, descriptors that stay open after an error.

  \<^bold>\<open>Second TCP library (muduo/src, muduo/include).\<close> \<open>Sub_Timers\<close> has the timers of \<open>SubReactor\<close>, \<open>Sub_Reactor\<close>
  its connections, queues and event handlers with \<open>Connection\<close>, \<open>Reactor\<close> and \<open>Epoll\<close>, \<open>Main_Reactor\<close> the
  accepting reactor and the loop, \<open>Spin_Handover\<close> the spinlock and the hand-over of descriptors between
  threads, \<open>Reactor_Life\<close> the start, stop and join of a reactor's thread.  \<open>Sub_Reactor\<close> treats an
  operation under a lock as one step; \<open>Spin_Handover\<close> justifies this by running the lock, the vector and
  the pipe instruction by instruction in every interleaving, under sequential consistency.  The locale
  \<open>reactor_invariant\<close> says when a property of the state survives every handler whatever the application
  does; \<open>callback_invariant\<close> of \<open>Cube_Server\<close> is its counterpart for one application.  The former is interpreted
  for the well-formedness of the connections and for the wake-up protocol of the pipe.  Proved: exact
  output, mutual exclusion, no lost descriptor, no lost wake-up, progress, in-range dispatch, sorted
  timers that fire in order; and the defects found: a lost timer wake-up, merged periodic timers,
  stalled output, a partly accepted burst, an end of stream that is missed, and a null connection
  after a close inside a callback.

  \<^bold>\<open>Ring queues (ihs/include/lq.hpp, q.hpp, kk.hpp, lock_queue.hpp and the queues inside ihs/src).\<close>
  \<open>Queue_Interface\<close> is a locale for a bounded queue with a representation invariant and an abstraction
  to a list; \<open>Ring_Queues\<close> interprets it for every single-producer ring of the repository.  Each is a
  FIFO queue of its stated capacity for every sequence of operations, also across the wrap-around of
  its counters, except for the one with plain counters.  \<open>Mpsc_Ring\<close> runs the producers and the consumer
  of \<open>MPSCRingBuffer\<close> access by access in every interleaving: every item is delivered once and in ticket
  order.  \<open>Ring_Tests\<close> runs the test programs of kk.hpp as clients of both, the first through the locale
  \<open>int_queue\<close>: they pass in every schedule, but for the range of their \<open>int\<close> sums.  \<open>Mpsc_Queues\<close> has the
  two \<open>MPSCQueue\<close> classes: the cached head changes nothing for one producer, and with two producers an
  item can be lost.

  \<^bold>\<open>FIX (ihs/src).\<close>  \<open>Fix_Text\<close> is the text library: decimal numbers, fields and separators (the
  locale \<open>field_separator\<close>, interpreted for SOH and for the bar), checksums.  \<open>Fix42\<close> models
  fix42.cpp; \<open>Fix42_Wire\<close> proves the round trips and \<open>Fix42_Session\<close> the session (sequence numbers,
  a receive loop that never delivers a message, an abort on reconnect).  \<open>Fix_Message\<close> has
  fix42_b.cpp, \<open>Fix_Encoder\<close> encoder.cpp, \<open>Fix_Parser\<close> and \<open>Fix_Buffer_Parser\<close> the two classes of
  parser.cpp, \<open>Fix_Session\<close> fix42_a.cpp with its threads as an inductive step relation.  \<open>Fix_Interop\<close> puts
  them together: what each parser makes of the messages that \<open>serialize\<close> and \<open>FixEncoder\<close> write.

  \<^bold>\<open>Example server and trading system.\<close> \<open>Cube_Codec\<close> has the message format of muduo/protocol.hpp and of
  the example server, proves that decoding undoes encoding, and that the server's loop always returns
  and answers exactly what a parser of the whole stream finds.  \<open>Trading_System\<close> has the queue, the
  algorithm and the trader of ihs/src/trade.cpp; waiting and stopping are modelled instruction by
  instruction.  \<open>Trading_Life\<close> has the start, stop and destruction of its modules: one run ends cleanly,
  a second start does nothing, a session is leaked.  \<open>Trade_Pool\<close> is its thread pool: tasks run once
  each, but those queued at the end are dropped.  \<open>Echo_Server\<close> has the client loop of
  muduo/echo_server.cpp with its uninitialised array.  \<open>Example_Clients\<close> has the clients of both
  servers, run against them: the example's client gets its payload back, the echo client cannot tell a
  server from none.  \<open>Cube_Server\<close> runs the example's server as the application of a \<open>SubReactor\<close>: the
  composition of the two is exact for the merged stream of all clients, which is also its defect.
  \<open>Latency_Client\<close> has the measuring loop and the statistics of example/client.cpp.

  \<^bold>\<open>Feed tools, pools and the pipeline (ihs/src).\<close>  \<open>Word_Bytes\<close> has integers in byte order and length-prefixed
  frames.  \<open>Market_Feed\<close> models ana.cpp, analyze.cpp and main.cpp: packets are processed in sequence, a gap ends
  the program, the two decoders agree, and where analyze.cpp leaves its buffer.  \<open>Packet_Pool\<close> models what.cpp:
  buffers are never shared or lost and the dispatch loop ends.  \<open>Thread_Pools\<close> has the pool of system.cpp with
  its mutex and condition variable, and that of my.cpp.  \<open>Pipeline\<close> has the receiver, parsers, algorithm, trader
  and monitor of system.cpp: no order is ever generated from its simulated data.

  \<^bold>\<open>Loops.\<close>  Every loop is a terminating recursion, over the data or over the list of system call
  results it consumes, except \<open>process_buffer\<close> of \<open>Fix_Parser\<close> and \<open>onMessage_loop\<close> of \<open>Cube_Codec\<close>, which
  are \<open>partial_function\<close>s.  The first returns on well-formed input and does not return on one
  malformed length; the second always returns; both are proved.
  No definition uses fuel.

  \<^bold>\<open>Not modelled.\<close>  Log output, thread creation where no theorem depends on it, CPU affinity, shared memory
  mapping and signal setup, which are system calls without state of the program's own.  The reconstructor of src/obr
  only prints.  ihs/src/buffer.cpp is one comment, and so is most of encoder.cpp, parser.cpp and the example's
  main.cpp after its client.  The \<open>main\<close> functions that only call what is modelled are left out, as are the setters of
  \<open>TcpServer\<close>.  Doubles are parameters.  Threads interleave under sequential
  consistency; weaker memory orders are not modelled.
\<close>

end
